(* ===== verification/Prelude.thy ===== *)
theory Prelude
  imports Main "HOL-Library.Word" "HOL-Library.Multiset"
begin

text \<open>
  Shared vocabulary of the development: the machine integers of the sources as words, the ways a
  C or C++ execution can go wrong as a datatype of faults, sequencing of fallible steps, decimal
  printing, and the generic lemmas on lists and words the component theories rest on.
\<close>

section \<open>Types\<close>

type_synonym u32 = "32 word"
type_synonym size_t = "64 word"
type_synonym addr = nat

text \<open>
  Undefined behaviour of the source is a value: a step that would dereference a null pointer,
  touch a freed object, free twice, index out of range, overflow a signed integer, wait for a mutex it holds itself or read an
  uninitialised object returns the fault on the left of a sum.
\<close>

datatype fault = NullDeref | UseAfterFree | DoubleFree | OutOfBounds | SignedOverflow | UninitRead | Deadlock

named_theorems res_simps \<open>rewriting of sequenced fallible steps\<close>
named_theorems lru_simps \<open>rewriting of the node heap of the LRU storage\<close>

section \<open>Sequencing fallible steps\<close>

fun rbind :: "'e + 'a \<Rightarrow> ('a \<Rightarrow> 'e + 'b) \<Rightarrow> 'e + 'b" where
  "rbind (Inl e) f = Inl e"
| "rbind (Inr x) f = f x"

lemma rbind_cong [fundef_cong]:
  "m = m' \<Longrightarrow> (\<And>x. m' = Inr x \<Longrightarrow> f x = f' x) \<Longrightarrow> rbind m f = rbind m' f'"
  by (cases m') auto

lemma rbind_Inr_iff [res_simps]: "rbind m f = Inr y \<longleftrightarrow> (\<exists>x. m = Inr x \<and> f x = Inr y)"
  by (cases m) auto

lemma rbind_Inl_iff: "rbind m f = Inl e \<longleftrightarrow> m = Inl e \<or> (\<exists>x. m = Inr x \<and> f x = Inl e)"
  by (cases m) auto

lemma rbind_assoc [simp]: "rbind (rbind m f) g = rbind m (\<lambda>x. rbind (f x) g)"
  by (cases m) auto

lemma rbind_Inr_right [simp]: "rbind m Inr = m"
  by (cases m) auto

lemma map_sum_Inr_iff: "map_sum id g m = Inr y \<longleftrightarrow> (\<exists>x. m = Inr x \<and> g x = y)"
  by (cases m) auto

lemma map_sum_Inl_iff: "map_sum id g m = Inl e \<longleftrightarrow> m = Inl e"
  by (cases m) auto

section \<open>Lists\<close>

lemma last_Cons_append [simp]: "last (x # xs @ [y]) = y"
  by simp

lemma butlast_snoc_split: "xs \<noteq> [] \<Longrightarrow> \<exists>ys y. xs = ys @ [y]"
  by (metis append_butlast_last_id)

lemma filter_id_if: "(\<And>x. x \<in> set xs \<Longrightarrow> P x) \<Longrightarrow> filter P xs = xs"
  by (induction xs) auto

section \<open>Sizes of strings as machine words\<close>

definition str_size :: "string \<Rightarrow> size_t" where
  "str_size s = of_nat (length s)"

section \<open>Decimal digits\<close>

definition digit_char :: "nat \<Rightarrow> char" where
  "digit_char d = char_of (48 + d)"

fun show_nat :: "nat \<Rightarrow> string" where
  "show_nat n = (if n < 10 then [digit_char n] else show_nat (n div 10) @ [digit_char (n mod 10)])"

declare show_nat.simps [simp del]

definition is_digit :: "char \<Rightarrow> bool" where
  "is_digit c \<longleftrightarrow> (48::nat) \<le> of_char c \<and> of_char c \<le> (57::nat)"

definition digit_val :: "char \<Rightarrow> nat" where
  "digit_val c = of_char c - 48"

lemma of_char_digit_char: "d < 10 \<Longrightarrow> of_char (digit_char d) = 48 + d"
  by (simp add: digit_char_def)

lemma is_digit_digit_char [simp]: "d < 10 \<Longrightarrow> is_digit (digit_char d)"
  by (simp add: is_digit_def of_char_digit_char)

lemma digit_val_digit_char [simp]: "d < 10 \<Longrightarrow> digit_val (digit_char d) = d"
  by (simp add: digit_val_def of_char_digit_char)

text \<open>The value of a digit string, read from the left as the parsers of the sources read it.\<close>

fun dec_val :: "nat \<Rightarrow> string \<Rightarrow> nat" where
  "dec_val acc [] = acc"
| "dec_val acc (c # cs) = dec_val (acc * 10 + digit_val c) cs"

lemma dec_val_append: "dec_val acc (xs @ ys) = dec_val (dec_val acc xs) ys"
  by (induction xs arbitrary: acc) auto

lemma dec_val_mono: "acc \<le> dec_val acc ds"
proof (induction ds arbitrary: acc)
  case (Cons d ds)
  have "acc \<le> acc * 10 + digit_val d" by simp
  also have "\<dots> \<le> dec_val (acc * 10 + digit_val d) ds" by (rule Cons)
  finally show ?case by simp
qed simp

lemma show_nat_digits: "list_all is_digit (show_nat n)"
proof (induction n rule: show_nat.induct)
  case (1 n)
  then show ?case by (subst show_nat.simps) (auto simp: list_all_iff)
qed

lemma dec_val_show_nat: "dec_val 0 (show_nat n) = n"
proof (induction n rule: show_nat.induct)
  case (1 n)
  then show ?case
    by (subst show_nat.simps) (auto simp: dec_val_append)
qed

lemma show_nat_nonempty [simp]: "show_nat n \<noteq> []"
  by (subst show_nat.simps) simp

lemma digit_not_special:
  "is_digit c \<Longrightarrow> c \<noteq> CHR '' ''" "is_digit c \<Longrightarrow> c \<noteq> CHR ''-''"
  "is_digit c \<Longrightarrow> c \<noteq> CHR 0x0D" "is_digit c \<Longrightarrow> c \<noteq> CHR 0x0A"
  by (auto simp: is_digit_def)

section \<open>Counting\<close>

text \<open>The number of threads, or objects, with a property when one of them changes.\<close>

lemma card_fun_upd:
  assumes "finite {k. P (f k)}"
  shows "finite {k. P ((f(i := x)) k)} \<and> int (card {k. P ((f(i := x)) k)}) = int (card {k. P (f k)}) + of_bool (P x) - of_bool (P (f i))"
proof -
  have *: "{k. P ((f(i := x)) k)} = (if P x then insert i ({k. P (f k)} - {i}) else {k. P (f k)} - {i})" by auto
  have "card {k. P (f k)} > 0" if "P (f i)" using assms that by (auto simp: card_gt_0_iff)
  moreover have "insert i {k. P (f k)} = {k. P (f k)}" if "P (f i)" using that by auto
  ultimately show ?thesis using assms unfolding * by (auto simp: card_Diff_singleton_if of_nat_diff)
qed

end
