(* ===== verification/Command_Types.thy ===== *)
theory Command_Types
  imports Prelude
begin

text \<open>
  The command objects of \<^verbatim>\<open>src/sysprog/afina/include/afina/execute\<close>: what the protocol parser builds and the
  network layer executes.
\<close>

record insert_command =
  ic_key :: string
  ic_flags :: u32
  ic_expire :: int

datatype command =
    Cmd_Set insert_command
  | Cmd_Add insert_command
  | Cmd_Append insert_command
  | Cmd_Replace insert_command
  | Cmd_Get "string list"
  | Cmd_Stats

definition crlf :: string where
  "crlf = [CHR 0x0D, CHR 0x0A]"

end
