(* ===== verification/Simple_LRU.thy ===== *)
theory Simple_LRU
  imports Prelude
begin

text \<open>
  The LRU storage of \<^verbatim>\<open>src/sysprog/afina/src/storage/SimpleLRU.{h,cpp}\<close>, at the level of its nodes and
  pointers. Nodes live in an explicit heap (a list of cells: an allocated node or a freed cell), an
  owning \<^verbatim>\<open>unique_ptr\<close> and a raw pointer are both optional addresses, and every dereference, swap and
  delete of the source is a fallible step. The index is a partial map from keys to node addresses.
\<close>

section \<open>State\<close>

record lru_node =
  node_key :: string
  node_value :: string
  node_next :: "addr option"
  node_prev :: "addr option"

record lru =
  max_size :: size_t
  current_size :: size_t
  lru_head :: "addr option"
  lru_tail :: "addr option"
  lru_index :: "string \<rightharpoonup> addr"
  lru_heap :: "lru_node option list"

definition SimpleLRU :: "size_t \<Rightarrow> lru" where
  "SimpleLRU sz = \<lparr>max_size = sz, current_size = 0, lru_head = None, lru_tail = None,
     lru_index = Map.empty, lru_heap = []\<rparr>"

section \<open>Pointers and cells\<close>

definition cell :: "lru_node option list \<Rightarrow> addr \<Rightarrow> lru_node option" where
  "cell h a = (if a < length h then h ! a else None)"

definition live_count :: "lru_node option list \<Rightarrow> nat" where
  "live_count h = length (filter (\<lambda>c. c \<noteq> None) h)"

fun deref :: "lru \<Rightarrow> addr option \<Rightarrow> fault + lru_node" where
  "deref s None = Inl NullDeref"
| "deref s (Some a) = (case cell (lru_heap s) a of None \<Rightarrow> Inl UseAfterFree | Some n \<Rightarrow> Inr n)"

fun write_node :: "lru \<Rightarrow> addr option \<Rightarrow> (lru_node \<Rightarrow> lru_node) \<Rightarrow> fault + lru" where
  "write_node s None f = Inl NullDeref"
| "write_node s (Some a) f =
     (case cell (lru_heap s) a of None \<Rightarrow> Inl UseAfterFree
      | Some n \<Rightarrow> Inr (s\<lparr>lru_heap := (lru_heap s)[a := Some (f n)]\<rparr>))"

definition set_prev :: "lru \<Rightarrow> addr option \<Rightarrow> addr option \<Rightarrow> fault + lru" where
  "set_prev s p q = write_node s p (\<lambda>n. n\<lparr>node_prev := q\<rparr>)"

definition set_next :: "lru \<Rightarrow> addr option \<Rightarrow> addr option \<Rightarrow> fault + lru" where
  "set_next s p q = write_node s p (\<lambda>n. n\<lparr>node_next := q\<rparr>)"

text \<open>\<open>p->next.swap(q->next)\<close> and \<open>_lru_head.swap(p->next)\<close>: both owners are exchanged.\<close>

definition swap_next :: "lru \<Rightarrow> addr option \<Rightarrow> addr option \<Rightarrow> fault + lru" where
  "swap_next s p q =
     rbind (deref s p) (\<lambda>np. rbind (deref s q) (\<lambda>nq.
     rbind (set_next s p (node_next nq)) (\<lambda>s1. set_next s1 q (node_next np))))"

definition swap_head_next :: "lru \<Rightarrow> addr option \<Rightarrow> fault + lru" where
  "swap_head_next s p =
     rbind (deref s p) (\<lambda>n. rbind (set_next s p (lru_head s)) (\<lambda>s1.
     Inr (s1\<lparr>lru_head := node_next n\<rparr>)))"

text \<open>
  Destroying a \<open>unique_ptr<lru_node>\<close>: the node is deleted and its own \<open>next\<close> with it. A pointer to
  a cell that has been freed already is a double free.
\<close>

lemma live_count_free: "cell h a = Some n \<Longrightarrow> Suc (live_count (h[a := None])) = live_count h"
proof -
  assume "cell h a = Some n"
  then have a: "a < length h" and ha: "h ! a = Some n"
    by (auto simp: cell_def split: if_splits)
  obtain us vs where h: "h = us @ Some n # vs" and l: "length us = a"
    using id_take_nth_drop [OF a] ha a by (metis length_take min.absorb4)
  then have "h[a := None] = us @ None # vs" by auto
  then show ?thesis using h by (simp add: live_count_def)
qed

function destroy :: "lru_node option list \<Rightarrow> addr option \<Rightarrow> fault + lru_node option list" where
  "destroy h None = Inr h"
| "destroy h (Some a) =
     (case cell h a of None \<Rightarrow> Inl DoubleFree | Some n \<Rightarrow> destroy (h[a := None]) (node_next n))"
  by pat_completeness auto
termination
  by (relation "measure (\<lambda>(h, p). live_count h)") (auto dest: live_count_free)

definition delete_node :: "lru \<Rightarrow> addr option \<Rightarrow> fault + lru" where
  "delete_node s p = rbind (destroy (lru_heap s) p) (\<lambda>h. Inr (s\<lparr>lru_heap := h\<rparr>))"

definition reset_next :: "lru \<Rightarrow> addr option \<Rightarrow> fault + lru" where
  "reset_next s p = rbind (deref s p) (\<lambda>n. rbind (set_next s p None) (\<lambda>s1. delete_node s1 (node_next n)))"

section \<open>Private operations\<close>

definition remove_node :: "lru \<Rightarrow> addr \<Rightarrow> fault + lru" where
  "remove_node s0 a =
     rbind (deref s0 (Some a)) (\<lambda>n.
     let s1 = s0\<lparr>lru_index := (lru_index s0)(node_key n := None)\<rparr> in
     rbind (deref s1 (lru_tail s1)) (\<lambda>t.
     let s = s1\<lparr>current_size := current_size s1 - (str_size (node_key t) + str_size (node_value t))\<rparr> in
     if lru_head s = Some a then
       let tmp = lru_head s; s2 = s\<lparr>lru_head := None\<rparr> in
       rbind (swap_head_next s2 tmp) (\<lambda>s3.
       rbind (set_prev s3 (lru_head s3) None) (\<lambda>s4.
       delete_node s4 tmp))
     else if lru_tail s = Some a then
       rbind (deref s (lru_tail s)) (\<lambda>t.
       rbind (deref s (node_prev t)) (\<lambda>p.
       let tmp = node_next p in
       rbind (set_next s (node_prev t) None) (\<lambda>s2.
       rbind (deref s2 tmp) (\<lambda>m.
       let s3 = s2\<lparr>lru_tail := node_prev m\<rparr> in
       rbind (reset_next s3 (lru_tail s3)) (\<lambda>s4.
       delete_node s4 tmp)))))
     else
       rbind (deref s (Some a)) (\<lambda>n.
       rbind (deref s (node_prev n)) (\<lambda>p.
       let tmp = node_next p in
       rbind (set_next s (node_prev n) None) (\<lambda>s2.
       rbind (deref s2 tmp) (\<lambda>m.
       rbind (swap_next s2 (node_prev m) tmp) (\<lambda>s3.
       rbind (deref s3 tmp) (\<lambda>m.
       rbind (set_prev s3 (node_next m) (node_prev m)) (\<lambda>s4.
       delete_node s4 tmp)))))))))"

definition move_to_fresh_data :: "lru \<Rightarrow> addr \<Rightarrow> fault + lru" where
  "move_to_fresh_data s a =
     (if lru_tail s = Some a then Inr s
      else rbind
        (if lru_head s = Some a then
           rbind (swap_head_next s (Some a)) (\<lambda>s1. set_prev s1 (lru_head s1) None)
         else
           rbind (deref s (Some a)) (\<lambda>n.
           rbind (set_prev s (node_next n) (node_prev n)) (\<lambda>s1.
           rbind (deref s1 (Some a)) (\<lambda>n.
           swap_next s1 (node_prev n) (Some a)))))
        (\<lambda>s2. rbind (swap_next s2 (lru_tail s2) (Some a)) (\<lambda>s3.
         rbind (set_prev s3 (Some a) (lru_tail s3)) (\<lambda>s4.
         Inr (s4\<lparr>lru_tail := Some a\<rparr>)))))"

text \<open>
  Every successful removal frees at least one cell, so the eviction loops of the source stop: they
  reach their bound or they run into the fault that ends them.
\<close>

lemma live_count_write [simp]:
  "cell h a = Some n \<Longrightarrow> live_count (h[a := Some m]) = live_count h"
proof -
  assume "cell h a = Some n"
  then have a: "a < length h" and ha: "h ! a = Some n"
    by (auto simp: cell_def split: if_splits)
  obtain us vs where h: "h = us @ Some n # vs" and l: "length us = a"
    using id_take_nth_drop [OF a] ha a by (metis length_take min.absorb4)
  then have "h[a := Some m] = us @ Some m # vs" by auto
  then show ?thesis using h by (simp add: live_count_def)
qed

lemma write_node_live: "write_node s p f = Inr s' \<Longrightarrow> live_count (lru_heap s') = live_count (lru_heap s)"
  by (cases p) (auto split: option.splits)

lemma destroy_live_le: "destroy h p = Inr h' \<Longrightarrow> live_count h' \<le> live_count h"
proof (induction h p rule: destroy.induct)
  case (2 h a)
  then show ?case
    by (auto split: option.splits dest: live_count_free)
qed simp

lemma destroy_live_less: "destroy h (Some a) = Inr h' \<Longrightarrow> live_count h' < live_count h"
  by (auto split: option.splits dest!: destroy_live_le live_count_free)

lemma delete_node_live:
  "delete_node s p = Inr s' \<Longrightarrow> live_count (lru_heap s') \<le> live_count (lru_heap s)"
  "delete_node s (Some a) = Inr s' \<Longrightarrow> live_count (lru_heap s') < live_count (lru_heap s)"
  by (auto simp: delete_node_def res_simps dest: destroy_live_le destroy_live_less simp del: destroy.simps)

lemma deref_Inr: "deref s p = Inr n \<longleftrightarrow> (\<exists>a. p = Some a \<and> cell (lru_heap s) a = Some n)"
  by (cases p) (auto split: option.splits)

lemma swap_next_live: "swap_next s p q = Inr s' \<Longrightarrow> live_count (lru_heap s') = live_count (lru_heap s)"
  by (auto simp: swap_next_def set_next_def res_simps dest!: write_node_live)

lemma swap_head_next_live:
  "swap_head_next s p = Inr s' \<Longrightarrow> live_count (lru_heap s') = live_count (lru_heap s)"
  by (auto simp: swap_head_next_def set_next_def res_simps dest!: write_node_live)

lemma reset_next_live: "reset_next s p = Inr s' \<Longrightarrow> live_count (lru_heap s') \<le> live_count (lru_heap s)"
  by (auto simp: reset_next_def set_next_def res_simps dest!: write_node_live delete_node_live(1))

lemma remove_node_live: "remove_node s a = Inr s' \<Longrightarrow> live_count (lru_heap s') < live_count (lru_heap s)"
  unfolding remove_node_def set_prev_def set_next_def Let_def
  by (auto simp: res_simps deref_Inr split: if_splits
      dest!: write_node_live swap_next_live swap_head_next_live reset_next_live delete_node_live(2))

function evict_while :: "(size_t \<Rightarrow> bool) \<Rightarrow> lru \<Rightarrow> fault + lru" where
  "evict_while b s =
     (if b (current_size s) then
        (case lru_head s of None \<Rightarrow> Inl NullDeref
         | Some a \<Rightarrow> (case remove_node s a of Inl e \<Rightarrow> Inl e | Inr s' \<Rightarrow> evict_while b s'))
      else Inr s)"
  by pat_completeness auto
termination
  by (relation "measure (\<lambda>(b, s). live_count (lru_heap s))") (auto dest: remove_node_live)

declare evict_while.simps [simp del]

text \<open>The part of \<open>_insert_new_value\<close> after its eviction loop, which links a fresh node behind the tail.\<close>

definition append_node :: "lru \<Rightarrow> string \<Rightarrow> string \<Rightarrow> fault + lru" where
  "append_node s key value =
     (let new = length (lru_heap s);
         node = \<lparr>node_key = key, node_value = value, node_next = None, node_prev = None\<rparr>;
         s1 = s\<lparr>lru_heap := lru_heap s @ [Some node]\<rparr> in
     rbind
       (if lru_tail s1 \<noteq> None then
          rbind (set_prev s1 (Some new) (lru_tail s1)) (\<lambda>s2.
          rbind (deref s2 (lru_tail s2)) (\<lambda>t.
          rbind (set_next s2 (lru_tail s2) (Some new)) (\<lambda>s3.
          rbind (deref s3 (lru_tail s3)) (\<lambda>t'.
          Inr (s3\<lparr>lru_tail := node_next t'\<rparr>, node_next t)))))
        else Inr (s1\<lparr>lru_tail := Some new, lru_head := Some new\<rparr>, lru_head s1))
       (\<lambda>(s4, new_node). case lru_tail s4 of None \<Rightarrow> Inl NullDeref | Some t \<Rightarrow>
         delete_node
           (s4\<lparr>lru_index := (if lru_index s4 key = None then (lru_index s4)(key \<mapsto> t) else lru_index s4),
             current_size := current_size s4 + (str_size key + str_size value)\<rparr>) new_node))"

definition insert_new_value :: "lru \<Rightarrow> string \<Rightarrow> string \<Rightarrow> fault + lru" where
  "insert_new_value s0 key value =
     rbind (evict_while (\<lambda>cur. cur > max_size s0 - str_size key - str_size value) s0) (\<lambda>s.
     append_node s key value)"

definition update_value :: "lru \<Rightarrow> addr \<Rightarrow> string \<Rightarrow> fault + lru" where
  "update_value s0 a new_value =
     rbind (deref s0 (Some a)) (\<lambda>n.
     let delta_size = str_size new_value - str_size (node_value n) in
     rbind (evict_while (\<lambda>cur. cur + delta_size > max_size s0) s0) (\<lambda>s1.
     rbind (write_node s1 (Some a) (\<lambda>n. n\<lparr>node_value := new_value\<rparr>)) (\<lambda>s2.
     rbind (move_to_fresh_data s2 a) (\<lambda>s3.
     Inr (s3\<lparr>current_size := current_size s3 + delta_size\<rparr>)))))"

section \<open>The Storage interface\<close>

definition lru_Put :: "lru \<Rightarrow> string \<Rightarrow> string \<Rightarrow> fault + bool \<times> lru" where
  "lru_Put s key value =
     (if str_size key + str_size value > max_size s then Inr (False, s)
      else case lru_index s key of
        None \<Rightarrow> rbind (insert_new_value s key value) (\<lambda>s'. Inr (True, s'))
      | Some a \<Rightarrow> rbind (update_value s a value) (\<lambda>s'. Inr (True, s')))"

definition lru_PutIfAbsent :: "lru \<Rightarrow> string \<Rightarrow> string \<Rightarrow> fault + bool \<times> lru" where
  "lru_PutIfAbsent s key value =
     (if str_size key + str_size value > max_size s then Inr (False, s)
      else case lru_index s key of
        None \<Rightarrow> rbind (insert_new_value s key value) (\<lambda>s'. Inr (True, s'))
      | Some a \<Rightarrow> Inr (False, s))"

definition lru_Set :: "lru \<Rightarrow> string \<Rightarrow> string \<Rightarrow> fault + bool \<times> lru" where
  "lru_Set s key value =
     (if str_size value + str_size key > max_size s then Inr (False, s)
      else case lru_index s key of
        Some a \<Rightarrow> rbind (update_value s a value) (\<lambda>s'. Inr (True, s'))
      | None \<Rightarrow> Inr (False, s))"

definition lru_Delete :: "lru \<Rightarrow> string \<Rightarrow> fault + bool \<times> lru" where
  "lru_Delete s key =
     (case lru_index s key of
        None \<Rightarrow> Inr (False, s)
      | Some a \<Rightarrow> rbind (remove_node s a) (\<lambda>s'. Inr (True, s')))"

text \<open>
  \<open>Get\<close> returns its output parameter as an option: \<open>None\<close> is the result \<open>false\<close>, which leaves the
  caller's string as it was.
\<close>

definition lru_Get :: "lru \<Rightarrow> string \<Rightarrow> fault + string option \<times> lru" where
  "lru_Get s key =
     (case lru_index s key of
        None \<Rightarrow> Inr (None, s)
      | Some a \<Rightarrow> rbind (deref s (Some a)) (\<lambda>n.
          rbind (move_to_fresh_data s a) (\<lambda>s'. Inr (Some (node_value n), s'))))"

section \<open>Destructor\<close>

text \<open>
  \<open>~SimpleLRU\<close>: the loop of the destructor detaches the head and lets it die, until one node is left,
  which the final \<open>reset\<close> destroys.
\<close>

function dtor_loop :: "lru \<Rightarrow> fault + lru" where
  "dtor_loop s =
     (case deref s (lru_head s) of Inl e \<Rightarrow> Inl e
      | Inr n \<Rightarrow>
        if node_next n \<noteq> None then
          (case (let tmp = lru_head s in
                 rbind (swap_head_next (s\<lparr>lru_head := None\<rparr>) tmp) (\<lambda>s1. delete_node s1 tmp))
           of Inl e \<Rightarrow> Inl e | Inr s' \<Rightarrow> dtor_loop s')
        else Inr s)"
  by pat_completeness auto
termination
  by (relation "measure (\<lambda>s. live_count (lru_heap s))")
     (auto simp: res_simps deref_Inr Let_def dest!: swap_head_next_live delete_node_live(2))

declare dtor_loop.simps [simp del]

definition lru_destructor :: "lru \<Rightarrow> fault + lru" where
  "lru_destructor s =
     (if lru_head s = None then Inr s
      else rbind (dtor_loop (s\<lparr>lru_index := Map.empty\<rparr>)) (\<lambda>s'.
        delete_node (s'\<lparr>lru_head := None\<rparr>) (lru_head s')))"

end
