(* ===== verification/LRU_Invariant.thy ===== *)
theory LRU_Invariant
  imports Simple_LRU
begin

text \<open>
  The invariant of the LRU storage: the owning \<open>next\<close> pointers from the head and the raw \<open>prev\<close>
  pointers from the tail spell out one doubly linked list of the allocated nodes, the index maps
  every key to its node, and no node is leaked. The abstraction of a state is the list of its
  key/value pairs, the least recently used first, with the two sizes.
\<close>

section \<open>Doubly linked segments\<close>

type_synonym cells = "addr \<rightharpoonup> lru_node"

fun first_of :: "addr list \<Rightarrow> addr option \<Rightarrow> addr option" where
  "first_of [] q = q"
| "first_of (x # xs) q = Some x"

definition last_of :: "addr list \<Rightarrow> addr option \<Rightarrow> addr option" where
  "last_of xs p = (if xs = [] then p else Some (last xs))"

fun dseg :: "cells \<Rightarrow> addr option \<Rightarrow> addr list \<Rightarrow> addr option \<Rightarrow> bool" where
  "dseg m p [] q = True"
| "dseg m p (x # xs) q =
     (case m x of None \<Rightarrow> False
      | Some n \<Rightarrow> node_prev n = p \<and> node_next n = first_of xs q \<and> dseg m (Some x) xs q)"

lemma last_of_simps [simp]:
  "last_of [] p = p" "last_of (xs @ [x]) p = Some x" "last_of [x] p = Some x"
  by (auto simp: last_of_def)

lemma last_of_Cons [simp]: "last_of (x # xs) p = last_of xs (Some x)"
  by (simp add: last_of_def)

lemma last_of_append [simp]: "last_of (xs @ ys) p = last_of ys (last_of xs p)"
  by (simp add: last_of_def)

lemma first_of_append [simp]: "first_of (xs @ ys) q = first_of xs (first_of ys q)"
  by (cases xs) auto

lemma dseg_append: "dseg m p (xs @ ys) q \<longleftrightarrow> dseg m p xs (first_of ys q) \<and> dseg m (last_of xs p) ys q"
  by (induction xs arbitrary: p) (auto split: option.splits)

lemma dseg_upd [simp]: "a \<notin> set xs \<Longrightarrow> dseg (m(a := c)) p xs q = dseg m p xs q"
  by (induction xs arbitrary: p) (auto split: option.splits)

lemma dseg_live: "dseg m p xs q \<Longrightarrow> a \<in> set xs \<Longrightarrow> \<exists>n. m a = Some n"
  by (induction xs arbitrary: p) (auto split: option.splits)

text \<open>Replacing what hangs on the far end of a segment changes only its last node.\<close>

lemma dseg_snoc_next:
  "dseg m p (xs @ [x]) q \<Longrightarrow> x \<notin> set xs \<Longrightarrow> m x = Some n \<Longrightarrow>
   dseg (m(x := Some (n\<lparr>node_next := q'\<rparr>))) p (xs @ [x]) q'"
  by (simp add: dseg_append)

section \<open>Cells\<close>

lemma cell_write: "cell h a = Some n \<Longrightarrow> cell (h[a := c]) = (cell h)(a := c)"
  by (rule ext) (auto simp: cell_def split: if_splits)

lemma cell_snoc: "cell (h @ [c]) = (cell h)(length h := c)"
  by (rule ext) (auto simp: cell_def nth_append)

lemma cell_fresh [simp]: "cell h (length h) = None"
  by (simp add: cell_def)

lemma cell_Some_length: "cell h a = Some n \<Longrightarrow> a < length h"
  by (auto simp: cell_def split: if_splits)

section \<open>The invariant and the abstraction\<close>

definition entry :: "cells \<Rightarrow> addr \<Rightarrow> string \<times> string" where
  "entry m a = (case m a of None \<Rightarrow> ([], []) | Some n \<Rightarrow> (node_key n, node_value n))"

definition lru_wf :: "lru \<Rightarrow> addr list \<Rightarrow> bool" where
  "lru_wf s xs \<longleftrightarrow>
     distinct xs \<and> dseg (cell (lru_heap s)) None xs None \<and>
     dom (cell (lru_heap s)) = set xs \<and>
     lru_head s = first_of xs None \<and> lru_tail s = last_of xs None \<and>
     (\<forall>k a. lru_index s k = Some a \<longleftrightarrow> a \<in> set xs \<and> fst (entry (cell (lru_heap s)) a) = k)"

fun walk :: "nat \<Rightarrow> cells \<Rightarrow> addr option \<Rightarrow> addr list" where
  "walk 0 m p = []"
| "walk (Suc f) m None = []"
| "walk (Suc f) m (Some a) = (case m a of None \<Rightarrow> [] | Some n \<Rightarrow> a # walk f m (node_next n))"

definition lru_chain :: "lru \<Rightarrow> addr list" where
  "lru_chain s = walk (length (lru_heap s)) (cell (lru_heap s)) (lru_head s)"

definition lru_inv :: "lru \<Rightarrow> bool" where
  "lru_inv s \<longleftrightarrow> lru_wf s (lru_chain s)"

record alru =
  a_max :: size_t
  a_cur :: size_t
  a_entries :: "(string \<times> string) list"

definition lru_abs :: "lru \<Rightarrow> alru" where
  "lru_abs s = \<lparr>a_max = max_size s, a_cur = current_size s,
     a_entries = map (entry (cell (lru_heap s))) (lru_chain s)\<rparr>"

lemma walk_dseg: "dseg m p xs None \<Longrightarrow> length xs \<le> f \<Longrightarrow> walk f m (first_of xs None) = xs"
proof (induction xs arbitrary: p f)
  case Nil
  then show ?case by (cases f) auto
next
  case (Cons x xs)
  then obtain f' where "f = Suc f'" by (cases f) auto
  with Cons show ?case by (auto split: option.splits)
qed

lemma lru_wf_length: "lru_wf s xs \<Longrightarrow> length xs \<le> length (lru_heap s)"
proof -
  assume wf: "lru_wf s xs"
  then have "set xs \<subseteq> {..<length (lru_heap s)}"
    by (auto simp: lru_wf_def dest: cell_Some_length)
  then have "card (set xs) \<le> length (lru_heap s)"
    using card_mono [of "{..<length (lru_heap s)}"] by fastforce
  then show ?thesis using wf by (simp add: lru_wf_def distinct_card)
qed

lemma lru_wf_chain: "lru_wf s xs \<Longrightarrow> lru_chain s = xs"
  using lru_wf_length [of s xs] by (auto simp: lru_chain_def lru_wf_def intro: walk_dseg)

lemma lru_wf_inv: "lru_wf s xs \<Longrightarrow> lru_inv s"
  by (simp add: lru_inv_def lru_wf_chain)

lemma lru_wf_abs:
  "lru_wf s xs \<Longrightarrow> lru_abs s = \<lparr>a_max = max_size s, a_cur = current_size s,
     a_entries = map (entry (cell (lru_heap s))) xs\<rparr>"
  by (simp add: lru_abs_def lru_wf_chain)

lemma SimpleLRU_wf: "lru_wf (SimpleLRU sz) []"
  by (auto simp: lru_wf_def SimpleLRU_def cell_def split: if_splits)

end
