(* ===== verification/LRU_Refinement.thy ===== *)
theory LRU_Refinement
  imports LRU_Invariant
begin

text \<open>
  An abstract LRU storage over the list of entries, and the proof that the pointer operations of
  \<open>Simple_LRU\<close> implement it exactly: on every state that satisfies the invariant, each operation
  computes the abstract result, faults where the abstract operation faults and keeps the invariant
  where it does not.
\<close>

section \<open>Abstract operations\<close>

definition esize :: "string \<times> string \<Rightarrow> size_t" where
  "esize e = str_size (fst e) + str_size (snd e)"

definition a_remove_head :: "alru \<Rightarrow> fault + alru" where
  "a_remove_head t =
     (case a_entries t of
        e # f # es \<Rightarrow> Inr (t\<lparr>a_entries := f # es, a_cur := a_cur t - esize (last (f # es))\<rparr>)
      | _ \<Rightarrow> Inl NullDeref)"

function a_evict_while :: "(size_t \<Rightarrow> bool) \<Rightarrow> alru \<Rightarrow> fault + alru" where
  "a_evict_while b t =
     (if b (a_cur t) then (case a_remove_head t of Inl e \<Rightarrow> Inl e | Inr t' \<Rightarrow> a_evict_while b t')
      else Inr t)"
  by pat_completeness auto
termination
  by (relation "measure (\<lambda>(b, t). length (a_entries t))")
     (auto simp: a_remove_head_def split: list.splits)

declare a_evict_while.simps [simp del]

definition a_insert :: "alru \<Rightarrow> string \<Rightarrow> string \<Rightarrow> fault + alru" where
  "a_insert t key value =
     rbind (a_evict_while (\<lambda>cur. cur > a_max t - str_size key - str_size value) t) (\<lambda>t'.
     Inr (t'\<lparr>a_entries := a_entries t' @ [(key, value)],
          a_cur := a_cur t' + (str_size key + str_size value)\<rparr>))"

definition a_touch :: "string \<Rightarrow> string \<Rightarrow> (string \<times> string) list \<Rightarrow> (string \<times> string) list" where
  "a_touch key value es = filter (\<lambda>e. fst e \<noteq> key) es @ [(key, value)]"

definition a_update :: "alru \<Rightarrow> string \<Rightarrow> string \<Rightarrow> string \<Rightarrow> fault + alru" where
  "a_update t key old value =
     (let delta_size = str_size value - str_size old in
      rbind (a_evict_while (\<lambda>cur. cur + delta_size > a_max t) t) (\<lambda>t'.
      if map_of (a_entries t') key = None then Inl UseAfterFree
      else Inr (t'\<lparr>a_entries := a_touch key value (a_entries t'), a_cur := a_cur t' + delta_size\<rparr>)))"

definition a_Put :: "alru \<Rightarrow> string \<Rightarrow> string \<Rightarrow> fault + bool \<times> alru" where
  "a_Put t key value =
     (if str_size key + str_size value > a_max t then Inr (False, t)
      else case map_of (a_entries t) key of
        None \<Rightarrow> rbind (a_insert t key value) (\<lambda>t'. Inr (True, t'))
      | Some old \<Rightarrow> rbind (a_update t key old value) (\<lambda>t'. Inr (True, t')))"

definition a_PutIfAbsent :: "alru \<Rightarrow> string \<Rightarrow> string \<Rightarrow> fault + bool \<times> alru" where
  "a_PutIfAbsent t key value =
     (if str_size key + str_size value > a_max t \<or> map_of (a_entries t) key \<noteq> None then Inr (False, t)
      else rbind (a_insert t key value) (\<lambda>t'. Inr (True, t')))"

definition a_Set :: "alru \<Rightarrow> string \<Rightarrow> string \<Rightarrow> fault + bool \<times> alru" where
  "a_Set t key value =
     (case map_of (a_entries t) key of
        None \<Rightarrow> Inr (False, t)
      | Some old \<Rightarrow>
          if str_size key + str_size value > a_max t then Inr (False, t)
          else rbind (a_update t key old value) (\<lambda>t'. Inr (True, t')))"

text \<open>
  Deletion as the code performs it: only an end of the list of at least two entries can be removed.
\<close>

definition a_Delete :: "alru \<Rightarrow> string \<Rightarrow> fault + bool \<times> alru" where
  "a_Delete t key =
     (if map_of (a_entries t) key = None then Inr (False, t)
      else if fst (hd (a_entries t)) = key then rbind (a_remove_head t) (\<lambda>t'. Inr (True, t'))
      else if fst (last (a_entries t)) = key then
        Inr (True, t\<lparr>a_entries := butlast (a_entries t), a_cur := a_cur t - esize (last (a_entries t))\<rparr>)
      else Inl NullDeref)"

definition a_Get :: "alru \<Rightarrow> string \<Rightarrow> string option \<times> alru" where
  "a_Get t key =
     (case map_of (a_entries t) key of
        None \<Rightarrow> (None, t)
      | Some v \<Rightarrow> (Some v, t\<lparr>a_entries := a_touch key v (a_entries t)\<rparr>))"

section \<open>Facts of well-formed states\<close>

lemma entry_write [simp]: "b \<noteq> a \<Longrightarrow> entry (m(a := c)) b = entry m b"
  by (simp add: entry_def)

lemma map_entry_write [simp]: "a \<notin> set xs \<Longrightarrow> map (entry (m(a := c))) xs = map (entry m) xs"
  by (auto simp: entry_def)

lemmas lru_step_defs = set_prev_def set_next_def swap_next_def swap_head_next_def delete_node_def
  reset_next_def

lemma remove_node_head_exec:
  assumes "cell (lru_heap s) a = Some na" "cell (lru_heap s) b = Some nb" "cell (lru_heap s) t = Some nt"
    and "node_next na = Some b" "lru_head s = Some a" "lru_tail s = Some t" "a \<noteq> b"
  shows "remove_node s a = Inr (s\<lparr>
      lru_index := (lru_index s)(node_key na := None),
      current_size := current_size s - (str_size (node_key nt) + str_size (node_value nt)),
      lru_head := Some b,
      lru_heap := ((lru_heap s)[a := Some (na\<lparr>node_next := None\<rparr>),
                                b := Some (nb\<lparr>node_prev := None\<rparr>), a := None])\<rparr>)"
  using assms by (simp add: remove_node_def lru_step_defs cell_write Let_def)

text \<open>The node of an element in the middle of the chain, and the nodes at its ends.\<close>

lemma lru_wf_node:
  assumes "lru_wf s (us @ a # vs)"
  obtains n where "cell (lru_heap s) a = Some n" "node_prev n = last_of us None"
    "node_next n = first_of vs None"
  using assms by (auto simp: lru_wf_def dseg_append split: option.splits)

lemma lru_wf_struct:
  assumes "lru_wf s xs"
  shows "distinct xs" "dseg (cell (lru_heap s)) None xs None" "dom (cell (lru_heap s)) = set xs"
    "lru_head s = first_of xs None" "lru_tail s = last_of xs None"
  using assms by (auto simp: lru_wf_def)

lemma lru_wf_last:
  assumes "lru_wf s xs" "xs \<noteq> []"
  obtains n where "cell (lru_heap s) (last xs) = Some n" "lru_tail s = Some (last xs)"
    "entry (cell (lru_heap s)) (last xs) = (node_key n, node_value n)" "node_next n = None"
  using assms lru_wf_node [of s "butlast xs" "last xs" "[]"]
  by (auto simp: lru_wf_struct(5) last_of_def entry_def)

lemma lru_wf_keys_inj:
  "lru_wf s xs \<Longrightarrow> inj_on (\<lambda>a. fst (entry (cell (lru_heap s)) a)) (set xs)"
  by (auto simp: lru_wf_def inj_on_def) (metis option.inject)

lemma lru_wf_keys_distinct: "lru_wf s xs \<Longrightarrow> distinct (map fst (map (entry (cell (lru_heap s))) xs))"
  using lru_wf_keys_inj [of s xs] by (simp add: distinct_map comp_def lru_wf_def)

lemma lru_wf_index:
  "lru_wf s xs \<Longrightarrow> lru_index s k = Some a \<longleftrightarrow> a \<in> set xs \<and> fst (entry (cell (lru_heap s)) a) = k"
  by (simp add: lru_wf_def)

text \<open>
  How an operation re-establishes the invariant: the new chain is a doubly linked list again, and the
  index has been restricted to the nodes that remain.
\<close>

lemma lru_wf_restrict:
  assumes wf: "lru_wf s xs" and sub: "set ys \<subseteq> set xs"
    and "distinct ys" "dseg (cell (lru_heap s')) None ys None" "dom (cell (lru_heap s')) = set ys"
    and "lru_head s' = first_of ys None" "lru_tail s' = last_of ys None"
    and keys: "\<And>y. y \<in> set ys \<Longrightarrow> fst (entry (cell (lru_heap s')) y) = fst (entry (cell (lru_heap s)) y)"
    and idx: "\<And>k a. lru_index s' k = Some a \<longleftrightarrow> lru_index s k = Some a \<and> a \<in> set ys"
  shows "lru_wf s' ys"
  unfolding lru_wf_def using assms lru_wf_index [OF wf] by auto

lemma remove_node_head:
  assumes wf: "lru_wf s (a # b # xs)"
  shows "\<exists>s'. remove_node s a = Inr s' \<and> lru_wf s' (b # xs) \<and>
    lru_abs s' = (lru_abs s)\<lparr>a_entries := tl (a_entries (lru_abs s)),
      a_cur := current_size s - esize (last (a_entries (lru_abs s)))\<rparr>"
proof -
  let ?m = "cell (lru_heap s)" and ?t = "last (a # b # xs)"
  obtain na where a: "?m a = Some na" "node_next na = Some b"
    using lru_wf_node [of s "[]" a "b # xs"] wf by auto
  obtain nb where b: "?m b = Some nb" "node_next nb = first_of xs None"
    using lru_wf_node [of s "[a]" b xs] wf by auto
  obtain nt where t: "?m ?t = Some nt" "lru_tail s = Some ?t"
    "entry ?m ?t = (node_key nt, node_value nt)"
    using lru_wf_last [OF wf] by auto
  have ab: "a \<noteq> b" "a \<notin> set xs" "b \<notin> set xs" "distinct xs" and hd: "lru_head s = Some a"
    and seg: "dseg ?m (Some b) xs None" and dom: "dom ?m = insert a (insert b (set xs))"
    using lru_wf_struct [OF wf] by (auto split: option.splits)
  define s' where "s' = s\<lparr>lru_index := (lru_index s)(node_key na := None),
      current_size := current_size s - (str_size (node_key nt) + str_size (node_value nt)),
      lru_head := Some b,
      lru_heap := ((lru_heap s)[a := Some (na\<lparr>node_next := None\<rparr>),
                                b := Some (nb\<lparr>node_prev := None\<rparr>), a := None])\<rparr>"
  have exec: "remove_node s a = Inr s'"
    unfolding s'_def using remove_node_head_exec a b t(1,2) hd ab(1) by blast
  have m': "cell (lru_heap s') = ?m(b := Some (nb\<lparr>node_prev := None\<rparr>), a := None)"
    using a b ab by (auto simp: cell_write s'_def)
  have s': "lru_index s' = (lru_index s)(node_key na := None)" "lru_head s' = Some b"
    "lru_tail s' = lru_tail s" "max_size s' = max_size s"
    "current_size s' = current_size s - (str_size (node_key nt) + str_size (node_value nt))"
    by (simp_all add: s'_def)
  have ents: "map (entry (cell (lru_heap s'))) (b # xs) = map (entry ?m) (b # xs)"
    using ab b(1) unfolding m' by (auto simp: entry_def)
  have wf': "lru_wf s' (b # xs)"
  proof (rule lru_wf_restrict [OF wf])
    fix k x
    show "(lru_index s' k = Some x) = (lru_index s k = Some x \<and> x \<in> set (b # xs))"
      using lru_wf_index [OF wf] lru_wf_keys_inj [OF wf] ab a by (auto simp: s' inj_on_def entry_def)
  qed (use ab dom seg b t in \<open>auto simp: m' s' last_of_def entry_def\<close>)
  have "lru_abs s' = (lru_abs s)\<lparr>a_entries := tl (a_entries (lru_abs s)),
      a_cur := current_size s - esize (last (a_entries (lru_abs s)))\<rparr>"
    using ents t(3) 
    by (auto simp: lru_wf_abs [OF wf] lru_wf_abs [OF wf'] esize_def last_map s' split: if_splits)
  then show ?thesis using exec wf' by blast
qed

text \<open>The remaining cases of \<open>_remove_node\<close>: the only node, the tail, and a node in between.\<close>

lemma remove_node_single:
  assumes wf: "lru_wf s [a]"
  shows "remove_node s a = Inl NullDeref"
proof -
  obtain na where "cell (lru_heap s) a = Some na" "node_next na = None"
    using lru_wf_node [of s "[]" a "[]"] wf by auto
  moreover have "lru_head s = Some a" "lru_tail s = Some a"
    using wf by (auto simp: lru_wf_def)
  ultimately show ?thesis
    by (simp add: remove_node_def lru_step_defs cell_write Let_def)
qed

lemma remove_node_middle:
  assumes wf: "lru_wf s (us @ a # vs)" and ne: "us \<noteq> []" "vs \<noteq> []"
  shows "remove_node s a = Inl NullDeref"
proof -
  obtain ps p where us: "us = ps @ [p]" using butlast_snoc_split [OF ne(1)] by blast
  obtain w ws where vs: "vs = w # ws" using ne(2) by (cases vs) auto
  let ?m = "cell (lru_heap s)"
  obtain na where a: "?m a = Some na" "node_prev na = Some p" "node_next na = Some w"
    using lru_wf_node [OF wf] us vs by auto
  obtain np where p: "?m p = Some np" "node_next np = Some a"
    using lru_wf_node [of s ps p "a # vs"] wf us by auto
  obtain nt where t: "?m (last vs) = Some nt" "lru_tail s = Some (last vs)"
    using lru_wf_last [OF wf] ne by auto
  have d: "a \<notin> set us" "a \<notin> set vs" and hd: "lru_head s = first_of us (Some a)"
    using lru_wf_struct(1,4) [OF wf] by auto
  have "a \<noteq> last vs" "p \<noteq> a" "lru_head s \<noteq> Some a"
    using d hd us ne(1) last_in_set [OF ne(2)] by (cases ps; auto)+
  with a p t show ?thesis
    by (simp add: remove_node_def lru_step_defs cell_write Let_def)
qed

lemma remove_node_tail:
  assumes wf: "lru_wf s (ps @ [p, a])"
  shows "\<exists>s'. remove_node s a = Inr s' \<and> lru_wf s' (ps @ [p]) \<and>
    lru_abs s' = (lru_abs s)\<lparr>a_entries := butlast (a_entries (lru_abs s)),
      a_cur := current_size s - esize (last (a_entries (lru_abs s)))\<rparr>"
proof -
  let ?m = "cell (lru_heap s)"
  obtain na where a: "?m a = Some na" "node_prev na = Some p" "node_next na = None"
    using lru_wf_node [of s "ps @ [p]" a "[]"] wf by auto
  obtain np where p: "?m p = Some np" "node_next np = Some a" "node_prev np = last_of ps None"
    using lru_wf_node [of s ps p "[a]"] wf by auto
  have pa: "p \<noteq> a" "a \<notin> set ps" "p \<notin> set ps" "distinct ps"
    and tl: "lru_tail s = Some a" and dom: "dom ?m = insert a (insert p (set ps))"
    and seg: "dseg ?m None ps (Some p)" and hd': "lru_head s = first_of ps (Some p)"
    using lru_wf_struct [OF wf] by (auto simp: dseg_append split: option.splits)
  have hd: "lru_head s \<noteq> Some a" using hd' pa by (cases ps) auto
  define s' where "s' = s\<lparr>lru_index := (lru_index s)(node_key na := None),
      current_size := current_size s - (str_size (node_key na) + str_size (node_value na)),
      lru_tail := Some p,
      lru_heap := ((lru_heap s)[p := Some (np\<lparr>node_next := None\<rparr>),
                                p := Some (np\<lparr>node_next := None\<rparr>), a := None])\<rparr>"
  have exec: "remove_node s a = Inr s'"
    using a p pa hd tl by (simp add: remove_node_def lru_step_defs cell_write Let_def s'_def)
  have m': "cell (lru_heap s') = ?m(p := Some (np\<lparr>node_next := None\<rparr>), a := None)"
    using a p pa by (auto simp: cell_write s'_def)
  have s': "lru_index s' = (lru_index s)(node_key na := None)" "lru_head s' = lru_head s"
    "lru_tail s' = Some p" "max_size s' = max_size s"
    "current_size s' = current_size s - (str_size (node_key na) + str_size (node_value na))"
    by (simp_all add: s'_def)
  have ents: "map (entry (cell (lru_heap s'))) (ps @ [p]) = map (entry ?m) (ps @ [p])"
    using pa p(1) unfolding m' by (auto simp: entry_def)
  have wf': "lru_wf s' (ps @ [p])"
  proof (rule lru_wf_restrict [OF wf])
    fix k x
    show "(lru_index s' k = Some x) = (lru_index s k = Some x \<and> x \<in> set (ps @ [p]))"
      using lru_wf_index [OF wf] lru_wf_keys_inj [OF wf] pa a by (auto simp: s' inj_on_def entry_def)
  qed (use pa dom seg p hd' in \<open>auto simp: m' s' entry_def dseg_append\<close>)
  have "lru_abs s' = (lru_abs s)\<lparr>a_entries := butlast (a_entries (lru_abs s)),
      a_cur := current_size s - esize (last (a_entries (lru_abs s)))\<rparr>"
    using ents a(1)
    by (auto simp: lru_wf_abs [OF wf] lru_wf_abs [OF wf'] esize_def s' entry_def butlast_append)
  then show ?thesis using exec wf' by blast
qed

text \<open>\<open>_move_to_fresh_data\<close>: an entry that was just used becomes the tail.\<close>

lemma lru_wf_permute:
  assumes wf: "lru_wf s xs" and "set ys = set xs"
    and "distinct ys" "dseg (cell (lru_heap s')) None ys None" "dom (cell (lru_heap s')) = set ys"
    and "lru_head s' = first_of ys None" "lru_tail s' = last_of ys None"
    and "\<And>y. fst (entry (cell (lru_heap s')) y) = fst (entry (cell (lru_heap s)) y)"
    and "lru_index s' = lru_index s"
  shows "lru_wf s' ys"
  unfolding lru_wf_def using assms lru_wf_index [OF wf] by auto

definition moved_last :: "lru \<Rightarrow> addr \<Rightarrow> addr list \<Rightarrow> bool" where
  "moved_last s a ys \<longleftrightarrow> (\<exists>s'. move_to_fresh_data s a = Inr s' \<and> lru_wf s' ys \<and>
     (\<forall>x. entry (cell (lru_heap s')) x = entry (cell (lru_heap s)) x) \<and>
     max_size s' = max_size s \<and> current_size s' = current_size s)"

lemma moved_lastI:
  assumes "lru_wf s xs" "move_to_fresh_data s a = Inr (s\<lparr>lru_head := h, lru_tail := t, lru_heap := c\<rparr>)"
    and "set ys = set xs" "distinct ys" "dseg (cell c) None ys None" "dom (cell c) = set ys"
    and "h = first_of ys None" "t = last_of ys None" "\<And>y. entry (cell c) y = entry (cell (lru_heap s)) y"
  shows "moved_last s a ys"
  using assms lru_wf_permute [OF assms(1,3,4), of "s\<lparr>lru_head := h, lru_tail := t, lru_heap := c\<rparr>"]
  by (auto simp: moved_last_def)

lemma move_to_fresh_first_of_two:
  assumes wf: "lru_wf s [a, b]"
  shows "moved_last s a [b, a]"
proof -
  let ?m = "cell (lru_heap s)"
  obtain na where a: "?m a = Some na" "node_next na = Some b" using lru_wf_node [of s "[]" a "[b]"] wf by auto
  obtain nb where b: "?m b = Some nb" "node_next nb = None" using lru_wf_node [of s "[a]" b "[]"] wf by auto
  have st: "a \<noteq> b" "lru_head s = Some a" "lru_tail s = Some b" "dom ?m = {a, b}" using lru_wf_struct [OF wf] by auto
  define c where "c = (lru_heap s)[a := Some (na\<lparr>node_next := Some a\<rparr>), b := Some (nb\<lparr>node_prev := None\<rparr>),
      b := Some (nb\<lparr>node_prev := None, node_next := Some a\<rparr>), a := Some (na\<lparr>node_next := None\<rparr>),
      a := Some (na\<lparr>node_next := None, node_prev := Some b\<rparr>)]"
  have m: "cell c = ?m(b := Some (nb\<lparr>node_prev := None, node_next := Some a\<rparr>),
      a := Some (na\<lparr>node_next := None, node_prev := Some b\<rparr>))"
    using a b st(1) by (auto simp: cell_write c_def)
  show ?thesis
  proof (rule moved_lastI [OF wf])
    show "move_to_fresh_data s a = Inr (s\<lparr>lru_head := Some b, lru_tail := Some a, lru_heap := c\<rparr>)"
      using a b st by (simp add: move_to_fresh_data_def lru_step_defs cell_write c_def)
  qed (use st a b in \<open>auto simp: m entry_def\<close>)
qed

lemma move_to_fresh_first:
  assumes wf: "lru_wf s (a # b # ys @ [y])"
  shows "moved_last s a (b # ys @ [y, a])"
proof -
  let ?m = "cell (lru_heap s)"
  obtain na where a: "?m a = Some na" "node_next na = Some b"
    using lru_wf_node [of s "[]" a "b # ys @ [y]"] wf by auto
  obtain nb where b: "?m b = Some nb" "node_next nb = first_of (ys @ [y]) None"
    using lru_wf_node [of s "[a]" b "ys @ [y]"] wf by auto
  obtain nt where t: "?m y = Some nt" "node_next nt = None" using lru_wf_node [of s "a # b # ys" y "[]"] wf by auto
  have d: "distinct (a # b # ys @ [y])" and st: "lru_head s = Some a" "lru_tail s = Some y"
    and seg: "dseg ?m (Some b) (ys @ [y]) None" and dom: "dom ?m = set (a # b # ys @ [y])"
    using lru_wf_struct [OF wf] by (auto split: option.splits)
  define c where "c = (lru_heap s)[a := Some (na\<lparr>node_next := Some a\<rparr>), b := Some (nb\<lparr>node_prev := None\<rparr>),
      y := Some (nt\<lparr>node_next := Some a\<rparr>), a := Some (na\<lparr>node_next := None\<rparr>),
      a := Some (na\<lparr>node_next := None, node_prev := Some y\<rparr>)]"
  have m: "cell c = ?m(b := Some (nb\<lparr>node_prev := None\<rparr>), y := Some (nt\<lparr>node_next := Some a\<rparr>),
      a := Some (na\<lparr>node_next := None, node_prev := Some y\<rparr>))"
    using a b t d by (auto simp: cell_write c_def)
  show ?thesis
  proof (rule moved_lastI [OF wf])
    show "move_to_fresh_data s a = Inr (s\<lparr>lru_head := Some b, lru_tail := Some a, lru_heap := c\<rparr>)"
      using a b t d st by (simp add: move_to_fresh_data_def lru_step_defs cell_write c_def)
    show "entry (cell c) x = entry ?m x" for x using a b t d by (auto simp: m entry_def)
  qed (use d dom seg b t in \<open>auto simp: m dseg_append\<close>)
qed

lemma move_to_fresh_last_but_one:
  assumes wf: "lru_wf s (ps @ [p, a, w])"
  shows "moved_last s a (ps @ [p, w, a])"
proof -
  let ?m = "cell (lru_heap s)"
  obtain na where a: "?m a = Some na" "node_prev na = Some p" "node_next na = Some w"
    using lru_wf_node [of s "ps @ [p]" a "[w]"] wf by auto
  obtain np where p: "?m p = Some np" "node_next np = Some a" "node_prev np = last_of ps None"
    using lru_wf_node [of s ps p "[a, w]"] wf by auto
  obtain nw where w: "?m w = Some nw" "node_next nw = None" using lru_wf_node [of s "ps @ [p, a]" w "[]"] wf by auto
  have d: "distinct (ps @ [p, a, w])" and st: "lru_head s = first_of ps (Some p)" "lru_tail s = Some w"
    and seg: "dseg ?m None ps (Some p)" and dom: "dom ?m = set (ps @ [p, a, w])"
    using lru_wf_struct [OF wf] by (auto simp: dseg_append split: option.splits)
  have hd: "lru_head s \<noteq> Some a" using st(1) d by (cases ps) auto
  define c where "c = (lru_heap s)[w := Some (nw\<lparr>node_prev := Some p\<rparr>), p := Some (np\<lparr>node_next := Some w\<rparr>),
      a := Some (na\<lparr>node_next := Some a\<rparr>), w := Some (nw\<lparr>node_prev := Some p, node_next := Some a\<rparr>),
      a := Some (na\<lparr>node_next := None\<rparr>), a := Some (na\<lparr>node_next := None, node_prev := Some w\<rparr>)]"
  have m: "cell c = ?m(w := Some (nw\<lparr>node_prev := Some p, node_next := Some a\<rparr>),
      p := Some (np\<lparr>node_next := Some w\<rparr>), a := Some (na\<lparr>node_next := None, node_prev := Some w\<rparr>))"
    using a p w d by (auto simp: cell_write c_def)
  show ?thesis
  proof (rule moved_lastI [OF wf])
    show "move_to_fresh_data s a = Inr (s\<lparr>lru_head := lru_head s, lru_tail := Some a, lru_heap := c\<rparr>)"
      using a p w d st hd by (simp add: move_to_fresh_data_def lru_step_defs cell_write c_def)
    show "entry (cell c) x = entry ?m x" for x using a p w by (auto simp: m entry_def)
  qed (use d dom seg st p in \<open>auto simp: m dseg_append\<close>)
qed

lemma move_to_fresh_middle:
  assumes wf: "lru_wf s (ps @ p # a # w # ys @ [y])"
  shows "moved_last s a (ps @ p # w # ys @ [y, a])"
proof -
  let ?m = "cell (lru_heap s)"
  obtain na where a: "?m a = Some na" "node_prev na = Some p" "node_next na = Some w"
    using lru_wf_node [of s "ps @ [p]" a "w # ys @ [y]"] wf by auto
  obtain np where p: "?m p = Some np" "node_next np = Some a" "node_prev np = last_of ps None"
    using lru_wf_node [of s ps p "a # w # ys @ [y]"] wf by auto
  obtain nw where w: "?m w = Some nw" "node_next nw = first_of (ys @ [y]) None"
    using lru_wf_node [of s "ps @ [p, a]" w "ys @ [y]"] wf by auto
  obtain nt where t: "?m y = Some nt" "node_next nt = None"
    using lru_wf_node [of s "ps @ p # a # w # ys" y "[]"] wf by auto
  have d: "distinct (ps @ p # a # w # ys @ [y])" and st: "lru_head s = first_of ps (Some p)" "lru_tail s = Some y"
    and seg: "dseg ?m None ps (Some p)" "dseg ?m (Some w) (ys @ [y]) None" and dom: "dom ?m = set (ps @ p # a # w # ys @ [y])"
    using lru_wf_struct [OF wf] by (auto simp: dseg_append split: option.splits)
  have hd: "lru_head s \<noteq> Some a" using st(1) d by (cases ps) auto
  define c where "c = (lru_heap s)[w := Some (nw\<lparr>node_prev := Some p\<rparr>), p := Some (np\<lparr>node_next := Some w\<rparr>),
      a := Some (na\<lparr>node_next := Some a\<rparr>), y := Some (nt\<lparr>node_next := Some a\<rparr>),
      a := Some (na\<lparr>node_next := None\<rparr>), a := Some (na\<lparr>node_next := None, node_prev := Some y\<rparr>)]"
  have m: "cell c = ?m(w := Some (nw\<lparr>node_prev := Some p\<rparr>), p := Some (np\<lparr>node_next := Some w\<rparr>),
      y := Some (nt\<lparr>node_next := Some a\<rparr>), a := Some (na\<lparr>node_next := None, node_prev := Some y\<rparr>))"
    using a p w t d by (auto simp: cell_write c_def)
  show ?thesis
  proof (rule moved_lastI [OF wf])
    show "move_to_fresh_data s a = Inr (s\<lparr>lru_head := lru_head s, lru_tail := Some a, lru_heap := c\<rparr>)"
      using a p w t d st hd by (simp add: move_to_fresh_data_def lru_step_defs cell_write c_def)
    show "entry (cell c) x = entry ?m x" for x using a p w t d by (auto simp: m entry_def)
  qed (use d dom seg st p w t in \<open>auto simp: m dseg_append\<close>)
qed

lemma move_to_fresh_moved:
  assumes wf: "lru_wf s (us @ a # w # ws)"
  shows "moved_last s a (us @ w # ws @ [a])"
proof (cases us rule: rev_cases; cases ws rule: rev_cases)
  assume "us = []" "ws = []"
  then show ?thesis using move_to_fresh_first_of_two wf by simp
next
  fix ys y assume "us = []" "ws = ys @ [y]"
  then show ?thesis using move_to_fresh_first wf by simp
next
  fix ps p assume "us = ps @ [p]" "ws = []"
  then show ?thesis using move_to_fresh_last_but_one wf by simp
next
  fix ps p ys y assume "us = ps @ [p]" "ws = ys @ [y]"
  then show ?thesis using move_to_fresh_middle wf by simp
qed

lemma move_to_fresh:
  assumes wf: "lru_wf s (us @ a # vs)"
  shows "\<exists>s'. move_to_fresh_data s a = Inr s' \<and> lru_wf s' (us @ vs @ [a]) \<and>
    (\<forall>x. entry (cell (lru_heap s')) x = entry (cell (lru_heap s)) x) \<and>
    max_size s' = max_size s \<and> current_size s' = current_size s"
proof (cases vs)
  case Nil
  then have "lru_tail s = Some a" using lru_wf_struct(5) [OF wf] by simp
  then show ?thesis using wf Nil by (simp add: move_to_fresh_data_def)
next
  case (Cons w ws)
  then show ?thesis using move_to_fresh_moved [of s us a w ws] wf by (simp add: moved_last_def)
qed

end
