(* ===== verification/LRU_Storage.thy ===== *)
theory LRU_Storage
  imports LRU_Refinement
begin

text \<open>
  The eviction loops, insertion, update and the five operations of the \<open>Storage\<close> interface refine the
  abstract LRU storage: on a state that satisfies the invariant every operation computes exactly what
  its abstract counterpart computes, the faults included, and keeps the invariant.
\<close>

section \<open>Eviction\<close>

lemma a_evict_max: "a_evict_while b t = Inr t' \<Longrightarrow> a_max t' = a_max t"
proof (induction b t rule: a_evict_while.induct)
  case (1 b t)
  then show ?case
    by (subst (asm) a_evict_while.simps)
       (auto simp: a_remove_head_def split: if_splits sum.splits list.splits)
qed

lemma evict_while_refines:
  assumes "lru_wf s xs"
  shows "case a_evict_while b (lru_abs s) of
      Inl e \<Rightarrow> evict_while b s = Inl e
    | Inr t \<Rightarrow> \<exists>s' us ys. evict_while b s = Inr s' \<and> xs = us @ ys \<and> lru_wf s' ys \<and> lru_abs s' = t \<and>
        map (entry (cell (lru_heap s'))) ys = map (entry (cell (lru_heap s))) ys"
  using assms
proof (induction xs arbitrary: s)
  case Nil
  then have "lru_head s = None" "a_entries (lru_abs s) = []"
    by (auto simp: lru_wf_struct lru_wf_abs)
  moreover have "a_cur (lru_abs s) = current_size s" by (simp add: lru_abs_def)
  ultimately show ?case using Nil
    by (subst a_evict_while.simps, simp add: a_remove_head_def evict_while.simps [of b s])
next
  case (Cons a xs)
  have hd: "lru_head s = Some a" and cur: "a_cur (lru_abs s) = current_size s"
    using lru_wf_struct(4) [OF Cons.prems] by (auto simp: lru_abs_def)
  have ents: "a_entries (lru_abs s) = map (entry (cell (lru_heap s))) (a # xs)"
    by (simp add: lru_wf_abs [OF Cons.prems])
  show ?case
  proof (cases "b (current_size s)")
    case False
    then show ?thesis using Cons.prems cur
      by (subst a_evict_while.simps, subst evict_while.simps) auto
  next
    case True
    show ?thesis
    proof (cases xs)
      case Nil
      then show ?thesis using True hd cur ents remove_node_single Cons.prems
        by (subst a_evict_while.simps, subst evict_while.simps) (auto simp: a_remove_head_def)
    next
      case (Cons c ys)
      then obtain s1 where rm: "remove_node s a = Inr s1" and wf1: "lru_wf s1 xs"
        and abs1: "lru_abs s1 = (lru_abs s)\<lparr>a_entries := tl (a_entries (lru_abs s)),
          a_cur := current_size s - esize (last (a_entries (lru_abs s)))\<rparr>"
        using remove_node_head [of s a c ys] Cons.prems by auto
      have arm: "a_remove_head (lru_abs s) = Inr (lru_abs s1)"
        using ents Cons abs1 cur by (simp add: a_remove_head_def)
      have same: "map (entry (cell (lru_heap s1))) xs = map (entry (cell (lru_heap s))) xs"
        using arg_cong [OF abs1, of a_entries] ents by (simp add: lru_wf_abs [OF wf1])
      have step: "evict_while b s = evict_while b s1"
        "a_evict_while b (lru_abs s) = a_evict_while b (lru_abs s1)"
        using True hd rm arm cur by (subst evict_while.simps a_evict_while.simps, simp)+
      show ?thesis
      proof (cases "a_evict_while b (lru_abs s1)")
        case (Inl e)
        then show ?thesis using Cons.IH [OF wf1, of ] step by simp
      next
        case (Inr t)
        then obtain s' us ys where r: "evict_while b s1 = Inr s'" "xs = us @ ys" "lru_wf s' ys"
          "lru_abs s' = t" "map (entry (cell (lru_heap s'))) ys = map (entry (cell (lru_heap s1))) ys"
          using Cons.IH [OF wf1] by auto
        have "map (entry (cell (lru_heap s'))) ys = map (entry (cell (lru_heap s))) ys"
          using r same by auto
        moreover have "a # xs = (a # us) @ ys" using r(2) by simp
        ultimately show ?thesis using r(1,3,4) step Inr by (simp only: sum.case) blast
      qed
    qed
  qed
qed

section \<open>Insertion\<close>

lemma lru_wf_extend:
  assumes wf: "lru_wf s xs" and idx: "lru_index s key = None" and new: "new \<notin> set xs"
    and "dseg (cell (lru_heap s')) None (xs @ [new]) None"
    and "dom (cell (lru_heap s')) = insert new (set xs)"
    and "lru_head s' = first_of xs (Some new)" "lru_tail s' = Some new"
    and keys: "\<And>y. y \<in> set xs \<Longrightarrow> entry (cell (lru_heap s')) y = entry (cell (lru_heap s)) y"
    and key: "fst (entry (cell (lru_heap s')) new) = key"
    and idx': "lru_index s' = (lru_index s)(key \<mapsto> new)"
  shows "lru_wf s' (xs @ [new])"
proof -
  have "\<And>k a. lru_index s' k = Some a \<longleftrightarrow>
      a \<in> set (xs @ [new]) \<and> fst (entry (cell (lru_heap s')) a) = k"
    using lru_wf_index [OF wf] idx keys key new unfolding idx'
    by (auto split: if_splits) (metis option.discI)+
  then show ?thesis
    unfolding lru_wf_def using assms lru_wf_struct [OF wf] by simp
qed

text \<open>The storage after \<open>append_node\<close>: the new node is the tail, and the old tail points to it.\<close>

definition appended :: "lru \<Rightarrow> addr list \<Rightarrow> string \<Rightarrow> string \<Rightarrow> lru" where
  "appended s xs key value = (let new = length (lru_heap s);
       n = \<lparr>node_key = key, node_value = value, node_next = None, node_prev = lru_tail s\<rparr> in
     s\<lparr>lru_head := first_of xs (Some new), lru_tail := Some new,
       lru_index := (lru_index s)(key \<mapsto> new), current_size := current_size s + (str_size key + str_size value),
       lru_heap := (case lru_tail s of None \<Rightarrow> lru_heap s @ [Some n]
         | Some t \<Rightarrow> (lru_heap s @ [Some n])[t := Some ((the (cell (lru_heap s) t))\<lparr>node_next := Some new\<rparr>)])\<rparr>)"

lemma append_node_exec:
  assumes wf: "lru_wf s xs" and idx: "lru_index s key = None"
  shows "append_node s key value = Inr (appended s xs key value)"
    and "cell (lru_heap (appended s xs key value)) =
      (case lru_tail s of None \<Rightarrow> cell (lru_heap s) | Some t \<Rightarrow>
        (cell (lru_heap s))(t := Some ((the (cell (lru_heap s) t))\<lparr>node_next := Some (length (lru_heap s))\<rparr>)))
      (length (lru_heap s) \<mapsto> \<lparr>node_key = key, node_value = value, node_next = None, node_prev = lru_tail s\<rparr>)"
proof -
  let ?m = "cell (lru_heap s)" and ?new = "length (lru_heap s)"
  have ends: "lru_head s = first_of xs None" "lru_tail s = last_of xs None" using lru_wf_struct [OF wf] by auto
  have "append_node s key value = Inr (appended s xs key value) \<and> cell (lru_heap (appended s xs key value)) =
      (case lru_tail s of None \<Rightarrow> ?m | Some t \<Rightarrow> ?m(t := Some ((the (?m t))\<lparr>node_next := Some ?new\<rparr>)))
      (?new \<mapsto> \<lparr>node_key = key, node_value = value, node_next = None, node_prev = lru_tail s\<rparr>)"
  proof (cases "xs = []")
    case False
    then obtain nt where "?m (last xs) = Some nt" "lru_tail s = Some (last xs)" "node_next nt = None"
      using lru_wf_last [OF wf] by blast
    moreover from this(1) have "last xs \<noteq> ?new" by (metis cell_fresh option.discI)
    moreover have "lru_head s = first_of xs (Some ?new)" using ends False by (cases xs) auto
    ultimately show ?thesis using idx
      by (auto simp: append_node_def appended_def lru_step_defs cell_snoc cell_write Let_def fun_upd_twist)
  qed (use idx ends in \<open>simp add: append_node_def appended_def delete_node_def Let_def cell_snoc\<close>)
  then show "append_node s key value = Inr (appended s xs key value)" and "cell (lru_heap (appended s xs key value)) =
      (case lru_tail s of None \<Rightarrow> ?m | Some t \<Rightarrow> ?m(t := Some ((the (?m t))\<lparr>node_next := Some ?new\<rparr>)))
      (?new \<mapsto> \<lparr>node_key = key, node_value = value, node_next = None, node_prev = lru_tail s\<rparr>)"
    by blast+
qed

lemma append_node_refines:
  assumes wf: "lru_wf s xs" and idx: "lru_index s key = None"
  shows "\<exists>s' new. append_node s key value = Inr s' \<and> lru_wf s' (xs @ [new]) \<and>
    lru_abs s' = (lru_abs s)\<lparr>a_entries := a_entries (lru_abs s) @ [(key, value)],
      a_cur := current_size s + (str_size key + str_size value)\<rparr>"
proof -
  let ?m = "cell (lru_heap s)" and ?new = "length (lru_heap s)"
  have new: "?new \<notin> set xs"
    using lru_wf_struct(3) [OF wf] by (metis cell_fresh domIff)
  have dom: "dom ?m = set xs" and seg: "dseg ?m None xs None"
    and hd: "lru_head s = first_of xs None" and tl: "lru_tail s = last_of xs None"
    using lru_wf_struct [OF wf] by auto
  define s' where "s' = appended s xs key value"
  note exec = append_node_exec(1) [OF wf idx, of "value", folded s'_def]
  note m' = append_node_exec(2) [OF wf idx, of "value", folded s'_def]
  have s': "lru_index s' = (lru_index s)(key \<mapsto> ?new)" "lru_head s' = first_of xs (Some ?new)"
    "lru_tail s' = Some ?new" "max_size s' = max_size s"
    "current_size s' = current_size s + (str_size key + str_size value)"
    by (simp_all add: s'_def appended_def Let_def)
  have ents: "\<And>y. y \<in> set xs \<Longrightarrow> entry (cell (lru_heap s')) y = entry ?m y"
    using new dom unfolding m' by (auto simp: entry_def split: option.splits)
  have enew: "entry (cell (lru_heap s')) ?new = (key, value)"
    by (simp add: m' entry_def)
  have seg': "dseg (cell (lru_heap s')) None (xs @ [?new]) None"
  proof (cases xs rule: rev_cases)
    case (snoc ys y)
    then obtain ny where y: "?m y = Some ny" using seg dseg_live by (metis in_set_conv_decomp)
    show ?thesis
      using dseg_snoc_next [of ?m None ys y None ny "Some ?new"] seg snoc y new lru_wf_struct(1) [OF wf] tl
      by (auto simp: m' dseg_append)
  qed (simp add: m' tl)
  have dom': "dom (cell (lru_heap s')) = insert ?new (set xs)"
    using dom tl unfolding m' by (auto simp: last_of_def split: option.splits if_splits)
  have wf': "lru_wf s' (xs @ [?new])"
    by (rule lru_wf_extend [OF wf idx new seg' dom']) (use ents enew s' in auto)
  have "lru_abs s' = (lru_abs s)\<lparr>a_entries := a_entries (lru_abs s) @ [(key, value)],
      a_cur := current_size s + (str_size key + str_size value)\<rparr>"
    using ents enew by (simp add: lru_wf_abs [OF wf] lru_wf_abs [OF wf'] s')
  then show ?thesis using exec wf' by blast
qed

text \<open>
  An operation of the storage refines its abstract counterpart: the results agree, faults included,
  and a successful run ends in a state that satisfies the invariant.
\<close>

definition refines :: "fault + lru \<Rightarrow> fault + alru \<Rightarrow> bool" where
  "refines r a \<longleftrightarrow> map_sum id lru_abs r = a \<and> (\<forall>s. r = Inr s \<longrightarrow> lru_inv s)"

lemma refinesI: "r = Inr s \<Longrightarrow> lru_wf s xs \<Longrightarrow> lru_abs s = t \<Longrightarrow> refines r (Inr t)"
  by (auto simp: refines_def lru_wf_inv)

lemma refines_Inl [simp]: "refines (Inl e) (Inl e)"
  by (simp add: refines_def)

lemma lru_abs_max [simp]: "a_max (lru_abs s) = max_size s" "a_cur (lru_abs s) = current_size s"
  by (simp_all add: lru_abs_def)

lemma lru_wf_lookup:
  assumes wf: "lru_wf s xs"
  shows "map_of (a_entries (lru_abs s)) key =
    map_option (\<lambda>a. snd (entry (cell (lru_heap s)) a)) (lru_index s key)"
proof (cases "lru_index s key")
  case None
  then have "\<And>a. a \<in> set xs \<Longrightarrow> fst (entry (cell (lru_heap s)) a) \<noteq> key"
    using lru_wf_index [OF wf, of key] by (metis option.distinct(1))
  then have "key \<notin> fst ` set (map (entry (cell (lru_heap s))) xs)"
    by (metis (no_types, lifting) imageE list.set_map)
  then show ?thesis using None by (simp add: lru_wf_abs [OF wf] map_of_eq_None_iff)
next
  case (Some a)
  then have "a \<in> set xs" "fst (entry (cell (lru_heap s)) a) = key"
    using lru_wf_index [OF wf, of key a] by auto
  then have "(key, snd (entry (cell (lru_heap s)) a)) \<in> set (map (entry (cell (lru_heap s))) xs)"
    by (metis list.set_map imageI prod.collapse)
  then show ?thesis
    using Some lru_wf_keys_distinct [OF wf] by (simp add: lru_wf_abs [OF wf] map_of_eq_Some_iff)
qed

text \<open>Eviction forgets the keys of the evicted nodes and no others.\<close>

lemma evicted_index:
  assumes wf: "lru_wf s xs" and wf1: "lru_wf s1 ys" and xs: "xs = us @ ys"
    and same: "map (entry (cell (lru_heap s1))) ys = map (entry (cell (lru_heap s))) ys"
  shows "lru_index s1 key =
    (case lru_index s key of None \<Rightarrow> None | Some a \<Rightarrow> if a \<in> set ys then Some a else None)"
proof -
  have "\<And>a. a \<in> set ys \<Longrightarrow> entry (cell (lru_heap s1)) a = entry (cell (lru_heap s)) a"
    using same by simp
  moreover have "set ys \<subseteq> set xs" by (simp add: xs)
  ultimately have "lru_index s1 key = Some a \<longleftrightarrow> lru_index s key = Some a \<and> a \<in> set ys" for a
    unfolding lru_wf_index [OF wf] lru_wf_index [OF wf1] by (metis subsetD)
  then show ?thesis
    by (cases "lru_index s key") (simp, metis not_None_eq option.distinct(1), simp, metis not_None_eq option.inject)
qed

lemma insert_new_value_refines:
  assumes wf: "lru_wf s xs" and idx: "lru_index s key = None"
  shows "refines (insert_new_value s key value) (a_insert (lru_abs s) key value)"
proof -
  define b where "b = (\<lambda>cur. cur > max_size s - str_size key - str_size value)"
  have ev: "insert_new_value s key value = rbind (evict_while b s) (\<lambda>s. append_node s key value)"
    "a_insert (lru_abs s) key value = rbind (a_evict_while b (lru_abs s)) (\<lambda>t'.
       Inr (t'\<lparr>a_entries := a_entries t' @ [(key, value)], a_cur := a_cur t' + (str_size key + str_size value)\<rparr>))"
    by (simp_all add: insert_new_value_def a_insert_def b_def)
  show ?thesis
  proof (cases "a_evict_while b (lru_abs s)")
    case (Inl e)
    then show ?thesis using evict_while_refines [OF wf, of b] ev by simp
  next
    case (Inr t)
    then obtain s1 us ys where e: "evict_while b s = Inr s1" "xs = us @ ys" "lru_wf s1 ys"
      "lru_abs s1 = t" "map (entry (cell (lru_heap s1))) ys = map (entry (cell (lru_heap s))) ys"
      using evict_while_refines [OF wf, of b] by auto
    have "lru_index s1 key = None"
      using evicted_index [OF wf e(3,2,5), of key] idx by simp
    then obtain s' new where "append_node s1 key value = Inr s'" "lru_wf s' (ys @ [new])"
      "lru_abs s' = (lru_abs s1)\<lparr>a_entries := a_entries (lru_abs s1) @ [(key, value)],
        a_cur := current_size s1 + (str_size key + str_size value)\<rparr>"
      using append_node_refines [OF e(3)] by blast
    then show ?thesis
      using ev e Inr by (auto intro!: refinesI)
  qed
qed

section \<open>Update\<close>

lemma dseg_value:
  "m a = Some n \<Longrightarrow> dseg (m(a := Some (n\<lparr>node_value := v\<rparr>))) p xs q = dseg m p xs q"
  by (induction xs arbitrary: p) (auto split: option.splits)

lemma lru_wf_write_value:
  assumes wf: "lru_wf s xs" and a: "cell (lru_heap s) a = Some n"
  shows "lru_wf (s\<lparr>lru_heap := (lru_heap s)[a := Some (n\<lparr>node_value := v\<rparr>)]\<rparr>) xs"
proof (rule lru_wf_permute [OF wf])
  have "insert a (set xs) = set xs" using a lru_wf_struct(3) [OF wf] by auto
  then show "dom (cell (lru_heap (s\<lparr>lru_heap := (lru_heap s)[a := Some (n\<lparr>node_value := v\<rparr>)]\<rparr>))) = set xs"
    using lru_wf_struct(3) [OF wf] a by (simp add: cell_write)
qed (use lru_wf_struct [OF wf] a in \<open>auto simp: cell_write dseg_value entry_def\<close>)

lemma a_touch_split:
  assumes "distinct (map fst es)" and "es = us @ (key, old) # vs"
  shows "a_touch key value es = us @ vs @ [(key, value)]"
proof -
  have "key \<notin> fst ` set us" "key \<notin> fst ` set vs"
    using assms(1) unfolding assms(2) by auto
  then have "filter (\<lambda>e. fst e \<noteq> key) us = us" "filter (\<lambda>e. fst e \<noteq> key) vs = vs"
    by (metis (mono_tags, lifting) filter_id_if imageI)+
  then show ?thesis by (simp add: a_touch_def assms(2))
qed

text \<open>A node that is still there gets its new value and becomes the freshest.\<close>

lemma rewrite_value:
  assumes wf: "lru_wf s1 ys" and a: "a \<in> set ys" and idx: "lru_index s1 key = Some a"
  shows "\<exists>s2 s3. write_node s1 (Some a) (\<lambda>n. n\<lparr>node_value := value\<rparr>) = Inr s2 \<and> move_to_fresh_data s2 a = Inr s3 \<and>
    refines (Inr (s3\<lparr>current_size := current_size s3 + d\<rparr>))
      (Inr ((lru_abs s1)\<lparr>a_entries := a_touch key value (a_entries (lru_abs s1)), a_cur := a_cur (lru_abs s1) + d\<rparr>))"
proof -
  obtain us vs where ys: "ys = us @ a # vs" using a by (auto dest: split_list)
  obtain n1 where n1: "cell (lru_heap s1) a = Some n1" using lru_wf_struct(2) [OF wf] a dseg_live by blast
  have k1: "node_key n1 = key" using lru_wf_index [OF wf, of key a] idx n1 by (auto simp: entry_def)
  define s2 where "s2 = s1\<lparr>lru_heap := (lru_heap s1)[a := Some (n1\<lparr>node_value := value\<rparr>)]\<rparr>"
  have w2: "write_node s1 (Some a) (\<lambda>n. n\<lparr>node_value := value\<rparr>) = Inr s2" using n1 by (simp add: s2_def)
  have wf2: "lru_wf s2 (us @ a # vs)" using lru_wf_write_value [OF wf n1] by (simp add: s2_def ys)
  then obtain s3 where s3: "move_to_fresh_data s2 a = Inr s3" "lru_wf s3 (us @ vs @ [a])"
    "\<And>x. entry (cell (lru_heap s3)) x = entry (cell (lru_heap s2)) x" "max_size s3 = max_size s2" "current_size s3 = current_size s2"
    using move_to_fresh by blast
  have m2: "cell (lru_heap s2) = (cell (lru_heap s1))(a := Some (n1\<lparr>node_value := value\<rparr>))" using n1 by (simp add: s2_def cell_write)
  have dis: "a \<notin> set us" "a \<notin> set vs" using lru_wf_struct(1) [OF wf2] by auto
  have tch: "a_touch key value (map (entry (cell (lru_heap s1))) ys) =
      map (entry (cell (lru_heap s1))) us @ map (entry (cell (lru_heap s1))) vs @ [(key, value)]"
    using lru_wf_keys_distinct [OF wf] n1 k1 by (intro a_touch_split) (auto simp: ys entry_def)
  define s4 where "s4 = s3\<lparr>current_size := current_size s3 + d\<rparr>"
  have wf4: "lru_wf s4 (us @ vs @ [a])" using s3(2) by (simp add: lru_wf_def s4_def)
  have f4: "max_size s4 = max_size s1" "current_size s4 = current_size s1 + d" "lru_heap s4 = lru_heap s3"
    by (simp_all add: s4_def s3(4,5) s2_def)
  have "entry (cell (lru_heap s3)) x = (if x = a then (key, value) else entry (cell (lru_heap s1)) x)" for x
    unfolding s3(3) m2 by (simp add: entry_def k1)
  then have "map (entry (cell (lru_heap s4))) (us @ vs @ [a]) = a_touch key value (a_entries (lru_abs s1))"
    using dis tch by (auto simp: f4 lru_wf_abs [OF wf])
  then have "lru_abs s4 = (lru_abs s1)\<lparr>a_entries := a_touch key value (a_entries (lru_abs s1)), a_cur := a_cur (lru_abs s1) + d\<rparr>"
    unfolding lru_wf_abs [OF wf4] by (simp add: f4 lru_wf_abs [OF wf])
  then show ?thesis using w2 s3(1) wf4 by (auto simp flip: s4_def intro!: refinesI)
qed

lemma update_value_refines:
  assumes wf: "lru_wf s xs" and idx: "lru_index s key = Some a"
    and old: "map_of (a_entries (lru_abs s)) key = Some old"
  shows "refines (update_value s a value) (a_update (lru_abs s) key old value)"
proof -
  have ax: "a \<in> set xs" and ka: "fst (entry (cell (lru_heap s)) a) = key"
    using lru_wf_index [OF wf] idx by auto
  then obtain n where n: "cell (lru_heap s) a = Some n"
    using lru_wf_struct(2) [OF wf] dseg_live by blast
  have kn: "node_key n = key" "node_value n = old"
    using ka n old lru_wf_lookup [OF wf, of key] idx by (auto simp: entry_def)
  define d where "d = str_size value - str_size old"
  define b where "b = (\<lambda>cur. cur + d > max_size s)"
  have ev: "update_value s a value = rbind (evict_while b s) (\<lambda>s1.
     rbind (write_node s1 (Some a) (\<lambda>n. n\<lparr>node_value := value\<rparr>)) (\<lambda>s2.
     rbind (move_to_fresh_data s2 a) (\<lambda>s3. Inr (s3\<lparr>current_size := current_size s3 + d\<rparr>))))"
    "a_update (lru_abs s) key old value = rbind (a_evict_while b (lru_abs s)) (\<lambda>t'.
      if map_of (a_entries t') key = None then Inl UseAfterFree
      else Inr (t'\<lparr>a_entries := a_touch key value (a_entries t'), a_cur := a_cur t' + d\<rparr>))"
    using n kn by (simp_all add: update_value_def a_update_def b_def d_def Let_def cong: if_cong)
  show ?thesis
  proof (cases "a_evict_while b (lru_abs s)")
    case (Inl e)
    then show ?thesis using evict_while_refines [OF wf, of b] ev by simp
  next
    case (Inr t)
    then obtain s1 ws ys where e: "evict_while b s = Inr s1" "xs = ws @ ys" "lru_wf s1 ys"
      "lru_abs s1 = t" "map (entry (cell (lru_heap s1))) ys = map (entry (cell (lru_heap s))) ys"
      using evict_while_refines [OF wf, of b] by auto
    have idx1: "lru_index s1 key = (if a \<in> set ys then Some a else None)"
      using evicted_index [OF wf e(3,2,5), of key] idx by simp
    show ?thesis
    proof (cases "a \<in> set ys")
      case False
      then have "cell (lru_heap s1) a = None"
        using lru_wf_struct(3) [OF e(3)] by (metis domIff)
      then show ?thesis
        using ev e Inr idx1 False lru_wf_lookup [OF e(3), of key] by simp
    next
      case True
      have "map_of (a_entries t) key \<noteq> None" using lru_wf_lookup [OF e(3), of key] idx1 True e(4) by auto
      moreover have "lru_index s1 key = Some a" using idx1 True by simp
      ultimately show ?thesis using rewrite_value [OF e(3) True, of key "value" d] ev e(1,4) Inr by auto
    qed
  qed
qed

section \<open>The operations of the interface\<close>

definition op_refines :: "fault + 'r \<times> lru \<Rightarrow> fault + 'r \<times> alru \<Rightarrow> bool" where
  "op_refines r a \<longleftrightarrow> map_sum id (map_prod id lru_abs) r = a \<and> (\<forall>x s. r = Inr (x, s) \<longrightarrow> lru_inv s)"

lemma op_refinesI: "lru_wf s xs \<Longrightarrow> lru_abs s = t \<Longrightarrow> op_refines (Inr (x, s)) (Inr (x, t))"
  by (auto simp: op_refines_def lru_wf_inv)

lemma op_refines_Inl [simp]: "op_refines (Inl e) (Inl e)"
  by (simp add: op_refines_def)

lemma refines_op: "refines r a \<Longrightarrow> op_refines (rbind r (\<lambda>s. Inr (x, s))) (rbind a (\<lambda>t. Inr (x, t)))"
  by (cases r) (auto simp: refines_def op_refines_def)

lemma lru_inv_wf: "lru_inv s \<Longrightarrow> lru_wf s (lru_chain s)"
  by (simp add: lru_inv_def)

lemma lru_wf_index_lookup:
  assumes "lru_wf s xs"
  shows "map_of (a_entries (lru_abs s)) key = None \<longleftrightarrow> lru_index s key = None"
    and "lru_index s key = Some a \<Longrightarrow>
      map_of (a_entries (lru_abs s)) key = Some (snd (entry (cell (lru_heap s)) a))"
  by (simp_all add: lru_wf_lookup [OF assms])

lemma lru_Put_refines:
  assumes "lru_inv s"
  shows "op_refines (lru_Put s key value) (a_Put (lru_abs s) key value)"
proof -
  note wf = lru_inv_wf [OF assms]
  show ?thesis
  proof (cases "lru_index s key")
    case None
    then show ?thesis
      using refines_op [OF insert_new_value_refines [OF wf None, of "value"], of True]
      by (auto simp: lru_Put_def a_Put_def lru_wf_index_lookup(1) [OF wf, THEN iffD2] intro: op_refinesI [OF wf])
  next
    case (Some a)
    note v = lru_wf_index_lookup(2) [OF wf Some]
    show ?thesis
      using refines_op [OF update_value_refines [OF wf Some v, of "value"], of True]
      by (auto simp: lru_Put_def a_Put_def Some v intro: op_refinesI [OF wf])
  qed
qed

lemma lru_PutIfAbsent_refines:
  assumes "lru_inv s"
  shows "op_refines (lru_PutIfAbsent s key value) (a_PutIfAbsent (lru_abs s) key value)"
proof -
  note wf = lru_inv_wf [OF assms]
  show ?thesis
  proof (cases "lru_index s key")
    case None
    then show ?thesis
      using refines_op [OF insert_new_value_refines [OF wf None, of "value"], of True]
      by (auto simp: lru_PutIfAbsent_def a_PutIfAbsent_def lru_wf_index_lookup [OF wf] intro: op_refinesI [OF wf])
  next
    case (Some a)
    then show ?thesis
      by (auto simp: lru_PutIfAbsent_def a_PutIfAbsent_def lru_wf_index_lookup [OF wf] intro: op_refinesI [OF wf])
  qed
qed

lemma lru_Set_refines:
  assumes "lru_inv s"
  shows "op_refines (lru_Set s key value) (a_Set (lru_abs s) key value)"
proof -
  note wf = lru_inv_wf [OF assms]
  show ?thesis
  proof (cases "lru_index s key")
    case None
    then show ?thesis
      by (auto simp: lru_Set_def a_Set_def lru_wf_index_lookup(1) [OF wf, THEN iffD2] intro: op_refinesI [OF wf])
  next
    case (Some a)
    note v = lru_wf_index_lookup(2) [OF wf Some]
    show ?thesis
      using refines_op [OF update_value_refines [OF wf Some v, of "value"], of True]
      by (auto simp: lru_Set_def a_Set_def Some v add.commute intro: op_refinesI [OF wf])
  qed
qed

lemma lru_Get_refines:
  assumes "lru_inv s"
  shows "op_refines (lru_Get s key) (Inr (a_Get (lru_abs s) key))"
proof -
  note wf = lru_inv_wf [OF assms]
  show ?thesis
  proof (cases "lru_index s key")
    case None
    then show ?thesis
      by (auto simp: lru_Get_def a_Get_def lru_wf_index_lookup(1) [OF wf, THEN iffD2] intro: op_refinesI [OF wf])
  next
    case (Some a)
    note v = lru_wf_index_lookup(2) [OF wf Some]
    have "a \<in> set (lru_chain s)" and ka: "fst (entry (cell (lru_heap s)) a) = key"
      using lru_wf_index [OF wf] Some by auto
    then obtain us vs where xs: "lru_chain s = us @ a # vs" by (auto dest: split_list)
    then obtain n where n: "cell (lru_heap s) a = Some n" using lru_wf_node wf by metis
    obtain s' where s': "move_to_fresh_data s a = Inr s'" "lru_wf s' (us @ vs @ [a])"
      "\<And>x. entry (cell (lru_heap s')) x = entry (cell (lru_heap s)) x"
      "max_size s' = max_size s" "current_size s' = current_size s"
      using move_to_fresh wf xs by metis
    have ea: "entry (cell (lru_heap s)) a = (key, node_value n)"
      using n ka by (simp add: entry_def)
    have "a_touch key (node_value n) (map (entry (cell (lru_heap s))) (us @ a # vs)) =
        map (entry (cell (lru_heap s))) us @ map (entry (cell (lru_heap s))) vs @ [(key, node_value n)]"
      using lru_wf_keys_distinct [OF wf] ea by (intro a_touch_split) (auto simp: xs)
    then have "lru_abs s' = (lru_abs s)\<lparr>a_entries := a_touch key (node_value n) (a_entries (lru_abs s))\<rparr>"
      by (simp add: lru_wf_abs [OF wf] lru_wf_abs [OF s'(2)] s' xs ea)
    then show ?thesis
      using n s'(1,2) v by (auto simp: lru_Get_def a_Get_def Some ea intro: op_refinesI)
  qed
qed

lemma lru_Delete_refines:
  assumes "lru_inv s"
  shows "op_refines (lru_Delete s key) (a_Delete (lru_abs s) key)"
proof -
  note wf = lru_inv_wf [OF assms]
  let ?e = "entry (cell (lru_heap s))"
  show ?thesis
  proof (cases "lru_index s key")
    case None
    then show ?thesis
      by (auto simp: lru_Delete_def a_Delete_def lru_wf_index_lookup(1) [OF wf, THEN iffD2] intro: op_refinesI [OF wf])
  next
    case (Some a)
    have ka: "fst (?e a) = key" and ne: "map_of (a_entries (lru_abs s)) key \<noteq> None"
      using lru_wf_index [OF wf] Some lru_wf_index_lookup(1) [OF wf, of key] by auto
    have "a \<in> set (lru_chain s)" using lru_wf_index [OF wf] Some by auto
    then obtain us vs where xs: "lru_chain s = us @ a # vs" by (auto dest: split_list)
    have ents: "a_entries (lru_abs s) = map ?e us @ ?e a # map ?e vs"
      by (simp add: lru_wf_abs [OF wf] xs)
    have dis: "key \<notin> fst ` ?e ` set us" "key \<notin> fst ` ?e ` set vs"
      using lru_wf_keys_distinct [OF wf] ka by (auto simp: xs)
    show ?thesis
    proof (cases us rule: rev_cases)
      case Nil
      show ?thesis
      proof (cases vs)
        case Nil
        then show ?thesis using remove_node_single [of s a] wf \<open>us = []\<close> ents ne ka Some xs
          by (simp add: lru_Delete_def a_Delete_def a_remove_head_def)
      next
        case (Cons c ws)
        then obtain s' where "remove_node s a = Inr s'" "lru_wf s' (c # ws)"
          "lru_abs s' = (lru_abs s)\<lparr>a_entries := tl (a_entries (lru_abs s)),
            a_cur := current_size s - esize (last (a_entries (lru_abs s)))\<rparr>"
          using remove_node_head [of s a c ws] wf xs Nil by auto
        then show ?thesis using Some ents ne ka Cons Nil
          by (auto simp: lru_Delete_def a_Delete_def a_remove_head_def intro!: op_refinesI)
      qed
    next
      case (snoc ps p)
      have hd: "fst (hd (a_entries (lru_abs s))) \<noteq> key"
        using dis(1) snoc unfolding ents by (cases ps) auto
      show ?thesis
      proof (cases "vs = []")
        case True
        then obtain s' where "remove_node s a = Inr s'" "lru_wf s' (ps @ [p])"
          "lru_abs s' = (lru_abs s)\<lparr>a_entries := butlast (a_entries (lru_abs s)),
            a_cur := current_size s - esize (last (a_entries (lru_abs s)))\<rparr>"
          using remove_node_tail [of s ps p a] wf xs snoc by auto
        then show ?thesis using Some ne ka hd ents True
          by (auto simp: lru_Delete_def a_Delete_def intro!: op_refinesI)
      next
        case False
        then have "fst (last (a_entries (lru_abs s))) \<noteq> key"
          using dis(2) unfolding ents by (auto simp: last_map)
        then show ?thesis using Some ne hd remove_node_middle [of s us a vs] wf xs snoc False
          by (auto simp: lru_Delete_def a_Delete_def)
      qed
    qed
  qed
qed

end
