(* ===== verification/LRU_Properties.thy ===== *)
theory LRU_Properties
  imports LRU_Storage
begin

text \<open>
  What the refinement gives for the storage itself: what a client reads back, in which order entries
  are evicted, when the size accounting is exact, where the code faults, and that the destructor frees
  every node once.
\<close>

section \<open>Refinement and invariant\<close>

text \<open>The state every history starts from, with the invariant.\<close>

lemma SimpleLRU_inv: "lru_inv (SimpleLRU sz)" "lru_abs (SimpleLRU sz) = \<lparr>a_max = sz, a_cur = 0, a_entries = []\<rparr>"
  by (simp_all add: lru_wf_inv [OF SimpleLRU_wf] lru_wf_abs [OF SimpleLRU_wf]) (simp_all add: SimpleLRU_def)

section \<open>Eviction takes the least recently used entries\<close>

lemma a_evict_suffix: "a_evict_while b t = Inr t' \<Longrightarrow> \<exists>us. a_entries t = us @ a_entries t'"
proof (induction b t rule: a_evict_while.induct)
  case (1 b t)
  show ?case
  proof (cases "b (a_cur t)")
    case False
    with 1(2) show ?thesis by (subst (asm) a_evict_while.simps) simp
  next
    case True
    then obtain t1 where t1: "a_remove_head t = Inr t1" "a_evict_while b t1 = Inr t'"
      using 1(2) by (subst (asm) a_evict_while.simps) (auto split: sum.splits)
    then obtain us where "a_entries t1 = us @ a_entries t'" using 1(1) True by blast
    moreover have "\<exists>e. a_entries t = e # a_entries t1"
      using t1(1) by (auto simp: a_remove_head_def split: list.splits)
    ultimately show ?thesis by (metis append_Cons)
  qed
qed

lemma a_evict_drop: "a_evict_while b t = Inr t' \<Longrightarrow> \<exists>i. a_entries t' = drop i (a_entries t)"
  using a_evict_suffix by (metis append_eq_conv_conj)

lemma a_evict_progress:
  assumes "b (a_cur t)" "a_evict_while b t = Inr t'"
  shows "length (a_entries t') < length (a_entries t)"
proof -
  obtain t1 where t1: "a_remove_head t = Inr t1" "a_evict_while b t1 = Inr t'"
    using assms a_evict_while.simps [of b t] by (auto split: sum.splits)
  have "length (a_entries t1) < length (a_entries t)"
    using t1(1) by (auto simp: a_remove_head_def split: list.splits)
  moreover have "length (a_entries t') \<le> length (a_entries t1)"
    using a_evict_suffix [OF t1(2)] by auto
  ultimately show ?thesis by simp
qed

lemma a_insert_entries:
  assumes "a_insert t k v = Inr t'"
  shows "\<exists>i. a_entries t' = drop i (a_entries t) @ [(k, v)]"
proof -
  obtain t1 b where "a_evict_while b t = Inr t1" "a_entries t' = a_entries t1 @ [(k, v)]"
    using assms by (auto simp: a_insert_def res_simps)
  then show ?thesis using a_evict_drop by metis
qed

lemma a_update_entries:
  assumes "a_update t k old v = Inr t'"
  shows "\<exists>i. a_entries t' = a_touch k v (drop i (a_entries t))"
proof -
  obtain t1 b where "a_evict_while b t = Inr t1" "a_entries t' = a_touch k v (a_entries t1)"
    using assms by (auto simp: a_update_def res_simps Let_def split: if_splits)
  then show ?thesis using a_evict_drop by metis
qed

lemma a_touch_absent: "map_of es k = None \<Longrightarrow> a_touch k v (drop i es) = drop i es @ [(k, v)]"
  by (auto simp: a_touch_def map_of_eq_None_iff intro!: filter_id_if dest!: in_set_dropD)

lemma a_evict_stops: "a_evict_while b t = Inr t' \<Longrightarrow> \<not> b (a_cur t')"
proof (induction b t rule: a_evict_while.induct)
  case (1 b t)
  then show ?case using a_evict_while.simps [of b t] by (auto split: if_splits sum.splits)
qed

lemma map_of_suffix:
  assumes "distinct (map fst (us @ vs))" "map_of vs k = Some v"
  shows "map_of (us @ vs) k = Some v"
  using assms by (metis in_set_conv_decomp append_assoc map_of_SomeD map_of_is_SomeI)

section \<open>What a client reads back\<close>

definition lru_view :: "lru \<Rightarrow> string \<rightharpoonup> string" where
  "lru_view s k = map_of (a_entries (lru_abs s)) k"

definition only_forgets :: "(string \<rightharpoonup> string) \<Rightarrow> (string \<rightharpoonup> string) \<Rightarrow> string \<Rightarrow> bool" where
  "only_forgets m m' k \<longleftrightarrow> (\<forall>k'. k' \<noteq> k \<longrightarrow> m' k' = None \<or> m' k' = m k')"

lemma lru_inv_distinct: "lru_inv s \<Longrightarrow> distinct (map fst (a_entries (lru_abs s)))"
  using lru_wf_keys_distinct lru_inv_wf by (fastforce simp: lru_abs_def)

lemma a_evict_view:
  assumes "distinct (map fst (a_entries t))" "a_evict_while b t = Inr t'"
  shows "distinct (map fst (a_entries t'))"
    and "map_of (a_entries t') k = None \<or> map_of (a_entries t') k = map_of (a_entries t) k"
proof -
  obtain us where us: "a_entries t = us @ a_entries t'" using a_evict_suffix [OF assms(2)] by blast
  then show "distinct (map fst (a_entries t'))" using assms(1) by simp
  show "map_of (a_entries t') k = None \<or> map_of (a_entries t') k = map_of (a_entries t) k"
    using map_of_suffix [of us "a_entries t'" k] assms(1) us by (cases "map_of (a_entries t') k") auto
qed

lemma map_of_snoc: "map_of (xs @ [(k, v)]) k' = (case map_of xs k' of None \<Rightarrow> if k' = k then Some v else None | Some w \<Rightarrow> Some w)"
  by (auto simp: map_add_def split: option.splits)

lemma map_of_touch: "map_of (a_touch k v es) k' = (if k' = k then Some v else map_of es k')"
proof -
  have "map_of (filter (\<lambda>e. fst e \<noteq> k) es) k' = (if k' = k then None else map_of es k')"
    by (induction es) auto
  then show ?thesis by (simp add: a_touch_def map_add_def split: option.splits)
qed

lemma a_insert_view:
  assumes "distinct (map fst (a_entries t))" "map_of (a_entries t) k = None" "a_insert t k v = Inr t'"
  shows "map_of (a_entries t') k = Some v \<and> only_forgets (map_of (a_entries t)) (map_of (a_entries t')) k"
proof -
  obtain t1 where t1: "a_evict_while (\<lambda>cur. cur > a_max t - str_size k - str_size v) t = Inr t1"
    and t': "a_entries t' = a_entries t1 @ [(k, v)]"
    using assms(3) by (auto simp: a_insert_def res_simps)
  note ev = a_evict_view [OF assms(1) t1]
  show ?thesis
    using ev(2) [of k] ev(2) assms(2) unfolding t' only_forgets_def map_of_snoc
    by (auto split: option.splits) (metis option.distinct(1))+
qed

lemma a_update_view:
  assumes "distinct (map fst (a_entries t))" "a_update t k old v = Inr t'"
  shows "map_of (a_entries t') k = Some v \<and> only_forgets (map_of (a_entries t)) (map_of (a_entries t')) k"
proof -
  obtain b t1 where t1: "a_evict_while b t = Inr t1"
    and t': "a_entries t' = a_touch k v (a_entries t1)"
    using assms(2) by (auto simp: a_update_def res_simps Let_def split: if_splits)
  show ?thesis
    using a_evict_view [OF assms(1) t1] unfolding t' only_forgets_def map_of_touch by auto
qed

lemma op_refinesD:
  assumes "op_refines r a" "r = Inr (x, s)"
  shows "a = Inr (x, lru_abs s)" "lru_inv s"
  using assms by (auto simp: op_refines_def)

lemma lru_Put_view:
  assumes inv: "lru_inv s" and r: "lru_Put s k v = Inr (b, s')"
  shows "b = (str_size k + str_size v \<le> max_size s) \<and>
    (if b then lru_view s' k = Some v \<and> only_forgets (lru_view s) (lru_view s') k else s' = s)"
proof -
  note d = op_refinesD [OF lru_Put_refines [OF inv] r]
  show ?thesis
  proof (cases "str_size k + str_size v > max_size s")
    case True
    then show ?thesis using r by (auto simp: lru_Put_def)
  next
    case False
    then have b: "b" and a: "case map_of (a_entries (lru_abs s)) k of
        None \<Rightarrow> a_insert (lru_abs s) k v = Inr (lru_abs s')
      | Some old \<Rightarrow> a_update (lru_abs s) k old v = Inr (lru_abs s')"
      using d(1) by (auto simp: a_Put_def res_simps split: option.splits)
    show ?thesis
      using a b False a_insert_view [OF lru_inv_distinct [OF inv]] a_update_view [OF lru_inv_distinct [OF inv]]
      unfolding lru_view_def [abs_def] by (auto split: option.splits)
  qed
qed

lemma lru_PutIfAbsent_view:
  assumes inv: "lru_inv s" and r: "lru_PutIfAbsent s k v = Inr (b, s')"
  shows "b = (str_size k + str_size v \<le> max_size s \<and> lru_view s k = None) \<and>
    (if b then lru_view s' k = Some v \<and> only_forgets (lru_view s) (lru_view s') k else s' = s)"
proof (cases "str_size k + str_size v > max_size s \<or> lru_view s k \<noteq> None")
  case True
  then show ?thesis
    using r lru_wf_index_lookup(1) [OF lru_inv_wf [OF inv], of k]
    by (auto simp: lru_PutIfAbsent_def lru_view_def split: option.splits if_splits)
next
  case False
  then have "b" "a_insert (lru_abs s) k v = Inr (lru_abs s')"
    using op_refinesD(1) [OF lru_PutIfAbsent_refines [OF inv] r]
    by (auto simp: a_PutIfAbsent_def lru_view_def res_simps)
  then show ?thesis
    using False a_insert_view [OF lru_inv_distinct [OF inv]] unfolding lru_view_def [abs_def] by auto
qed

lemma lru_Set_view:
  assumes inv: "lru_inv s" and r: "lru_Set s k v = Inr (b, s')"
  shows "b = (str_size k + str_size v \<le> max_size s \<and> lru_view s k \<noteq> None) \<and>
    (if b then lru_view s' k = Some v \<and> only_forgets (lru_view s) (lru_view s') k else s' = s)"
proof (cases "str_size k + str_size v > max_size s \<or> lru_view s k = None")
  case True
  then show ?thesis
    using r lru_wf_index_lookup(1) [OF lru_inv_wf [OF inv], of k]
    by (auto simp: lru_Set_def lru_view_def add.commute split: option.splits if_splits)
next
  case False
  then obtain old where "b" "a_update (lru_abs s) k old v = Inr (lru_abs s')"
    using op_refinesD(1) [OF lru_Set_refines [OF inv] r]
    by (auto simp: a_Set_def lru_view_def res_simps)
  then show ?thesis
    using False a_update_view [OF lru_inv_distinct [OF inv]] unfolding lru_view_def [abs_def] by auto
qed

lemma a_Get_view:
  "a_Get t k = (x, t') \<Longrightarrow>
   x = map_of (a_entries t) k \<and> map_of (a_entries t') = map_of (a_entries t) \<and> a_max t' = a_max t"
  by (auto simp: a_Get_def fun_eq_iff map_of_touch split: option.splits)

lemma map_of_butlast:
  assumes "distinct (map fst es)" "es \<noteq> []" "fst (last es) = k"
  shows "map_of (butlast es) = (map_of es)(k := None)"
proof -
  obtain fs f where fs: "es = fs @ [f]" using butlast_snoc_split [OF assms(2)] by blast
  have "map_of fs k = None" using assms fs by (auto simp: map_of_eq_None_iff)
  then show ?thesis using assms fs by (cases f) (auto simp: fun_eq_iff map_add_def split: option.splits)
qed

lemma map_of_tl:
  assumes "distinct (map fst es)" "es \<noteq> []" "fst (hd es) = k"
  shows "map_of (tl es) = (map_of es)(k := None)"
  using assms by (cases es) (auto simp: fun_eq_iff map_of_eq_None_iff)

lemma a_Delete_view:
  assumes "distinct (map fst (a_entries t))" "a_Delete t k = Inr (b, t')"
  shows "b = (map_of (a_entries t) k \<noteq> None) \<and> map_of (a_entries t') = (map_of (a_entries t))(k := None)"
proof (cases "map_of (a_entries t) k")
  case None
  then show ?thesis using assms by (auto simp: a_Delete_def)
next
  case (Some v)
  then have ne: "a_entries t \<noteq> []" by auto
  then have "b" "fst (hd (a_entries t)) = k \<and> a_entries t' = tl (a_entries t) \<or>
      fst (last (a_entries t)) = k \<and> a_entries t' = butlast (a_entries t)"
    using Some assms(2) by (auto simp: a_Delete_def a_remove_head_def res_simps split: if_splits list.splits)
  then show ?thesis
    using Some map_of_butlast [OF assms(1) ne] map_of_tl [OF assms(1) ne] by auto
qed

lemma lru_Get_view:
  assumes inv: "lru_inv s"
  shows "\<exists>s'. lru_Get s k = Inr (lru_view s k, s') \<and> lru_inv s' \<and> lru_view s' = lru_view s \<and>
    max_size s' = max_size s"
proof -
  note r = lru_Get_refines [OF inv, of k]
  then obtain x s' where g: "lru_Get s k = Inr (x, s')"
    by (cases "lru_Get s k") (auto simp: op_refines_def)
  note d = op_refinesD [OF r g]
  have "x = lru_view s k" "lru_view s' = lru_view s" "a_max (lru_abs s') = a_max (lru_abs s)"
    using a_Get_view [of "lru_abs s" k x "lru_abs s'"] d(1) by (auto simp: lru_view_def)
  then show ?thesis using g d(2) by simp
qed

lemma lru_Delete_view:
  assumes inv: "lru_inv s" and r: "lru_Delete s k = Inr (b, s')"
  shows "b = (lru_view s k \<noteq> None) \<and> lru_view s' = (lru_view s)(k := None) \<and> (\<not> b \<longrightarrow> s' = s)"
proof (cases "lru_view s k")
  case None
  then show ?thesis
    using r lru_wf_index_lookup(1) [OF lru_inv_wf [OF inv], of k]
    by (auto simp: lru_Delete_def lru_view_def fun_eq_iff split: option.splits)
next
  case (Some v)
  then show ?thesis
    using a_Delete_view [OF lru_inv_distinct [OF inv] op_refinesD(1) [OF lru_Delete_refines [OF inv] r]]
    by (auto simp: lru_view_def [abs_def])
qed

section \<open>The destructor frees every node once\<close>

lemma live_count_0: "(\<And>a. cell h a = None) \<Longrightarrow> live_count h = 0"
  by (auto simp: live_count_def cell_def filter_empty_conv) (metis in_set_conv_nth option.distinct(1))

lemma dtor_loop_frees:
  assumes "dseg (cell (lru_heap s)) p xs None" "distinct xs" "dom (cell (lru_heap s)) = set xs"
    and "lru_head s = first_of xs None" "xs \<noteq> []"
  shows "\<exists>s' a n. dtor_loop s = Inr s' \<and> lru_head s' = Some a \<and> cell (lru_heap s') = [a \<mapsto> n] \<and>
    node_next n = None"
  using assms
proof (induction xs arbitrary: s p)
  case (Cons a xs)
  then obtain n where n: "cell (lru_heap s) a = Some n" "node_next n = first_of xs None"
    by (auto split: option.splits)
  have hd: "lru_head s = Some a" using Cons.prems by simp
  show ?case
  proof (cases xs)
    case Nil
    then have "cell (lru_heap s) = [a \<mapsto> n]"
      using Cons.prems(3) n by (auto simp: fun_eq_iff)
    then show ?thesis using n Nil hd by (subst dtor_loop.simps) auto
  next
    case (Cons b ys)
    define s1 where "s1 = s\<lparr>lru_head := Some b,
        lru_heap := (lru_heap s)[a := Some (n\<lparr>node_next := None\<rparr>), a := None]\<rparr>"
    have step: "dtor_loop s = dtor_loop s1"
      using n hd Cons by (subst dtor_loop.simps) (simp add: lru_step_defs cell_write Let_def s1_def)
    have m: "cell (lru_heap s1) = (cell (lru_heap s))(a := None)"
      using n by (simp add: s1_def cell_write)
    have "\<exists>s' a n. dtor_loop s1 = Inr s' \<and> lru_head s' = Some a \<and> cell (lru_heap s') = [a \<mapsto> n] \<and>
      node_next n = None"
    proof (rule Cons.IH)
      show "dseg (cell (lru_heap s1)) (Some a) xs None"
        using Cons.prems(1,2) n by (simp add: m)
      show "dom (cell (lru_heap s1)) = set xs" using Cons.prems(2,3) by (auto simp: m)
      show "lru_head s1 = first_of xs None" by (simp add: s1_def Cons)
    qed (use Cons.prems(2) Cons in auto)
    with step show ?thesis by (simp only:)
  qed
qed simp

lemma lru_destructor_frees_all:
  assumes "lru_inv s"
  shows "\<exists>s'. lru_destructor s = Inr s' \<and> live_count (lru_heap s') = 0"
proof -
  note wf = lru_inv_wf [OF assms]
  show ?thesis
  proof (cases "lru_chain s = []")
    case True
    then have "\<And>a. cell (lru_heap s) a = None" using lru_wf_struct(3) [OF wf] by auto
    then show ?thesis
      using lru_wf_struct(4) [OF wf] True by (auto simp: lru_destructor_def live_count_0)
  next
    case False
    let ?s = "s\<lparr>lru_index := Map.empty\<rparr>"
    have "\<exists>s' a n. dtor_loop ?s = Inr s' \<and> lru_head s' = Some a \<and>
      cell (lru_heap s') = [a \<mapsto> n] \<and> node_next n = None"
      using lru_wf_struct [OF wf] False by (intro dtor_loop_frees) auto
    then obtain s' a n where d: "dtor_loop ?s = Inr s'" "lru_head s' = Some a"
      "cell (lru_heap s') = [a \<mapsto> n]" "node_next n = None" by blast
    have "lru_head s \<noteq> None" using lru_wf_struct(4) [OF wf] False by (cases "lru_chain s") auto
    moreover have "cell (lru_heap s') a = Some n" using d(3) by simp
    moreover from this have "live_count ((lru_heap s')[a := None]) = 0"
      using d(3) by (intro live_count_0) (simp add: cell_write)
    ultimately show ?thesis using d by (auto simp: lru_destructor_def delete_node_def)
  qed
qed

section \<open>Entries of one size: exact accounting, no fault\<close>

text \<open>
  \<open>_remove_node\<close> takes the size of the tail off \<open>_current_size\<close>, whichever node it removes. When all
  entries have the same size \<open>n\<close> this is the size of the removed node, and a storage with room for at
  least two of them counts exactly, stays within its bound and never evicts its only node.
\<close>

definition uniform :: "nat \<Rightarrow> alru \<Rightarrow> bool" where
  "uniform n t \<longleftrightarrow> (\<forall>e\<in>set (a_entries t). length (fst e) + length (snd e) = n) \<and>
     a_cur t = of_nat (n * length (a_entries t)) \<and> n * length (a_entries t) \<le> unat (a_max t) \<and>
     2 * n \<le> unat (a_max t) \<and> distinct (map fst (a_entries t))"

lemma unat_of_nat_le: "m \<le> unat (w :: size_t) \<Longrightarrow> unat (of_nat m :: size_t) = m"
proof -
  assume "m \<le> unat w"
  also have "\<dots> < 2 ^ 64" using unsigned_less [of w] by simp
  finally show ?thesis by (simp add: unat_of_nat)
qed

lemma esize_of_nat: "esize e = of_nat (length (fst e) + length (snd e))"
  by (simp add: esize_def str_size_def)

lemma uniform_fits:
  assumes "2 * n \<le> unat (m :: size_t)" "length k + length v = n"
  shows "\<not> str_size k + str_size v > m" "unat (m - str_size k - str_size v) = unat m - n"
proof -
  have s: "str_size k + str_size v = (of_nat n :: size_t)" using assms(2) by (auto simp: str_size_def)
  have u: "unat (of_nat n :: size_t) = n" using assms(1) by (intro unat_of_nat_le [of _ m]) simp
  show "\<not> str_size k + str_size v > m" using u assms(1) by (simp add: s word_less_nat_alt)
  have "m - str_size k - str_size v = m - of_nat n" by (simp add: diff_diff_eq s)
  moreover have "of_nat n \<le> m" using u assms(1) by (simp add: word_le_nat_alt)
  ultimately show "unat (m - str_size k - str_size v) = unat m - n" using u by (simp only: unat_sub)
qed

lemma uniform_remove_head:
  assumes u: "uniform n t" and l: "2 \<le> length (a_entries t)"
  shows "\<exists>t'. a_remove_head t = Inr t' \<and> uniform n t' \<and> a_max t' = a_max t \<and>
    length (a_entries t') = length (a_entries t) - 1 \<and> set (a_entries t') \<subseteq> set (a_entries t)"
proof -
  obtain e f es where es: "a_entries t = e # f # es"
    using l by (cases "a_entries t"; cases "tl (a_entries t)") auto
  have "length (fst (last (f # es))) + length (snd (last (f # es))) = n"
    using u es last_in_set [of "f # es"] unfolding uniform_def by auto
  then have z: "esize (last (f # es)) = of_nat n" by (simp only: esize_of_nat)
  have "uniform n (t\<lparr>a_entries := f # es, a_cur := a_cur t - of_nat n\<rparr>)"
    using u es by (simp add: uniform_def algebra_simps)
  then show ?thesis using es z by (auto simp: a_remove_head_def)
qed

lemma uniform_evict:
  assumes "uniform n t" "\<And>t'. uniform n t' \<Longrightarrow> a_max t' = a_max t \<Longrightarrow> b (a_cur t') \<Longrightarrow> 2 \<le> length (a_entries t')"
  shows "\<exists>t'. a_evict_while b t = Inr t' \<and> uniform n t' \<and> a_max t' = a_max t \<and> \<not> b (a_cur t') \<and>
    set (a_entries t') \<subseteq> set (a_entries t)"
  using assms
proof (induction b t rule: a_evict_while.induct)
  case (1 b t)
  show ?case
  proof (cases "b (a_cur t)")
    case False
    then show ?thesis using 1(2) by (subst a_evict_while.simps) auto
  next
    case True
    obtain t1 where t1: "a_remove_head t = Inr t1" "uniform n t1" "a_max t1 = a_max t"
      "set (a_entries t1) \<subseteq> set (a_entries t)"
      using uniform_remove_head [OF 1(2)] 1(3) [OF 1(2) _ True] by auto
    then obtain t' where "a_evict_while b t1 = Inr t'" "uniform n t'" "a_max t' = a_max t1"
      "\<not> b (a_cur t')" "set (a_entries t') \<subseteq> set (a_entries t1)"
      using 1(1) [OF True t1(1) t1(2)] 1(3) by metis
    then show ?thesis using True t1 by (subst a_evict_while.simps) auto
  qed
qed

lemma uniform_insert:
  assumes u: "uniform n t" and n: "length k + length v = n" and k: "map_of (a_entries t) k = None"
  shows "\<exists>t'. a_insert t k v = Inr t' \<and> uniform n t' \<and> a_max t' = a_max t"
proof -
  let ?b = "\<lambda>cur. cur > a_max t - str_size k - str_size v"
  have m: "2 * n \<le> unat (a_max t)" using u by (simp add: uniform_def)
  have b: "?b (a_cur t') \<longleftrightarrow> unat (a_max t) - n < n * length (a_entries t')"
    if "uniform n t'" "a_max t' = a_max t" for t'
    using that uniform_fits(2) [OF m n] unat_of_nat_le [of "n * length (a_entries t')" "a_max t"]
    by (auto simp: uniform_def word_less_nat_alt)
  have "2 \<le> length (a_entries t')" if "uniform n t'" "a_max t' = a_max t" "?b (a_cur t')" for t'
  proof (rule ccontr)
    assume "\<not> 2 \<le> length (a_entries t')"
    then have "n * length (a_entries t') \<le> n * 1" by (intro mult_le_mono2) simp
    moreover have "unat (a_max t) - n < n * length (a_entries t')" using b [OF that(1,2)] that(3) by blast
    ultimately show False using m by linarith
  qed
  then obtain t1 where t1: "a_evict_while ?b t = Inr t1" "uniform n t1" "a_max t1 = a_max t" "\<not> ?b (a_cur t1)"
    "set (a_entries t1) \<subseteq> set (a_entries t)"
    using uniform_evict [OF u, of ?b] by blast
  have le: "n * length (a_entries t1) + n \<le> unat (a_max t)"
    using b [OF t1(2,3)] t1(4) m by simp
  have "k \<notin> fst ` set (a_entries t1)" using k t1(5) by (auto simp: map_of_eq_None_iff)
  then show ?thesis using t1 le n
    by (auto simp: a_insert_def uniform_def str_size_def algebra_simps)
qed

lemma uniform_touch:
  assumes u: "uniform n t" and old: "map_of (a_entries t) k = Some old" and n: "length k + length v = n"
  shows "uniform n (t\<lparr>a_entries := a_touch k v (a_entries t)\<rparr>)" "length v = length old"
proof -
  have mem: "(k, old) \<in> set (a_entries t)" using old by (rule map_of_SomeD)
  then show "length v = length old" using u n by (auto simp: uniform_def)
  obtain us vs where es: "a_entries t = us @ (k, old) # vs" using mem by (auto dest: split_list)
  then have "a_touch k v (a_entries t) = us @ vs @ [(k, v)]"
    using u by (intro a_touch_split) (auto simp: uniform_def)
  then show "uniform n (t\<lparr>a_entries := a_touch k v (a_entries t)\<rparr>)"
    using u es n by (auto simp: uniform_def)
qed

lemma uniform_update:
  assumes u: "uniform n t" and old: "map_of (a_entries t) k = Some old" and n: "length k + length v = n"
  shows "\<exists>t'. a_update t k old v = Inr t' \<and> uniform n t' \<and> a_max t' = a_max t"
proof -
  have d: "str_size v - str_size old = 0"
    using uniform_touch(2) [OF assms] by (simp add: str_size_def)
  have "unat (a_cur t) \<le> unat (a_max t)"
    using u unat_of_nat_le [of "n * length (a_entries t)" "a_max t"] by (simp add: uniform_def)
  then have "a_evict_while (\<lambda>cur. cur + 0 > a_max t) t = Inr t"
    by (subst a_evict_while.simps) (simp add: word_less_nat_alt)
  then show ?thesis using uniform_touch(1) [OF assms] d old by (simp add: a_update_def Let_def)
qed

text \<open>Histories of calls of the interface.\<close>

datatype lru_op =
    OpPut string string
  | OpPutIfAbsent string string
  | OpSet string string
  | OpDelete string
  | OpGet string

fun lru_step :: "lru \<Rightarrow> lru_op \<Rightarrow> fault + lru" where
  "lru_step s (OpPut k v) = map_sum id snd (lru_Put s k v)"
| "lru_step s (OpPutIfAbsent k v) = map_sum id snd (lru_PutIfAbsent s k v)"
| "lru_step s (OpSet k v) = map_sum id snd (lru_Set s k v)"
| "lru_step s (OpDelete k) = map_sum id snd (lru_Delete s k)"
| "lru_step s (OpGet k) = map_sum id snd (lru_Get s k)"

fun lru_run :: "lru \<Rightarrow> lru_op list \<Rightarrow> fault + lru" where
  "lru_run s [] = Inr s"
| "lru_run s (c # cs) = rbind (lru_step s c) (\<lambda>s'. lru_run s' cs)"

fun op_size :: "nat \<Rightarrow> lru_op \<Rightarrow> bool" where
  "op_size n (OpPut k v) = (length k + length v = n)"
| "op_size n (OpPutIfAbsent k v) = (length k + length v = n)"
| "op_size n (OpSet k v) = (length k + length v = n)"
| "op_size n (OpDelete k) = False"
| "op_size n (OpGet k) = True"

lemma op_refines_run:
  assumes "op_refines r a" "map_sum id snd a = Inr t"
  shows "\<exists>s. map_sum id snd r = Inr s \<and> lru_inv s \<and> lru_abs s = t"
  using assms by (cases r) (auto simp: op_refines_def)

lemma lru_step_inv: "lru_inv s \<Longrightarrow> lru_step s c = Inr s' \<Longrightarrow> lru_inv s'"
  by (cases c) (auto simp: map_sum_Inr_iff dest: op_refinesD(2) [OF lru_Put_refines]
      op_refinesD(2) [OF lru_PutIfAbsent_refines] op_refinesD(2) [OF lru_Set_refines]
      op_refinesD(2) [OF lru_Delete_refines] op_refinesD(2) [OF lru_Get_refines])

lemma lru_run_inv: "lru_inv s \<Longrightarrow> lru_run s cs = Inr s' \<Longrightarrow> lru_inv s'"
  by (induction cs arbitrary: s) (auto simp: res_simps dest: lru_step_inv)

lemma uniform_Put:
  assumes u: "uniform n t" and n: "length k + length v = n"
  shows "\<exists>t'. map_sum id snd (a_Put t k v) = Inr t' \<and> uniform n t' \<and> a_max t' = a_max t"
    and "\<exists>t'. map_sum id snd (a_PutIfAbsent t k v) = Inr t' \<and> uniform n t' \<and> a_max t' = a_max t"
    and "\<exists>t'. map_sum id snd (a_Set t k v) = Inr t' \<and> uniform n t' \<and> a_max t' = a_max t"
proof -
  have m: "2 * n \<le> unat (a_max t)" using u by (simp add: uniform_def)
  note fit = uniform_fits(1) [OF m n] and ins = uniform_insert [OF u n] and upd = uniform_update [OF u _ n]
  show "\<exists>t'. map_sum id snd (a_Put t k v) = Inr t' \<and> uniform n t' \<and> a_max t' = a_max t"
    using fit ins upd by (cases "map_of (a_entries t) k") (fastforce simp: a_Put_def)+
  show "\<exists>t'. map_sum id snd (a_PutIfAbsent t k v) = Inr t' \<and> uniform n t' \<and> a_max t' = a_max t"
    using fit ins u by (cases "map_of (a_entries t) k") (fastforce simp: a_PutIfAbsent_def)+
  show "\<exists>t'. map_sum id snd (a_Set t k v) = Inr t' \<and> uniform n t' \<and> a_max t' = a_max t"
    using fit upd u by (cases "map_of (a_entries t) k") (fastforce simp: a_Set_def)+
qed

lemma uniform_Get:
  assumes "uniform n t"
  shows "\<exists>t'. map_sum id snd (Inr (a_Get t k) :: fault + _) = Inr t' \<and> uniform n t' \<and> a_max t' = a_max t"
proof (cases "map_of (a_entries t) k")
  case (Some v)
  then have "length k + length v = n" using assms by (auto simp: uniform_def dest!: map_of_SomeD)
  then show ?thesis using uniform_touch(1) [OF assms Some] Some by (simp add: a_Get_def)
qed (use assms in \<open>simp add: a_Get_def\<close>)

lemma uniform_op:
  assumes "op_refines r a" "\<exists>t'. map_sum id snd a = Inr t' \<and> uniform n t' \<and> a_max t' = a_max (lru_abs s)"
  shows "\<exists>s'. map_sum id snd r = Inr s' \<and> lru_inv s' \<and> uniform n (lru_abs s') \<and> max_size s' = max_size s"
proof -
  obtain t' where t': "map_sum id snd a = Inr t'" "uniform n t'" "a_max t' = a_max (lru_abs s)"
    using assms(2) by blast
  obtain s' where "map_sum id snd r = Inr s'" "lru_inv s'" "lru_abs s' = t'"
    using op_refines_run [OF assms(1) t'(1)] by blast
  then show ?thesis using t'(2,3) by (metis lru_abs_max(1))
qed

lemma uniform_step:
  assumes "lru_inv s" "uniform n (lru_abs s)" "op_size n c"
  shows "\<exists>s'. lru_step s c = Inr s' \<and> lru_inv s' \<and> uniform n (lru_abs s') \<and> max_size s' = max_size s"
proof (cases c)
  case (OpPut k v)
  then show ?thesis
    using uniform_op [OF lru_Put_refines [OF assms(1)] uniform_Put(1) [OF assms(2)]] assms(3) by simp
next
  case (OpPutIfAbsent k v)
  then show ?thesis
    using uniform_op [OF lru_PutIfAbsent_refines [OF assms(1)] uniform_Put(2) [OF assms(2)]] assms(3) by simp
next
  case (OpSet k v)
  then show ?thesis
    using uniform_op [OF lru_Set_refines [OF assms(1)] uniform_Put(3) [OF assms(2)]] assms(3) by simp
next
  case (OpGet k)
  then show ?thesis
    using uniform_op [OF lru_Get_refines [OF assms(1)] uniform_Get [OF assms(2)]] by simp
qed (use assms(3) in simp)

lemma uniform_run:
  assumes "lru_inv s" "uniform n (lru_abs s)" "list_all (op_size n) cs"
  shows "\<exists>s'. lru_run s cs = Inr s' \<and> lru_inv s' \<and> uniform n (lru_abs s') \<and> max_size s' = max_size s"
  using assms
proof (induction cs arbitrary: s)
  case (Cons c cs)
  then obtain s1 where "lru_step s c = Inr s1" "lru_inv s1" "uniform n (lru_abs s1)" "max_size s1 = max_size s"
    using uniform_step by fastforce
  then show ?case using Cons by fastforce
qed simp

section \<open>Properties\<close>

text \<open>A concrete state to try the properties on: what a history leads to, or the empty storage.\<close>

definition run_state :: "size_t \<Rightarrow> lru_op list \<Rightarrow> lru" where
  "run_state sz cs = (case lru_run (SimpleLRU sz) cs of Inl e \<Rightarrow> SimpleLRU sz | Inr s \<Rightarrow> s)"

lemma run_state_inv: "lru_inv (run_state sz cs)"
  using lru_run_inv [OF SimpleLRU_inv(1)] SimpleLRU_inv(1) by (auto simp: run_state_def split: sum.splits)

text \<open>
  C1. On every state that satisfies the invariant, \<open>Put\<close>, \<open>PutIfAbsent\<close>, \<open>Set\<close>, \<open>Delete\<close> and \<open>Get\<close> of
  the pointer-level storage compute exactly the abstract LRU operation, the faults included, and
  lead to a state that satisfies the invariant again.
\<close>

theorem lru_refines_abstract:
  assumes "lru_inv s"
  shows "op_refines (lru_Put s key v) (a_Put (lru_abs s) key v) \<and>
    op_refines (lru_PutIfAbsent s key v) (a_PutIfAbsent (lru_abs s) key v) \<and>
    op_refines (lru_Set s key v) (a_Set (lru_abs s) key v) \<and>
    op_refines (lru_Delete s key) (a_Delete (lru_abs s) key) \<and>
    op_refines (lru_Get s key) (Inr (a_Get (lru_abs s) key))"
  by (intro conjI lru_Put_refines lru_PutIfAbsent_refines lru_Set_refines lru_Delete_refines
      lru_Get_refines assms)

theorem lru_refines_abstract_witness:
  "op_refines (lru_Put (run_state 10 [OpPut ''a'' ''1'', OpPut ''b'' ''22'']) ''c'' ''4444'')
     (a_Put (lru_abs (run_state 10 [OpPut ''a'' ''1'', OpPut ''b'' ''22''])) ''c'' ''4444'')"
  using lru_refines_abstract [OF run_state_inv [of 10 "[OpPut ''a'' ''1'', OpPut ''b'' ''22'']"], of "''c''" "''4444''"]
  by blast

text \<open>
  C2. A successful \<open>Put\<close> makes the entry the freshest one and evicts only entries from the old end: the
  new content is the old one without its first entries, with the key moved to the end and its value replaced.
\<close>

theorem lru_Put_evicts_oldest:
  assumes inv: "lru_inv s" and r: "lru_Put s k v = Inr (True, s')"
  shows "\<exists>i. a_entries (lru_abs s') = a_touch k v (drop i (a_entries (lru_abs s)))"
proof -
  have "str_size k + str_size v \<le> max_size s" using lru_Put_view [OF inv r] by simp
  then have a: "case map_of (a_entries (lru_abs s)) k of
        None \<Rightarrow> a_insert (lru_abs s) k v = Inr (lru_abs s')
      | Some old \<Rightarrow> a_update (lru_abs s) k old v = Inr (lru_abs s')"
    using op_refinesD(1) [OF lru_Put_refines [OF inv] r]
    by (auto simp: a_Put_def leD res_simps split: option.splits)
  show ?thesis
  proof (cases "map_of (a_entries (lru_abs s)) k")
    case None
    with a show ?thesis using a_insert_entries a_touch_absent [OF None] by fastforce
  next
    case (Some old)
    with a show ?thesis using a_update_entries by fastforce
  qed
qed

theorem lru_Put_evicts_oldest_witness:
  "\<exists>i. a_entries (lru_abs (run_state 6 [OpPut ''a'' ''1'', OpPut ''b'' ''2'', OpPut ''c'' ''3'', OpPut ''d'' ''4''])) =
     a_touch ''d'' ''4'' (drop i (a_entries (lru_abs (run_state 6 [OpPut ''a'' ''1'', OpPut ''b'' ''2'', OpPut ''c'' ''3'']))))"
proof (rule lru_Put_evicts_oldest [OF run_state_inv])
  have "case lru_run (SimpleLRU 6) [OpPut ''a'' ''1'', OpPut ''b'' ''2'', OpPut ''c'' ''3''] of Inl e \<Rightarrow> False
    | Inr s \<Rightarrow> (case lru_Put s ''d'' ''4'' of Inl e \<Rightarrow> False | Inr (b, s') \<Rightarrow> b)" by code_simp
  then show "lru_Put (run_state 6 [OpPut ''a'' ''1'', OpPut ''b'' ''2'', OpPut ''c'' ''3'']) ''d'' ''4'' =
      Inr (True, run_state 6 [OpPut ''a'' ''1'', OpPut ''b'' ''2'', OpPut ''c'' ''3'', OpPut ''d'' ''4''])"
    by (auto simp: run_state_def split: sum.splits simp del: lru_run.simps(2))
       (auto simp: res_simps rbind_Inl_iff map_sum_Inl_iff map_sum_Inr_iff)
qed

text \<open>
  When every stored pair has the same size \<open>n\<close> and the storage has room for two of them, no history of
  \<open>Put\<close>, \<open>PutIfAbsent\<close>, \<open>Set\<close> and \<open>Get\<close> calls faults, and \<open>_current_size\<close> is exactly the number of
  stored bytes, which never exceeds \<open>_max_size\<close>.
\<close>

theorem lru_uniform_history:
  assumes "2 * n \<le> unat sz" "list_all (op_size n) cs"
  shows "\<exists>s. lru_run (SimpleLRU sz) cs = Inr s \<and> lru_inv s \<and>
    unat (current_size s) = sum_list (map (\<lambda>e. length (fst e) + length (snd e)) (a_entries (lru_abs s))) \<and>
    unat (current_size s) \<le> unat sz"
proof -
  have "uniform n (lru_abs (SimpleLRU sz))" using assms(1) by (simp add: uniform_def SimpleLRU_inv)
  then obtain s where s: "lru_run (SimpleLRU sz) cs = Inr s" "lru_inv s" "uniform n (lru_abs s)"
    "max_size s = max_size (SimpleLRU sz)"
    using uniform_run [OF SimpleLRU_inv(1) _ assms(2)] by blast
  have sum: "(\<forall>e\<in>set es. length (fst e) + length (snd e) = n) \<Longrightarrow>
      sum_list (map (\<lambda>e. length (fst e) + length (snd e)) es) = n * length es" for es :: "(string \<times> string) list"
    by (induction es) auto
  have "max_size s = sz" using s(4) by (simp add: SimpleLRU_def)
  then show ?thesis
    using s sum [of "a_entries (lru_abs s)"] unat_of_nat_le [of "n * length (a_entries (lru_abs s))" sz]
    by (auto simp: uniform_def)
qed

theorem lru_uniform_history_witness:
  "\<exists>s. lru_run (SimpleLRU 5) [OpPut ''a'' ''1'', OpPut ''b'' ''2'', OpGet ''a'', OpPut ''c'' ''3''] = Inr s \<and> lru_inv s \<and>
    unat (current_size s) = sum_list (map (\<lambda>e. length (fst e) + length (snd e)) (a_entries (lru_abs s))) \<and>
    unat (current_size s) \<le> unat (5 :: size_t)"
  by (rule lru_uniform_history [of 2]) simp_all

text \<open>
  The destructor of a storage that satisfies the invariant ends without a fault and leaves no node allocated.
\<close>

theorem lru_destructor_frees:
  assumes "lru_inv s"
  shows "\<exists>s'. lru_destructor s = Inr s' \<and> live_count (lru_heap s') = 0"
  using lru_destructor_frees_all [OF assms] .

theorem lru_destructor_frees_witness:
  "\<exists>s'. lru_destructor (run_state 10 [OpPut ''a'' ''1'', OpPut ''b'' ''22'']) = Inr s' \<and> live_count (lru_heap s') = 0"
  by (rule lru_destructor_frees [OF run_state_inv])

text \<open>
  \<open>Delete\<close> of a stored key that is neither the freshest nor the oldest entry, or that is the only
  entry, always dereferences a null pointer; it succeeds for the ends of a list of two entries or more.
\<close>

theorem lru_Delete_faults:
  assumes "lru_inv s" "lru_view s k \<noteq> None"
  shows "lru_Delete s k = Inl NullDeref \<longleftrightarrow>
    length (a_entries (lru_abs s)) = 1 \<or>
    fst (hd (a_entries (lru_abs s))) \<noteq> k \<and> fst (last (a_entries (lru_abs s))) \<noteq> k"
proof -
  have ne: "a_entries (lru_abs s) \<noteq> []" using assms(2) by (auto simp: lru_view_def)
  have "lru_Delete s k = Inl NullDeref \<longleftrightarrow> a_Delete (lru_abs s) k = Inl NullDeref"
    using lru_Delete_refines [OF assms(1), of k] by (auto simp: op_refines_def map_sum_Inl_iff)
  also have "\<dots> \<longleftrightarrow> length (a_entries (lru_abs s)) = 1 \<or>
      fst (hd (a_entries (lru_abs s))) \<noteq> k \<and> fst (last (a_entries (lru_abs s))) \<noteq> k"
    using ne assms(2) unfolding a_Delete_def a_remove_head_def lru_view_def
    by (cases "a_entries (lru_abs s)"; cases "tl (a_entries (lru_abs s))")
       (auto simp: rbind_Inl_iff split: if_splits)
  finally show ?thesis .
qed

theorem lru_Delete_faults_witness:
  "lru_Delete (run_state 10 [OpPut ''a'' ''1'', OpPut ''b'' ''2'', OpPut ''c'' ''3'']) ''b'' = Inl NullDeref"
proof -
  let ?s = "run_state 10 [OpPut ''a'' ''1'', OpPut ''b'' ''2'', OpPut ''c'' ''3'']"
  have "a_entries (lru_abs ?s) = [(''a'', ''1''), (''b'', ''2''), (''c'', ''3'')]" by code_simp
  then show ?thesis using lru_Delete_faults [OF run_state_inv, of 10 _ "''b''"]
    by (simp add: lru_view_def)
qed

text \<open>
  A \<open>Put\<close> that replaces the value of the least recently used key and needs room for it always
  faults: the eviction loop frees the very node it is about to update.
\<close>

theorem lru_update_oldest_faults:
  assumes inv: "lru_inv s" and es: "a_entries (lru_abs s) = (k, old) # es"
    and fits: "str_size k + str_size v \<le> max_size s"
    and big: "current_size s + (str_size v - str_size old) > max_size s"
  shows "\<exists>e. lru_Put s k v = Inl e"
proof (rule ccontr)
  let ?b = "\<lambda>cur. cur + (str_size v - str_size old) > max_size s"
  assume "\<not> ?thesis"
  then obtain b s' where r: "lru_Put s k v = Inr (b, s')" by (cases "lru_Put s k v") auto
  then have "a_update (lru_abs s) k old v = Inr (lru_abs s')"
    using op_refinesD(1) [OF lru_Put_refines [OF inv] r] es fits by (auto simp: a_Put_def leD res_simps)
  then obtain t1 where t1: "a_evict_while ?b (lru_abs s) = Inr t1" and k: "map_of (a_entries t1) k \<noteq> None"
    by (auto simp: a_update_def res_simps Let_def split: if_splits)
  obtain us where us: "(k, old) # es = us @ a_entries t1" using a_evict_suffix [OF t1] es by auto
  moreover have "us \<noteq> []" using a_evict_progress [of ?b, OF _ t1] big us es by auto
  ultimately have "set (a_entries t1) \<subseteq> set es" by (cases us) auto
  moreover have "k \<notin> fst ` set es" using lru_inv_distinct [OF inv] es by simp
  ultimately show False using k unfolding map_of_eq_None_iff by blast
qed

theorem lru_update_oldest_faults_witness:
  "\<exists>e. lru_Put (run_state 10 [OpPut ''a'' ''1'', OpPut ''b'' ''2'', OpPut ''c'' ''3'']) ''a'' ''11111111'' = Inl e"
proof (rule lru_update_oldest_faults [OF run_state_inv])
  let ?s = "run_state 10 [OpPut ''a'' ''1'', OpPut ''b'' ''2'', OpPut ''c'' ''3'']"
  show "a_entries (lru_abs ?s) = (''a'', ''1'') # [(''b'', ''2''), (''c'', ''3'')]" by code_simp
  show "str_size ''a'' + str_size ''11111111'' \<le> max_size ?s" by code_simp
  show "current_size ?s + (str_size ''11111111'' - str_size ''1'') > max_size ?s" by code_simp
qed

text \<open>
  The size accounting drifts once entries of different sizes are evicted: after three insertions the
  storage holds five bytes and counts nine.
\<close>

lemma lru_accounting_drift:
  "current_size (run_state 10 [OpPut ''a'' ''11111'', OpPut ''b'' ''1'', OpPut ''c'' ''11'']) = 9 \<and>
   a_entries (lru_abs (run_state 10 [OpPut ''a'' ''11111'', OpPut ''b'' ''1'', OpPut ''c'' ''11''])) =
     [(''b'', ''1''), (''c'', ''11'')]"
  by code_simp

end
