(* ===== verification/Storage_Contract.thy ===== *)
theory Storage_Contract
  imports LRU_Properties
begin

text \<open>
  The interface \<^verbatim>\<open>afina::Storage\<close> (\<^verbatim>\<open>src/sysprog/afina/include/afina/Storage.h\<close>): its virtual methods as a
  record of operations, the behaviour its comments promise as the locale \<open>storage_contract\<close>, and the
  proof that \<open>SimpleLRU\<close> keeps the promise wherever it does not fault.
\<close>

record 's storage_ops =
  st_Put :: "'s \<Rightarrow> string \<Rightarrow> string \<Rightarrow> fault + bool \<times> 's"
  st_PutIfAbsent :: "'s \<Rightarrow> string \<Rightarrow> string \<Rightarrow> fault + bool \<times> 's"
  st_Set :: "'s \<Rightarrow> string \<Rightarrow> string \<Rightarrow> fault + bool \<times> 's"
  st_Delete :: "'s \<Rightarrow> string \<Rightarrow> fault + bool \<times> 's"
  st_Get :: "'s \<Rightarrow> string \<Rightarrow> fault + string option \<times> 's"

text \<open>
  The laws: \<open>view\<close> is the association a client can observe, \<open>fits\<close> the pairs the storage accepts. A
  call may forget other associations (a cache evicts) but never invents or alters one.
\<close>

locale storage_contract =
  fixes ops :: "'s storage_ops"
    and ok :: "'s \<Rightarrow> bool"
    and view :: "'s \<Rightarrow> string \<rightharpoonup> string"
    and fits :: "'s \<Rightarrow> string \<Rightarrow> string \<Rightarrow> bool"
  assumes put: "ok s \<Longrightarrow> st_Put ops s k v = Inr (b, s') \<Longrightarrow>
      ok s' \<and> fits s' = fits s \<and> b = fits s k v \<and>
      (if b then view s' k = Some v \<and> only_forgets (view s) (view s') k else view s' = view s)"
    and put_if_absent: "ok s \<Longrightarrow> st_PutIfAbsent ops s k v = Inr (b, s') \<Longrightarrow>
      ok s' \<and> fits s' = fits s \<and> b = (fits s k v \<and> view s k = None) \<and>
      (if b then view s' k = Some v \<and> only_forgets (view s) (view s') k else view s' = view s)"
    and set_existing: "ok s \<Longrightarrow> st_Set ops s k v = Inr (b, s') \<Longrightarrow>
      ok s' \<and> fits s' = fits s \<and> b = (fits s k v \<and> view s k \<noteq> None) \<and>
      (if b then view s' k = Some v \<and> only_forgets (view s) (view s') k else view s' = view s)"
    and delete: "ok s \<Longrightarrow> st_Delete ops s k = Inr (b, s') \<Longrightarrow>
      ok s' \<and> fits s' = fits s \<and> b = (view s k \<noteq> None) \<and> view s' = (view s)(k := None)"
    and get: "ok s \<Longrightarrow> \<exists>s'. st_Get ops s k = Inr (view s k, s') \<and> ok s' \<and> fits s' = fits s \<and> view s' = view s"
begin

lemma read_your_writes:
  assumes "ok s" "st_Put ops s k v = Inr (True, s1)"
  shows "\<exists>s2. st_Get ops s1 k = Inr (Some v, s2) \<and> view s2 k = Some v"
  using put [OF assms] get [of s1 k] by auto

lemma get_twice:
  assumes "ok s" "st_Get ops s k = Inr (r, s1)"
  shows "\<exists>s2. st_Get ops s1 k = Inr (r, s2)"
  using get [OF assms(1), of k] get [of s1 k] assms(2) by auto

lemma delete_then_get:
  assumes "ok s" "st_Delete ops s k = Inr (b, s1)"
  shows "\<exists>s2. st_Get ops s1 k = Inr (None, s2)"
  using delete [OF assms] get [of s1 k] by auto

text \<open>A present key can be read, and an absent one is reported absent, without a fault.\<close>

lemma get_no_fault: "ok s \<Longrightarrow> st_Get ops s k \<noteq> Inl e"
  using get [of s k] by auto

end

section \<open>SimpleLRU implements the contract\<close>

definition lru_ops :: "lru storage_ops" where
  "lru_ops = \<lparr>st_Put = lru_Put, st_PutIfAbsent = lru_PutIfAbsent, st_Set = lru_Set,
     st_Delete = lru_Delete, st_Get = lru_Get\<rparr>"

definition lru_fits :: "lru \<Rightarrow> string \<Rightarrow> string \<Rightarrow> bool" where
  "lru_fits s k v \<longleftrightarrow> str_size k + str_size v \<le> max_size s"

lemma a_insert_max: "a_insert t k v = Inr t' \<Longrightarrow> a_max t' = a_max t"
  by (auto simp: a_insert_def res_simps dest: a_evict_max)

lemma a_update_max: "a_update t k old v = Inr t' \<Longrightarrow> a_max t' = a_max t"
  by (auto simp: a_update_def res_simps Let_def split: if_splits dest: a_evict_max)

lemma a_ops_max:
  "a_Put t k v = Inr (b, t') \<Longrightarrow> a_max t' = a_max t"
  "a_PutIfAbsent t k v = Inr (b, t') \<Longrightarrow> a_max t' = a_max t"
  "a_Set t k v = Inr (b, t') \<Longrightarrow> a_max t' = a_max t"
  "a_Delete t k = Inr (b, t') \<Longrightarrow> a_max t' = a_max t"
  by (auto simp: a_Put_def a_PutIfAbsent_def a_Set_def a_Delete_def a_remove_head_def res_simps
      split: if_splits option.splits list.splits dest: a_insert_max a_update_max)

lemma op_refines_max:
  assumes "op_refines r a" "r = Inr (b, s')" "\<And>t'. a = Inr (b, t') \<Longrightarrow> a_max t' = a_max (lru_abs s)"
  shows "lru_inv s' \<and> lru_fits s' = lru_fits s"
proof -
  have "max_size s' = max_size s" using assms(3) [OF op_refinesD(1) [OF assms(1,2)]] by simp
  then show ?thesis using op_refinesD(2) [OF assms(1,2)] by (simp add: lru_fits_def fun_eq_iff)
qed

interpretation lru: storage_contract lru_ops lru_inv lru_view lru_fits
proof unfold_locales
  fix s k v b s'
  assume inv: "lru_inv s"
  show "lru_inv s' \<and> lru_fits s' = lru_fits s \<and> b = lru_fits s k v \<and>
      (if b then lru_view s' k = Some v \<and> only_forgets (lru_view s) (lru_view s') k else lru_view s' = lru_view s)"
    if "st_Put lru_ops s k v = Inr (b, s')"
    using that lru_Put_view [OF inv, of k v b s'] op_refines_max [OF lru_Put_refines [OF inv] _ a_ops_max(1)]
    by (auto simp: lru_ops_def lru_fits_def split: if_splits)
  show "lru_inv s' \<and> lru_fits s' = lru_fits s \<and> b = (lru_fits s k v \<and> lru_view s k = None) \<and>
      (if b then lru_view s' k = Some v \<and> only_forgets (lru_view s) (lru_view s') k else lru_view s' = lru_view s)"
    if "st_PutIfAbsent lru_ops s k v = Inr (b, s')"
    using that lru_PutIfAbsent_view [OF inv, of k v b s']
      op_refines_max [OF lru_PutIfAbsent_refines [OF inv] _ a_ops_max(2)]
    by (auto simp: lru_ops_def lru_fits_def split: if_splits)
  show "lru_inv s' \<and> lru_fits s' = lru_fits s \<and> b = (lru_fits s k v \<and> lru_view s k \<noteq> None) \<and>
      (if b then lru_view s' k = Some v \<and> only_forgets (lru_view s) (lru_view s') k else lru_view s' = lru_view s)"
    if "st_Set lru_ops s k v = Inr (b, s')"
    using that lru_Set_view [OF inv, of k v b s'] op_refines_max [OF lru_Set_refines [OF inv] _ a_ops_max(3)]
    by (auto simp: lru_ops_def lru_fits_def split: if_splits)
  show "lru_inv s' \<and> lru_fits s' = lru_fits s \<and> b = (lru_view s k \<noteq> None) \<and> lru_view s' = (lru_view s)(k := None)"
    if "st_Delete lru_ops s k = Inr (b, s')"
    using that lru_Delete_view [OF inv, of k b s'] op_refines_max [OF lru_Delete_refines [OF inv] _ a_ops_max(4)]
    by (auto simp: lru_ops_def)
  show "\<exists>s'. st_Get lru_ops s k = Inr (lru_view s k, s') \<and> lru_inv s' \<and> lru_fits s' = lru_fits s \<and> lru_view s' = lru_view s"
    using lru_Get_view [OF inv, of k] by (auto simp: lru_ops_def lru_fits_def [abs_def])
qed

text \<open>
  Once \<open>Put\<close> has returned true, \<open>Get\<close> of the same key succeeds and returns the stored value, and a
  pair is accepted exactly when it fits into an empty storage.
\<close>

theorem lru_read_your_writes:
  assumes "lru_inv s" "lru_Put s k v = Inr (b, s1)"
  shows "b = (str_size k + str_size v \<le> max_size s) \<and>
    (b \<longrightarrow> (\<exists>s2. lru_Get s1 k = Inr (Some v, s2) \<and> lru_view s2 k = Some v))"
  using lru.put [of s k v b s1] lru.read_your_writes [of s k v s1] assms by (auto simp: lru_ops_def lru_fits_def)

theorem lru_read_your_writes_witness:
  "\<exists>s1 s2. lru_Put (run_state 6 [OpPut ''a'' ''1'', OpPut ''b'' ''2'', OpPut ''c'' ''3'']) ''d'' ''4'' = Inr (True, s1) \<and>
     lru_Get s1 ''d'' = Inr (Some ''4'', s2)"
proof -
  let ?s = "run_state 6 [OpPut ''a'' ''1'', OpPut ''b'' ''2'', OpPut ''c'' ''3'']"
  have "case lru_Put ?s ''d'' ''4'' of Inl e \<Rightarrow> False | Inr (b, s') \<Rightarrow> b" by code_simp
  then obtain s1 where "lru_Put ?s ''d'' ''4'' = Inr (True, s1)" by (auto split: sum.splits)
  with lru_read_your_writes [OF run_state_inv this] show ?thesis by blast
qed

end
