(* ===== verification/Thread_Safe_LRU.thy ===== *)
theory Thread_Safe_LRU
  imports Storage_Contract
begin

text \<open>
  \<^verbatim>\<open>src/sysprog/afina/src/storage/ThreadSafeSimpleLRU.h\<close>: every operation takes \<open>_mutex\<close> for its duration and
  calls the operation of \<open>SimpleLRU\<close>. The operations are given for one caller, and as an interleaving of
  threads whose bodies read and write the shared storage in separate steps.
\<close>

section \<open>The operations\<close>

record ts_lru =
  ts_mutex :: "nat option"
  ts_base :: lru

definition ThreadSafeSimplLRU :: "size_t \<Rightarrow> ts_lru" where
  "ThreadSafeSimplLRU sz = \<lparr>ts_mutex = None, ts_base = SimpleLRU sz\<rparr>"

text \<open>
  \<open>std::lock_guard\<close> around a body: the constructor takes the mutex, the destructor releases it when the
  body returns. A thread that finds the mutex taken and nobody else running waits for ever.
\<close>

definition lock_guard :: "nat \<Rightarrow> ts_lru \<Rightarrow> (lru \<Rightarrow> fault + 'r \<times> lru) \<Rightarrow> fault + 'r \<times> ts_lru" where
  "lock_guard tid s body =
     (if ts_mutex s \<noteq> None then Inl Deadlock
      else let s1 = s\<lparr>ts_mutex := Some tid\<rparr> in
        rbind (body (ts_base s1)) (\<lambda>(r, b).
        let s2 = s1\<lparr>ts_base := b\<rparr> in Inr (r, s2\<lparr>ts_mutex := None\<rparr>)))"

definition ts_Put :: "nat \<Rightarrow> ts_lru \<Rightarrow> string \<Rightarrow> string \<Rightarrow> fault + bool \<times> ts_lru" where
  "ts_Put tid s key value = lock_guard tid s (\<lambda>b. lru_Put b key value)"

definition ts_PutIfAbsent :: "nat \<Rightarrow> ts_lru \<Rightarrow> string \<Rightarrow> string \<Rightarrow> fault + bool \<times> ts_lru" where
  "ts_PutIfAbsent tid s key value = lock_guard tid s (\<lambda>b. lru_PutIfAbsent b key value)"

definition ts_Set :: "nat \<Rightarrow> ts_lru \<Rightarrow> string \<Rightarrow> string \<Rightarrow> fault + bool \<times> ts_lru" where
  "ts_Set tid s key value = lock_guard tid s (\<lambda>b. lru_Set b key value)"

definition ts_Delete :: "nat \<Rightarrow> ts_lru \<Rightarrow> string \<Rightarrow> fault + bool \<times> ts_lru" where
  "ts_Delete tid s key = lock_guard tid s (\<lambda>b. lru_Delete b key)"

definition ts_Get :: "nat \<Rightarrow> ts_lru \<Rightarrow> string \<Rightarrow> fault + string option \<times> ts_lru" where
  "ts_Get tid s key = lock_guard tid s (\<lambda>b. lru_Get b key)"

definition ts_ops :: "nat \<Rightarrow> ts_lru storage_ops" where
  "ts_ops tid = \<lparr>st_Put = ts_Put tid, st_PutIfAbsent = ts_PutIfAbsent tid, st_Set = ts_Set tid,
     st_Delete = ts_Delete tid, st_Get = ts_Get tid\<rparr>"

definition ts_ok :: "ts_lru \<Rightarrow> bool" where
  "ts_ok s \<longleftrightarrow> ts_mutex s = None \<and> lru_inv (ts_base s)"

lemma lock_guard_Inr:
  "lock_guard tid s body = Inr (r, s') \<longleftrightarrow>
   ts_mutex s = None \<and> ts_mutex s' = None \<and> body (ts_base s) = Inr (r, ts_base s')"
  by (cases s; cases s'; cases "body (ts_base s)") (auto simp: lock_guard_def Let_def)

lemmas ts_op_defs = ts_ops_def ts_Put_def ts_PutIfAbsent_def ts_Set_def ts_Delete_def ts_Get_def

interpretation ts: storage_contract "ts_ops tid" ts_ok "\<lambda>s. lru_view (ts_base s)" "\<lambda>s. lru_fits (ts_base s)"
  for tid
proof unfold_locales
  fix s k
  assume "ts_ok s"
  then have m: "ts_mutex s = None" and inv: "lru_inv (ts_base s)" by (auto simp: ts_ok_def)
  obtain b where b: "lru_Get (ts_base s) k = Inr (lru_view (ts_base s) k, b)" "lru_inv b"
    "lru_fits b = lru_fits (ts_base s)" "lru_view b = lru_view (ts_base s)"
    using lru.get [OF inv, of k] by (auto simp: lru_ops_def)
  show "\<exists>s'. st_Get (ts_ops tid) s k = Inr (lru_view (ts_base s) k, s') \<and> ts_ok s' \<and>
      lru_fits (ts_base s') = lru_fits (ts_base s) \<and> lru_view (ts_base s') = lru_view (ts_base s)"
    by (rule exI [of _ "\<lparr>ts_mutex = None, ts_base = b\<rparr>"])
       (use m b in \<open>simp add: ts_ops_def ts_Get_def lock_guard_Inr ts_ok_def\<close>)
next
  fix s k v b s'
  assume "ts_ok s"
  then have inv: "lru_inv (ts_base s)" by (simp add: ts_ok_def)
  show "ts_ok s' \<and> lru_fits (ts_base s') = lru_fits (ts_base s) \<and> b = lru_fits (ts_base s) k v \<and>
      (if b then lru_view (ts_base s') k = Some v \<and> only_forgets (lru_view (ts_base s)) (lru_view (ts_base s')) k
       else lru_view (ts_base s') = lru_view (ts_base s))" if "st_Put (ts_ops tid) s k v = Inr (b, s')"
    using that lru.put [OF inv, of k v b "ts_base s'"]
    by (simp add: ts_op_defs lru_ops_def ts_ok_def lock_guard_Inr)
  show "ts_ok s' \<and> lru_fits (ts_base s') = lru_fits (ts_base s) \<and>
      b = (lru_fits (ts_base s) k v \<and> lru_view (ts_base s) k = None) \<and>
      (if b then lru_view (ts_base s') k = Some v \<and> only_forgets (lru_view (ts_base s)) (lru_view (ts_base s')) k
       else lru_view (ts_base s') = lru_view (ts_base s))" if "st_PutIfAbsent (ts_ops tid) s k v = Inr (b, s')"
    using that lru.put_if_absent [OF inv, of k v b "ts_base s'"]
    by (simp add: ts_op_defs lru_ops_def ts_ok_def lock_guard_Inr)
  show "ts_ok s' \<and> lru_fits (ts_base s') = lru_fits (ts_base s) \<and>
      b = (lru_fits (ts_base s) k v \<and> lru_view (ts_base s) k \<noteq> None) \<and>
      (if b then lru_view (ts_base s') k = Some v \<and> only_forgets (lru_view (ts_base s)) (lru_view (ts_base s')) k
       else lru_view (ts_base s') = lru_view (ts_base s))" if "st_Set (ts_ops tid) s k v = Inr (b, s')"
    using that lru.set_existing [OF inv, of k v b "ts_base s'"]
    by (simp add: ts_op_defs lru_ops_def ts_ok_def lock_guard_Inr)
  show "ts_ok s' \<and> lru_fits (ts_base s') = lru_fits (ts_base s) \<and> b = (lru_view (ts_base s) k \<noteq> None) \<and>
      lru_view (ts_base s') = (lru_view (ts_base s))(k := None)" if "st_Delete (ts_ops tid) s k = Inr (b, s')"
    using that lru.delete [OF inv, of k b "ts_base s'"]
    by (simp add: ts_op_defs lru_ops_def ts_ok_def lock_guard_Inr)
qed

section \<open>Interleaved threads\<close>

datatype op_result = RBool bool | RGet "string option"

fun lru_apply :: "lru \<Rightarrow> lru_op \<Rightarrow> fault + op_result \<times> lru" where
  "lru_apply s (OpPut k v) = map_sum id (map_prod RBool id) (lru_Put s k v)"
| "lru_apply s (OpPutIfAbsent k v) = map_sum id (map_prod RBool id) (lru_PutIfAbsent s k v)"
| "lru_apply s (OpSet k v) = map_sum id (map_prod RBool id) (lru_Set s k v)"
| "lru_apply s (OpDelete k) = map_sum id (map_prod RBool id) (lru_Delete s k)"
| "lru_apply s (OpGet k) = map_sum id (map_prod RGet id) (lru_Get s k)"

fun lru_apply_all :: "lru \<Rightarrow> lru_op list \<Rightarrow> fault + op_result list \<times> lru" where
  "lru_apply_all s [] = Inr ([], s)"
| "lru_apply_all s (c # cs) = rbind (lru_apply s c) (\<lambda>(r, s1).
     rbind (lru_apply_all s1 cs) (\<lambda>(rs, s2). Inr (r # rs, s2)))"

text \<open>
  A thread is outside, waits for the mutex, has entered the body, has read the shared storage (the body
  computes on what it read), or has written it back and is about to release the mutex.
\<close>

datatype ts_pc = Outside | Waiting lru_op | Entered lru_op | Loaded lru_op lru | Leaving op_result

record ts_conf =
  c_ts :: ts_lru
  c_pc :: "nat \<Rightarrow> ts_pc"
  c_hist :: "(lru_op \<times> op_result) list"

inductive ts_step :: "ts_conf \<Rightarrow> ts_conf \<Rightarrow> bool" where
  call: "c_pc c t = Outside \<Longrightarrow> ts_step c (c\<lparr>c_pc := (c_pc c)(t := Waiting p)\<rparr>)"
| lock: "c_pc c t = Waiting p \<Longrightarrow> ts_mutex (c_ts c) = None \<Longrightarrow>
    ts_step c (c\<lparr>c_ts := (c_ts c)\<lparr>ts_mutex := Some t\<rparr>, c_pc := (c_pc c)(t := Entered p)\<rparr>)"
| load: "c_pc c t = Entered p \<Longrightarrow>
    ts_step c (c\<lparr>c_pc := (c_pc c)(t := Loaded p (ts_base (c_ts c)))\<rparr>)"
| store: "c_pc c t = Loaded p b \<Longrightarrow> lru_apply b p = Inr (r, b') \<Longrightarrow>
    ts_step c (c\<lparr>c_ts := (c_ts c)\<lparr>ts_base := b'\<rparr>, c_pc := (c_pc c)(t := Leaving r), c_hist := c_hist c @ [(p, r)]\<rparr>)"
| unlock: "c_pc c t = Leaving r \<Longrightarrow>
    ts_step c (c\<lparr>c_ts := (c_ts c)\<lparr>ts_mutex := None\<rparr>, c_pc := (c_pc c)(t := Outside)\<rparr>)"

definition ts_init :: "size_t \<Rightarrow> ts_conf" where
  "ts_init sz = \<lparr>c_ts = ThreadSafeSimplLRU sz, c_pc = (\<lambda>_. Outside), c_hist = []\<rparr>"

fun in_body :: "ts_pc \<Rightarrow> bool" where
  "in_body (Entered p) = True"
| "in_body (Loaded p b) = True"
| "in_body (Leaving r) = True"
| "in_body _ = False"

definition ts_inv :: "size_t \<Rightarrow> ts_conf \<Rightarrow> bool" where
  "ts_inv sz c \<longleftrightarrow>
     (\<forall>t. in_body (c_pc c t) \<longleftrightarrow> ts_mutex (c_ts c) = Some t) \<and>
     (\<forall>t p b. c_pc c t = Loaded p b \<longrightarrow> b = ts_base (c_ts c)) \<and>
     lru_apply_all (SimpleLRU sz) (map fst (c_hist c)) = Inr (map snd (c_hist c), ts_base (c_ts c))"

lemma lru_apply_all_snoc:
  "lru_apply_all s cs = Inr (rs, s1) \<Longrightarrow> lru_apply s1 c = Inr (r, s2) \<Longrightarrow>
   lru_apply_all s (cs @ [c]) = Inr (rs @ [r], s2)"
  by (induction cs arbitrary: s rs) (auto simp: res_simps split: prod.splits)

lemma ts_invD:
  assumes "ts_inv sz c"
  shows "in_body (c_pc c t) \<Longrightarrow> ts_mutex (c_ts c) = Some t" "ts_mutex (c_ts c) = Some t \<Longrightarrow> in_body (c_pc c t)"
    "c_pc c t = Loaded p b \<Longrightarrow> b = ts_base (c_ts c)"
    "lru_apply_all (SimpleLRU sz) (map fst (c_hist c)) = Inr (map snd (c_hist c), ts_base (c_ts c))"
  using assms by (auto simp: ts_inv_def)

lemma ts_invI:
  assumes "\<And>t. in_body (c_pc c t) \<longleftrightarrow> ts_mutex (c_ts c) = Some t"
    and "\<And>t p b. c_pc c t = Loaded p b \<Longrightarrow> b = ts_base (c_ts c)"
    and "lru_apply_all (SimpleLRU sz) (map fst (c_hist c)) = Inr (map snd (c_hist c), ts_base (c_ts c))"
  shows "ts_inv sz c"
  using assms by (simp add: ts_inv_def)

lemma ts_step_inv: "ts_step c c' \<Longrightarrow> ts_inv sz c \<Longrightarrow> ts_inv sz c'"
proof (induction rule: ts_step.induct)
  case (call c t p)
  note I = ts_invD [OF call(2)]
  have m: "ts_mutex (c_ts c) \<noteq> Some t" using I(2) [of t] call(1) by auto
  have "\<And>t'. in_body (c_pc c t') \<longleftrightarrow> ts_mutex (c_ts c) = Some t'" using I(1,2) by blast
  then show ?case using I(3,4) m by (intro ts_invI) (auto split: if_splits)
next
  case (lock c t p)
  note I = ts_invD [OF lock(3)]
  have "\<And>t'. \<not> in_body (c_pc c t')" using I(1) lock(2) by force
  then show ?case using I(3,4) by (intro ts_invI) (auto split: if_splits)
next
  case (load c t p)
  note I = ts_invD [OF load(2)]
  have m: "ts_mutex (c_ts c) = Some t" using I(1) [of t] load(1) by simp
  have "\<And>t'. in_body (c_pc c t') \<longleftrightarrow> t' = t" using I(1,2) m by (metis option.inject)
  then show ?case using I(3,4) m by (intro ts_invI) (auto split: if_splits)
next
  case (store c t p b r b')
  note I = ts_invD [OF store(3)]
  have m: "ts_mutex (c_ts c) = Some t" using I(1) [of t] store(1) by simp
  have b: "lru_apply (ts_base (c_ts c)) p = Inr (r, b')" using I(3) [OF store(1)] store(2) by simp
  have o: "\<And>t'. t' \<noteq> t \<Longrightarrow> \<not> in_body (c_pc c t')" using I(1) m by fastforce
  have "c_pc c t' = Loaded q x \<Longrightarrow> t' = t" for t' q x using o [of t'] by auto
  then show ?case using m o lru_apply_all_snoc [OF I(4) b] by (intro ts_invI) (auto split: if_splits)
next
  case (unlock c t r)
  note I = ts_invD [OF unlock(2)]
  have m: "ts_mutex (c_ts c) = Some t" using I(1) [of t] unlock(1) by simp
  have "\<And>t'. t' \<noteq> t \<Longrightarrow> \<not> in_body (c_pc c t')" using I(1) m by fastforce
  then show ?case using I(3,4) by (intro ts_invI) (auto split: if_splits)
qed

lemma ts_init_inv: "ts_inv sz (ts_init sz)"
  by (simp add: ts_inv_def ts_init_def ThreadSafeSimplLRU_def)

lemma ts_reach_inv: "ts_step\<^sup>*\<^sup>* (ts_init sz) c \<Longrightarrow> ts_inv sz c"
  by (induction rule: rtranclp_induct) (auto intro: ts_init_inv ts_step_inv)

lemma lru_apply_step: "map_sum id snd (lru_apply s c) = lru_step s c"
  by (cases c) (simp_all add: sum.map_comp comp_def prod.map_comp id_def)

lemma lru_apply_all_run: "map_sum id snd (lru_apply_all s cs) = lru_run s cs"
proof (induction cs arbitrary: s)
  case (Cons c cs)
  show ?case
  proof (cases "lru_apply s c")
    case (Inl e)
    then have "lru_step s c = Inl e" using lru_apply_step [of s c] by simp
    with Inl show ?thesis by simp
  next
    case (Inr p)
    obtain r s1 where p: "p = (r, s1)" by (cases p)
    then have st: "lru_step s c = Inr s1" using lru_apply_step [of s c] Inr by simp
    show ?thesis using Cons [of s1] Inr p st by (cases "lru_apply_all s1 cs") auto
  qed
qed simp

text \<open>
  C3. Whatever the interleaving of the threads, at most one of them is inside an operation, and the
  storage and the results they got are those of the sequential run of the completed operations in the
  order in which they took effect; the storage satisfies its invariant.
\<close>

theorem ts_linearizable:
  assumes "ts_step\<^sup>*\<^sup>* (ts_init sz) c"
  shows "lru_apply_all (SimpleLRU sz) (map fst (c_hist c)) = Inr (map snd (c_hist c), ts_base (c_ts c)) \<and>
    lru_inv (ts_base (c_ts c)) \<and>
    (\<forall>t t'. in_body (c_pc c t) \<longrightarrow> in_body (c_pc c t') \<longrightarrow> t = t')"
proof -
  have inv: "ts_inv sz c" using ts_reach_inv [OF assms] .
  then have run: "lru_apply_all (SimpleLRU sz) (map fst (c_hist c)) = Inr (map snd (c_hist c), ts_base (c_ts c))"
    by (simp add: ts_inv_def)
  then have "lru_run (SimpleLRU sz) (map fst (c_hist c)) = Inr (ts_base (c_ts c))"
    by (simp flip: lru_apply_all_run)
  then have "lru_inv (ts_base (c_ts c))" by (rule lru_run_inv [OF SimpleLRU_inv(1)])
  then show ?thesis using run inv by (auto simp: ts_inv_def)
qed

text \<open>A thread that finds the mutex free can run its operation to the end.\<close>

lemma ts_full_call:
  assumes "c_pc c t = Outside" "ts_mutex (c_ts c) = None" "lru_apply (ts_base (c_ts c)) p = Inr (r, b)"
  shows "ts_step\<^sup>*\<^sup>* c \<lparr>c_ts = \<lparr>ts_mutex = None, ts_base = b\<rparr>, c_pc = c_pc c, c_hist = c_hist c @ [(p, r)]\<rparr>"
proof -
  let ?pc = "\<lambda>x. (c_pc c)(t := x)"
  let ?locked = "\<lambda>x base hist. \<lparr>c_ts = \<lparr>ts_mutex = Some t, ts_base = base\<rparr>, c_pc = ?pc x, c_hist = hist\<rparr>"
  let ?b0 = "ts_base (c_ts c)"
  have 1: "ts_step c (c\<lparr>c_pc := ?pc (Waiting p)\<rparr>)" by (rule ts_step.call [OF assms(1)])
  have 2: "ts_step (c\<lparr>c_pc := ?pc (Waiting p)\<rparr>) (?locked (Entered p) ?b0 (c_hist c))"
    using ts_step.lock [of "c\<lparr>c_pc := ?pc (Waiting p)\<rparr>" t p] assms(2) by (cases c; cases "c_ts c") simp
  have 3: "ts_step (?locked (Entered p) ?b0 (c_hist c)) (?locked (Loaded p ?b0) ?b0 (c_hist c))"
    using ts_step.load [of "?locked (Entered p) ?b0 (c_hist c)" t p] by simp
  have 4: "ts_step (?locked (Loaded p ?b0) ?b0 (c_hist c)) (?locked (Leaving r) b (c_hist c @ [(p, r)]))"
    using ts_step.store [of "?locked (Loaded p ?b0) ?b0 (c_hist c)" t p ?b0 r b] assms(3) by simp
  have 5: "ts_step (?locked (Leaving r) b (c_hist c @ [(p, r)]))
      \<lparr>c_ts = \<lparr>ts_mutex = None, ts_base = b\<rparr>, c_pc = c_pc c, c_hist = c_hist c @ [(p, r)]\<rparr>"
    using ts_step.unlock [of "?locked (Leaving r) b (c_hist c @ [(p, r)])" t r] assms(1)
    by (simp add: fun_upd_idem)
  note st = converse_rtranclp_into_rtranclp [where r = ts_step]
  show ?thesis by (rule st [OF 1 st [OF 2 st [OF 3 st [OF 4 st [OF 5 rtranclp.rtrancl_refl]]]]])
qed

theorem ts_linearizable_witness:
  "\<exists>c. ts_step\<^sup>*\<^sup>* (ts_init 10) c \<and> map fst (c_hist c) = [OpPut ''a'' ''1''] \<and>
    lru_apply_all (SimpleLRU 10) (map fst (c_hist c)) = Inr (map snd (c_hist c), ts_base (c_ts c))"
proof -
  have "case lru_apply (SimpleLRU 10) (OpPut ''a'' ''1'') of Inl e \<Rightarrow> False | Inr p \<Rightarrow> True" by code_simp
  then obtain r b where p: "lru_apply (SimpleLRU 10) (OpPut ''a'' ''1'') = Inr (r, b)"
    by (cases "lru_apply (SimpleLRU 10) (OpPut ''a'' ''1'')") auto
  have "ts_step\<^sup>*\<^sup>* (ts_init 10)
      \<lparr>c_ts = \<lparr>ts_mutex = None, ts_base = b\<rparr>, c_pc = c_pc (ts_init 10), c_hist = [(OpPut ''a'' ''1'', r)]\<rparr>"
    using ts_full_call [of "ts_init 10" 0 "OpPut ''a'' ''1''" r b] p
    by (simp add: ts_init_def ThreadSafeSimplLRU_def)
  from this and ts_linearizable [OF this, THEN conjunct1] show ?thesis by (intro exI conjI) auto
qed

end
