(* ===== verification/Commands.thy ===== *)
theory Commands
  imports Command_Types Thread_Safe_LRU
begin

text \<open>
  The commands of \<^verbatim>\<open>src/sysprog/afina/src/execute\<close> and their headers. A command works on any storage, given
  by its record of operations; it returns the text written to its output parameter with the storage it
  leaves. The lines the commands print to \<^verbatim>\<open>std::cout\<close> are left out.
\<close>

section \<open>Operations\<close>

definition Set_Execute :: "'s storage_ops \<Rightarrow> insert_command \<Rightarrow> 's \<Rightarrow> string \<Rightarrow> fault + string \<times> 's" where
  "Set_Execute ops c s args = rbind (st_Put ops s (ic_key c) args) (\<lambda>(_, s'). Inr (''STORED'', s'))"

definition Add_Execute :: "'s storage_ops \<Rightarrow> insert_command \<Rightarrow> 's \<Rightarrow> string \<Rightarrow> fault + string \<times> 's" where
  "Add_Execute ops c s args =
     rbind (st_PutIfAbsent ops s (ic_key c) args) (\<lambda>(b, s'). Inr (if b then ''STORED'' else ''NOT_STORED'', s'))"

definition Append_Execute :: "'s storage_ops \<Rightarrow> insert_command \<Rightarrow> 's \<Rightarrow> string \<Rightarrow> fault + string \<times> 's" where
  "Append_Execute ops c s args =
     rbind (st_Get ops s (ic_key c)) (\<lambda>(r, s1).
     case r of None \<Rightarrow> Inr (''NOT_STORED'', s1)
     | Some v \<Rightarrow> rbind (st_Put ops s1 (ic_key c) (v @ args)) (\<lambda>(_, s2). Inr (''STORED'', s2)))"

definition Replace_Execute :: "'s storage_ops \<Rightarrow> insert_command \<Rightarrow> 's \<Rightarrow> string \<Rightarrow> fault + string \<times> 's" where
  "Replace_Execute ops c s args =
     rbind (st_Get ops s (ic_key c)) (\<lambda>(r, s1).
     case r of None \<Rightarrow> Inr (''NOT_STORED'', s1)
     | Some v \<Rightarrow> rbind (st_Set ops s1 (ic_key c) args) (\<lambda>(_, s2). Inr (''STORED'', s2)))"

definition get_item :: "string \<Rightarrow> string \<Rightarrow> string" where
  "get_item key v = ''VALUE '' @ key @ '' 0 '' @ show_nat (length v) @ crlf @ v @ crlf"

fun get_loop :: "'s storage_ops \<Rightarrow> string list \<Rightarrow> 's \<Rightarrow> string \<Rightarrow> fault + string \<times> 's" where
  "get_loop ops [] s out = Inr (out, s)"
| "get_loop ops (key # keys) s out =
     rbind (st_Get ops s key) (\<lambda>(r, s').
     case r of None \<Rightarrow> get_loop ops keys s' out | Some v \<Rightarrow> get_loop ops keys s' (out @ get_item key v))"

definition Get_Execute :: "'s storage_ops \<Rightarrow> string list \<Rightarrow> 's \<Rightarrow> string \<Rightarrow> fault + string \<times> 's" where
  "Get_Execute ops keys s args = rbind (get_loop ops keys s []) (\<lambda>(out, s'). Inr (out @ ''END'', s'))"

definition Stats_Execute :: "'s \<Rightarrow> string \<Rightarrow> fault + string \<times> 's" where
  "Stats_Execute s args = Inr (''END'', s)"

fun Execute :: "'s storage_ops \<Rightarrow> command \<Rightarrow> 's \<Rightarrow> string \<Rightarrow> fault + string \<times> 's" where
  "Execute ops (Cmd_Set c) s args = Set_Execute ops c s args"
| "Execute ops (Cmd_Add c) s args = Add_Execute ops c s args"
| "Execute ops (Cmd_Append c) s args = Append_Execute ops c s args"
| "Execute ops (Cmd_Replace c) s args = Replace_Execute ops c s args"
| "Execute ops (Cmd_Get keys) s args = Get_Execute ops keys s args"
| "Execute ops Cmd_Stats s args = Stats_Execute s args"

section \<open>Behaviour over any storage that keeps the contract\<close>

text \<open>The reply to \<open>get\<close>: one item per requested key that is present, in the order of the request.\<close>

definition get_reply :: "(string \<rightharpoonup> string) \<Rightarrow> string list \<Rightarrow> string" where
  "get_reply m keys = concat (map (\<lambda>k. case m k of None \<Rightarrow> [] | Some v \<Rightarrow> get_item k v) keys) @ ''END''"

context storage_contract
begin

lemma get_loop_reply:
  "ok s \<Longrightarrow> \<exists>s'. get_loop ops keys s out =
     Inr (out @ concat (map (\<lambda>k. case view s k of None \<Rightarrow> [] | Some v \<Rightarrow> get_item k v) keys), s') \<and>
     ok s' \<and> view s' = view s \<and> fits s' = fits s"
proof (induction keys arbitrary: s out)
  case (Cons k keys)
  obtain s1 where s1: "st_Get ops s k = Inr (view s k, s1)" "ok s1" "fits s1 = fits s" "view s1 = view s"
    using get [OF Cons.prems] by blast
  show ?case
    using s1 Cons.IH [OF s1(2), of out] Cons.IH [OF s1(2), of "out @ get_item k (the (view s k))"]
    by (cases "view s k") auto
qed simp

lemma Get_Execute_reply:
  "ok s \<Longrightarrow> \<exists>s'. Get_Execute ops keys s args = Inr (get_reply (view s) keys, s') \<and> ok s' \<and> view s' = view s \<and> fits s' = fits s"
  using get_loop_reply [of s keys "[]"] by (auto simp: Get_Execute_def get_reply_def)

lemma Execute_ok:
  assumes "ok s" "Execute ops c s args = Inr (out, s')"
  shows "ok s' \<and> fits s' = fits s"
proof (cases c)
  case (Cmd_Set d)
  with assms show ?thesis by (auto simp: Set_Execute_def res_simps split: prod.splits dest: put)
next
  case (Cmd_Add d)
  with assms show ?thesis by (auto simp: Add_Execute_def res_simps split: prod.splits dest: put_if_absent)
next
  case (Cmd_Append d)
  obtain s1 where "st_Get ops s (ic_key d) = Inr (view s (ic_key d), s1)" "ok s1" "fits s1 = fits s"
    using get [OF assms(1)] by blast
  with Cmd_Append assms(2) show ?thesis
    by (cases "view s (ic_key d)") (auto simp: Append_Execute_def res_simps split: prod.splits dest: put)
next
  case (Cmd_Replace d)
  obtain s1 where "st_Get ops s (ic_key d) = Inr (view s (ic_key d), s1)" "ok s1" "fits s1 = fits s"
    using get [OF assms(1)] by blast
  with Cmd_Replace assms(2) show ?thesis
    by (cases "view s (ic_key d)") (auto simp: Replace_Execute_def res_simps split: prod.splits dest: set_existing)
next
  case (Cmd_Get ks)
  with assms Get_Execute_reply [OF assms(1), of ks args] show ?thesis by auto
next
  case Cmd_Stats
  with assms show ?thesis by (simp add: Stats_Execute_def)
qed

lemma Add_reply:
  assumes "ok s" "Add_Execute ops c s args = Inr (out, s')"
  shows "out = (if fits s (ic_key c) args \<and> view s (ic_key c) = None then ''STORED'' else ''NOT_STORED'') \<and>
    view s' (ic_key c) = (if fits s (ic_key c) args \<and> view s (ic_key c) = None then Some args else view s (ic_key c))"
  using assms by (auto simp: Add_Execute_def res_simps split: prod.splits if_splits dest: put_if_absent)

lemma Append_reply:
  assumes "ok s" "Append_Execute ops c s args = Inr (out, s')"
  shows "case view s (ic_key c) of
      None \<Rightarrow> out = ''NOT_STORED'' \<and> view s' = view s
    | Some v \<Rightarrow> out = ''STORED'' \<and>
        view s' (ic_key c) = Some (if fits s (ic_key c) (v @ args) then v @ args else v)"
proof -
  obtain s1 where "st_Get ops s (ic_key c) = Inr (view s (ic_key c), s1)" "ok s1" "view s1 = view s" "fits s1 = fits s"
    using get [OF assms(1)] by blast
  with assms(2) show ?thesis
    by (auto simp: Append_Execute_def res_simps split: prod.splits option.splits if_splits dest: put)
qed

lemma Replace_reply:
  assumes "ok s" "Replace_Execute ops c s args = Inr (out, s')"
  shows "case view s (ic_key c) of
      None \<Rightarrow> out = ''NOT_STORED'' \<and> view s' = view s
    | Some v \<Rightarrow> out = ''STORED'' \<and>
        view s' (ic_key c) = Some (if fits s (ic_key c) args then args else v)"
proof -
  obtain s1 where "st_Get ops s (ic_key c) = Inr (view s (ic_key c), s1)" "ok s1" "view s1 = view s" "fits s1 = fits s"
    using get [OF assms(1)] by blast
  with assms(2) show ?thesis
    by (auto simp: Replace_Execute_def res_simps split: prod.splits option.splits if_splits dest: set_existing)
qed

lemma Set_reply:
  assumes "ok s" "Set_Execute ops c s args = Inr (out, s')"
  shows "out = ''STORED'' \<and> ok s' \<and>
    view s' (ic_key c) = (if fits s (ic_key c) args then Some args else view s (ic_key c))"
  using assms by (auto simp: Set_Execute_def res_simps split: prod.splits if_splits dest: put)

lemma set_then_get:
  assumes "ok s" "fits s (ic_key c) v" "Set_Execute ops c s v = Inr (out, s')"
  shows "\<exists>s2. Get_Execute ops [ic_key c] s' args = Inr (get_item (ic_key c) v @ ''END'', s2)"
  using Get_Execute_reply [of s' "[ic_key c]" args] Set_reply [OF assms(1,3)] assms(2)
  by (auto simp: get_reply_def)

end

section \<open>Properties\<close>

text \<open>
  On the thread-safe storage, \<open>get\<close> never faults and answers one item per requested key that is
  stored, in the order of the request, closed by END; it changes neither the stored associations nor
  the bound.
\<close>

theorem Get_on_storage:
  assumes "ts_ok s"
  shows "\<exists>s'. Execute (ts_ops tid) (Cmd_Get keys) s args = Inr (get_reply (lru_view (ts_base s)) keys, s') \<and>
    ts_ok s' \<and> lru_view (ts_base s') = lru_view (ts_base s)"
  using ts.Get_Execute_reply [OF assms, of tid keys args] by auto

lemma ts_run_ok: "ts_ok \<lparr>ts_mutex = None, ts_base = run_state sz cs\<rparr>"
  by (simp add: ts_ok_def run_state_inv)

theorem Get_on_storage_witness:
  "\<exists>s'. Execute (ts_ops 0) (Cmd_Get [''a'', ''x'', ''b'']) \<lparr>ts_mutex = None, ts_base = run_state 10 [OpPut ''a'' ''1'', OpPut ''b'' ''2'']\<rparr> [] =
     Inr (''VALUE a 0 1'' @ crlf @ ''1'' @ crlf @ ''VALUE b 0 1'' @ crlf @ ''2'' @ crlf @ ''END'', s')"
proof -
  let ?s = "\<lparr>ts_mutex = None, ts_base = run_state 10 [OpPut ''a'' ''1'', OpPut ''b'' ''2'']\<rparr>"
  have "get_reply (lru_view (ts_base ?s)) [''a'', ''x'', ''b''] =
     ''VALUE a 0 1'' @ crlf @ ''1'' @ crlf @ ''VALUE b 0 1'' @ crlf @ ''2'' @ crlf @ ''END''" by code_simp
  then show ?thesis using Get_on_storage [OF ts_run_ok, of 0 "[''a'', ''x'', ''b'']" 10 _ "[]"] by metis
qed

text \<open>
  A pair stored with \<open>set\<close> that fits the storage is what the next \<open>get\<close> answers, byte for byte.
\<close>

theorem set_get_roundtrip:
  assumes "ts_ok s" "str_size (ic_key c) + str_size v \<le> max_size (ts_base s)"
    and "Execute (ts_ops tid) (Cmd_Set c) s v = Inr (out, s')"
  shows "out = ''STORED'' \<and>
    (\<exists>s2. Execute (ts_ops tid') (Cmd_Get [ic_key c]) s' args = Inr (get_item (ic_key c) v @ ''END'', s2))"
proof -
  have set: "Set_Execute (ts_ops tid) c s v = Inr (out, s')" using assms(3) by simp
  have fit: "lru_fits (ts_base s) (ic_key c) v" using assms(2) by (simp add: lru_fits_def)
  note r = ts.Set_reply [OF assms(1) set]
  then have "lru_view (ts_base s') (ic_key c) = Some v" using fit by simp
  then show ?thesis
    using r ts.Get_Execute_reply [of s' tid' "[ic_key c]" args] by (auto simp: get_reply_def)
qed

theorem set_get_roundtrip_witness:
  "\<exists>out s' s2. Execute (ts_ops 0) (Cmd_Set \<lparr>ic_key = ''k'', ic_flags = 7, ic_expire = 0\<rparr>) (ThreadSafeSimplLRU 10) ''hello'' = Inr (out, s') \<and>
    Execute (ts_ops 1) (Cmd_Get [''k'']) s' [] = Inr (get_item ''k'' ''hello'' @ ''END'', s2)"
proof -
  let ?c = "\<lparr>ic_key = ''k'', ic_flags = 7, ic_expire = 0\<rparr>"
  have ok: "ts_ok (ThreadSafeSimplLRU 10)" by (simp add: ts_ok_def ThreadSafeSimplLRU_def SimpleLRU_inv)
  have fit: "str_size (ic_key ?c) + str_size ''hello'' \<le> max_size (ts_base (ThreadSafeSimplLRU 10))" by code_simp
  have "case Execute (ts_ops 0) (Cmd_Set ?c) (ThreadSafeSimplLRU 10) ''hello'' of Inl e \<Rightarrow> False | Inr p \<Rightarrow> True"
    by code_simp
  then obtain out s' where e: "Execute (ts_ops 0) (Cmd_Set ?c) (ThreadSafeSimplLRU 10) ''hello'' = Inr (out, s')"
    by (cases "Execute (ts_ops 0) (Cmd_Set ?c) (ThreadSafeSimplLRU 10) ''hello''") auto
  have "\<exists>s2. Execute (ts_ops 1) (Cmd_Get [ic_key ?c]) s' [] = Inr (get_item (ic_key ?c) ''hello'' @ ''END'', s2)"
    using set_get_roundtrip [OF ok fit e] by blast
  then show ?thesis using e by auto
qed

text \<open>
  \<open>add\<close> stores exactly when the key is absent and the pair fits, and its answer tells which;
  \<open>append\<close> and \<open>replace\<close> answer STORED for every present key, also when the new value does not fit and
  the old one is kept.
\<close>

theorem conditional_commands:
  assumes "ts_ok s" "Execute (ts_ops tid) cmd s args = Inr (out, s')"
  shows "case cmd of
      Cmd_Add c \<Rightarrow>
        (out = ''STORED'' \<longleftrightarrow> lru_fits (ts_base s) (ic_key c) args \<and> lru_view (ts_base s) (ic_key c) = None) \<and>
        lru_view (ts_base s') (ic_key c) =
          (if out = ''STORED'' then Some args else lru_view (ts_base s) (ic_key c))
    | Cmd_Append c \<Rightarrow>
        (case lru_view (ts_base s) (ic_key c) of
          None \<Rightarrow> out = ''NOT_STORED'' \<and> lru_view (ts_base s') = lru_view (ts_base s)
        | Some v \<Rightarrow> out = ''STORED'' \<and> lru_view (ts_base s') (ic_key c) =
            Some (if lru_fits (ts_base s) (ic_key c) (v @ args) then v @ args else v))
    | Cmd_Replace c \<Rightarrow>
        (case lru_view (ts_base s) (ic_key c) of
          None \<Rightarrow> out = ''NOT_STORED'' \<and> lru_view (ts_base s') = lru_view (ts_base s)
        | Some v \<Rightarrow> out = ''STORED'' \<and> lru_view (ts_base s') (ic_key c) =
            Some (if lru_fits (ts_base s) (ic_key c) args then args else v))
    | _ \<Rightarrow> True"
proof (cases cmd)
  case (Cmd_Add c)
  then show ?thesis using ts.Add_reply [OF assms(1), of tid c args out s'] assms(2) by (auto split: if_splits)
next
  case (Cmd_Append c)
  then show ?thesis using ts.Append_reply [OF assms(1), of tid c args out s'] assms(2) by simp
next
  case (Cmd_Replace c)
  then show ?thesis using ts.Replace_reply [OF assms(1), of tid c args out s'] assms(2) by simp
qed auto

theorem conditional_commands_witness:
  "\<exists>out s'. Execute (ts_ops 0) (Cmd_Append \<lparr>ic_key = ''a'', ic_flags = 0, ic_expire = 0\<rparr>)
      \<lparr>ts_mutex = None, ts_base = run_state 5 [OpPut ''a'' ''1'']\<rparr> ''23456789'' = Inr (out, s') \<and>
    out = ''STORED'' \<and> lru_view (ts_base s') ''a'' = Some ''1''"
proof -
  let ?s = "\<lparr>ts_mutex = None, ts_base = run_state 5 [OpPut ''a'' ''1'']\<rparr>"
  let ?c = "\<lparr>ic_key = ''a'', ic_flags = 0, ic_expire = 0\<rparr>"
  have "case Execute (ts_ops 0) (Cmd_Append ?c) ?s ''23456789'' of Inl e \<Rightarrow> False | Inr p \<Rightarrow> True"
    by code_simp
  then obtain out s' where e: "Execute (ts_ops 0) (Cmd_Append ?c) ?s ''23456789'' = Inr (out, s')"
    by (cases "Execute (ts_ops 0) (Cmd_Append ?c) ?s ''23456789''") auto
  have v: "lru_view (ts_base ?s) ''a'' = Some ''1''" by code_simp
  have f: "\<not> lru_fits (ts_base ?s) ''a'' (''1'' @ ''23456789'')" by code_simp
  show ?thesis
    using conditional_commands [OF ts_run_ok e] e v f by auto
qed

text \<open>
  \<open>set\<close> answers STORED for every pair, also for one that does not fit and is not stored.
\<close>

theorem Set_always_stored:
  assumes "ts_ok s" "\<not> lru_fits (ts_base s) (ic_key c) args"
  shows "Execute (ts_ops tid) (Cmd_Set c) s args = Inr (''STORED'', s)"
proof -
  have "ts_mutex s = None" "str_size (ic_key c) + str_size args > max_size (ts_base s)"
    using assms by (auto simp: ts_ok_def lru_fits_def not_le)
  then show ?thesis
    by (cases s) (simp add: Set_Execute_def ts_ops_def ts_Put_def lock_guard_def lru_Put_def Let_def)
qed

theorem Set_always_stored_witness:
  "Execute (ts_ops 0) (Cmd_Set \<lparr>ic_key = ''k'', ic_flags = 0, ic_expire = 0\<rparr>)
     \<lparr>ts_mutex = None, ts_base = run_state 3 []\<rparr> ''four'' = Inr (''STORED'', \<lparr>ts_mutex = None, ts_base = run_state 3 []\<rparr>)"
  by (rule Set_always_stored [OF ts_run_ok]) code_simp

end
