(* ===== verification/Protocol_Parser.thy ===== *)
theory Protocol_Parser
  imports Command_Types
begin

text \<open>
  The memcached protocol parser, \<^verbatim>\<open>src/sysprog/afina/src/protocol/Parser.{h,cpp}\<close>: a state machine that is fed
  chunks of input. Its exceptions are values of \<open>perror\<close>; the parser keeps the fields it had when the
  exception was raised. Unsigned fields are 32-bit words, so their overflow checks are the ones of the
  source; the signed expiration time is an integer whose overflow is a fault.
\<close>

section \<open>State\<close>

datatype pstate = sCR | sLF | sName | spKey | spFlags | spExprTimeStart | spExprTime | spBytes | sgKey

datatype perror =
    UnknownCommand string
  | NoKey
  | FlagsOverflow
  | ExprTimeOverflow
  | BytesOverflow
  | InvalidChar char nat
  | UnknownState
  | UnsupportedCommand
  | ParserFault fault

record parser =
  p_state :: pstate
  p_name :: string
  p_keys :: "string list"
  p_flags :: u32
  p_exprtime :: int
  p_bytes :: u32
  p_negative :: bool
  p_curKey :: string
  p_complete :: bool

definition Reset :: "parser \<Rightarrow> parser" where
  "Reset p = p\<lparr>p_state := sName, p_name := [], p_keys := [], p_curKey := [], p_complete := False,
     p_flags := 0, p_bytes := 0, p_exprtime := 0\<rparr>"

text \<open>
  The constructor calls \<open>Reset\<close>, which leaves \<open>negative\<close> as it finds it: the argument stands for the
  uninitialised value.
\<close>

definition Parser :: "bool \<Rightarrow> parser" where
  "Parser garbage = Reset \<lparr>p_state = sName, p_name = [], p_keys = [], p_flags = 0, p_exprtime = 0,
     p_bytes = 0, p_negative = garbage, p_curKey = [], p_complete = False\<rparr>"

abbreviation SP :: char where "SP \<equiv> CHR '' ''"
abbreviation CR :: char where "CR \<equiv> CHR 0x0D"
abbreviation LF :: char where "LF \<equiv> CHR 0x0A"

section \<open>One character\<close>

definition add_digit :: "u32 \<Rightarrow> char \<Rightarrow> u32" where
  "add_digit w c = w * 10 + of_nat (digit_val c)"

text \<open>A signed 32-bit subtraction or addition; leaving the range is undefined.\<close>

definition int32_range :: "int \<Rightarrow> bool" where
  "int32_range i \<longleftrightarrow> - (2 ^ 31) \<le> i \<and> i < 2 ^ 31"

definition step_name :: "char \<Rightarrow> parser \<Rightarrow> perror + parser" where
  "step_name c p =
     (if c = SP \<or> c = CR then
        if p_name p = ''set'' \<or> p_name p = ''add'' \<or> p_name p = ''append'' \<or> p_name p = ''prepend''
        then Inr (p\<lparr>p_state := spKey\<rparr>)
        else if p_name p = ''get'' \<or> p_name p = ''gets'' then Inr (p\<lparr>p_state := sgKey\<rparr>)
        else if p_name p = ''stats'' then Inr (p\<lparr>p_state := sLF\<rparr>)
        else Inl (UnknownCommand (p_name p))
      else Inr (p\<lparr>p_name := p_name p @ [c]\<rparr>))"

definition step_spKey :: "char \<Rightarrow> parser \<Rightarrow> perror + parser" where
  "step_spKey c p =
     (if c = SP then Inr (p\<lparr>p_state := spFlags, p_keys := p_keys p @ [p_curKey p]\<rparr>)
      else Inr (p\<lparr>p_curKey := p_curKey p @ [c]\<rparr>))"

definition step_sgKey :: "char \<Rightarrow> parser \<Rightarrow> perror + parser" where
  "step_sgKey c p =
     (if c = CR then
        let keys = p_keys p @ [p_curKey p] in
        if length keys = 0 then Inl NoKey
        else Inr (p\<lparr>p_keys := keys, p_curKey := [], p_state := sLF\<rparr>)
      else if c = SP then Inr (p\<lparr>p_state := sgKey, p_keys := p_keys p @ [p_curKey p], p_curKey := []\<rparr>)
      else Inr (p\<lparr>p_curKey := p_curKey p @ [c]\<rparr>))"

definition step_spFlags :: "char \<Rightarrow> parser \<Rightarrow> perror + parser" where
  "step_spFlags c p =
     (if c = SP then Inr (p\<lparr>p_negative := False, p_state := spExprTimeStart\<rparr>)
      else if is_digit c then
        let f = add_digit (p_flags p) c in
        if f < p_flags p then Inl FlagsOverflow else Inr (p\<lparr>p_flags := f\<rparr>)
      else Inr p)"

definition step_spExprTimeStart :: "char \<Rightarrow> parser \<Rightarrow> perror + parser" where
  "step_spExprTimeStart c p =
     (if c = CHR ''-'' then Inr (p\<lparr>p_negative := True, p_state := spExprTime\<rparr>)
      else if is_digit c then Inr (p\<lparr>p_exprtime := int (digit_val c), p_state := spExprTime\<rparr>)
      else Inr p)"

definition step_spExprTime :: "char \<Rightarrow> parser \<Rightarrow> perror + parser" where
  "step_spExprTime c p =
     (if c = SP then Inr (p\<lparr>p_state := spBytes\<rparr>)
      else if is_digit c then
        if p_negative p then
          let et = p_exprtime p - int (digit_val c) in
          if \<not> int32_range et then Inl (ParserFault SignedOverflow)
          else if et > p_exprtime p then Inl ExprTimeOverflow
          else Inr (p\<lparr>p_exprtime := et\<rparr>)
        else
          let et = p_exprtime p + int (digit_val c) in
          if \<not> int32_range et then Inl (ParserFault SignedOverflow)
          else if et < p_exprtime p then Inl ExprTimeOverflow
          else Inr (p\<lparr>p_exprtime := et\<rparr>)
      else Inr p)"

definition step_spBytes :: "char \<Rightarrow> parser \<Rightarrow> perror + parser" where
  "step_spBytes c p =
     (if c = CR then Inr (p\<lparr>p_state := sLF\<rparr>)
      else if is_digit c then
        let b = add_digit (p_bytes p) c in
        if b < p_bytes p then Inl BytesOverflow else Inr (p\<lparr>p_bytes := b\<rparr>)
      else Inr p)"

definition step_sLF :: "nat \<Rightarrow> char \<Rightarrow> parser \<Rightarrow> perror + parser" where
  "step_sLF pos c p = (if c = LF then Inr (p\<lparr>p_complete := True\<rparr>) else Inl (InvalidChar c pos))"

fun parse_char :: "nat \<Rightarrow> char \<Rightarrow> parser \<Rightarrow> perror + parser" where
  "parse_char pos c p =
     (case p_state p of
        sName \<Rightarrow> step_name c p
      | spKey \<Rightarrow> step_spKey c p
      | sgKey \<Rightarrow> step_sgKey c p
      | spFlags \<Rightarrow> step_spFlags c p
      | spExprTimeStart \<Rightarrow> step_spExprTimeStart c p
      | spExprTime \<Rightarrow> step_spExprTime c p
      | spBytes \<Rightarrow> step_spBytes c p
      | sLF \<Rightarrow> step_sLF pos c p
      | sCR \<Rightarrow> Inl UnknownState)"

declare parse_char.simps [simp del]

section \<open>Parse, Build\<close>

text \<open>
  The loop over a chunk: the result is the exception or whether a command is complete, the number of
  characters consumed and the parser left behind.
\<close>

fun parse_loop :: "nat \<Rightarrow> string \<Rightarrow> parser \<Rightarrow> (perror + bool) \<times> nat \<times> parser" where
  "parse_loop pos [] p = (Inr (p_complete p), pos, p)"
| "parse_loop pos (c # cs) p =
     (if p_complete p then (Inr True, pos, p)
      else case parse_char pos c p of
        Inl e \<Rightarrow> (Inl e, 0, p)
      | Inr p' \<Rightarrow> parse_loop (Suc pos) cs p')"

definition Parse :: "string \<Rightarrow> parser \<Rightarrow> (perror + bool) \<times> nat \<times> parser" where
  "Parse input p = parse_loop 0 input p"

text \<open>
  \<open>Build\<close>: \<open>None\<close> is the null command; the pair is the command with \<open>body_size\<close>. \<open>keys[0]\<close> of an empty
  vector is out of bounds.
\<close>

definition insert_command_of :: "parser \<Rightarrow> (insert_command \<Rightarrow> command) \<Rightarrow> perror + command option \<times> nat" where
  "insert_command_of p con =
     (case p_keys p of [] \<Rightarrow> Inl (ParserFault OutOfBounds)
      | k # ks \<Rightarrow> Inr (Some (con \<lparr>ic_key = k, ic_flags = p_flags p, ic_expire = p_exprtime p\<rparr>), unat (p_bytes p)))"

definition Build :: "nat \<Rightarrow> parser \<Rightarrow> perror + command option \<times> nat" where
  "Build body_size p =
     (if p_state p \<noteq> sLF then Inr (None, body_size)
      else if p_name p = ''set'' then insert_command_of p Cmd_Set
      else if p_name p = ''add'' then insert_command_of p Cmd_Add
      else if p_name p = ''append'' then insert_command_of p Cmd_Append
      else if p_name p = ''get'' then Inr (Some (Cmd_Get (p_keys p)), unat (p_bytes p))
      else if p_name p = ''stats'' then Inr (Some Cmd_Stats, unat (p_bytes p))
      else Inl UnsupportedCommand)"

end
