(* ===== verification/Parser_Properties.thy ===== *)
theory Parser_Properties
  imports Protocol_Parser
begin

text \<open>
  What the protocol parser guarantees: the outcome does not depend on how the input is cut into chunks,
  it consumes exactly one command line, printing a command and parsing it gives the command back, and
  the command builder never reads a key that is not there.
\<close>

section \<open>Chunks\<close>

fun shift_error :: "nat \<Rightarrow> perror \<Rightarrow> perror" where
  "shift_error n (InvalidChar c pos) = InvalidChar c (pos + n)"
| "shift_error n e = e"

definition shift_result :: "nat \<Rightarrow> (perror + bool) \<times> nat \<times> parser \<Rightarrow> (perror + bool) \<times> nat \<times> parser" where
  "shift_result n r = (case r of (Inl e, k, p) \<Rightarrow> (Inl (shift_error n e), 0, p) | (Inr b, k, p) \<Rightarrow> (Inr b, k + n, p))"

lemmas step_defs = step_name_def step_spKey_def step_sgKey_def step_spFlags_def
  step_spExprTimeStart_def step_spExprTime_def step_spBytes_def step_sLF_def

lemma parse_char_pos: "parse_char (pos + n) c p = map_sum (shift_error n) id (parse_char pos c p)"
proof -
  have "map_sum (shift_error n) id (step_name c p) = step_name c p"
    "map_sum (shift_error n) id (step_spKey c p) = step_spKey c p"
    "map_sum (shift_error n) id (step_sgKey c p) = step_sgKey c p"
    "map_sum (shift_error n) id (step_spFlags c p) = step_spFlags c p"
    "map_sum (shift_error n) id (step_spExprTimeStart c p) = step_spExprTimeStart c p"
    "map_sum (shift_error n) id (step_spExprTime c p) = step_spExprTime c p"
    "map_sum (shift_error n) id (step_spBytes c p) = step_spBytes c p"
    "map_sum (shift_error n) id (step_sLF pos c p) = step_sLF (pos + n) c p"
    by (simp_all only: step_defs Let_def if_distrib [of "map_sum (shift_error n) id"] map_sum.simps
        shift_error.simps id_apply)
  then show ?thesis by (simp add: parse_char.simps split: pstate.split)
qed

text \<open>The position in an error message is the only thing that depends on where a chunk begins.\<close>

fun erase_pos :: "perror \<Rightarrow> perror" where
  "erase_pos (InvalidChar c n) = InvalidChar c 0"
| "erase_pos e = e"

lemma parse_char_erase: "map_sum erase_pos id (parse_char pos c p) = parse_char 0 c p"
proof -
  have "map_sum erase_pos id (step_name c p) = step_name c p"
    "map_sum erase_pos id (step_spKey c p) = step_spKey c p"
    "map_sum erase_pos id (step_sgKey c p) = step_sgKey c p"
    "map_sum erase_pos id (step_spFlags c p) = step_spFlags c p"
    "map_sum erase_pos id (step_spExprTimeStart c p) = step_spExprTimeStart c p"
    "map_sum erase_pos id (step_spExprTime c p) = step_spExprTime c p"
    "map_sum erase_pos id (step_spBytes c p) = step_spBytes c p"
    "map_sum erase_pos id (step_sLF pos c p) = step_sLF 0 c p"
    by (simp_all only: step_defs Let_def if_distrib [of "map_sum erase_pos id"] map_sum.simps
        erase_pos.simps id_apply)
  then show ?thesis by (simp add: parse_char.simps split: pstate.split)
qed

lemma parse_loop_shift: "parse_loop (pos + n) cs p = shift_result n (parse_loop pos cs p)"
proof (induction cs arbitrary: pos p)
  case (Cons c cs)
  show ?case
  proof (cases "parse_char pos c p")
    case (Inr p')
    then show ?thesis using Cons [of "Suc pos" p'] parse_char_pos [of pos n c p]
      by (auto simp: shift_result_def)
  next
    case (Inl e)
    then show ?thesis using parse_char_pos [of pos n c p] by (auto simp: shift_result_def)
  qed
qed (simp add: shift_result_def)

lemma parse_loop_append:
  "parse_loop pos (xs @ ys) p =
     (case parse_loop pos xs p of (Inl e, k, p') \<Rightarrow> (Inl e, k, p') | (Inr b, k, p') \<Rightarrow> parse_loop k ys p')"
  by (induction xs arbitrary: pos p) (auto split: sum.splits, (cases ys; simp)+)

lemma parse_loop_complete: "p_complete p \<Longrightarrow> parse_loop pos ys p = (Inr True, pos, p)"
  by (cases ys) auto

lemma parse_loop_result:
  "parse_loop pos cs p = (Inr b, k, p') \<Longrightarrow>
   pos \<le> k \<and> k \<le> pos + length cs \<and> b = p_complete p' \<and> (\<not> b \<longrightarrow> k = pos + length cs)"
proof (induction cs arbitrary: pos p)
  case (Cons c cs)
  then show ?case by (fastforce split: if_splits sum.splits)
qed auto

lemma Parse_append:
  "Parse (xs @ ys) p =
     (case Parse xs p of (Inr False, k, p') \<Rightarrow> shift_result k (Parse ys p') | r \<Rightarrow> r)"
proof -
  obtain r k p' where r: "parse_loop 0 xs p = (r, k, p')" by (cases "parse_loop 0 xs p")
  show ?thesis
  proof (cases r)
    case (Inl e)
    then show ?thesis using r by (simp add: Parse_def parse_loop_append)
  next
    case (Inr b)
    then have b: "b = p_complete p'" using parse_loop_result r by blast
    show ?thesis
    proof (cases b)
      case True
      then show ?thesis using r Inr b parse_loop_complete [of p' k ys] by (simp add: Parse_def parse_loop_append)
    next
      case False
      then show ?thesis using r Inr parse_loop_shift [of 0 k ys p'] by (simp add: Parse_def parse_loop_append)
    qed
  qed
qed

section \<open>Feeding a text that neither fails nor completes\<close>

fun feed :: "parser \<Rightarrow> string \<Rightarrow> parser option" where
  "feed p [] = Some p"
| "feed p (c # cs) =
     (if p_complete p then None
      else case parse_char 0 c p of Inl e \<Rightarrow> None | Inr p' \<Rightarrow> feed p' cs)"

lemma feed_append: "feed p (xs @ ys) = (case feed p xs of None \<Rightarrow> None | Some q \<Rightarrow> feed q ys)"
  by (induction xs arbitrary: p) (auto split: sum.splits)

lemma parse_char_feed: "parse_char 0 c p = Inr p' \<Longrightarrow> parse_char pos c p = Inr p'"
  using parse_char_pos [of 0 pos c p] by simp

lemma parse_loop_feed:
  "feed p xs = Some q \<Longrightarrow> parse_loop pos (xs @ ys) p = parse_loop (pos + length xs) ys q"
proof (induction xs arbitrary: pos p)
  case (Cons c cs)
  then show ?case
    using parse_char_feed [of c p _ pos] by (auto split: if_splits sum.splits)
qed simp

lemma feed_name:
  "p_state p = sName \<Longrightarrow> \<not> p_complete p \<Longrightarrow> list_all (\<lambda>c. c \<noteq> SP \<and> c \<noteq> CR) cs \<Longrightarrow>
   feed p cs = Some (p\<lparr>p_name := p_name p @ cs\<rparr>)"
  by (induction cs arbitrary: p) (auto simp: parse_char.simps step_name_def)

lemma feed_spKey:
  "p_state p = spKey \<Longrightarrow> \<not> p_complete p \<Longrightarrow> SP \<notin> set cs \<Longrightarrow>
   feed p cs = Some (p\<lparr>p_curKey := p_curKey p @ cs\<rparr>)"
  by (induction cs arbitrary: p) (auto simp: parse_char.simps step_spKey_def)

lemma feed_sgKey:
  "p_state p = sgKey \<Longrightarrow> \<not> p_complete p \<Longrightarrow> SP \<notin> set cs \<Longrightarrow> CR \<notin> set cs \<Longrightarrow>
   feed p cs = Some (p\<lparr>p_curKey := p_curKey p @ cs\<rparr>)"
  by (induction cs arbitrary: p) (auto simp: parse_char.simps step_sgKey_def)

lemma add_digit_unat:
  assumes "is_digit c" "unat w * 10 + digit_val c < 2 ^ 32"
  shows "add_digit w c = of_nat (unat w * 10 + digit_val c)" "unat (add_digit w c) = unat w * 10 + digit_val c"
    "\<not> add_digit w c < w"
proof -
  show e: "add_digit w c = of_nat (unat w * 10 + digit_val c)" by (simp add: add_digit_def)
  show u: "unat (add_digit w c) = unat w * 10 + digit_val c"
    unfolding e using assms(2) by (simp only: unat_of_nat) simp
  show "\<not> add_digit w c < w" using u by (simp add: word_less_nat_alt)
qed

lemma feed_spFlags:
  "p_state p = spFlags \<Longrightarrow> \<not> p_complete p \<Longrightarrow> list_all is_digit ds \<Longrightarrow> dec_val (unat (p_flags p)) ds < 2 ^ 32 \<Longrightarrow>
   feed p ds = Some (p\<lparr>p_flags := of_nat (dec_val (unat (p_flags p)) ds)\<rparr>)"
proof (induction ds arbitrary: p)
  case (Cons d ds)
  have "unat (p_flags p) * 10 + digit_val d < 2 ^ 32"
    using Cons.prems(4) dec_val_mono [of "unat (p_flags p) * 10 + digit_val d" ds] by simp
  note a = add_digit_unat [OF _ this] and d = digit_not_special(1) [of d]
  have "parse_char 0 d p = Inr (p\<lparr>p_flags := add_digit (p_flags p) d\<rparr>)"
    using Cons.prems a d by (auto simp: parse_char.simps step_spFlags_def Let_def)
  then show ?case
    using Cons.IH [of "p\<lparr>p_flags := add_digit (p_flags p) d\<rparr>"] Cons.prems a by auto
qed simp

lemma feed_spBytes:
  "p_state p = spBytes \<Longrightarrow> \<not> p_complete p \<Longrightarrow> list_all is_digit ds \<Longrightarrow> dec_val (unat (p_bytes p)) ds < 2 ^ 32 \<Longrightarrow>
   feed p ds = Some (p\<lparr>p_bytes := of_nat (dec_val (unat (p_bytes p)) ds)\<rparr>)"
proof (induction ds arbitrary: p)
  case (Cons d ds)
  have "unat (p_bytes p) * 10 + digit_val d < 2 ^ 32"
    using Cons.prems(4) dec_val_mono [of "unat (p_bytes p) * 10 + digit_val d" ds] by simp
  note a = add_digit_unat [OF _ this] and d = digit_not_special(3) [of d]
  have "parse_char 0 d p = Inr (p\<lparr>p_bytes := add_digit (p_bytes p) d\<rparr>)"
    using Cons.prems a d by (auto simp: parse_char.simps step_spBytes_def Let_def)
  then show ?case
    using Cons.IH [of "p\<lparr>p_bytes := add_digit (p_bytes p) d\<rparr>"] Cons.prems a by auto
qed simp

definition digit_sum :: "string \<Rightarrow> nat" where
  "digit_sum ds = sum_list (map digit_val ds)"

lemma feed_spExprTime:
  "p_state p = spExprTime \<Longrightarrow> \<not> p_complete p \<Longrightarrow> list_all is_digit ds \<Longrightarrow>
   \<bar>p_exprtime p\<bar> + int (digit_sum ds) < 2 ^ 31 \<Longrightarrow>
   feed p ds = Some (p\<lparr>p_exprtime := p_exprtime p + (if p_negative p then -1 else 1) * int (digit_sum ds)\<rparr>)"
proof (induction ds arbitrary: p)
  case (Cons d ds)
  define et where "et = p_exprtime p + (if p_negative p then -1 else 1) * int (digit_val d)"
  have "\<bar>et\<bar> + int (digit_sum ds) < 2 ^ 31" using Cons.prems(4) by (auto simp: et_def digit_sum_def)
  moreover have "parse_char 0 d p = Inr (p\<lparr>p_exprtime := et\<rparr>)"
    using Cons.prems digit_not_special(1) [of d]
    by (auto simp: parse_char.simps step_spExprTime_def Let_def et_def int32_range_def digit_sum_def)
  ultimately show ?case
    using Cons.IH [of "p\<lparr>p_exprtime := et\<rparr>"] Cons.prems by (auto simp: et_def digit_sum_def algebra_simps)
qed (simp add: digit_sum_def)

lemma digit_sum_show_nat: "digit_sum (show_nat n) \<le> n"
proof (induction n rule: show_nat.induct)
  case (1 n)
  show ?case
  proof (cases "n < 10")
    case False
    then have "digit_sum (show_nat n) \<le> n div 10 + n mod 10"
      using 1 by (subst show_nat.simps) (simp add: digit_sum_def)
    also have "\<dots> \<le> n" by (metis add_mono_thms_linordered_semiring(3) div_mult_mod_eq le_refl nat_mult_le_cancel_disj mult.commute mult.left_neutral mult_le_mono1 one_le_numeral)
    finally show ?thesis .
  qed (subst show_nat.simps, simp add: digit_sum_def)
qed

section \<open>Printing and parsing a command line\<close>

definition expr_text :: "int \<Rightarrow> string" where
  "expr_text e = (if e < 0 then CHR ''-'' # show_nat (nat (- e)) else show_nat (nat e))"

definition store_line :: "string \<Rightarrow> string \<Rightarrow> nat \<Rightarrow> int \<Rightarrow> nat \<Rightarrow> string" where
  "store_line name key flags e bytes =
     name @ [SP] @ key @ [SP] @ show_nat flags @ [SP] @ expr_text e @ [SP] @ show_nat bytes @ [CR] @ [LF]"

definition get_line :: "string list \<Rightarrow> string" where
  "get_line keys = ''get'' @ concat (map (\<lambda>k. SP # k) keys) @ [CR] @ [LF]"

definition fresh_parser :: "parser \<Rightarrow> bool" where
  "fresh_parser p \<longleftrightarrow> p_state p = sName \<and> p_name p = [] \<and> p_keys p = [] \<and> p_curKey p = [] \<and>
     \<not> p_complete p \<and> p_flags p = 0 \<and> p_bytes p = 0 \<and> p_exprtime p = 0"

lemma fresh_Reset: "fresh_parser (Reset p)" "fresh_parser (Parser g)"
  by (simp_all add: fresh_parser_def Reset_def Parser_def)

text \<open>The value the parser gives to the expiration time: its digits are summed up.\<close>

definition parsed_exprtime :: "int \<Rightarrow> int" where
  "parsed_exprtime e = sgn e * int (digit_sum (show_nat (nat \<bar>e\<bar>)))"

lemma parsed_exprtime_small: "\<bar>e\<bar> < 10 \<Longrightarrow> parsed_exprtime e = e"
  by (auto simp: parsed_exprtime_def show_nat.simps digit_sum_def sgn_if)

lemma feed_expr_text:
  assumes "p_state p = spExprTimeStart" "\<not> p_complete p" "\<not> p_negative p" "p_exprtime p = 0" "\<bar>e\<bar> < 2 ^ 31"
  shows "feed p (expr_text e) = Some (p\<lparr>p_state := spExprTime, p_negative := e < 0, p_exprtime := parsed_exprtime e\<rparr>)"
proof (cases "e < 0")
  case True
  let ?q = "p\<lparr>p_negative := True, p_state := spExprTime\<rparr>" and ?ds = "show_nat (nat (- e))"
  have "parse_char 0 (CHR ''-'') p = Inr ?q"
    using assms(1) by (simp add: parse_char.simps step_spExprTimeStart_def)
  then have "feed p (expr_text e) = feed ?q ?ds" using True assms(2) by (simp add: expr_text_def)
  also have "\<dots> = Some (?q\<lparr>p_exprtime := - int (digit_sum ?ds)\<rparr>)"
    using feed_spExprTime [of ?q ?ds] assms True digit_sum_show_nat [of "nat (- e)"] by (simp add: show_nat_digits)
  finally show ?thesis using True assms(3) by (simp add: parsed_exprtime_def)
next
  case False
  obtain d ds where ds: "show_nat (nat e) = d # ds" by (cases "show_nat (nat e)") auto
  have dig: "is_digit d" "list_all is_digit ds" using show_nat_digits [of "nat e"] ds by auto
  have sum: "digit_sum (show_nat (nat e)) = digit_val d + digit_sum ds" by (simp add: ds digit_sum_def)
  let ?q = "p\<lparr>p_exprtime := int (digit_val d), p_state := spExprTime\<rparr>"
  have "parse_char 0 d p = Inr ?q"
    using assms(1) dig digit_not_special(2) by (auto simp: parse_char.simps step_spExprTimeStart_def)
  then have "feed p (expr_text e) = feed ?q ds" using False assms(2) ds by (simp add: expr_text_def)
  also have "\<dots> = Some (?q\<lparr>p_exprtime := int (digit_val d) + int (digit_sum ds)\<rparr>)"
    using feed_spExprTime [of ?q ds] assms False dig sum digit_sum_show_nat [of "nat e"] by simp
  finally show ?thesis using False assms(3) sum
    by (auto simp: parsed_exprtime_def sgn_if digit_sum_def show_nat.simps)
qed

lemma feed_store_line:
  assumes p: "fresh_parser p" and name: "name \<in> {''set'', ''add'', ''append''}" and key: "SP \<notin> set key"
    and flags: "flags < 2 ^ 32" and bytes: "bytes < 2 ^ 32" and e: "\<bar>e\<bar> < 2 ^ 31"
  shows "\<exists>q. feed p (store_line name key flags e bytes) = Some q \<and> p_complete q \<and> p_state q = sLF \<and> p_name q = name \<and>
    p_keys q = [key] \<and> p_flags q = of_nat flags \<and> p_exprtime q = parsed_exprtime e \<and> p_bytes q = of_nat bytes"
proof -
  note P = p [unfolded fresh_parser_def]
  define p1 where "p1 = p\<lparr>p_name := name\<rparr>"
  define p2 where "p2 = p1\<lparr>p_state := spKey\<rparr>"
  define p3 where "p3 = p2\<lparr>p_curKey := key\<rparr>"
  define p4 where "p4 = p3\<lparr>p_state := spFlags, p_keys := [key]\<rparr>"
  define p5 where "p5 = p4\<lparr>p_flags := of_nat flags\<rparr>"
  define p6 where "p6 = p5\<lparr>p_negative := False, p_state := spExprTimeStart\<rparr>"
  define p7 where "p7 = p6\<lparr>p_state := spExprTime, p_negative := e < 0, p_exprtime := parsed_exprtime e\<rparr>"
  define p8 where "p8 = p7\<lparr>p_state := spBytes\<rparr>"
  define p9 where "p9 = p8\<lparr>p_bytes := of_nat bytes\<rparr>"
  define p10 where "p10 = p9\<lparr>p_state := sLF\<rparr>"
  define q where "q = p10\<lparr>p_complete := True\<rparr>"
  note D = p1_def p2_def p3_def p4_def p5_def p6_def p7_def p8_def p9_def p10_def q_def
  have 1: "feed p name = Some p1" using feed_name [of p name] name P by (auto simp: D)
  have 2: "feed p1 [SP] = Some p2" using name P by (auto simp: D parse_char.simps step_name_def)
  have 3: "feed p2 key = Some p3" using feed_spKey [of p2 key] key P by (simp add: D)
  have 4: "feed p3 [SP] = Some p4" using P by (simp add: D parse_char.simps step_spKey_def)
  have 5: "feed p4 (show_nat flags) = Some p5"
    using feed_spFlags [of p4 "show_nat flags"] P flags by (simp add: D show_nat_digits dec_val_show_nat)
  have 6: "feed p5 [SP] = Some p6" using P by (simp add: D parse_char.simps step_spFlags_def)
  have 7: "feed p6 (expr_text e) = Some p7" using feed_expr_text [of p6 e] P e by (simp add: D)
  have 8: "feed p7 [SP] = Some p8" using P by (simp add: D parse_char.simps step_spExprTime_def)
  have 9: "feed p8 (show_nat bytes) = Some p9"
    using feed_spBytes [of p8 "show_nat bytes"] P bytes by (simp add: D show_nat_digits dec_val_show_nat)
  have 10: "feed p9 [CR] = Some p10" using P by (simp add: D parse_char.simps step_spBytes_def)
  have 11: "feed p10 [LF] = Some q" using P by (simp add: D parse_char.simps step_sLF_def)
  have "feed p (store_line name key flags e bytes) = Some q"
    unfolding store_line_def by (simp only: feed_append 1 2 3 4 5 6 7 8 9 10 11 option.case)
  then show ?thesis using P by (auto simp: D)
qed

lemma feed_get_keys:
  "p_state p = sgKey \<Longrightarrow> \<not> p_complete p \<Longrightarrow> p_curKey p = [] \<Longrightarrow> list_all (\<lambda>k. SP \<notin> set k \<and> CR \<notin> set k) (k # keys) \<Longrightarrow>
   feed p (k @ concat (map (\<lambda>k. SP # k) keys) @ [CR] @ [LF]) =
   Some (p\<lparr>p_keys := p_keys p @ k # keys, p_state := sLF, p_complete := True\<rparr>)"
proof (induction keys arbitrary: p k)
  case Nil
  have "feed p k = Some (p\<lparr>p_curKey := k\<rparr>)" using feed_sgKey [of p k] Nil by simp
  with Nil show ?case
    by (auto simp: feed_append parse_char.simps step_sgKey_def step_sLF_def)
next
  case (Cons k' keys)
  let ?p = "p\<lparr>p_keys := p_keys p @ [k]\<rparr>"
  have "feed p k = Some (p\<lparr>p_curKey := k\<rparr>)" using feed_sgKey [of p k] Cons.prems by simp
  moreover have "feed (p\<lparr>p_curKey := k\<rparr>) [SP] = Some ?p"
    using Cons.prems by (auto simp: parse_char.simps step_sgKey_def)
  moreover have "k @ concat (map (\<lambda>k. SP # k) (k' # keys)) @ [CR] @ [LF] =
      k @ [SP] @ (k' @ concat (map (\<lambda>k. SP # k) keys) @ [CR] @ [LF])" by simp
  ultimately show ?case
    using Cons.IH [of ?p k'] Cons.prems by (simp only: feed_append option.case) simp
qed

lemma parse_get_line:
  assumes "fresh_parser p" "keys \<noteq> []" "list_all (\<lambda>k. SP \<notin> set k \<and> CR \<notin> set k) keys"
  shows "\<exists>q. Parse (get_line keys @ rest) p = (Inr True, length (get_line keys), q) \<and>
    Build n q = Inr (Some (Cmd_Get keys), 0)"
proof -
  obtain k ks where keys: "keys = k # ks" using assms(2) by (cases keys) auto
  note P = assms(1) [unfolded fresh_parser_def]
  define p1 where "p1 = p\<lparr>p_name := ''get''\<rparr>"
  define p2 where "p2 = p1\<lparr>p_state := sgKey\<rparr>"
  define q where "q = p2\<lparr>p_keys := keys, p_state := sLF, p_complete := True\<rparr>"
  have 1: "feed p ''get'' = Some p1" using feed_name [of p "''get''"] P by (simp add: p1_def)
  have 2: "feed p1 [SP] = Some p2" using P by (simp add: p1_def p2_def parse_char.simps step_name_def)
  define tail where "tail = k @ concat (map (\<lambda>k. SP # k) ks) @ [CR] @ [LF]"
  have 3: "feed p2 tail = Some q"
    using feed_get_keys [of p2 k ks] P assms(3) keys by (simp add: p1_def p2_def q_def tail_def)
  have line: "get_line keys = ''get'' @ [SP] @ tail"
    by (simp add: get_line_def keys tail_def)
  have "feed p (get_line keys) = Some q"
    unfolding line by (simp only: feed_append 1 2 3 option.case)
  then have "Parse (get_line keys @ rest) p = (Inr True, length (get_line keys), q)"
    unfolding Parse_def by (simp add: parse_loop_feed parse_loop_complete q_def)
  moreover have "Build n q = Inr (Some (Cmd_Get keys), 0)"
    using P by (simp add: Build_def q_def p1_def p2_def)
  ultimately show ?thesis by blast
qed

section \<open>The parser invariant\<close>

definition store_names :: "string set" where
  "store_names = {''set'', ''add'', ''append'', ''prepend''}"

definition parser_inv :: "parser \<Rightarrow> bool" where
  "parser_inv p \<longleftrightarrow> p_state p \<noteq> sCR \<and> (p_complete p \<longrightarrow> p_state p = sLF) \<and>
     (p_state p \<in> {spKey, spFlags, spExprTimeStart, spExprTime, spBytes} \<longrightarrow> p_name p \<in> store_names) \<and>
     (p_state p \<in> {spFlags, spExprTimeStart, spExprTime, spBytes} \<longrightarrow> p_keys p \<noteq> []) \<and>
     (p_state p = sgKey \<longrightarrow> p_name p \<in> {''get'', ''gets''}) \<and>
     (p_state p = sLF \<longrightarrow> p_name p = ''stats'' \<or> p_name p \<in> store_names \<union> {''get'', ''gets''} \<and> p_keys p \<noteq> [])"

lemma parser_inv_fresh: "fresh_parser p \<Longrightarrow> parser_inv p"
  by (simp add: fresh_parser_def parser_inv_def)

lemma parse_char_inv:
  assumes "parser_inv p" "\<not> p_complete p" "parse_char pos c p = Inr p'"
  shows "parser_inv p'"
proof (cases "p_state p")
  case sName
  then show ?thesis using assms
    by (auto simp: parse_char.simps parser_inv_def step_name_def store_names_def split: if_splits)
next
  case spKey
  then show ?thesis using assms
    by (auto simp: parse_char.simps parser_inv_def step_spKey_def split: if_splits)
next
  case sgKey
  then show ?thesis using assms
    by (auto simp: parse_char.simps parser_inv_def step_sgKey_def Let_def split: if_splits)
next
  case spFlags
  then show ?thesis using assms
    by (auto simp: parse_char.simps parser_inv_def step_spFlags_def Let_def split: if_splits)
next
  case spExprTimeStart
  then show ?thesis using assms
    by (auto simp: parse_char.simps parser_inv_def step_spExprTimeStart_def split: if_splits)
next
  case spExprTime
  then show ?thesis using assms
    by (auto simp: parse_char.simps parser_inv_def step_spExprTime_def Let_def split: if_splits)
next
  case spBytes
  then show ?thesis using assms
    by (auto simp: parse_char.simps parser_inv_def step_spBytes_def Let_def split: if_splits)
next
  case sLF
  then show ?thesis using assms
    by (auto simp: parse_char.simps parser_inv_def step_sLF_def split: if_splits)
next
  case sCR
  then show ?thesis using assms by (simp add: parser_inv_def)
qed

lemma step_name_error: "step_name c p = Inl e \<Longrightarrow> e = UnknownCommand (p_name p)"
proof -
  have "case step_name c p of Inl e \<Rightarrow> e = UnknownCommand (p_name p) | Inr q \<Rightarrow> True"
    by (simp add: step_name_def)
  then show "step_name c p = Inl e \<Longrightarrow> e = UnknownCommand (p_name p)" by simp
qed

lemma parse_char_errors:
  assumes "parser_inv p" "parse_char pos c p = Inl e"
  shows "e \<noteq> NoKey \<and> e \<noteq> UnknownState \<and> e \<noteq> ExprTimeOverflow"
proof (cases "p_state p")
  case sCR
  then show ?thesis using assms(1) by (simp add: parser_inv_def)
next
  case sName
  then have "step_name c p = Inl e" using assms(2) by (simp add: parse_char.simps)
  then have "e = UnknownCommand (p_name p)" by (rule step_name_error)
  then show ?thesis by simp
qed (use assms(2) in \<open>auto simp: parse_char.simps step_spKey_def step_sgKey_def step_spFlags_def
  step_spExprTimeStart_def step_spExprTime_def step_spBytes_def step_sLF_def Let_def split: if_splits\<close>)

lemma parse_loop_inv:
  assumes "parser_inv p" "parse_loop pos cs p = (r, k, p')"
  shows "parser_inv p' \<and> (\<forall>e. r = Inl e \<longrightarrow> e \<noteq> NoKey \<and> e \<noteq> UnknownState \<and> e \<noteq> ExprTimeOverflow)"
  using assms
proof (induction cs arbitrary: pos p)
  case (Cons c cs)
  show ?case
  proof (cases "p_complete p")
    case False
    show ?thesis
    proof (cases "parse_char pos c p")
      case (Inl e)
      with Cons.prems False have "r = Inl e" "p' = p" by simp_all
      then show ?thesis using Cons.prems(1) parse_char_errors [OF Cons.prems(1) Inl] by simp
    next
      case (Inr q)
      with Cons.prems False have "parse_loop (Suc pos) cs q = (r, k, p')" by simp
      then show ?thesis by (rule Cons.IH [OF parse_char_inv [OF Cons.prems(1) False Inr]])
    qed
  next
    case True
    then have "r = Inr True" "p' = p" using Cons.prems(2) by simp_all
    then show ?thesis using Cons.prems(1) by simp
  qed
qed auto

section \<open>Properties\<close>

text \<open>
  C9. The outcome does not depend on how the network cuts the input into chunks: parsing a text is
  parsing a first part and, if that is not enough, going on with the rest; the numbers of consumed
  characters add up.
\<close>

theorem Parse_chunks:
  "Parse (xs @ ys) p =
     (case Parse xs p of (Inr False, k, p') \<Rightarrow> shift_result k (Parse ys p') | r \<Rightarrow> r)"
  by (rule Parse_append)

lemma parse_loop_LF:
  "parse_loop pos cs p = (Inr True, k, p') \<Longrightarrow> \<not> p_complete p \<Longrightarrow> pos < k \<and> cs ! (k - 1 - pos) = LF"
proof (induction cs arbitrary: pos p)
  case (Cons c cs)
  then obtain q where q: "parse_char pos c p = Inr q" by (cases "parse_char pos c p") auto
  with Cons.prems have lq: "parse_loop (Suc pos) cs q = (Inr True, k, p')" by simp
  show ?case
  proof (cases "p_complete q")
    case True
    have "p_state p \<noteq> sLF \<Longrightarrow> p_complete q = p_complete p"
      using q by (cases "p_state p")
        (auto simp: parse_char.simps step_defs Let_def simp del: if_split split: if_split_asm)
    then have "p_state p = sLF" using True Cons.prems(2) by blast
    then have "c = LF" using q by (simp add: parse_char.simps step_sLF_def split: if_split_asm)
    moreover have "k = Suc pos" using lq parse_loop_complete [OF True, of "Suc pos" cs] by simp
    ultimately show ?thesis by simp
  next
    case False
    have "Suc pos < k \<and> cs ! (k - 1 - Suc pos) = LF" by (rule Cons.IH [OF lq False])
    moreover from this have "k - 1 - pos = Suc (k - 1 - Suc pos)" by arith
    ultimately show ?thesis by simp
  qed
qed auto

text \<open>
  C10. Parse consumes no more than it was given, all of it unless a command is complete, and returns
  true exactly when the parser has seen a complete command, which then ends with the line feed it
  consumed last.
\<close>

theorem Parse_consumes:
  assumes "Parse input p = (Inr b, n, p')"
  shows "n \<le> length input \<and> b = p_complete p' \<and> (\<not> b \<longrightarrow> n = length input) \<and>
    (b \<and> \<not> p_complete p \<longrightarrow> 0 < n \<and> input ! (n - 1) = LF)"
  using parse_loop_result [of 0 input p b n p'] parse_loop_LF [of 0 input p n p'] assms
  by (auto simp: Parse_def)

theorem Parse_consumes_witness:
  "\<exists>n p'. Parse (''stats'' @ [CR, LF] @ ''get'') (Parser False) = (Inr True, n, p') \<and> n = 7 \<and>
     (''stats'' @ [CR, LF] @ ''get'') ! (n - 1) = LF"
proof -
  let ?i = "''stats'' @ [CR, LF] @ ''get''"
  obtain n p' where "Parse ?i (Parser False) = (Inr True, n, p')" "n = 7"
    by (simp add: Parse_def Parser_def Reset_def parse_char.simps step_name_def step_sLF_def)
  with Parse_consumes [OF this(1)] show ?thesis by (auto simp: Parser_def Reset_def)
qed

text \<open>
  C7. Printing a store command and parsing it gives the command back, whatever follows it: the parser
  stops right after the line, and \<open>Build\<close> returns the command with the key, the 32-bit flags and the size of
  the data block. The expiration time is the sum of its digits, that is, itself only below ten.
\<close>

theorem store_roundtrip:
  assumes "fresh_parser p" "name \<in> {''set'', ''add'', ''append''}" "SP \<notin> set key"
    and "flags < 2 ^ 32" "bytes < 2 ^ 32" "\<bar>e\<bar> < 2 ^ 31"
  shows "\<exists>q. Parse (store_line name key flags e bytes @ rest) p = (Inr True, length (store_line name key flags e bytes), q) \<and>
    Build n q = Inr (Some ((if name = ''set'' then Cmd_Set else if name = ''add'' then Cmd_Add else Cmd_Append)
      \<lparr>ic_key = key, ic_flags = of_nat flags, ic_expire = parsed_exprtime e\<rparr>), bytes) \<and>
    (\<bar>e\<bar> < 10 \<longrightarrow> parsed_exprtime e = e)"
proof -
  obtain q where q: "feed p (store_line name key flags e bytes) = Some q" "p_complete q" "p_state q = sLF" "p_name q = name"
    "p_keys q = [key]" "p_flags q = of_nat flags" "p_exprtime q = parsed_exprtime e" "p_bytes q = of_nat bytes"
    using feed_store_line [OF assms] by blast
  have "Parse (store_line name key flags e bytes @ rest) p = (Inr True, length (store_line name key flags e bytes), q)"
    unfolding Parse_def parse_loop_feed [OF q(1)] using parse_loop_complete [OF q(2)] by simp
  moreover have "unat (of_nat bytes :: u32) = bytes" using assms(5) by (simp add: unat_of_nat)
  ultimately show ?thesis
    using q assms(2) parsed_exprtime_small [of e] by (intro exI [of _ q]) (auto simp: Build_def insert_command_of_def)
qed

theorem store_roundtrip_witness:
  "\<exists>q. Parse (store_line ''add'' ''key'' 4294967295 (-7) 5 @ ''hello'') (Parser True) =
      (Inr True, length (store_line ''add'' ''key'' 4294967295 (-7) 5), q) \<and>
    Build 0 q = Inr (Some (Cmd_Add \<lparr>ic_key = ''key'', ic_flags = of_nat 4294967295, ic_expire = -7\<rparr>), 5)"
  using store_roundtrip [OF fresh_Reset(2) [of True], of "''add''" "''key''" 4294967295 5 "-7" "''hello''" 0]
  by auto

text \<open>
  C8. Printing a \<open>get\<close> command with any non-empty list of keys without blanks and parsing it gives the
  same keys in the same order.
\<close>

theorem get_roundtrip:
  assumes "fresh_parser p" "keys \<noteq> []" "list_all (\<lambda>k. SP \<notin> set k \<and> CR \<notin> set k) keys"
  shows "\<exists>q. Parse (get_line keys @ rest) p = (Inr True, length (get_line keys), q) \<and>
    Build n q = Inr (Some (Cmd_Get keys), 0)"
  by (rule parse_get_line [OF assms])

theorem get_roundtrip_witness:
  "\<exists>q. Parse (get_line [''a'', ''bc''] @ ''x'') (Parser False) = (Inr True, length (get_line [''a'', ''bc'']), q) \<and>
    Build 0 q = Inr (Some (Cmd_Get [''a'', ''bc'']), 0)"
  using get_roundtrip [OF fresh_Reset(2) [of False], of "[''a'', ''bc'']" "''x''" 0] by simp

fun parse_all :: "string list \<Rightarrow> parser \<Rightarrow> (perror + bool) \<times> parser" where
  "parse_all [] p = (Inr (p_complete p), p)"
| "parse_all (xs # xss) p =
     (case Parse xs p of (Inl e, k, p') \<Rightarrow> (Inl e, p') | (Inr b, k, p') \<Rightarrow> parse_all xss p')"

lemma parse_all_inv:
  "parser_inv p \<Longrightarrow> parse_all xss p = (r, p') \<Longrightarrow>
   parser_inv p' \<and> (\<forall>e. r = Inl e \<longrightarrow> e \<noteq> NoKey \<and> e \<noteq> UnknownState \<and> e \<noteq> ExprTimeOverflow)"
proof (induction xss arbitrary: p)
  case (Cons xs xss)
  obtain r1 k p1 where r1: "Parse xs p = (r1, k, p1)" by (cases "Parse xs p")
  then have i: "parser_inv p1" "\<forall>e. r1 = Inl e \<longrightarrow> e \<noteq> NoKey \<and> e \<noteq> UnknownState \<and> e \<noteq> ExprTimeOverflow"
    using parse_loop_inv [OF Cons.prems(1)] by (auto simp: Parse_def)
  show ?case
  proof (cases r1)
    case (Inl e)
    then have "r = Inl e" "p' = p1" using Cons.prems(2) r1 by simp_all
    then show ?thesis using i Inl by simp
  next
    case (Inr b)
    then have "parse_all xss p1 = (r, p')" using Cons.prems(2) r1 by simp
    then show ?thesis by (rule Cons.IH [OF i(1)])
  qed
qed auto

lemma Build_inv: "parser_inv p \<Longrightarrow> Build n p \<noteq> Inl (ParserFault f)"
  by (cases "p_keys p") (auto simp: Build_def insert_command_of_def parser_inv_def store_names_def)

text \<open>
  From a fresh parser, whatever bytes arrive in whatever chunks, \<open>Parse\<close> never reports a missing key,
  an unknown state or an expiration time overflow, and \<open>Build\<close> never reads a key that is not there.
\<close>

theorem Build_in_bounds:
  assumes "fresh_parser p" "parse_all xss p = (r, p')"
  shows "r \<noteq> Inl NoKey \<and> r \<noteq> Inl UnknownState \<and> r \<noteq> Inl ExprTimeOverflow \<and> Build n p' \<noteq> Inl (ParserFault f)"
  using parse_all_inv [OF parser_inv_fresh [OF assms(1)] assms(2)] Build_inv [of p' n f] by auto

theorem Build_in_bounds_witness:
  "Build 0 (snd (parse_all [''se'', ''t k 1''] (Parser True))) \<noteq> Inl (ParserFault OutOfBounds)"
  using Build_in_bounds [OF fresh_Reset(2) [of True] prod.collapse [symmetric], of "[''se'', ''t k 1'']" 0 OutOfBounds]
  by simp

text \<open>
  The overflow check of the flags field compares with the previous value only: eleven digits that do
  not fit into 32 bits are accepted and wrap around.
\<close>

theorem flags_overflow_missed:
  "case Parse (''set k 15000000000 0 1'' @ crlf) (Parser False) of (r, n, p) \<Rightarrow>
     r = Inr True \<and> p_flags p = 2115098112"
  by code_simp

end
