(* ===== verification/Connection_Loop.thy ===== *)
theory Connection_Loop
  imports Commands Parser_Properties
begin

text \<open>
  The loop every network service runs on the bytes of a connection (\<^verbatim>\<open>st_blocking/ServerImpl.cpp\<close>,
  \<^verbatim>\<open>mt_blocking/ServerImpl.cpp\<close> and \<^verbatim>\<open>{st,mt}_nonblocking/Connection.cpp\<close>): parse a command, collect its
  argument, execute it, deliver the result. The loop is one definition; what the services do with a result
  is its parameter \<open>deliver\<close>. An abstract machine that eats one byte at a time is the reference, and the
  loop is proved to compute what the machine computes, however the bytes are cut into reads.
\<close>

section \<open>State\<close>

datatype conn_error = ParseError perror | SendFailed | ExecuteFault fault

record ('s, 'o) cstate =
  cs_parser :: parser
  cs_arg_remains :: nat
  cs_argument :: string
  cs_command :: "command option"
  cs_store :: 's
  cs_sink :: 'o

type_synonym 'o deliver = "string \<Rightarrow> 'o \<Rightarrow> bool \<times> 'o"

section \<open>The loop\<close>

text \<open>The three parts of an iteration. The error, if any, comes with the state reached.\<close>

definition build_command :: "('s, 'o) cstate \<Rightarrow> parser \<Rightarrow> conn_error option \<times> ('s, 'o) cstate" where
  "build_command s p =
     (case Build (cs_arg_remains s) p of
        Inl e \<Rightarrow> (Some (ParseError e), s\<lparr>cs_parser := p\<rparr>)
      | Inr (c, body_size) \<Rightarrow>
          (None, s\<lparr>cs_parser := p, cs_command := c,
             cs_arg_remains := (if body_size > 0 then body_size + 2 else body_size)\<rparr>))"

definition fill_argument :: "('s, 'o) cstate \<Rightarrow> string \<Rightarrow> ('s, 'o) cstate \<times> string" where
  "fill_argument s buf =
     (if cs_command s \<noteq> None \<and> cs_arg_remains s > 0 then
        let to_read = min (cs_arg_remains s) (length buf) in
        (s\<lparr>cs_argument := cs_argument s @ take to_read buf, cs_arg_remains := cs_arg_remains s - to_read\<rparr>,
         drop to_read buf)
      else (s, buf))"

definition run_command ::
  "'s storage_ops \<Rightarrow> 'o deliver \<Rightarrow> ('s, 'o) cstate \<Rightarrow> conn_error option \<times> ('s, 'o) cstate" where
  "run_command ops deliver s =
     (case cs_command s of None \<Rightarrow> (None, s)
      | Some c \<Rightarrow>
        if cs_arg_remains s > 0 then (None, s)
        else (case Execute ops c (cs_store s) (cs_argument s) of
          Inl f \<Rightarrow> (Some (ExecuteFault f), s)
        | Inr (result, st) \<Rightarrow>
          (case deliver result (cs_sink s) of
             (False, k) \<Rightarrow> (Some SendFailed, s\<lparr>cs_store := st, cs_sink := k\<rparr>)
           | (True, k) \<Rightarrow> (None, s\<lparr>cs_store := st, cs_sink := k, cs_command := None, cs_argument := [],
               cs_parser := Reset (cs_parser s)\<rparr>))))"

text \<open>
  One iteration on a non-empty buffer: the result is an error, the order to leave the loop (\<open>break\<close>), or the
  rest of the buffer.
\<close>

datatype iter_result = IterError conn_error | Break | Rest string

definition iteration ::
  "'s storage_ops \<Rightarrow> 'o deliver \<Rightarrow> ('s, 'o) cstate \<Rightarrow> string \<Rightarrow> iter_result \<times> ('s, 'o) cstate" where
  "iteration ops deliver s buf =
     (case (if cs_command s \<noteq> None then (Rest buf, s)
            else case Parse buf (cs_parser s) of
              (Inl e, _, p) \<Rightarrow> (IterError (ParseError e), s\<lparr>cs_parser := p\<rparr>)
            | (Inr complete, parsed, p) \<Rightarrow>
              (case (if complete then build_command s p else (None, s\<lparr>cs_parser := p\<rparr>)) of
                 (Some e, s1) \<Rightarrow> (IterError e, s1)
               | (None, s1) \<Rightarrow> (if parsed = 0 then Break else Rest (drop parsed buf), s1)))
      of (Rest buf1, s1) \<Rightarrow>
           (case fill_argument s1 buf1 of (s2, buf2) \<Rightarrow>
             (case run_command ops deliver s2 of
                (Some e, s3) \<Rightarrow> (IterError e, s3)
              | (None, s3) \<Rightarrow> (Rest buf2, s3)))
       | (r, s1) \<Rightarrow> (r, s1))"

definition loop_measure :: "('s, 'o) cstate \<Rightarrow> string \<Rightarrow> nat" where
  "loop_measure s buf = 2 * length buf + (if cs_command s = None then 0 else 1)"

lemma fill_argument_length:
  "fill_argument s buf = (s', buf') \<Longrightarrow> length buf' \<le> length buf \<and> cs_command s' = cs_command s \<and>
   (cs_command s \<noteq> None \<and> cs_arg_remains s > 0 \<and> buf \<noteq> [] \<longrightarrow> length buf' < length buf) \<and>
   (\<not> (cs_command s \<noteq> None \<and> cs_arg_remains s > 0) \<longrightarrow> s' = s \<and> buf' = buf)"
  by (auto simp: fill_argument_def Let_def split: if_splits)

lemma run_command_None:
  "run_command ops deliver s = (None, s') \<Longrightarrow>
   cs_command s' = (if cs_arg_remains s > 0 then cs_command s else None)"
  by (auto simp: run_command_def split: option.splits if_splits sum.splits prod.splits bool.splits)

lemma iteration_progress:
  assumes "buf \<noteq> []" "iteration ops deliver s buf = (Rest buf', s')"
  shows "loop_measure s' buf' < loop_measure s buf"
proof (cases "cs_command s")
  case (Some c)
  obtain s2 buf2 where f: "fill_argument s buf = (s2, buf2)" by fastforce
  with assms Some have r: "run_command ops deliver s2 = (None, s')" and b: "buf' = buf2"
    by (auto simp: iteration_def split: prod.splits option.splits)
  show ?thesis
    using fill_argument_length [OF f] run_command_None [OF r] Some assms(1) b
    by (cases "cs_arg_remains s > 0") (auto simp: loop_measure_def)
next
  case None
  obtain r n p where P: "Parse buf (cs_parser s) = (r, n, p)" by (cases "Parse buf (cs_parser s)")
  with assms(2) None obtain b where r: "r = Inr b" by (cases r) (auto simp: iteration_def)
  obtain e s1 where B: "(if b then build_command s p else (None, s\<lparr>cs_parser := p\<rparr>)) = (e, s1)"
    by fastforce
  obtain s2 buf2 where f: "fill_argument s1 (drop n buf) = (s2, buf2)" by fastforce
  have "e = None \<and> n \<noteq> 0 \<and> buf' = buf2"
    using assms(2) None P r B f
    by (cases e; cases "n = 0"; cases "run_command ops deliver s2")
       (auto simp: iteration_def split: option.splits)
  moreover from this have "length buf2 < length buf"
    using fill_argument_length [OF f] assms(1) by (cases buf) auto
  ultimately show ?thesis using None by (auto simp: loop_measure_def)
qed

function process_buf ::
  "'s storage_ops \<Rightarrow> 'o deliver \<Rightarrow> ('s, 'o) cstate \<Rightarrow> string \<Rightarrow> conn_error option \<times> ('s, 'o) cstate" where
  "process_buf ops deliver s buf =
     (if buf = [] then (None, s)
      else case iteration ops deliver s buf of
        (IterError e, s') \<Rightarrow> (Some e, s')
      | (Break, s') \<Rightarrow> (None, s')
      | (Rest buf', s') \<Rightarrow> process_buf ops deliver s' buf')"
  by pat_completeness auto
termination
  by (relation "measure (\<lambda>(ops, deliver, s, buf). loop_measure s buf)") (auto dest!: iteration_progress [OF _ sym])

declare process_buf.simps [simp del]

section \<open>Reading from the socket\<close>

datatype read_result = Data string | Eof | ReadErr bool

text \<open>
  A successful \<open>read\<close> gives at least one byte; \<open>ReadErr again\<close> is the result -1 with \<open>errno\<close> equal to
  \<open>EAGAIN\<close> or not. The loops end when there is nothing more to read.
\<close>

datatype conn_end = ClosedByPeer | WouldBlock | ReadFailed | Failed conn_error

fun read_loop ::
  "'s storage_ops \<Rightarrow> 'o deliver \<Rightarrow> ('s, 'o) cstate \<Rightarrow> read_result list \<Rightarrow> conn_end \<times> ('s, 'o) cstate" where
  "read_loop ops deliver s [] = (WouldBlock, s)"
| "read_loop ops deliver s (Eof # rs) = (ClosedByPeer, s)"
| "read_loop ops deliver s (ReadErr again # rs) = (if again then WouldBlock else ReadFailed, s)"
| "read_loop ops deliver s (Data buf # rs) =
     (case process_buf ops deliver s buf of
        (Some e, s') \<Rightarrow> (Failed e, s')
      | (None, s') \<Rightarrow> read_loop ops deliver s' rs)"

section \<open>The machine that eats one byte\<close>

fun erase_error :: "conn_error \<Rightarrow> conn_error" where
  "erase_error (ParseError e) = ParseError (erase_pos e)"
| "erase_error e = e"

definition eat ::
  "'s storage_ops \<Rightarrow> 'o deliver \<Rightarrow> ('s, 'o) cstate \<Rightarrow> char \<Rightarrow> conn_error option \<times> ('s, 'o) cstate" where
  "eat ops deliver s c =
     (case cs_command s of
        None \<Rightarrow>
          (case parse_char 0 c (cs_parser s) of
             Inl e \<Rightarrow> (Some (ParseError e), s)
           | Inr p \<Rightarrow>
             if p_complete p then
               (case build_command s p of (Some e, s1) \<Rightarrow> (Some e, s1) | (None, s1) \<Rightarrow> run_command ops deliver s1)
             else (None, s\<lparr>cs_parser := p\<rparr>))
      | Some cmd \<Rightarrow>
          run_command ops deliver (s\<lparr>cs_argument := cs_argument s @ [c], cs_arg_remains := cs_arg_remains s - 1\<rparr>))"

fun eat_all ::
  "'s storage_ops \<Rightarrow> 'o deliver \<Rightarrow> ('s, 'o) cstate \<Rightarrow> string \<Rightarrow> conn_error option \<times> ('s, 'o) cstate" where
  "eat_all ops deliver s [] = (None, s)"
| "eat_all ops deliver s (c # cs) =
     (case eat ops deliver s c of (Some e, s') \<Rightarrow> (Some e, s') | (None, s') \<Rightarrow> eat_all ops deliver s' cs)"

lemma eat_all_append:
  "eat_all ops deliver s (xs @ ys) =
     (case eat_all ops deliver s xs of (Some e, s') \<Rightarrow> (Some e, s') | (None, s') \<Rightarrow> eat_all ops deliver s' ys)"
  by (induction xs arbitrary: s) (auto split: prod.splits option.splits)

text \<open>Between two iterations a command waits for at least one byte of its argument.\<close>

definition conn_inv :: "('s, 'o) cstate \<Rightarrow> bool" where
  "conn_inv s \<longleftrightarrow> (case cs_command s of
      None \<Rightarrow> parser_inv (cs_parser s) \<and> \<not> p_complete (cs_parser s) \<and> cs_argument s = []
    | Some c \<Rightarrow> cs_arg_remains s > 0)"

lemma run_command_inv:
  "run_command ops deliver s = (None, s') \<Longrightarrow> cs_command s \<noteq> None \<Longrightarrow> conn_inv s'"
  using parser_inv_fresh [OF fresh_Reset(1), of "cs_parser s"]
  by (auto simp: run_command_def conn_inv_def Reset_def
      split: option.splits if_splits sum.splits prod.splits bool.splits)

lemma parse_loop_eat:
  assumes "cs_command s = None" "\<not> p_complete (cs_parser s)"
  shows "case parse_loop pos buf (cs_parser s) of
      (Inl e, _, p) \<Rightarrow> eat_all ops deliver s buf = (Some (ParseError (erase_pos e)), s\<lparr>cs_parser := p\<rparr>)
    | (Inr False, _, p) \<Rightarrow> eat_all ops deliver s buf = (None, s\<lparr>cs_parser := p\<rparr>)
    | (Inr True, k, p) \<Rightarrow> pos < k \<and>
        eat_all ops deliver s buf =
          (case build_command s p of (Some e, s1) \<Rightarrow> (Some e, s1)
           | (None, s1) \<Rightarrow> (case run_command ops deliver s1 of (Some e, s2) \<Rightarrow> (Some e, s2)
              | (None, s2) \<Rightarrow> eat_all ops deliver s2 (drop (k - pos) buf)))"
  using assms
proof (induction buf arbitrary: pos s)
  case (Cons c cs)
  show ?case
  proof (cases "parse_char pos c (cs_parser s)")
    case (Inl e)
    then have "parse_char 0 c (cs_parser s) = Inl (erase_pos e)"
      using parse_char_erase [of pos c "cs_parser s"] by simp
    then show ?thesis using Inl Cons.prems by (simp add: eat_def)
  next
    case (Inr p)
    then have p0: "parse_char 0 c (cs_parser s) = Inr p"
      using parse_char_pos [of 0 pos c "cs_parser s"] by (cases "parse_char 0 c (cs_parser s)") auto
    show ?thesis
    proof (cases "p_complete p")
      case True
      then show ?thesis using Inr p0 Cons.prems parse_loop_complete [OF True, of "Suc pos" cs]
        by (auto simp: eat_def build_command_def split: prod.splits option.splits sum.splits)
    next
      case False
      let ?s = "s\<lparr>cs_parser := p\<rparr>"
      have e: "eat ops deliver s c = (None, ?s)" using Cons.prems p0 False by (simp add: eat_def)
      have "cs_command ?s = None" "\<not> p_complete (cs_parser ?s)" using Cons.prems False by auto
      note IH = Cons.IH [OF this, of "Suc pos"]
      have b: "build_command ?s q = build_command s q" for q
        by (simp add: build_command_def split: sum.split)
      have d: "Suc pos < k \<Longrightarrow> drop (k - pos) (c # cs) = drop (k - Suc pos) cs" for k
        by (metis Suc_diff_Suc Suc_lessD drop_Suc_Cons)
      show ?thesis using IH Inr Cons.prems e b d
        by (auto split: prod.splits sum.splits bool.splits option.splits)
    qed
  qed
qed simp

section \<open>The loop refines the machine\<close>

definition erase_result :: "conn_error option \<times> ('s, 'o) cstate \<Rightarrow> conn_error option \<times> ('s, 'o) cstate" where
  "erase_result = map_prod (map_option erase_error) id"

lemma run_command_cases:
  "run_command ops deliver s = (Some e, s') \<Longrightarrow> erase_error e = e"
  by (auto simp: run_command_def split: option.splits if_splits sum.splits prod.splits bool.splits)

lemma build_command_erase: "build_command s p = (Some e, s') \<Longrightarrow> erase_error e = e"
  by (auto simp: build_command_def Build_def insert_command_of_def split: sum.splits if_splits list.splits)

text \<open>Collecting the bytes of an argument one by one or all at once is the same.\<close>

lemma eat_argument:
  assumes "cs_command s = Some c" "cs_arg_remains s > 0" "buf \<noteq> []" "fill_argument s buf = (s2, buf2)"
  shows "eat_all ops deliver s buf =
    (case run_command ops deliver s2 of (Some e, s3) \<Rightarrow> (Some e, s3) | (None, s3) \<Rightarrow> eat_all ops deliver s3 buf2)"
  using assms
proof (induction buf arbitrary: s)
  case (Cons b bs)
  let ?s = "s\<lparr>cs_argument := cs_argument s @ [b], cs_arg_remains := cs_arg_remains s - 1\<rparr>"
  have e: "eat ops deliver s b = run_command ops deliver ?s" using Cons.prems(1) by (simp add: eat_def)
  show ?case
  proof (cases "cs_arg_remains s = 1 \<or> bs = []")
    case True
    then have "s2 = ?s" "buf2 = bs"
      using Cons.prems by (auto simp: fill_argument_def Let_def min_def split: if_splits)
    with e show ?thesis by (auto split: prod.splits option.splits)
  next
    case False
    then have a: "cs_arg_remains ?s > 0" using Cons.prems(2) by auto
    then have "run_command ops deliver ?s = (None, ?s)" using Cons.prems(1) by (simp add: run_command_def)
    moreover obtain m where m: "cs_arg_remains s = Suc m" using Cons.prems(2) by (cases "cs_arg_remains s") auto
    have "fill_argument ?s bs = (s2, buf2)"
      using Cons.prems(1,4) a m by (simp add: fill_argument_def Let_def)
    ultimately show ?thesis using Cons.IH [of ?s] Cons.prems(1) a False e by simp
  qed
qed simp

lemma eat_after_build:
  assumes "cs_command s1 = Some c" "fill_argument s1 buf = (s2, buf2)"
  shows "(case run_command ops deliver s1 of (Some e, s') \<Rightarrow> (Some e, s') | (None, s') \<Rightarrow> eat_all ops deliver s' buf) =
    (case run_command ops deliver s2 of (Some e, s3) \<Rightarrow> (Some e, s3) | (None, s3) \<Rightarrow> eat_all ops deliver s3 buf2)"
proof (cases "cs_arg_remains s1 > 0 \<and> buf \<noteq> []")
  case True
  then have "run_command ops deliver s1 = (None, s1)" using assms(1) by (simp add: run_command_def)
  then show ?thesis using eat_argument [OF assms(1) _ _ assms(2), of ops deliver] True by simp
next
  case False
  then have "s2 = s1" "buf2 = buf" using assms(2) by (auto simp: fill_argument_def Let_def split: if_splits)
  then show ?thesis by (simp only:)
qed

lemma build_command_set:
  "build_command s p = (None, s1) \<Longrightarrow> parser_inv p \<Longrightarrow> p_complete p \<Longrightarrow> \<exists>c. cs_command s1 = Some c"
  by (auto simp: build_command_def Build_def insert_command_of_def parser_inv_def
      split: sum.splits if_splits list.splits prod.splits)

text \<open>What one iteration of the loop leaves is what the machine makes of the bytes it has used.\<close>

definition iteration_ok :: "('s, 'o) cstate \<Rightarrow> string \<Rightarrow> iter_result \<times> ('s, 'o) cstate \<Rightarrow>
    (('s, 'o) cstate \<Rightarrow> string \<Rightarrow> conn_error option \<times> ('s, 'o) cstate) \<Rightarrow> bool" where
  "iteration_ok s buf it eaten \<longleftrightarrow>
     (case it of
        (IterError e, s') \<Rightarrow> eaten s buf = (Some (erase_error e), s')
      | (Break, s') \<Rightarrow> False
      | (Rest buf', s') \<Rightarrow> conn_inv s' \<and> eaten s buf = eaten s' buf')"

lemma iteration_ok_run:
  assumes "cs_command s2 \<noteq> None"
    and "iteration ops deliver s buf = (case run_command ops deliver s2 of (Some e, s3) \<Rightarrow> (IterError e, s3) | (None, s3) \<Rightarrow> (Rest buf2, s3))"
    and "eat_all ops deliver s buf = (case run_command ops deliver s2 of (Some e, s3) \<Rightarrow> (Some e, s3) | (None, s3) \<Rightarrow> eat_all ops deliver s3 buf2)"
  shows "iteration_ok s buf (iteration ops deliver s buf) (eat_all ops deliver)"
  using assms run_command_cases [of ops deliver s2] run_command_inv [of ops deliver s2]
  by (auto simp: iteration_ok_def split: prod.splits option.splits)

lemma iteration_argument:
  assumes "conn_inv s" "buf \<noteq> []" "cs_command s = Some c"
  shows "iteration_ok s buf (iteration ops deliver s buf) (eat_all ops deliver)"
proof -
  have a: "cs_arg_remains s > 0" using assms(1,3) by (simp add: conn_inv_def)
  obtain s2 buf2 where f: "fill_argument s buf = (s2, buf2)" by fastforce
  show ?thesis
  proof (rule iteration_ok_run)
    show "cs_command s2 \<noteq> None" using fill_argument_length [OF f] assms(3) by simp
    show "iteration ops deliver s buf = (case run_command ops deliver s2 of (Some e, s3) \<Rightarrow> (IterError e, s3) | (None, s3) \<Rightarrow> (Rest buf2, s3))"
      using f assms(3) by (auto simp: iteration_def split: prod.splits option.splits)
  qed (rule eat_argument [OF assms(3) a assms(2) f])
qed

lemma iteration_built:
  assumes "conn_inv s" "buf \<noteq> []" "cs_command s = None" and P: "parse_loop 0 buf (cs_parser s) = (Inr True, k, p)"
    and B: "build_command s p = (None, s1)"
  shows "iteration_ok s buf (iteration ops deliver s buf) (eat_all ops deliver)"
proof -
  have nc: "\<not> p_complete (cs_parser s)" and pi: "parser_inv (cs_parser s)"
    using assms(1,3) by (simp_all add: conn_inv_def)
  note E = parse_loop_eat [OF assms(3) nc, where pos = 0 and buf = buf and ops = ops and deliver = deliver, unfolded P diff_zero]
  obtain s2 buf2 where f: "fill_argument s1 (drop k buf) = (s2, buf2)" by fastforce
  have "p_complete p" using parse_loop_result [of 0 buf "cs_parser s" True k p] P by simp
  then obtain c where c: "cs_command s1 = Some c" using build_command_set [OF B] parse_loop_inv [OF pi P] by blast
  show ?thesis
  proof (rule iteration_ok_run)
    show "cs_command s2 \<noteq> None" using fill_argument_length [OF f] c by simp
    show "iteration ops deliver s buf = (case run_command ops deliver s2 of (Some e, s3) \<Rightarrow> (IterError e, s3) | (None, s3) \<Rightarrow> (Rest buf2, s3))"
      using assms(3) P B E f by (auto simp: iteration_def Parse_def split: prod.splits option.splits)
    show "eat_all ops deliver s buf = (case run_command ops deliver s2 of (Some e, s3) \<Rightarrow> (Some e, s3) | (None, s3) \<Rightarrow> eat_all ops deliver s3 buf2)"
      using E B eat_after_build [OF c f, of ops deliver] by simp
  qed
qed

lemma iteration_eat:
  assumes inv: "conn_inv s" and ne: "buf \<noteq> []"
  shows "iteration_ok s buf (iteration ops deliver s buf) (eat_all ops deliver)"
proof (cases "cs_command s")
  case None
  then have nc: "\<not> p_complete (cs_parser s)" and pi: "parser_inv (cs_parser s)"
    using inv by (simp_all add: conn_inv_def)
  obtain r k p where P: "parse_loop 0 buf (cs_parser s) = (r, k, p)" by (cases "parse_loop 0 buf (cs_parser s)")
  note E = parse_loop_eat [OF None nc, where pos = 0 and buf = buf and ops = ops and deliver = deliver, unfolded P diff_zero]
  consider (error) e where "r = Inl e" | (part) "r = Inr False" | (whole) "r = Inr True"
    by (cases r) (auto intro: bool.exhaust)
  then show ?thesis
  proof cases
    case error
    then show ?thesis using E None P by (simp add: iteration_def Parse_def iteration_ok_def)
  next
    case part
    then have k: "k = length buf" and np: "\<not> p_complete p"
      using parse_loop_result [of 0 buf "cs_parser s" False k p] P by auto
    have "iteration ops deliver s buf = (Rest [], s\<lparr>cs_parser := p\<rparr>)"
      using None P part k ne by (simp add: iteration_def Parse_def fill_argument_def run_command_def)
    moreover have "conn_inv (s\<lparr>cs_parser := p\<rparr>)" using inv None np parse_loop_inv [OF pi P] by (simp add: conn_inv_def)
    ultimately show ?thesis using E part by (simp add: iteration_ok_def)
  next
    case whole
    obtain be s1 where B: "build_command s p = (be, s1)" by fastforce
    show ?thesis
    proof (cases be)
      case (Some e)
      then show ?thesis using E whole B None P build_command_erase [of s p e s1] by (simp add: iteration_def Parse_def iteration_ok_def)
    qed (use iteration_built [OF inv ne None] P whole B in simp)
  qed
qed (rule iteration_argument [OF inv ne])

lemma process_buf_eat:
  "conn_inv s \<Longrightarrow> erase_result (process_buf ops deliver s buf) = eat_all ops deliver s buf \<and>
   (fst (process_buf ops deliver s buf) = None \<longrightarrow> conn_inv (snd (process_buf ops deliver s buf)))"
proof (induction ops deliver s buf rule: process_buf.induct)
  case (1 ops deliver s buf)
  show ?case
  proof (cases "buf = []")
    case True
    then show ?thesis using 1(2) by (simp add: process_buf.simps [of ops deliver s "[]"] erase_result_def)
  next
    case False
    obtain r s' where it: "iteration ops deliver s buf = (r, s')" by fastforce
    note E = iteration_eat [OF 1(2) False, of ops deliver, unfolded it iteration_ok_def]
    show ?thesis
    proof (cases r)
      case (IterError e)
      then show ?thesis using E False it
        by (simp add: process_buf.simps [of ops deliver s buf] erase_result_def)
    next
      case Break
      then show ?thesis using E by simp
    next
      case (Rest buf')
      then have step: "process_buf ops deliver s buf = process_buf ops deliver s' buf'"
        using False it by (simp add: process_buf.simps [of ops deliver s buf])
      show ?thesis using 1(1) [OF False it [symmetric] Rest] E Rest unfolding step by simp
    qed
  qed
qed

section \<open>Whole requests\<close>

lemma eat_line:
  assumes "cs_command s = None" "cs_parser s = p" "\<not> p_complete p" "feed p line = Some q" "p_complete q"
  shows "eat_all ops deliver s (line @ rest) =
    (case build_command s q of (Some e, s1) \<Rightarrow> (Some e, s1)
     | (None, s1) \<Rightarrow> (case run_command ops deliver s1 of (Some e, s2) \<Rightarrow> (Some e, s2)
        | (None, s2) \<Rightarrow> eat_all ops deliver s2 rest))"
proof -
  have "parse_loop 0 (line @ rest) (cs_parser s) = (Inr True, length line, q)"
    using parse_loop_feed [OF assms(4), of 0 rest] parse_loop_complete [OF assms(5)] assms(2) by simp
  then show ?thesis
    using parse_loop_eat [of s, where pos = 0 and buf = "line @ rest" and ops = ops and deliver = deliver] assms(1-3)
    by (auto split: prod.splits option.splits)
qed

definition fresh_conn :: "('s, 'o) cstate \<Rightarrow> bool" where
  "fresh_conn s \<longleftrightarrow> cs_command s = None \<and> cs_argument s = [] \<and> fresh_parser (cs_parser s)"

lemma fresh_conn_inv: "fresh_conn s \<Longrightarrow> conn_inv s"
  by (simp add: fresh_conn_def conn_inv_def parser_inv_fresh) (simp add: fresh_parser_def)

text \<open>The effect of a request that has arrived completely.\<close>

definition serve ::
  "'s storage_ops \<Rightarrow> 'o deliver \<Rightarrow> command \<Rightarrow> string \<Rightarrow> 's \<Rightarrow> 'o \<Rightarrow> conn_error option \<times> 's \<times> 'o" where
  "serve ops deliver c args st k =
     (case Execute ops c st args of Inl f \<Rightarrow> (Some (ExecuteFault f), st, k)
      | Inr (out, st') \<Rightarrow> (case deliver out k of (False, k') \<Rightarrow> (Some SendFailed, st', k') | (True, k') \<Rightarrow> (None, st', k')))"

lemma run_command_serve:
  assumes "cs_command s = Some c" "cs_arg_remains s = 0"
  shows "case serve ops deliver c (cs_argument s) (cs_store s) (cs_sink s) of
      (None, st, k) \<Rightarrow> \<exists>s'. run_command ops deliver s = (None, s') \<and> fresh_conn s' \<and> cs_store s' = st \<and> cs_sink s' = k
    | (Some e, st, k) \<Rightarrow> \<exists>s'. run_command ops deliver s = (Some e, s') \<and> cs_store s' = st \<and> cs_sink s' = k"
  using assms fresh_Reset(1) [of "cs_parser s"]
  by (auto simp: serve_def run_command_def fresh_conn_def split: sum.splits prod.splits bool.splits)

definition store_command :: "string \<Rightarrow> string \<Rightarrow> nat \<Rightarrow> int \<Rightarrow> command" where
  "store_command name key flags e =
     (if name = ''set'' then Cmd_Set else if name = ''add'' then Cmd_Add else Cmd_Append)
       \<lparr>ic_key = key, ic_flags = of_nat flags, ic_expire = parsed_exprtime e\<rparr>"

lemma build_store:
  assumes "p_state q = sLF" "p_name q = name" "p_keys q = [key]" "p_flags q = of_nat flags"
    "p_exprtime q = parsed_exprtime e" "p_bytes q = of_nat bytes" "name \<in> {''set'', ''add'', ''append''}" "bytes < 2 ^ 32"
  shows "Build n q = Inr (Some (store_command name key flags e), bytes)"
proof -
  have "unat (of_nat bytes :: u32) = bytes" using assms(8) by (simp add: unat_of_nat)
  then show ?thesis using assms by (auto simp: Build_def insert_command_of_def store_command_def)
qed

lemma eat_store:
  assumes s: "fresh_conn s" and n: "name \<in> {''set'', ''add'', ''append''}" and key: "SP \<notin> set key"
    and fl: "flags < 2 ^ 32" and bn: "0 < bytes" "bytes < 2 ^ 32" and e: "\<bar>e\<bar> < 2 ^ 31" and body: "length body = bytes + 2"
  shows "case serve ops deliver (store_command name key flags e) body (cs_store s) (cs_sink s) of
      (None, st, k) \<Rightarrow> \<exists>s'. eat_all ops deliver s (store_line name key flags e bytes @ body @ rest) = eat_all ops deliver s' rest \<and>
         fresh_conn s' \<and> cs_store s' = st \<and> cs_sink s' = k
    | (Some er, st, k) \<Rightarrow> \<exists>s'. eat_all ops deliver s (store_line name key flags e bytes @ body @ rest) = (Some er, s') \<and>
         cs_store s' = st \<and> cs_sink s' = k"
proof -
  obtain q where q: "feed (cs_parser s) (store_line name key flags e bytes) = Some q" "p_complete q" "p_state q = sLF" "p_name q = name"
    "p_keys q = [key]" "p_flags q = of_nat flags" "p_exprtime q = parsed_exprtime e" "p_bytes q = of_nat bytes"
    using feed_store_line [OF _ n key fl bn(2) e] s unfolding fresh_conn_def by blast
  define s1 where "s1 = s\<lparr>cs_parser := q, cs_command := Some (store_command name key flags e), cs_arg_remains := bytes + 2\<rparr>"
  have B: "build_command s q = (None, s1)"
    using build_store [OF q(3-8) n bn(2)] by (simp add: build_command_def s1_def bn(1))
  have c1: "cs_command s1 = Some (store_command name key flags e)" "cs_arg_remains s1 > 0" by (simp_all add: s1_def)
  have nc: "\<not> p_complete (cs_parser s)" "cs_command s = None" using s by (simp_all add: fresh_conn_def fresh_parser_def)
  have "eat_all ops deliver s (store_line name key flags e bytes @ (body @ rest)) = eat_all ops deliver s1 (body @ rest)"
    unfolding eat_line [OF nc(2) refl nc(1) q(1,2)] using B c1 by (simp add: run_command_def)
  also have "\<dots> = (case run_command ops deliver (s1\<lparr>cs_argument := body, cs_arg_remains := 0\<rparr>) of
      (Some e, s3) \<Rightarrow> (Some e, s3) | (None, s3) \<Rightarrow> eat_all ops deliver s3 rest)"
    using body s by (intro eat_argument [OF c1]) (auto simp: fill_argument_def s1_def fresh_conn_def)
  finally show ?thesis
    using run_command_serve [of "s1\<lparr>cs_argument := body, cs_arg_remains := 0\<rparr>" "store_command name key flags e" ops deliver]
    by (auto simp: s1_def split: prod.splits option.splits)
qed

lemma eat_get:
  assumes s: "fresh_conn s" and k: "keys \<noteq> []" "list_all (\<lambda>k. SP \<notin> set k \<and> CR \<notin> set k) keys"
  shows "case serve ops deliver (Cmd_Get keys) [] (cs_store s) (cs_sink s) of
      (None, st, k) \<Rightarrow> \<exists>s'. eat_all ops deliver s (get_line keys @ rest) = eat_all ops deliver s' rest \<and>
         fresh_conn s' \<and> cs_store s' = st \<and> cs_sink s' = k
    | (Some er, st, k) \<Rightarrow> \<exists>s'. eat_all ops deliver s (get_line keys @ rest) = (Some er, s') \<and>
         cs_store s' = st \<and> cs_sink s' = k"
proof -
  have fp: "fresh_parser (cs_parser s)" and nc: "\<not> p_complete (cs_parser s)" "cs_command s = None"
    using s by (auto simp: fresh_conn_def fresh_parser_def)
  obtain q where q: "parse_loop 0 (get_line keys @ rest) (cs_parser s) = (Inr True, length (get_line keys), q)"
    "Build (cs_arg_remains s) q = Inr (Some (Cmd_Get keys), 0)"
    using parse_get_line [OF fp k, of rest] unfolding Parse_def by blast
  define s1 where "s1 = s\<lparr>cs_parser := q, cs_command := Some (Cmd_Get keys), cs_arg_remains := 0\<rparr>"
  have B: "build_command s q = (None, s1)" using q(2) by (simp add: build_command_def s1_def)
  have "eat_all ops deliver s (get_line keys @ rest) = (case run_command ops deliver s1 of
      (Some e, s2) \<Rightarrow> (Some e, s2) | (None, s2) \<Rightarrow> eat_all ops deliver s2 rest)"
    using parse_loop_eat [OF nc(2,1), where pos = 0 and buf = "get_line keys @ rest" and ops = ops and deliver = deliver] q B
    by (auto split: prod.splits option.splits)
  moreover have "cs_argument s1 = []" using s by (simp add: s1_def fresh_conn_def)
  ultimately show ?thesis
    using run_command_serve [of s1 "Cmd_Get keys" ops deliver]
    by (auto simp: s1_def split: prod.splits option.splits)
qed

section \<open>Properties\<close>

text \<open>
  C4. The connection loop computes what the byte-at-a-time machine computes: the same commands are
  executed in the same order with the same arguments, the same results delivered, and the same error
  (up to the position in its message) ends it; between reads the state satisfies its invariant.
\<close>

theorem process_buf_refines_bytes:
  assumes "conn_inv s"
  shows "erase_result (process_buf ops deliver s buf) = eat_all ops deliver s buf \<and>
    (\<forall>s'. process_buf ops deliver s buf = (None, s') \<longrightarrow> conn_inv s')"
  using process_buf_eat [OF assms, of ops deliver buf] by auto

definition init_conn :: "'s \<Rightarrow> 'o \<Rightarrow> bool \<Rightarrow> ('s, 'o) cstate" where
  "init_conn st k garbage = \<lparr>cs_parser = Parser garbage, cs_arg_remains = 0, cs_argument = [], cs_command = None,
     cs_store = st, cs_sink = k\<rparr>"

lemma init_conn_fresh: "fresh_conn (init_conn st k g)"
  by (simp add: fresh_conn_def init_conn_def fresh_Reset)

theorem process_buf_refines_bytes_witness:
  "erase_result (process_buf lru_ops (\<lambda>out k. (True, k @ out)) (init_conn (SimpleLRU 10) [] False) (get_line [''a''])) =
   eat_all lru_ops (\<lambda>out k. (True, k @ out)) (init_conn (SimpleLRU 10) [] False) (get_line [''a''])"
  using process_buf_refines_bytes [OF fresh_conn_inv [OF init_conn_fresh], of lru_ops "\<lambda>out k. (True, k @ out)"] by blast

fun process_all ::
  "'s storage_ops \<Rightarrow> 'o deliver \<Rightarrow> ('s, 'o) cstate \<Rightarrow> string list \<Rightarrow> conn_error option \<times> ('s, 'o) cstate" where
  "process_all ops deliver s [] = (None, s)"
| "process_all ops deliver s (buf # bufs) =
     (case process_buf ops deliver s buf of (Some e, s') \<Rightarrow> (Some e, s')
      | (None, s') \<Rightarrow> process_all ops deliver s' bufs)"

lemma process_all_eat:
  "conn_inv s \<Longrightarrow> erase_result (process_all ops deliver s bufs) = eat_all ops deliver s (concat bufs)"
proof (induction bufs arbitrary: s)
  case (Cons buf bufs)
  obtain r s' where r: "process_buf ops deliver s buf = (r, s')" by fastforce
  note E = process_buf_eat [OF Cons.prems, of ops deliver buf, unfolded r]
  show ?case
  proof (cases r)
    case (Some e)
    then show ?thesis using E r by (auto simp: eat_all_append erase_result_def split: prod.splits)
  next
    case None
    then have "eat_all ops deliver s buf = (None, s')" "conn_inv s'" using E by (auto simp: erase_result_def)
    then show ?thesis using None r Cons.IH by (simp add: eat_all_append)
  qed
qed (simp add: erase_result_def)

text \<open>
  C5. How the network cuts the byte stream into reads does not matter: processing the pieces one after
  the other ends, up to the position in an error message, as processing them in one piece.
\<close>

theorem chunk_independence:
  assumes "conn_inv s" "concat bufs = concat bufs'"
  shows "erase_result (process_all ops deliver s bufs) = erase_result (process_all ops deliver s bufs')"
  using process_all_eat [OF assms(1)] assms(2) by metis

theorem chunk_independence_witness:
  "erase_result (process_all lru_ops (\<lambda>out k. (True, k @ out)) (init_conn (SimpleLRU 10) [] False) [''get a'' @ [CR], [LF], ''st'']) =
   erase_result (process_all lru_ops (\<lambda>out k. (True, k @ out)) (init_conn (SimpleLRU 10) [] False) [''g'', ''et a'' @ [CR, LF] @ ''st''])"
  by (rule chunk_independence [OF fresh_conn_inv [OF init_conn_fresh]]) simp

text \<open>
  A store request over the wire, its line and then a body of as many bytes as announced plus the two of
  the line end, executes the command it encodes with exactly that body as the argument (the line end
  included) and delivers its result; the connection is then ready for whatever follows.
\<close>

theorem store_over_the_wire:
  assumes "fresh_conn s" "name \<in> {''set'', ''add'', ''append''}" "SP \<notin> set key"
    and "flags < 2 ^ 32" "0 < bytes" "bytes < 2 ^ 32" "\<bar>e\<bar> < 2 ^ 31" "length data = bytes"
    and "serve ops deliver (store_command name key flags e) (data @ crlf) (cs_store s) (cs_sink s) = (None, st, k)"
  shows "\<exists>s'. eat_all ops deliver s (store_line name key flags e bytes @ data @ crlf @ rest) = eat_all ops deliver s' rest \<and>
    fresh_conn s' \<and> cs_store s' = st \<and> cs_sink s' = k"
  using eat_store [OF assms(1-7), of "data @ crlf" ops deliver rest] assms(8,9) by (simp add: crlf_def)

theorem store_over_the_wire_witness:
  "\<exists>s'. eat_all lru_ops (\<lambda>out k. (True, k @ [out])) (init_conn (SimpleLRU 10) [] False)
      (store_line ''set'' ''k'' 0 0 3 @ ''abc'' @ crlf @ ''get'') =
    eat_all lru_ops (\<lambda>out k. (True, k @ [out])) s' ''get'' \<and> cs_sink s' = [''STORED'']"
proof -
  define d where "d = (\<lambda>(out :: string) k. (True, k @ [out]))"
  define s where "s = init_conn (SimpleLRU 10) ([] :: string list) False"
  have "case serve lru_ops (\<lambda>out k. (True, k @ [out])) (store_command ''set'' ''k'' 0 0) (''abc'' @ crlf) (SimpleLRU 10) [] of
      (r, st, k) \<Rightarrow> r = None \<and> k = [''STORED'']" by code_simp
  then obtain st where "serve lru_ops d (store_command ''set'' ''k'' 0 0) (''abc'' @ crlf) (cs_store s) (cs_sink s) = (None, st, [''STORED''])"
    by (auto simp: init_conn_def s_def d_def split: prod.splits)
  from store_over_the_wire [OF _ _ _ _ _ _ _ _ this, where bytes = 3 and rest = "''get''"]
  have "\<exists>s'. eat_all lru_ops d s (store_line ''set'' ''k'' 0 0 3 @ ''abc'' @ crlf @ ''get'') = eat_all lru_ops d s' ''get'' \<and>
     cs_sink s' = [''STORED'']"
    using init_conn_fresh [of "SimpleLRU 10" "[] :: string list" False] unfolding s_def by auto
  then show ?thesis unfolding s_def d_def .
qed

end
