(* ===== verification/Sessions.thy ===== *)
theory Sessions
  imports Connection_Loop
begin

text \<open>
  Whole sessions: a client writes a sequence of requests, the service executes them one after the other
  and writes the framed results. The services differ in how they deliver a result; what they share is the
  locale \<open>delivery\<close>, interpreted for the blocking services here and for the nonblocking ones in
  \<open>Nonblocking_Connection\<close>.
\<close>

section \<open>Requests\<close>

datatype request = Store string string nat int string | Fetch "string list"

fun request_text :: "request \<Rightarrow> string" where
  "request_text (Store name key flags e d) = store_line name key flags e (length d) @ d @ crlf"
| "request_text (Fetch keys) = get_line keys"

fun request_ok :: "request \<Rightarrow> bool" where
  "request_ok (Store name key flags e d) \<longleftrightarrow> name \<in> {''set'', ''add'', ''append''} \<and> SP \<notin> set key \<and>
     flags < 2 ^ 32 \<and> length d < 2 ^ 32 \<and> \<bar>e\<bar> < 2 ^ 31"
| "request_ok (Fetch keys) \<longleftrightarrow> keys \<noteq> [] \<and> list_all (\<lambda>k. SP \<notin> set k \<and> CR \<notin> set k) keys"

text \<open>
  The command a request encodes, and the argument the services pass to it: the data block with its line end,
  but the empty argument for a block of zero bytes, of which the services read nothing.
\<close>

fun request_command :: "request \<Rightarrow> command" where
  "request_command (Store name key flags e d) = store_command name key flags e"
| "request_command (Fetch keys) = Cmd_Get keys"

fun request_args :: "request \<Rightarrow> string" where
  "request_args (Store name key flags e d) = (if d = [] then [] else d @ crlf)"
| "request_args (Fetch keys) = []"

fun empty_block :: "request \<Rightarrow> bool" where
  "empty_block (Store name key flags e d) \<longleftrightarrow> d = []"
| "empty_block (Fetch keys) \<longleftrightarrow> False"

fun exec_all :: "'s storage_ops \<Rightarrow> request list \<Rightarrow> 's \<Rightarrow> fault + string list \<times> 's" where
  "exec_all ops [] st = Inr ([], st)"
| "exec_all ops (r # rs) st =
     rbind (Execute ops (request_command r) st (request_args r)) (\<lambda>(out, st1).
     rbind (exec_all ops rs st1) (\<lambda>(outs, st2). Inr (out # outs, st2)))"

lemma Execute_nonempty: "Execute ops c st args = Inr (out, st') \<Longrightarrow> out \<noteq> []"
  by (cases c) (auto simp: Set_Execute_def Add_Execute_def Append_Execute_def Replace_Execute_def
      Get_Execute_def Stats_Execute_def res_simps split: prod.splits option.splits if_splits)

section \<open>Answers\<close>

text \<open>
  What a session does to the storage and to the sink of the connection, request by request. It ends early when a
  command faults or its result is not delivered, and after a block of zero bytes: the command is executed, but
  the line end that follows it is taken for the name of an unknown command.
\<close>

fun answer :: "'s storage_ops \<Rightarrow> 'o deliver \<Rightarrow> request list \<Rightarrow> 's \<Rightarrow> 'o \<Rightarrow> conn_error option \<times> 's \<times> 'o" where
  "answer ops deliver [] st k = (None, st, k)"
| "answer ops deliver (r # rs) st k =
     (case serve ops deliver (request_command r) (request_args r) st k of
        (Some e, st', k') \<Rightarrow> (Some e, st', k')
      | (None, st', k') \<Rightarrow>
          if empty_block r then (Some (ParseError (UnknownCommand [])), st', k') else answer ops deliver rs st' k')"

lemma eat_store_empty:
  assumes s: "fresh_conn s" and n: "name \<in> {''set'', ''add'', ''append''}" and key: "SP \<notin> set key"
    and fl: "flags < 2 ^ 32" and e: "\<bar>e\<bar> < 2 ^ 31"
  shows "case serve ops deliver (store_command name key flags e) [] (cs_store s) (cs_sink s) of
      (None, st, k) \<Rightarrow> \<exists>s'. eat_all ops deliver s (store_line name key flags e 0 @ rest) = eat_all ops deliver s' rest \<and>
         fresh_conn s' \<and> cs_store s' = st \<and> cs_sink s' = k
    | (Some er, st, k) \<Rightarrow> \<exists>s'. eat_all ops deliver s (store_line name key flags e 0 @ rest) = (Some er, s') \<and>
         cs_store s' = st \<and> cs_sink s' = k"
proof -
  obtain q where q: "feed (cs_parser s) (store_line name key flags e 0) = Some q" "p_complete q" "p_state q = sLF" "p_name q = name"
    "p_keys q = [key]" "p_flags q = of_nat flags" "p_exprtime q = parsed_exprtime e" "p_bytes q = of_nat 0"
    using feed_store_line [OF _ n key fl _ e, of "cs_parser s" 0] s unfolding fresh_conn_def by auto
  define s1 where "s1 = s\<lparr>cs_parser := q, cs_command := Some (store_command name key flags e), cs_arg_remains := 0\<rparr>"
  have B: "build_command s q = (None, s1)"
    using build_store [OF q(3-8) n] by (simp add: build_command_def s1_def)
  have nc: "\<not> p_complete (cs_parser s)" "cs_command s = None" "cs_argument s1 = []"
    using s by (simp_all add: fresh_conn_def fresh_parser_def s1_def)
  have "eat_all ops deliver s (store_line name key flags e 0 @ rest) = (case run_command ops deliver s1 of
      (Some e, s2) \<Rightarrow> (Some e, s2) | (None, s2) \<Rightarrow> eat_all ops deliver s2 rest)"
    using eat_line [OF nc(2) refl nc(1) q(1,2), of ops deliver rest] B by simp
  then show ?thesis
    using run_command_serve [of s1 "store_command name key flags e" ops deliver] nc(3)
    by (auto simp: s1_def split: prod.splits option.splits)
qed

lemma eat_crlf:
  assumes "fresh_conn s"
  shows "eat_all ops deliver s (crlf @ rest) = (Some (ParseError (UnknownCommand [])), s)"
proof -
  have "eat ops deliver s CR = (Some (ParseError (UnknownCommand [])), s)"
    using assms by (simp add: eat_def fresh_conn_def fresh_parser_def parse_char.simps step_name_def)
  then show ?thesis by (simp add: crlf_def)
qed

lemma eat_request:
  assumes s: "fresh_conn s" and ok: "request_ok r"
  shows "case serve ops deliver (request_command r) (request_args r) (cs_store s) (cs_sink s) of
      (None, st, k) \<Rightarrow> \<exists>s'. eat_all ops deliver s (request_text r @ rest) =
           (if empty_block r then (Some (ParseError (UnknownCommand [])), s') else eat_all ops deliver s' rest) \<and>
         fresh_conn s' \<and> cs_store s' = st \<and> cs_sink s' = k
    | (Some er, st, k) \<Rightarrow> \<exists>s'. eat_all ops deliver s (request_text r @ rest) = (Some er, s') \<and>
         cs_store s' = st \<and> cs_sink s' = k"
proof (cases r)
  case (Store name key flags e d)
  show ?thesis
  proof (cases "d = []")
    case True
    show ?thesis
      using eat_store_empty [OF s, of name key flags e ops deliver "crlf @ rest"] ok Store True eat_crlf [of _ ops deliver rest]
      by (auto split: prod.splits option.splits)
  next
    case False
    then have len: "0 < length d" "length (d @ crlf) = length d + 2" by (auto simp: crlf_def)
    show ?thesis
      using eat_store [OF s, of name key flags "length d" e "d @ crlf" ops deliver rest] ok len Store
      by (auto split: prod.splits option.splits)
  qed
next
  case (Fetch keys)
  then show ?thesis using eat_get [OF s, of keys ops deliver rest] ok by (auto split: prod.splits option.splits)
qed

lemma eat_answer:
  assumes "fresh_conn s" "list_all request_ok rs" "answer ops deliver rs (cs_store s) (cs_sink s) = (r, st, k)"
  shows "\<exists>s'. eat_all ops deliver s (concat (map request_text rs)) = (r, s') \<and> cs_store s' = st \<and> cs_sink s' = k"
  using assms
proof (induction rs arbitrary: s)
  case (Cons q rs)
  note E = eat_request [OF Cons.prems(1), of q ops deliver "concat (map request_text rs)"]
  obtain e st1 k1 where sv: "serve ops deliver (request_command q) (request_args q) (cs_store s) (cs_sink s) = (e, st1, k1)"
    by (cases "serve ops deliver (request_command q) (request_args q) (cs_store s) (cs_sink s)") auto
  show ?case
  proof (cases e)
    case None
    then obtain s1 where s1: "eat_all ops deliver s (request_text q @ concat (map request_text rs)) =
        (if empty_block q then (Some (ParseError (UnknownCommand [])), s1) else eat_all ops deliver s1 (concat (map request_text rs)))"
      "fresh_conn s1" "cs_store s1 = st1" "cs_sink s1 = k1" using E sv Cons.prems(2) by auto
    then show ?thesis using Cons.IH [of s1] Cons.prems(2,3) sv None by (cases "empty_block q") auto
  qed (use E sv Cons.prems(2,3) in auto)
qed auto

lemma serve_erase: "serve ops deliver c args st k = (Some e, st', k') \<Longrightarrow> erase_error e = e"
  by (auto simp: serve_def split: sum.splits prod.splits bool.splits)

lemma answer_error: "answer ops deliver rs st k = (Some e, st', k') \<Longrightarrow>
    (\<exists>f. e = ExecuteFault f) \<or> e = SendFailed \<or> e = ParseError (UnknownCommand [])"
  by (induction rs arbitrary: st k) (auto simp: serve_def split: sum.splits prod.splits bool.splits option.splits if_splits)

lemma erase_error_only:
  "erase_error e = ExecuteFault f \<longleftrightarrow> e = ExecuteFault f" "erase_error e = SendFailed \<longleftrightarrow> e = SendFailed"
  "erase_error e = ParseError (UnknownCommand n) \<longleftrightarrow> e = ParseError (UnknownCommand n)"
proof -
  show "erase_error e = ParseError (UnknownCommand n) \<longleftrightarrow> e = ParseError (UnknownCommand n)"
  proof (cases e)
    case (ParseError p)
    then show ?thesis by (cases p) simp_all
  qed simp_all
qed (cases e; simp)+

text \<open>However the text of a session is cut into reads, processing the pieces gives the answer.\<close>

lemma process_answer:
  assumes "fresh_conn s" "list_all request_ok rs" "concat bufs = concat (map request_text rs)"
    and "answer ops deliver rs (cs_store s) (cs_sink s) = (r, st, k)"
  shows "\<exists>s'. process_all ops deliver s bufs = (r, s') \<and> cs_store s' = st \<and> cs_sink s' = k"
proof -
  obtain s' where s': "eat_all ops deliver s (concat bufs) = (r, s')" "cs_store s' = st" "cs_sink s' = k"
    using eat_answer [OF assms(1,2,4)] assms(3) by auto
  obtain r1 s1 where p: "process_all ops deliver s bufs = (r1, s1)" by fastforce
  then have "map_option erase_error r1 = r" "s1 = s'"
    using process_all_eat [OF fresh_conn_inv [OF assms(1)], of ops deliver bufs] s'(1) by (auto simp: erase_result_def)
  moreover have "r1 = r"
    using calculation(1) answer_error [of ops deliver rs "cs_store s" "cs_sink s"] assms(4) erase_error_only by (cases r; cases r1) auto
  ultimately show ?thesis using p s' by auto
qed

section \<open>Deliveries\<close>

text \<open>A delivery that succeeds puts the framed result behind what was written before.\<close>

locale delivery =
  fixes deliver :: "'o deliver"
    and frame :: "string \<Rightarrow> string"
    and written :: "'o \<Rightarrow> string"
    and good :: "'o \<Rightarrow> bool"
  assumes delivers: "good k \<Longrightarrow> r \<noteq> [] \<Longrightarrow> \<exists>k'. deliver r k = (True, k') \<and> good k' \<and> written k' = written k @ frame r"
begin

lemma serve_delivers:
  assumes "good k" "Execute ops c st args = Inr (out, st')"
  shows "\<exists>k'. serve ops deliver c args st k = (None, st', k') \<and> good k' \<and> written k' = written k @ frame out"
  using delivers [OF assms(1) Execute_nonempty [OF assms(2)]] assms(2) by (auto simp: serve_def)

lemma answer_delivers:
  assumes "list_all (\<lambda>r. \<not> empty_block r) rs" "good k" "exec_all ops rs st = Inr (outs, st')"
  shows "\<exists>k'. answer ops deliver rs st k = (None, st', k') \<and> good k' \<and> written k' = written k @ concat (map frame outs)"
  using assms
proof (induction rs arbitrary: st k outs)
  case (Cons r rs)
  obtain out st1 outs1 where e: "Execute ops (request_command r) st (request_args r) = Inr (out, st1)"
    "exec_all ops rs st1 = Inr (outs1, st')" "outs = out # outs1"
    using Cons.prems(3) by (auto simp: res_simps split: prod.splits)
  obtain k1 where k1: "serve ops deliver (request_command r) (request_args r) st k = (None, st1, k1)" "good k1"
    "written k1 = written k @ frame out" using serve_delivers [OF Cons.prems(2) e(1)] by blast
  obtain k' where "answer ops deliver rs st1 k1 = (None, st', k')" "good k'"
    "written k' = written k1 @ concat (map frame outs1)"
    using Cons.IH [OF _ k1(2) e(2)] Cons.prems(1) by auto
  then show ?case using k1 e(3) Cons.prems(1) by auto
qed auto

lemma session:
  assumes "fresh_conn s" "list_all request_ok rs" "list_all (\<lambda>r. \<not> empty_block r) rs" "good (cs_sink s)"
    and "exec_all ops rs (cs_store s) = Inr (outs, st')" "concat bufs = concat (map request_text rs)"
  shows "\<exists>s'. process_all ops deliver s bufs = (None, s') \<and> cs_store s' = st' \<and>
    written (cs_sink s') = written (cs_sink s) @ concat (map frame outs)"
proof -
  obtain k' where "answer ops deliver rs (cs_store s) (cs_sink s) = (None, st', k')"
    "written k' = written (cs_sink s) @ concat (map frame outs)" using answer_delivers [OF assms(3-5)] by blast
  then show ?thesis using process_answer [OF assms(1,2,6)] by metis
qed

end

section \<open>The blocking services\<close>

text \<open>
  \<open>os n data\<close> is what the n-th call of \<open>send\<close> returns: the number of bytes taken, or a number that is not
  positive on failure. The wire keeps the bytes taken.
\<close>

type_synonym os_send = "nat \<Rightarrow> string \<Rightarrow> int"

record wire =
  w_calls :: nat
  w_bytes :: string

definition send_on :: "os_send \<Rightarrow> string \<Rightarrow> wire \<Rightarrow> int \<times> wire" where
  "send_on os d w =
     (let n = os (w_calls w) d in (n, w\<lparr>w_calls := Suc (w_calls w), w_bytes := w_bytes w @ take (nat n) d\<rparr>))"

definition st_deliver :: "os_send \<Rightarrow> wire deliver" where
  "st_deliver os result w =
     (let result' = result @ crlf in case send_on os result' w of (n, w') \<Rightarrow> (\<not> n \<le> 0, w'))"

definition mt_deliver :: "os_send \<Rightarrow> wire deliver" where
  "mt_deliver os result w = (case send_on os result w of (n, w') \<Rightarrow> (\<not> n \<le> 0, w'))"

text \<open>A blocking \<open>send\<close> that succeeds takes all the bytes it is given.\<close>

definition sends_all :: "os_send \<Rightarrow> bool" where
  "sends_all os \<longleftrightarrow> (\<forall>n d. os n d = int (length d))"

interpretation st: delivery "st_deliver os" "\<lambda>r. r @ crlf" w_bytes "\<lambda>w. sends_all os" for os
  by unfold_locales (auto simp: st_deliver_def send_on_def sends_all_def crlf_def Let_def)

interpretation mt: delivery "mt_deliver os" "\<lambda>r. r" w_bytes "\<lambda>w. sends_all os" for os
  by unfold_locales (auto simp: mt_deliver_def send_on_def sends_all_def Let_def)

text \<open>
  C11. The single-threaded blocking service gives every well-formed session its exact answer, however the bytes are cut
  into reads, whatever the sends do and whatever the storage does. Well-formed are requests \<open>set\<close>, \<open>add\<close> or \<open>append\<close> with
  a key without a blank, flags below 2 to the 32, an expiration time below 2 to the 31 in absolute value and a data block of
  any length below 2 to the 32, and \<open>get\<close> of one or more keys without blank or carriage return. The requests are executed
  in order, each with its data block and line end as the argument, and each result is sent with a line end behind it,
  until a command faults, a send fails, or a block of zero bytes has been stored: then the session ends with that error, for
  the empty block the error of an unknown command with an empty name. If no block is empty, every send takes all its bytes and no
  command faults, the session does not end, all requests are executed and the wire carries exactly their results.
\<close>

theorem st_blocking_session:
  assumes "fresh_conn s" "list_all request_ok rs" "concat bufs = concat (map request_text rs)"
  shows "\<exists>s'. process_all ops (st_deliver os) s bufs = (fst (answer ops (st_deliver os) rs (cs_store s) (cs_sink s)), s') \<and>
      (cs_store s', cs_sink s') = snd (answer ops (st_deliver os) rs (cs_store s) (cs_sink s)) \<and>
      (\<forall>outs st'. list_all (\<lambda>r. \<not> empty_block r) rs \<longrightarrow> sends_all os \<longrightarrow> exec_all ops rs (cs_store s) = Inr (outs, st') \<longrightarrow>
        process_all ops (st_deliver os) s bufs = (None, s') \<and> cs_store s' = st' \<and>
        w_bytes (cs_sink s') = w_bytes (cs_sink s) @ concat (map (\<lambda>out. out @ crlf) outs))"
proof -
  obtain r st k where a: "answer ops (st_deliver os) rs (cs_store s) (cs_sink s) = (r, st, k)"
    by (cases "answer ops (st_deliver os) rs (cs_store s) (cs_sink s)") auto
  obtain s' where p: "process_all ops (st_deliver os) s bufs = (r, s')" "cs_store s' = st" "cs_sink s' = k"
    using process_answer [OF assms a] by blast
  have "r = None \<and> st = st' \<and> w_bytes k = w_bytes (cs_sink s) @ concat (map (\<lambda>out. out @ crlf) outs)"
    if "list_all (\<lambda>r. \<not> empty_block r) rs" "sends_all os" "exec_all ops rs (cs_store s) = Inr (outs, st')" for outs st'
    using st.answer_delivers [OF that, of "cs_sink s"] a by auto
  then show ?thesis unfolding a using p by (intro exI [of _ s']) auto
qed

lemma exec_demo:
  "case exec_all lru_ops [Store ''set'' ''k'' 0 0 ''abc'', Fetch [''k'']] (SimpleLRU 10) of Inl f \<Rightarrow> False
   | Inr (outs, st) \<Rightarrow> outs = [''STORED'', ''VALUE k 0 5'' @ crlf @ ''abc'' @ crlf @ crlf @ ''END'']"
  by code_simp

lemma exec_demo_obtain:
  assumes "cs_store s = SimpleLRU 10"
  obtains st where "exec_all lru_ops [Store ''set'' ''k'' 0 0 ''abc'', Fetch [''k'']] (cs_store s) =
    Inr ([''STORED'', ''VALUE k 0 5'' @ crlf @ ''abc'' @ crlf @ crlf @ ''END''], st)"
  using exec_demo assms by (auto split: sum.splits prod.splits)

theorem st_blocking_session_witness:
  "\<exists>s'. process_all lru_ops (st_deliver (\<lambda>n d. int (length d))) (init_conn (SimpleLRU 10) \<lparr>w_calls = 0, w_bytes = []\<rparr> False)
      (map request_text [Store ''set'' ''k'' 0 0 ''abc'', Fetch [''k'']]) = (None, s') \<and>
    w_bytes (cs_sink s') = ''STORED'' @ crlf @ ''VALUE k 0 5'' @ crlf @ ''abc'' @ crlf @ crlf @ ''END'' @ crlf"
proof -
  let ?rs = "[Store ''set'' ''k'' 0 0 ''abc'', Fetch [''k'']]"
  let ?s = "init_conn (SimpleLRU 10) \<lparr>w_calls = 0, w_bytes = []\<rparr> False"
  have "cs_store ?s = SimpleLRU 10" by (simp add: init_conn_def)
  then obtain st where e: "exec_all lru_ops ?rs (cs_store ?s) =
      Inr ([''STORED'', ''VALUE k 0 5'' @ crlf @ ''abc'' @ crlf @ crlf @ ''END''], st)" by (rule exec_demo_obtain)
  have ok: "list_all request_ok ?rs" "list_all (\<lambda>r. \<not> empty_block r) ?rs" "sends_all (\<lambda>n d. int (length d))"
    by (simp_all add: sends_all_def)
  show ?thesis
    using st_blocking_session [OF init_conn_fresh ok(1) refl, of lru_ops "\<lambda>n d. int (length d)" "SimpleLRU 10"
        "\<lparr>w_calls = 0, w_bytes = []\<rparr>" False]
    by (elim exE conjE allE impE) (rule ok e | simp add: init_conn_def | (rule exI, assumption))+
qed

text \<open>
  The multi-threaded blocking service executes a session in the same way but sends the results
  without a line end: when no block is empty, every send takes its bytes and no command faults, what the client
  receives is their bare concatenation.
\<close>

theorem mt_blocking_session:
  assumes "fresh_conn s" "list_all request_ok rs" "list_all (\<lambda>r. \<not> empty_block r) rs" "sends_all os"
    and "exec_all ops rs (cs_store s) = Inr (outs, st')" "concat bufs = concat (map request_text rs)"
  shows "\<exists>s'. process_all ops (mt_deliver os) s bufs = (None, s') \<and> cs_store s' = st' \<and>
    w_bytes (cs_sink s') = w_bytes (cs_sink s) @ concat outs"
  using mt.session [OF assms] by simp

theorem mt_blocking_session_witness:
  "\<exists>s'. process_all lru_ops (mt_deliver (\<lambda>n d. int (length d))) (init_conn (SimpleLRU 10) \<lparr>w_calls = 0, w_bytes = []\<rparr> False)
      (map request_text [Store ''set'' ''k'' 0 0 ''abc'', Fetch [''k'']]) = (None, s') \<and>
    w_bytes (cs_sink s') = ''STOREDVALUE k 0 5'' @ crlf @ ''abc'' @ crlf @ crlf @ ''END''"
proof -
  let ?rs = "[Store ''set'' ''k'' 0 0 ''abc'', Fetch [''k'']]"
  let ?s = "init_conn (SimpleLRU 10) \<lparr>w_calls = 0, w_bytes = []\<rparr> False"
  have "cs_store ?s = SimpleLRU 10" by (simp add: init_conn_def)
  then obtain st where e: "exec_all lru_ops ?rs (cs_store ?s) =
      Inr ([''STORED'', ''VALUE k 0 5'' @ crlf @ ''abc'' @ crlf @ crlf @ ''END''], st)" by (rule exec_demo_obtain)
  have "sends_all (\<lambda>n d. int (length d))" "list_all (\<lambda>r. \<not> empty_block r) ?rs" "list_all request_ok ?rs"
    by (simp_all add: sends_all_def)
  then obtain s' where "process_all lru_ops (mt_deliver (\<lambda>n d. int (length d))) ?s (map request_text ?rs) = (None, s')"
    "w_bytes (cs_sink s') = w_bytes (cs_sink ?s) @ concat [''STORED'', ''VALUE k 0 5'' @ crlf @ ''abc'' @ crlf @ crlf @ ''END'']"
    using mt_blocking_session [OF init_conn_fresh _ _ _ e refl] by blast
  then show ?thesis by (auto simp: init_conn_def)
qed

text \<open>
  An announced data block of zero bytes is not read at all: the command is executed with an empty
  argument and the line end of the empty block is then parsed as a command name, which ends the connection.
\<close>

theorem empty_block_breaks:
  assumes "fresh_conn s" "name \<in> {''set'', ''add'', ''append''}" "SP \<notin> set key"
    and "flags < 2 ^ 32" "\<bar>e\<bar> < 2 ^ 31"
    and "serve ops deliver (store_command name key flags e) [] (cs_store s) (cs_sink s) = (None, st, k)"
  shows "\<exists>s'. eat_all ops deliver s (store_line name key flags e 0 @ crlf @ rest) = (Some (ParseError (UnknownCommand [])), s') \<and>
    cs_store s' = st \<and> cs_sink s' = k"
proof -
  obtain s' where "eat_all ops deliver s (store_line name key flags e 0 @ crlf @ rest) = eat_all ops deliver s' (crlf @ rest)"
    "fresh_conn s'" "cs_store s' = st" "cs_sink s' = k"
    using eat_store_empty [OF assms(1-5), of ops deliver "crlf @ rest"] assms(6) by auto
  then show ?thesis using eat_crlf [of s'] by auto
qed

theorem empty_block_breaks_witness:
  "\<exists>s'. eat_all lru_ops (\<lambda>out k. (True, k @ [out])) (init_conn (SimpleLRU 10) [] False)
      (store_line ''set'' ''k'' 0 0 0 @ crlf @ get_line [''k'']) = (Some (ParseError (UnknownCommand [])), s') \<and> cs_sink s' = [''STORED'']"
proof -
  define d where "d = (\<lambda>(out :: string) k. (True, k @ [out]))"
  define s where "s = init_conn (SimpleLRU 10) ([] :: string list) False"
  have "case serve lru_ops (\<lambda>out k. (True, k @ [out])) (store_command ''set'' ''k'' 0 0) [] (SimpleLRU 10) [] of
      (r, st, k) \<Rightarrow> r = None \<and> k = [''STORED'']" by code_simp
  then obtain st where "serve lru_ops d (store_command ''set'' ''k'' 0 0) [] (cs_store s) (cs_sink s) = (None, st, [''STORED''])"
    by (auto simp: init_conn_def s_def d_def split: prod.splits)
  from empty_block_breaks [OF _ _ _ _ _ this, where rest = "get_line [''k'']"]
  have "\<exists>s'. eat_all lru_ops d s (store_line ''set'' ''k'' 0 0 0 @ crlf @ get_line [''k'']) = (Some (ParseError (UnknownCommand [])), s') \<and>
     cs_sink s' = [''STORED'']"
    using init_conn_fresh [of "SimpleLRU 10" "[] :: string list" False] unfolding s_def by auto
  then show ?thesis unfolding s_def d_def .
qed

end
