(* ===== verification/Blocking_Services.thy ===== *)
theory Blocking_Services
  imports Sessions
begin

text \<open>
  The blocking network services around the connection loop: the acceptor of
  \<^verbatim>\<open>st_blocking/ServerImpl.cpp\<close>, which serves one connection after the other with one parser, and the
  acceptor and the worker threads of \<^verbatim>\<open>mt_blocking/ServerImpl.cpp\<close> as a step relation.
\<close>

section \<open>The single-threaded acceptor\<close>

text \<open>
  What a turn of the accept loop sees: whether \<open>running\<close> is still set, and then the result of \<open>accept\<close>, a
  failure or a descriptor with the results of the reads on it.
\<close>

datatype accept_result = AcceptFailed | Accepted int "read_result list"

record 's st_server =
  sv_conn :: "('s, wire) cstate"
  sv_accepted :: "int list"
  sv_closed :: "int list"
  sv_stopped :: bool

text \<open>After a connection, however it ended: close the socket and prepare the state for the next one.\<close>

definition st_reset :: "('s, wire) cstate \<Rightarrow> ('s, wire) cstate" where
  "st_reset c = c\<lparr>cs_command := None, cs_argument := [], cs_parser := Reset (cs_parser c)\<rparr>"

definition st_connection :: "'s storage_ops \<Rightarrow> os_send \<Rightarrow> int \<Rightarrow> read_result list \<Rightarrow> 's st_server \<Rightarrow> fault + 's st_server" where
  "st_connection ops os fd reads sv =
     (case read_loop ops (st_deliver os) (sv_conn sv) reads of
        (Failed (ExecuteFault f), c) \<Rightarrow> Inl f
      | (_, c) \<Rightarrow> Inr (sv\<lparr>sv_conn := st_reset c, sv_accepted := sv_accepted sv @ [fd], sv_closed := sv_closed sv @ [fd]\<rparr>))"

fun st_OnRun :: "'s storage_ops \<Rightarrow> os_send \<Rightarrow> (bool \<times> accept_result) list \<Rightarrow> 's st_server \<Rightarrow> fault + 's st_server" where
  "st_OnRun ops os [] sv = Inr sv"
| "st_OnRun ops os ((running, a) # evs) sv =
     (if \<not> running then Inr (sv\<lparr>sv_stopped := True\<rparr>)
      else case a of
        AcceptFailed \<Rightarrow> st_OnRun ops os evs sv
      | Accepted fd reads \<Rightarrow> rbind (st_connection ops os fd reads sv) (\<lambda>sv'. st_OnRun ops os evs sv'))"

definition st_server_init :: "'s \<Rightarrow> bool \<Rightarrow> 's st_server" where
  "st_server_init st garbage = \<lparr>sv_conn = init_conn st \<lparr>w_calls = 0, w_bytes = []\<rparr> garbage, sv_accepted = [], sv_closed = [],
     sv_stopped = False\<rparr>"

lemma st_reset_fresh: "fresh_conn (st_reset c)"
  by (simp add: st_reset_def fresh_conn_def fresh_Reset)

lemma st_connection_inv:
  assumes "st_connection ops os fd reads sv = Inr sv'"
  shows "fresh_conn (sv_conn sv')" "sv_accepted sv' = sv_accepted sv @ [fd]" "sv_closed sv' = sv_closed sv @ [fd]"
  using assms
  by (auto simp: st_connection_def st_reset_fresh split: prod.splits conn_end.splits conn_error.splits)

lemma st_OnRun_inv:
  "st_OnRun ops os evs sv = Inr sv' \<Longrightarrow> fresh_conn (sv_conn sv) \<Longrightarrow> sv_accepted sv = sv_closed sv \<Longrightarrow>
   fresh_conn (sv_conn sv') \<and> sv_accepted sv' = sv_closed sv'"
proof (induction ops os evs sv rule: st_OnRun.induct)
  case (2 ops os running a evs sv)
  show ?case
  proof (cases "running \<and> a \<noteq> AcceptFailed")
    case True
    then obtain fd reads where a: "a = Accepted fd reads" by (cases a) auto
    with True 2(3) obtain sv1 where s1: "st_connection ops os fd reads sv = Inr sv1" "st_OnRun ops os evs sv1 = Inr sv'"
      by (auto simp: res_simps)
    show ?thesis
      using 2(2) [OF _ a s1] True st_connection_inv [OF s1(1)] 2(5) by simp
  qed (use 2 in \<open>auto split: if_splits\<close>)
qed simp

text \<open>
  The single-threaded blocking service closes every connection it accepts, once and in order, and
  starts every connection with a fresh parser, no pending command and no left-over argument, whatever the
  previous clients sent and however their connections ended.
\<close>

theorem st_blocking_isolation:
  assumes "st_OnRun ops os evs (st_server_init st g) = Inr sv"
  shows "sv_closed sv = sv_accepted sv \<and> fresh_conn (sv_conn sv)"
  using st_OnRun_inv [OF assms] init_conn_fresh [of st "\<lparr>w_calls = 0, w_bytes = []\<rparr>" g]
  by (auto simp: st_server_init_def)

theorem st_blocking_isolation_witness:
  "\<exists>sv. st_OnRun lru_ops (\<lambda>n d. int (length d)) [(True, Accepted 5 [Data ''garbage'', Eof]), (True, AcceptFailed),
       (True, Accepted 6 [Data ''set k 0 0 9'', ReadErr True]), (False, AcceptFailed)]
     (st_server_init (SimpleLRU 10) True) = Inr sv \<and> sv_closed sv = [5, 6] \<and> fresh_conn (sv_conn sv)"
proof -
  let ?evs = "[(True, Accepted 5 [Data ''garbage'', Eof]), (True, AcceptFailed),
       (True, Accepted 6 [Data ''set k 0 0 9'', ReadErr True]), (False, AcceptFailed)]"
  have "case st_OnRun lru_ops (\<lambda>n d. int (length d)) ?evs (st_server_init (SimpleLRU 10) True) of
      Inl f \<Rightarrow> False | Inr sv \<Rightarrow> sv_accepted sv = [5, 6]" by code_simp
  then obtain sv where "st_OnRun lru_ops (\<lambda>n d. int (length d)) ?evs (st_server_init (SimpleLRU 10) True) = Inr sv"
    "sv_accepted sv = [5, 6]" by (auto split: sum.splits)
  with st_blocking_isolation [OF this(1)] show ?thesis by simp
qed

section \<open>The connection loop of a worker thread\<close>

text \<open>
  \<open>_connection_processing\<close> reads the atomic flag \<open>running\<close> at every turn of both loops: \<open>run i\<close> is what the
  i-th read of the flag returns. The inner loop gives back the part of the buffer it has not processed.
\<close>

function mt_process_buf ::
  "'s storage_ops \<Rightarrow> 'o deliver \<Rightarrow> (nat \<Rightarrow> bool) \<Rightarrow> nat \<Rightarrow> ('s, 'o) cstate \<Rightarrow> string \<Rightarrow>
   conn_error option \<times> ('s, 'o) cstate \<times> string \<times> nat" where
  "mt_process_buf ops deliver run i s buf =
     (if \<not> run i then (None, s, buf, Suc i)
      else if buf = [] then (None, s, [], Suc i)
      else case iteration ops deliver s buf of
        (IterError e, s') \<Rightarrow> (Some e, s', buf, Suc i)
      | (Break, s') \<Rightarrow> (None, s', buf, Suc i)
      | (Rest buf', s') \<Rightarrow> mt_process_buf ops deliver run (Suc i) s' buf')"
  by pat_completeness auto
termination
  by (relation "measure (\<lambda>(ops, deliver, run, i, s, buf). loop_measure s buf)")
     (auto dest!: iteration_progress [OF _ sym])

declare mt_process_buf.simps [simp del]

datatype mt_end = WorkerStopped | WorkerEnd conn_end

fun mt_connection_processing ::
  "'s storage_ops \<Rightarrow> 'o deliver \<Rightarrow> (nat \<Rightarrow> bool) \<Rightarrow> nat \<Rightarrow> ('s, 'o) cstate \<Rightarrow> read_result list \<Rightarrow> mt_end \<times> ('s, 'o) cstate" where
  "mt_connection_processing ops deliver run i s [] = (WorkerEnd WouldBlock, s)"
| "mt_connection_processing ops deliver run i s (r # rs) =
     (if \<not> run i then (WorkerStopped, s)
      else case r of
        Eof \<Rightarrow> (WorkerEnd ClosedByPeer, s)
      | ReadErr again \<Rightarrow> (WorkerEnd (if again then WouldBlock else ReadFailed), s)
      | Data buf \<Rightarrow>
          (case mt_process_buf ops deliver run (Suc i) s buf of
             (Some e, s', _, _) \<Rightarrow> (WorkerEnd (Failed e), s')
           | (None, s', _, j) \<Rightarrow> mt_connection_processing ops deliver run j s' rs))"

lemma mt_process_buf_running:
  "\<exists>rest j. mt_process_buf ops deliver (\<lambda>_. True) i s buf =
    (fst (process_buf ops deliver s buf), snd (process_buf ops deliver s buf), rest, j)"
proof (induction ops deliver s buf arbitrary: i rule: process_buf.induct)
  case (1 ops deliver s buf)
  show ?case
  proof (cases "buf = []")
    case True
    then show ?thesis
      by (simp add: mt_process_buf.simps [of _ _ _ _ _ "[]"] process_buf.simps [of _ _ _ "[]"])
  next
    case False
    obtain r s' where it: "iteration ops deliver s buf = (r, s')" by fastforce
    show ?thesis
      using False it 1 [OF False it [symmetric], of _ "Suc i"]
      by (cases r) (simp_all add: mt_process_buf.simps [of ops deliver "\<lambda>_. True" i s buf] process_buf.simps [of ops deliver s buf])
  qed
qed

lemma mt_connection_running:
  "mt_connection_processing ops deliver (\<lambda>_. True) i s reads =
    map_prod WorkerEnd id (read_loop ops deliver s reads)"
proof (induction reads arbitrary: i s)
  case (Cons r rs)
  show ?case
  proof (cases r)
    case (Data buf)
    obtain e s' where p: "process_buf ops deliver s buf = (e, s')" by fastforce
    then obtain rest j where "mt_process_buf ops deliver (\<lambda>_. True) (Suc i) s buf = (e, s', rest, j)"
      using mt_process_buf_running [of ops deliver "Suc i" s buf] by auto
    then show ?thesis using Data p Cons.IH [of j s'] by (cases e) auto
  qed auto
qed simp

text \<open>
  While the service is running, a worker thread of the multi-threaded blocking service does with its
  connection exactly what the loop shared by all services does.
\<close>

theorem mt_connection_is_read_loop:
  assumes "\<And>i. run i"
  shows "mt_connection_processing ops deliver run i s reads =
    map_prod WorkerEnd id (read_loop ops deliver s reads)"
proof -
  have "run = (\<lambda>_. True)" using assms by auto
  then show ?thesis by (simp add: mt_connection_running)
qed

theorem mt_connection_is_read_loop_witness:
  "mt_connection_processing lru_ops (mt_deliver (\<lambda>n d. int (length d))) (\<lambda>i. True) 0
     (init_conn (SimpleLRU 10) \<lparr>w_calls = 0, w_bytes = []\<rparr> False) [Data ''stats'', Eof] =
   map_prod WorkerEnd id (read_loop lru_ops (mt_deliver (\<lambda>n d. int (length d)))
     (init_conn (SimpleLRU 10) \<lparr>w_calls = 0, w_bytes = []\<rparr> False) [Data ''stats'', Eof])"
  by (rule mt_connection_is_read_loop) simp

section \<open>The multi-threaded service\<close>

text \<open>
  A worker thread serves its socket (the connection loop of \<open>Sessions\<close>), closes it, and then takes itself
  out of the map of workers under the mutex. The acceptor tests \<open>running\<close>, waits for a connection and puts a
  worker for it into the map, or closes the socket if the map is full. The kernel gives a new connection any
  descriptor that is not open, also after \<open>Stop\<close> has cleared \<open>running\<close> and before it shuts the server socket
  down; the acceptor may fail to get a connection at any time. When the key of a new worker is
  in the map already, \<open>emplace\<close> keeps the old entry and destroys the new thread object while its thread is
  running, which terminates the program. \<open>Join\<close> waits for the map to be empty and then for the acceptor.
\<close>

datatype mt_worker = Serving int | SocketClosed int | Finished

datatype mt_acceptor = AtCheck | InAccept | Got int | Exited

datatype mt_join = NotJoined | WorkersGone | Joined

record mt_server =
  mt_max :: nat
  mt_running :: bool
  mt_open :: "int set"
  mt_workers :: "int \<rightharpoonup> nat"
  mt_threads :: "mt_worker list"
  mt_acc :: mt_acceptor
  mt_joining :: mt_join
  mt_terminated :: bool

inductive mt_step :: "mt_server \<Rightarrow> mt_server \<Rightarrow> bool" where
  check_run: "\<not> mt_terminated m \<Longrightarrow> mt_acc m = AtCheck \<Longrightarrow> mt_running m \<Longrightarrow> mt_step m (m\<lparr>mt_acc := InAccept\<rparr>)"
| check_stop: "\<not> mt_terminated m \<Longrightarrow> mt_acc m = AtCheck \<Longrightarrow> \<not> mt_running m \<Longrightarrow> mt_step m (m\<lparr>mt_acc := Exited\<rparr>)"
| accept_fail: "\<not> mt_terminated m \<Longrightarrow> mt_acc m = InAccept \<Longrightarrow> mt_step m (m\<lparr>mt_acc := AtCheck\<rparr>)"
| accept: "\<not> mt_terminated m \<Longrightarrow> mt_acc m = InAccept \<Longrightarrow> fd \<notin> mt_open m \<Longrightarrow>
    mt_step m (m\<lparr>mt_open := insert fd (mt_open m), mt_acc := Got fd\<rparr>)"
| register_full: "\<not> mt_terminated m \<Longrightarrow> mt_acc m = Got fd \<Longrightarrow> card (dom (mt_workers m)) \<ge> mt_max m \<Longrightarrow>
    mt_step m (m\<lparr>mt_open := mt_open m - {fd}, mt_acc := AtCheck\<rparr>)"
| register: "\<not> mt_terminated m \<Longrightarrow> mt_acc m = Got fd \<Longrightarrow> card (dom (mt_workers m)) < mt_max m \<Longrightarrow> mt_workers m fd = None \<Longrightarrow>
    mt_step m (m\<lparr>mt_workers := (mt_workers m)(fd \<mapsto> length (mt_threads m)),
      mt_threads := mt_threads m @ [Serving fd], mt_acc := AtCheck\<rparr>)"
| register_dup: "\<not> mt_terminated m \<Longrightarrow> mt_acc m = Got fd \<Longrightarrow> card (dom (mt_workers m)) < mt_max m \<Longrightarrow> mt_workers m fd \<noteq> None \<Longrightarrow>
    mt_step m (m\<lparr>mt_terminated := True\<rparr>)"
| close: "\<not> mt_terminated m \<Longrightarrow> t < length (mt_threads m) \<Longrightarrow> mt_threads m ! t = Serving fd \<Longrightarrow>
    mt_step m (m\<lparr>mt_open := mt_open m - {fd}, mt_threads := (mt_threads m)[t := SocketClosed fd]\<rparr>)"
| unregister: "\<not> mt_terminated m \<Longrightarrow> t < length (mt_threads m) \<Longrightarrow> mt_threads m ! t = SocketClosed fd \<Longrightarrow>
    mt_step m (m\<lparr>mt_workers := (mt_workers m)(fd := None), mt_threads := (mt_threads m)[t := Finished]\<rparr>)"
| stop: "\<not> mt_terminated m \<Longrightarrow> mt_step m (m\<lparr>mt_running := False\<rparr>)"
| join_workers: "\<not> mt_terminated m \<Longrightarrow> mt_joining m = NotJoined \<Longrightarrow> dom (mt_workers m) = {} \<Longrightarrow>
    mt_step m (m\<lparr>mt_joining := WorkersGone\<rparr>)"
| join_acceptor: "\<not> mt_terminated m \<Longrightarrow> mt_joining m = WorkersGone \<Longrightarrow> mt_acc m = Exited \<Longrightarrow>
    mt_step m (m\<lparr>mt_joining := Joined\<rparr>)"

definition mt_init :: "nat \<Rightarrow> mt_server" where
  "mt_init mx = \<lparr>mt_max = mx, mt_running = True, mt_open = {}, mt_workers = Map.empty, mt_threads = [], mt_acc = AtCheck,
     mt_joining = NotJoined, mt_terminated = False\<rparr>"

text \<open>The descriptor a thread is registered under in the map.\<close>

fun registered :: "mt_worker \<Rightarrow> int option" where
  "registered (Serving fd) = Some fd"
| "registered (SocketClosed fd) = Some fd"
| "registered Finished = None"

definition mt_inv :: "nat \<Rightarrow> mt_server \<Rightarrow> bool" where
  "mt_inv mx m \<longleftrightarrow> mt_max m = mx \<and> finite (dom (mt_workers m)) \<and> card (dom (mt_workers m)) \<le> mx \<and>
     (\<forall>fd t. mt_workers m fd = Some t \<longleftrightarrow> t < length (mt_threads m) \<and> registered (mt_threads m ! t) = Some fd) \<and>
     (\<forall>t fd. t < length (mt_threads m) \<and> mt_threads m ! t = Serving fd \<longrightarrow> fd \<in> mt_open m \<and> mt_acc m \<noteq> Got fd) \<and>
     (\<forall>fd. mt_acc m = Got fd \<longrightarrow> fd \<in> mt_open m)"

lemma mt_invD:
  assumes "mt_inv mx m"
  shows "mt_max m = mx" "finite (dom (mt_workers m))" "card (dom (mt_workers m)) \<le> mx"
    "\<And>fd t. mt_workers m fd = Some t \<longleftrightarrow> t < length (mt_threads m) \<and> registered (mt_threads m ! t) = Some fd"
    "\<And>t fd. t < length (mt_threads m) \<Longrightarrow> mt_threads m ! t = Serving fd \<Longrightarrow> fd \<in> mt_open m \<and> mt_acc m \<noteq> Got fd"
    "\<And>fd. mt_acc m = Got fd \<Longrightarrow> fd \<in> mt_open m"
  using assms by (auto simp: mt_inv_def)

lemma mt_invI:
  assumes "mt_max m = mx" "finite (dom (mt_workers m))" "card (dom (mt_workers m)) \<le> mx"
    "\<And>fd t. mt_workers m fd = Some t \<longleftrightarrow> t < length (mt_threads m) \<and> registered (mt_threads m ! t) = Some fd"
    "\<And>t fd. t < length (mt_threads m) \<Longrightarrow> mt_threads m ! t = Serving fd \<Longrightarrow> fd \<in> mt_open m \<and> mt_acc m \<noteq> Got fd"
    "\<And>fd. mt_acc m = Got fd \<Longrightarrow> fd \<in> mt_open m"
  shows "mt_inv mx m"
  unfolding mt_inv_def using assms by blast

lemma mt_step_inv: "mt_step m m' \<Longrightarrow> mt_inv mx m \<Longrightarrow> mt_inv mx m'"
proof (induction rule: mt_step.induct)
  case (accept m fd)
  note I = mt_invD [OF accept(4)]
  have "\<And>t. t < length (mt_threads m) \<Longrightarrow> mt_threads m ! t \<noteq> Serving fd" using I(5) accept(3) by blast
  then show ?case using I(1-5) by (intro mt_invI) auto
next
  case (register_full m fd)
  note I = mt_invD [OF register_full(4)]
  have "\<And>t. t < length (mt_threads m) \<Longrightarrow> mt_threads m ! t \<noteq> Serving fd" using I(5) register_full(2) by blast
  then show ?case using I(1-5) by (intro mt_invI) auto
next
  case (register m fd)
  note I = mt_invD [OF register(5)]
  have new: "registered (mt_threads m ! t) \<noteq> Some fd" if "t < length (mt_threads m)" for t
    using I(4) [of fd t] that register(4) by simp
  have iff: "((mt_workers m)(fd \<mapsto> length (mt_threads m))) fd' = Some t \<longleftrightarrow>
      t < Suc (length (mt_threads m)) \<and> registered ((mt_threads m @ [Serving fd]) ! t) = Some fd'" for fd' t
    using new I(4) [of fd' t] by (auto simp: nth_append less_Suc_eq)
  have "card (insert fd (dom (mt_workers m))) \<le> mx" using I(1,2) register(3) by (simp add: card_insert_if)
  moreover have "fd' \<in> mt_open m" if "t < Suc (length (mt_threads m))" "(mt_threads m @ [Serving fd]) ! t = Serving fd'" for t fd'
    using that I(5) [of t fd'] I(6) [OF register(2)] by (auto simp: nth_append less_Suc_eq split: if_splits)
  ultimately show ?case using I(1,2) iff by (intro mt_invI) auto
next
  case (close m t fd)
  note I = mt_invD [OF close(4)]
  have reg: "registered ((mt_threads m)[t := SocketClosed fd] ! u) = registered (mt_threads m ! u)" if "u < length (mt_threads m)" for u
    using that close(3) by (cases "u = t") auto
  have ser: "fd' \<in> mt_open m \<and> fd' \<noteq> fd \<and> mt_acc m \<noteq> Got fd'"
    if "u < length (mt_threads m)" "(mt_threads m)[t := SocketClosed fd] ! u = Serving fd'" for u fd'
  proof -
    have ut: "u \<noteq> t" using that close(2) by auto
    then have u: "mt_threads m ! u = Serving fd'" using that by simp
    have "mt_workers m fd' = Some u" "mt_workers m fd = Some t"
      using I(4) [of fd' u] I(4) [of fd t] u that(1) close(2,3) by auto
    then show ?thesis using ut u I(5) that(1) by auto
  qed
  have "mt_acc m \<noteq> Got fd" using I(5) [OF close(2,3)] by simp
  then show ?case using I(1-4,6) reg ser by (intro mt_invI) auto
next
  case (unregister m t fd)
  note I = mt_invD [OF unregister(4)]
  have t: "mt_workers m fd = Some t" using I(4) [of fd t] unregister(2,3) by simp
  have iff: "((mt_workers m)(fd := None)) fd' = Some u \<longleftrightarrow> u < length (mt_threads m) \<and> registered ((mt_threads m)[t := Finished] ! u) = Some fd'" for fd' u
  proof (cases "u = t")
    case True
    have "mt_workers m fd' = Some t \<Longrightarrow> fd' = fd" using I(4) [of fd' t] unregister(3) by simp
    then show ?thesis using True unregister(2) by auto
  next
    case False
    have "mt_workers m fd = Some u \<Longrightarrow> u = t" using t by simp
    then show ?thesis using False I(4) [of fd' u] by auto
  qed
  have "card (dom (mt_workers m) - {fd}) \<le> card (dom (mt_workers m))" using I(2) by (intro card_mono) auto
  moreover have "fd' \<in> mt_open m \<and> mt_acc m \<noteq> Got fd'"
    if "u < length (mt_threads m)" "(mt_threads m)[t := Finished] ! u = Serving fd'" for u fd'
    using that I(5) [of u fd'] unregister(2) by (cases "u = t") auto
  ultimately show ?case using I(1,2,3,6) iff by (intro mt_invI) auto
qed (auto simp: mt_inv_def)

lemma mt_init_inv: "mt_inv mx (mt_init mx)"
  by (simp add: mt_inv_def mt_init_def)

lemma mt_reach_inv: "mt_step\<^sup>*\<^sup>* (mt_init mx) m \<Longrightarrow> mt_inv mx m"
  by (induction rule: rtranclp_induct) (auto intro: mt_init_inv mt_step_inv)

text \<open>
  C28. However acceptor and workers interleave, the multi-threaded blocking service never has more than
  \<open>_max_connections\<close> workers registered, no two workers serve the same descriptor, and when the map of
  workers is empty every worker has closed its socket and finished.
\<close>

theorem mt_blocking_bounded:
  assumes "mt_step\<^sup>*\<^sup>* (mt_init mx) m"
  shows "card (dom (mt_workers m)) \<le> mx \<and>
    (\<forall>t u fd. t < length (mt_threads m) \<and> u < length (mt_threads m) \<and>
      mt_threads m ! t = Serving fd \<and> mt_threads m ! u = Serving fd \<longrightarrow> t = u) \<and>
    (dom (mt_workers m) = {} \<longrightarrow> (\<forall>w\<in>set (mt_threads m). w = Finished))"
proof -
  note I = mt_invD [OF mt_reach_inv [OF assms]]
  have "w = Finished" if w: "w \<in> set (mt_threads m)" and d: "dom (mt_workers m) = {}" for w
  proof -
    obtain t where t: "t < length (mt_threads m)" "mt_threads m ! t = w" using w by (auto simp: in_set_conv_nth)
    have "registered w \<noteq> Some fd" for fd using I(4) [of fd t] t d by auto
    then show ?thesis by (cases w) auto
  qed
  moreover have "t = u" if "t < length (mt_threads m)" "u < length (mt_threads m)"
    "mt_threads m ! t = Serving fd" "mt_threads m ! u = Serving fd" for t u fd
  proof -
    have "mt_workers m fd = Some t" "mt_workers m fd = Some u" using I(4) that by simp_all
    then show ?thesis by simp
  qed
  ultimately show ?thesis using I(3) by blast
qed

lemma mt_demo:
  defines "base \<equiv> \<lparr>mt_max = 2, mt_running = True, mt_open = {7}, mt_workers = [7 \<mapsto> 0], mt_threads = [Serving 7],
    mt_acc = AtCheck, mt_joining = NotJoined, mt_terminated = False\<rparr>"
  shows "mt_step\<^sup>*\<^sup>* (mt_init 2) base"
proof -
  let ?m1 = "(mt_init 2)\<lparr>mt_acc := InAccept\<rparr>"
  let ?m2 = "(mt_init 2)\<lparr>mt_open := {7}, mt_acc := Got 7\<rparr>"
  have 1: "mt_step (mt_init 2) ?m1" by (rule mt_step.check_run) (simp_all add: mt_init_def)
  have 2: "mt_step ?m1 ?m2" using mt_step.accept [of ?m1 7] by (simp add: mt_init_def)
  have 3: "mt_step ?m2 base" using mt_step.register [of ?m2 7] by (simp add: mt_init_def base_def)
  note st = converse_rtranclp_into_rtranclp [where r = mt_step]
  show ?thesis by (rule st [OF 1 st [OF 2 st [OF 3 rtranclp.rtrancl_refl]]])
qed

theorem mt_blocking_bounded_witness:
  "\<exists>m. mt_step\<^sup>*\<^sup>* (mt_init 2) m \<and> mt_threads m = [Serving 7] \<and> card (dom (mt_workers m)) \<le> 2"
  using mt_demo mt_blocking_bounded [OF mt_demo] by (intro exI conjI) auto

text \<open>
  Two races of the multi-threaded blocking service. A worker closes its socket before it leaves the
  map, so the kernel may give its descriptor to the next connection in between, and the program is
  terminated. And a connection accepted just before \<open>Stop\<close> may be registered after \<open>Join\<close> has seen the map
  empty, so that \<open>Join\<close> returns while a worker is serving.
\<close>

theorem mt_blocking_races:
  "(\<exists>m. mt_step\<^sup>*\<^sup>* (mt_init 2) m \<and> mt_terminated m) \<and>
   (\<exists>m fd. mt_step\<^sup>*\<^sup>* (mt_init 2) m \<and> mt_joining m = Joined \<and> Serving fd \<in> set (mt_threads m))"
proof
  note st = rtranclp.rtrancl_into_rtrancl [where r = mt_step]
  let ?m = "\<lambda>open threads acc dead. \<lparr>mt_max = 2, mt_running = True, mt_open = open, mt_workers = [7 \<mapsto> 0], mt_threads = threads,
    mt_acc = acc, mt_joining = NotJoined, mt_terminated = dead\<rparr>"
  have 1: "mt_step (?m {7} [Serving 7] AtCheck False) (?m {} [SocketClosed 7] AtCheck False)"
    using mt_step.close [of "?m {7} [Serving 7] AtCheck False" 0 7] by simp
  have 2: "mt_step (?m {} [SocketClosed 7] AtCheck False) (?m {} [SocketClosed 7] InAccept False)"
    using mt_step.check_run [of "?m {} [SocketClosed 7] AtCheck False"] by simp
  have 3: "mt_step (?m {} [SocketClosed 7] InAccept False) (?m {7} [SocketClosed 7] (Got 7) False)"
    using mt_step.accept [of "?m {} [SocketClosed 7] InAccept False" 7] by simp
  have 4: "mt_step (?m {7} [SocketClosed 7] (Got 7) False) (?m {7} [SocketClosed 7] (Got 7) True)"
    using mt_step.register_dup [of "?m {7} [SocketClosed 7] (Got 7) False" 7] by simp
  show "\<exists>m. mt_step\<^sup>*\<^sup>* (mt_init 2) m \<and> mt_terminated m"
    using st [OF st [OF st [OF st [OF mt_demo 1] 2] 3] 4] by fastforce
next
  note st = converse_rtranclp_into_rtranclp [where r = mt_step]
  let ?m = "\<lambda>run open ws threads acc jn. \<lparr>mt_max = 2, mt_running = run, mt_open = open, mt_workers = ws, mt_threads = threads,
    mt_acc = acc, mt_joining = jn, mt_terminated = False\<rparr>"
  have 1: "mt_step (mt_init 2) (?m True {} Map.empty [] InAccept NotJoined)"
    using mt_step.check_run [of "mt_init 2"] by (simp add: mt_init_def)
  have 2: "mt_step (?m True {} Map.empty [] InAccept NotJoined) (?m True {7} Map.empty [] (Got 7) NotJoined)"
    using mt_step.accept [of "?m True {} Map.empty [] InAccept NotJoined" 7] by simp
  have 3: "mt_step (?m True {7} Map.empty [] (Got 7) NotJoined) (?m False {7} Map.empty [] (Got 7) NotJoined)"
    using mt_step.stop [of "?m True {7} Map.empty [] (Got 7) NotJoined"] by simp
  have 4: "mt_step (?m False {7} Map.empty [] (Got 7) NotJoined) (?m False {7} Map.empty [] (Got 7) WorkersGone)"
    using mt_step.join_workers [of "?m False {7} Map.empty [] (Got 7) NotJoined"] by simp
  have 5: "mt_step (?m False {7} Map.empty [] (Got 7) WorkersGone) (?m False {7} [7 \<mapsto> 0] [Serving 7] AtCheck WorkersGone)"
    using mt_step.register [of "?m False {7} Map.empty [] (Got 7) WorkersGone" 7] by simp
  have 6: "mt_step (?m False {7} [7 \<mapsto> 0] [Serving 7] AtCheck WorkersGone) (?m False {7} [7 \<mapsto> 0] [Serving 7] Exited WorkersGone)"
    using mt_step.check_stop [of "?m False {7} [7 \<mapsto> 0] [Serving 7] AtCheck WorkersGone"] by simp
  have 7: "mt_step (?m False {7} [7 \<mapsto> 0] [Serving 7] Exited WorkersGone) (?m False {7} [7 \<mapsto> 0] [Serving 7] Exited Joined)"
    using mt_step.join_acceptor [of "?m False {7} [7 \<mapsto> 0] [Serving 7] Exited WorkersGone"] by simp
  have "mt_step\<^sup>*\<^sup>* (mt_init 2) (?m False {7} [7 \<mapsto> 0] [Serving 7] Exited Joined)"
    by (rule st [OF 1 st [OF 2 st [OF 3 st [OF 4 st [OF 5 st [OF 6 st [OF 7 rtranclp.rtrancl_refl]]]]]]])
  then show "\<exists>m fd. mt_step\<^sup>*\<^sup>* (mt_init 2) m \<and> mt_joining m = Joined \<and> Serving fd \<in> set (mt_threads m)"
    by fastforce
qed

end
