(* ===== verification/Service_Start.thy ===== *)
theory Service_Start
  imports Prelude
begin

text \<open>
  Starting the network services: the system calls of the four \<open>Start\<close> methods in the order of the source, with
  the descriptors that are open when the method returns or throws. What the calls return is the
  argument \<open>start_env\<close>.
\<close>

unbundle bit_operations_syntax

datatype start_error =
    MaskFailed | SocketFailed | SetsockoptFailed | BindFailed | GetflFailed | SetflFailed | ListenFailed
  | EventfdFailed | EpollCreateFailed | EpollCtlFailed

record start_env =
  r_sigmask :: int
  r_socket :: int
  r_setsockopt :: int
  r_bind :: int
  r_getfl :: int
  r_setfl :: int
  r_listen :: int
  r_epoll_create :: int
  r_eventfd :: int
  r_epoll_ctl :: int

text \<open>The outcome: the exception or the threads started (workers, acceptors), and the open descriptors.\<close>

type_synonym start_result = "(start_error + nat \<times> nat) \<times> int list"

definition st_blocking_Start :: "start_env \<Rightarrow> start_result" where
  "st_blocking_Start e =
     (if r_sigmask e \<noteq> 0 then (Inl MaskFailed, [])
      else let sock = r_socket e in
      if sock = -1 then (Inl SocketFailed, [])
      else if r_setsockopt e = -1 then (Inl SetsockoptFailed, [])
      else if r_bind e = -1 then (Inl BindFailed, [])
      else if r_listen e = -1 then (Inl ListenFailed, [])
      else (Inr (0, 1), [sock]))"

definition mt_blocking_Start :: "start_env \<Rightarrow> start_result" where
  "mt_blocking_Start e =
     (if r_sigmask e \<noteq> 0 then (Inl MaskFailed, [])
      else let sock = r_socket e in
      if sock = -1 then (Inl SocketFailed, [])
      else if r_setsockopt e = -1 then (Inl SetsockoptFailed, [])
      else if r_bind e = -1 then (Inl BindFailed, [])
      else if r_listen e = -1 then (Inl ListenFailed, [])
      else (Inr (0, 1), [sock]))"

text \<open>\<open>make_socket_non_blocking\<close> adds O_NONBLOCK to the flags of the descriptor; neither failure closes it.\<close>

definition O_NONBLOCK :: u32 where "O_NONBLOCK = 0x800"

definition make_socket_non_blocking :: "start_env \<Rightarrow> start_error + u32" where
  "make_socket_non_blocking e =
     (if r_getfl e = -1 then Inl GetflFailed
      else let flags = word_of_int (r_getfl e) OR O_NONBLOCK in
      if r_setfl e = -1 then Inl SetflFailed else Inr flags)"

definition st_nonblocking_Start :: "start_env \<Rightarrow> start_result" where
  "st_nonblocking_Start e =
     (if r_sigmask e \<noteq> 0 then (Inl MaskFailed, [])
      else let sock = r_socket e in
      if sock = -1 then (Inl SocketFailed, [])
      else if r_setsockopt e = -1 then (Inl SetsockoptFailed, [])
      else if r_bind e = -1 then (Inl BindFailed, [])
      else case make_socket_non_blocking e of Inl er \<Rightarrow> (Inl er, [sock])
      | Inr flags \<Rightarrow>
        if r_listen e = -1 then (Inl ListenFailed, [])
        else let event_fd = r_eventfd e in
        if event_fd = -1 then (Inl EventfdFailed, [sock])
        else (Inr (0, 1), [sock, event_fd]))"

definition mt_nonblocking_Start :: "nat \<Rightarrow> nat \<Rightarrow> start_env \<Rightarrow> start_result" where
  "mt_nonblocking_Start n_acceptors n_workers e =
     (if r_sigmask e \<noteq> 0 then (Inl MaskFailed, [])
      else let sock = r_socket e in
      if sock = -1 then (Inl SocketFailed, [])
      else if r_setsockopt e = -1 then (Inl SetsockoptFailed, [])
      else if r_bind e = -1 then (Inl BindFailed, [])
      else case make_socket_non_blocking e of Inl er \<Rightarrow> (Inl er, [sock])
      | Inr flags \<Rightarrow>
        if r_listen e = -1 then (Inl ListenFailed, [])
        else let epoll_fd = r_epoll_create e in
        if epoll_fd = -1 then (Inl EpollCreateFailed, [sock])
        else let event_fd = r_eventfd e in
        if event_fd = -1 then (Inl EventfdFailed, [sock, epoll_fd])
        else if r_epoll_ctl e \<noteq> 0 then (Inl EpollCtlFailed, [sock, epoll_fd, event_fd])
        else (Inr (n_workers, n_acceptors), [sock, epoll_fd, event_fd]))"

lemma nonblocking_flag:
  assumes "make_socket_non_blocking e = Inr flags"
  shows "flags AND O_NONBLOCK = O_NONBLOCK"
  using assms
  by (auto simp: make_socket_non_blocking_def Let_def bit_eq_iff bit_and_iff bit_or_iff split: if_splits)

text \<open>
  A \<open>Start\<close> of the blocking services that throws leaves no descriptor open; one that returns leaves
  exactly the listening socket. The nonblocking ones leave descriptors open exactly when making the socket
  nonblocking or one of the calls after \<open>listen\<close> fails.
\<close>

theorem Start_descriptors:
  "(case st_blocking_Start e of (Inl er, fds) \<Rightarrow> fds = [] | (Inr t, fds) \<Rightarrow> fds = [r_socket e]) \<and>
   (case mt_blocking_Start e of (Inl er, fds) \<Rightarrow> fds = [] | (Inr t, fds) \<Rightarrow> fds = [r_socket e]) \<and>
   (case st_nonblocking_Start e of
      (Inl er, fds) \<Rightarrow> fds \<noteq> [] \<longleftrightarrow> er \<in> {GetflFailed, SetflFailed, EventfdFailed}
    | (Inr t, fds) \<Rightarrow> fds = [r_socket e, r_eventfd e]) \<and>
   (case mt_nonblocking_Start na nw e of
      (Inl er, fds) \<Rightarrow> fds \<noteq> [] \<longleftrightarrow> er \<in> {GetflFailed, SetflFailed, EpollCreateFailed, EventfdFailed, EpollCtlFailed}
    | (Inr t, fds) \<Rightarrow> t = (nw, na) \<and> fds = [r_socket e, r_epoll_create e, r_eventfd e])"
proof -
  have mk: "make_socket_non_blocking e = Inl er \<Longrightarrow> er \<in> {GetflFailed, SetflFailed}" for er
    by (auto simp: make_socket_non_blocking_def Let_def split: if_splits)
  show ?thesis
    using mk
    by (auto simp: st_blocking_Start_def mt_blocking_Start_def st_nonblocking_Start_def mt_nonblocking_Start_def Let_def
        split: sum.split)
qed

end
