(* ===== verification/Round_Robin.thy ===== *)
theory Round_Robin
  imports Prelude
begin

text \<open>
  The round-robin coroutines of \<^verbatim>\<open>src/sysprog/1\<close>: every coroutine keeps its variables and the position where it
  stopped in its own \<^verbatim>\<open>struct task\<close>, and the macro \<^verbatim>\<open>check_resched\<close> gives the processor to the next one.
  A step of a coroutine is the code between two \<^verbatim>\<open>check_resched\<close>. The theory holds the scheduler, which is the
  same in \<^verbatim>\<open>hw_sort.cpp\<close> and \<^verbatim>\<open>example_jmp.c\<close>, and the proof that the interleaving does not change what a
  coroutine computes; the coroutine of \<^verbatim>\<open>example_jmp.c\<close> is the first client.

  \<^verbatim>\<open>longjmp\<close> is taken to restore the position only. The variables live in the static array of tasks, apart from the
  loop counter of \<^verbatim>\<open>main\<close>, which is not declared \<^verbatim>\<open>volatile\<close>: the model reads it from memory.
\<close>

section \<open>The scheduler\<close>

record 's sched =
  sc_tasks :: "'s list"
  sc_cur :: nat
  sc_out :: "string list"

text \<open>
  What the scheduler is instantiated with: one step of the body, the flag \<^verbatim>\<open>is_finished\<close>, and what the waiting
  loop prints about the first unfinished task.
\<close>

record 's coroutine =
  co_step :: "nat \<Rightarrow> 's \<Rightarrow> fault + 's \<times> string list"
  co_finished :: "'s \<Rightarrow> bool"
  co_busy :: "nat \<Rightarrow> string list"
  co_done :: "string list"

text \<open>The search for an unfinished task in the waiting loop.\<close>

fun first_active :: "('s \<Rightarrow> bool) \<Rightarrow> 's list \<Rightarrow> nat \<Rightarrow> nat option" where
  "first_active fin ts i = (case ts of [] \<Rightarrow> None | t # ts' \<Rightarrow> if \<not> fin t then Some i else first_active fin ts' (Suc i))"

declare first_active.simps [simp del]

text \<open>
  One turn: the code of the current coroutine up to its next \<^verbatim>\<open>check_resched\<close>, which for a finished one is a
  turn of the waiting loop. The flag of the result tells that the coroutine function returned to \<^verbatim>\<open>main\<close>.
\<close>

definition check_resched :: "'s sched \<Rightarrow> 's sched" where
  "check_resched s = s\<lparr>sc_cur := (sc_cur s + 1) mod length (sc_tasks s)\<rparr>"

definition turn :: "'s coroutine \<Rightarrow> 's sched \<Rightarrow> fault + 's sched \<times> bool" where
  "turn c s =
     (if sc_cur s < length (sc_tasks s) then
        rbind (co_step c (sc_cur s) (sc_tasks s ! sc_cur s)) (\<lambda>(t, out).
        let s1 = s\<lparr>sc_tasks := (sc_tasks s)[sc_cur s := t], sc_out := sc_out s @ out\<rparr> in
        if co_finished c t then
          (case first_active (co_finished c) (sc_tasks s1) 0 of
             None \<Rightarrow> Inr (s1\<lparr>sc_out := sc_out s1 @ co_done c\<rparr>, True)
           | Some i \<Rightarrow> Inr (check_resched (s1\<lparr>sc_out := sc_out s1 @ co_busy c i\<rparr>), False))
        else Inr (check_resched s1, False))
      else Inl OutOfBounds)"

text \<open>The turns one after the other; \<open>None\<close> when the coroutines have not returned after \<open>fuel\<close> turns.\<close>

fun run_all :: "'s coroutine \<Rightarrow> nat \<Rightarrow> 's sched \<Rightarrow> (fault + 's sched) option" where
  "run_all c 0 s = None"
| "run_all c (Suc fuel) s =
     (case turn c s of
        Inl e \<Rightarrow> Some (Inl e)
      | Inr (s', returned) \<Rightarrow> if returned then Some (Inr s') else run_all c fuel s')"

text \<open>The coroutine alone, without a scheduler.\<close>

fun alone :: "'s coroutine \<Rightarrow> nat \<Rightarrow> nat \<Rightarrow> 's \<Rightarrow> fault + 's" where
  "alone c i 0 t = Inr t"
| "alone c i (Suc k) t = rbind (co_step c i t) (\<lambda>(t', out). alone c i k t')"

definition reaches :: "'s coroutine \<Rightarrow> nat \<Rightarrow> 's \<Rightarrow> 's \<Rightarrow> bool" where
  "reaches c i t t' \<longleftrightarrow> (\<exists>k. alone c i k t = Inr t')"

lemma reaches_refl [simp]: "reaches c i t t"
  unfolding reaches_def by (rule exI [of _ 0]) simp

lemma reaches_step: "co_step c i t = Inr (u, out) \<Longrightarrow> reaches c i u t' \<Longrightarrow> reaches c i t t'"
  unfolding reaches_def by (auto intro: exI [of _ "Suc _"])

lemma alone_add: "alone c i (j + k) t = rbind (alone c i j t) (alone c i k)"
  by (induction j arbitrary: t) (auto simp: case_prod_unfold)

lemma reaches_trans: "reaches c i t u \<Longrightarrow> reaches c i u w \<Longrightarrow> reaches c i t w"
  unfolding reaches_def using alone_add [of c i _ _ t] by (metis rbind.simps(2))

lemma first_active_None: "first_active fin ts i = None \<longleftrightarrow> (\<forall>t\<in>set ts. fin t)"
  by (induction ts arbitrary: i) (auto simp: first_active.simps)

section \<open>Switching does not matter\<close>

text \<open>
  The interface of a coroutine: a finished one does nothing but wait. The steps a coroutine takes alone then
  determine what it has computed when the scheduler returns, whatever the others do.
\<close>

locale cooperative =
  fixes c :: "'s coroutine"
  assumes wait_step: "co_finished c t \<Longrightarrow> co_step c i t = Inr (t, [])"
begin

lemma alone_finished: "co_finished c t \<Longrightarrow> alone c i k t = Inr t"
  by (induction k) (auto simp: wait_step)

lemma step_alone:
  assumes "alone c i k t = Inr t'" "co_finished c t'"
  shows "\<exists>u out. co_step c i t = Inr (u, out) \<and> alone c i (k - 1) u = Inr t' \<and> (k \<le> 1 \<longrightarrow> u = t')"
proof (cases k)
  case 0
  then show ?thesis using assms wait_step by auto
next
  case (Suc m)
  then obtain u out where "co_step c i t = Inr (u, out)" "alone c i m u = Inr t'"
    using assms(1) by (auto simp: rbind_Inr_iff)
  then show ?thesis using Suc by (cases m) auto
qed

text \<open>Coroutine \<open>i\<close> is \<open>k i\<close> steps away from the result \<open>fs ! i\<close> it would have alone.\<close>

definition on_course :: "'s list \<Rightarrow> (nat \<Rightarrow> nat) \<Rightarrow> 's list \<Rightarrow> bool" where
  "on_course fs k ts \<longleftrightarrow> length fs = length ts \<and>
     (\<forall>i<length ts. alone c i (k i) (ts ! i) = Inr (fs ! i) \<and> co_finished c (fs ! i))"

lemma on_course_step:
  assumes "on_course fs k ts" "i < length ts"
  obtains u out where "co_step c i (ts ! i) = Inr (u, out)" "on_course fs (k(i := k i - 1)) (ts[i := u])"
proof -
  obtain u out where u: "co_step c i (ts ! i) = Inr (u, out)" "alone c i (k i - 1) u = Inr (fs ! i)"
    using assms step_alone [of i "k i" "ts ! i" "fs ! i"] unfolding on_course_def by blast
  moreover have "on_course fs (k(i := k i - 1)) (ts[i := u])"
    using assms u(2) by (auto simp: on_course_def nth_list_update)
  ultimately show ?thesis using that by blast
qed

lemma on_course_end:
  assumes "on_course fs k ts" "(\<forall>t\<in>set ts. co_finished c t) \<or> (\<forall>i<length ts. k i = 0)"
  shows "ts = fs \<and> (\<forall>t\<in>set ts. co_finished c t)"
proof -
  have "ts ! i = fs ! i" if "i < length ts" for i
    using assms that alone_finished [of "ts ! i" i "k i"] by (auto simp: on_course_def)
  then have "ts = fs" using assms(1) by (intro nth_equalityI) (auto simp: on_course_def)
  moreover have "\<forall>t\<in>set fs. co_finished c t" using assms(1) by (auto simp: on_course_def in_set_conv_nth)
  ultimately show ?thesis by simp
qed

lemma turn_step:
  assumes "sc_cur s < length (sc_tasks s)" "co_step c (sc_cur s) (sc_tasks s ! sc_cur s) = Inr (u, out)"
  defines "ts \<equiv> (sc_tasks s)[sc_cur s := u]"
  obtains s' where "turn c s = Inr (s', \<forall>t\<in>set ts. co_finished c t)" "sc_tasks s' = ts"
    "\<not> (\<forall>t\<in>set ts. co_finished c t) \<Longrightarrow> sc_cur s' = (sc_cur s + 1) mod length ts"
proof (cases "first_active (co_finished c) ts 0")
  case None
  then have all: "\<forall>t\<in>set ts. co_finished c t" by (simp add: first_active_None)
  then have "co_finished c u" using assms(1) by (simp add: ts_def set_update_memI)
  then have "\<exists>s'. turn c s = Inr (s', True) \<and> sc_tasks s' = ts"
    using assms(1,2) None by (auto simp: turn_def ts_def Let_def)
  then show ?thesis using that all by auto
next
  case (Some j)
  then have act: "\<not> (\<forall>t\<in>set ts. co_finished c t)" using first_active_None [of "co_finished c" ts 0] by auto
  have "\<exists>s'. turn c s = Inr (s', False) \<and> sc_tasks s' = ts \<and> sc_cur s' = (sc_cur s + 1) mod length ts"
    using assms(1,2) Some
    by (cases "co_finished c u") (auto simp: turn_def ts_def Let_def check_resched_def)
  then show ?thesis using that act by auto
qed

lemma run_all_correct:
  assumes "on_course fs k (sc_tasks s)" "sc_cur s < length fs"
    and "\<And>i. i < sc_cur s \<Longrightarrow> k i \<le> r" "\<And>i. i < length fs \<Longrightarrow> k i \<le> Suc r"
  shows "\<exists>s'. run_all c (r * length fs + (length fs - sc_cur s)) s = Some (Inr s') \<and> sc_tasks s' = fs"
  using assms
proof (induction "r * length fs + (length fs - sc_cur s)" arbitrary: s k r rule: less_induct)
  case less
  let ?n = "length fs" and ?i = "sc_cur s"
  have n: "length (sc_tasks s) = ?n" using less.prems(1) by (simp add: on_course_def)
  obtain u out where u: "co_step c ?i (sc_tasks s ! ?i) = Inr (u, out)"
    and oc: "on_course fs (k(?i := k ?i - 1)) ((sc_tasks s)[?i := u])" (is "on_course fs ?k ?ts")
    using on_course_step [OF less.prems(1), of ?i] less.prems(2) n by auto
  from u obtain s2 where s2: "turn c s = Inr (s2, \<forall>t\<in>set ?ts. co_finished c t)" "sc_tasks s2 = ?ts"
    "\<not> (\<forall>t\<in>set ?ts. co_finished c t) \<Longrightarrow> sc_cur s2 = (?i + 1) mod ?n"
    using turn_step [of s u out] less.prems(2) n by auto
  have k: "\<And>j. j < Suc ?i \<Longrightarrow> ?k j \<le> r" "\<And>j. j < ?n \<Longrightarrow> ?k j \<le> Suc r"
    using less.prems(2-4) by (force simp: less_Suc_eq)+
  obtain m where m: "r * ?n + (?n - ?i) = Suc m" using less.prems(2) by (metis Suc_diff_Suc add_Suc_right)
  show ?case
  proof (cases "\<forall>t\<in>set ?ts. co_finished c t")
    case True
    then show ?thesis unfolding m using on_course_end [OF oc] s2(1,2) by simp
  next
    case False
    have run: "run_all c (Suc m) s = run_all c m s2" using s2(1) False by simp
    show ?thesis
    proof (cases "Suc ?i < ?n")
      case True
      have "sc_cur s2 = Suc ?i" using s2(3) [OF False] True by simp
      moreover have "m = r * ?n + (?n - Suc ?i)" using m True by simp
      ultimately show ?thesis unfolding m run using less.hyps [of r s2 ?k] oc s2(2) k True by simp
    next
      case wrap: False
      then have i: "Suc ?i = ?n" using less.prems(2) by simp
      have "r \<noteq> 0" using on_course_end [OF oc] k(1) i n False by fastforce
      then obtain r' where r': "r = Suc r'" by (cases r) auto
      have "sc_cur s2 = 0" using s2(3) [OF False] i by simp
      moreover have "m = r' * ?n + ?n" "r' * ?n + ?n < r * ?n + (?n - ?i)" using m i r' by simp_all
      moreover have "0 < ?n" using i by linarith
      ultimately show ?thesis unfolding m run using less.hyps [of r' s2 ?k] oc s2(2) k i r' by simp
    qed
  qed
qed

text \<open>Enough turns for the slowest coroutine make the whole program return, with what each would compute alone.\<close>

lemma interleaving:
  assumes "ts \<noteq> []" "length fs = length ts"
    and "\<And>i. i < length ts \<Longrightarrow> alone c i (k i) (ts ! i) = Inr (fs ! i) \<and> co_finished c (fs ! i) \<and> k i \<le> Suc r"
  shows "\<exists>s'. run_all c (Suc r * length ts) \<lparr>sc_tasks = ts, sc_cur = 0, sc_out = out\<rparr> = Some (Inr s') \<and> sc_tasks s' = fs"
  using run_all_correct [of fs k "\<lparr>sc_tasks = ts, sc_cur = 0, sc_out = out\<rparr>" r] assms by (simp add: on_course_def add.commute)

lemma interleaving_ex:
  assumes "ts \<noteq> []" "length fs = length ts"
    and "\<And>i. i < length ts \<Longrightarrow> \<exists>k. alone c i k (ts ! i) = Inr (fs ! i) \<and> co_finished c (fs ! i)"
  shows "\<exists>fuel s'. run_all c fuel \<lparr>sc_tasks = ts, sc_cur = 0, sc_out = out\<rparr> = Some (Inr s') \<and> sc_tasks s' = fs"
proof -
  obtain k where k: "\<And>i. i < length ts \<Longrightarrow> alone c i (k i) (ts ! i) = Inr (fs ! i) \<and> co_finished c (fs ! i)"
    using assms(3) by metis
  have "k i \<le> Suc (sum k {..<length ts})" if "i < length ts" for i
    using that by (meson finite_lessThan le_SucI lessThan_iff member_le_sum zero_le)
  then show ?thesis using interleaving [OF assms(1,2), of k] k by blast
qed

end

section \<open>The coroutine of example\_jmp.c\<close>

text \<open>The position of a coroutine is the line of the \<^verbatim>\<open>check_resched\<close> it stopped at.\<close>

datatype jmp_env = Jmp_entry | Jmp85 | Jmp88 | Jmp112

record jmp_task =
  jt_env :: jmp_env
  jt_is_finished :: bool
  jt_id :: nat
  jt_local_data :: string

definition newline :: string where
  "newline = [CHR 0x0A]"

text \<open>\<^verbatim>\<open>sprintf\<close> into an array of 128 characters, with the terminating zero.\<close>

definition sprintf_local :: "string \<Rightarrow> fault + string" where
  "sprintf_local str = (if length str + 1 \<le> 128 then Inr str else Inl OutOfBounds)"

definition my_coroutine :: "nat \<Rightarrow> jmp_task \<Rightarrow> fault + jmp_task \<times> string list" where
  "my_coroutine cur t =
     (case jt_env t of
        Jmp_entry \<Rightarrow> rbind (sprintf_local (''Local data for task_id'' @ show_nat cur)) (\<lambda>str.
          Inr (t\<lparr>jt_local_data := str, jt_env := Jmp85\<rparr>,
               [''Before re-schedule: task_id = '' @ show_nat cur @ newline]))
      | Jmp85 \<Rightarrow> Inr (t\<lparr>jt_env := Jmp88\<rparr>, [''After first re-schedule, task_id = '' @ show_nat cur @ newline])
      | Jmp88 \<Rightarrow> Inr (t\<lparr>jt_is_finished := True, jt_env := Jmp112\<rparr>,
               [''After second re-schedule, task_id = '' @ show_nat cur @ newline,
                ''This is local data: '' @ jt_local_data t @ newline])
      | Jmp112 \<Rightarrow> Inr (t, []))"

definition jmp_coroutine :: "jmp_task coroutine" where
  "jmp_coroutine =
     \<lparr>co_step = (\<lambda>i t. if jt_is_finished t then Inr (t, []) else my_coroutine i t),
      co_finished = jt_is_finished,
      co_busy = (\<lambda>i. [''Task_id='' @ show_nat i @ '' still active, re-scheduling'' @ newline]),
      co_done = [''No more active tasks to schedule.'' @ newline]\<rparr>"

text \<open>\<open>main\<close> with any number of tasks; the source has three.\<close>

definition jmp_main :: "nat \<Rightarrow> nat \<Rightarrow> (fault + jmp_task sched) option" where
  "jmp_main fuel task_count =
     map_option (map_sum id (\<lambda>s. s\<lparr>sc_out := sc_out s @ [''Finished'' @ newline]\<rparr>))
       (run_all jmp_coroutine fuel
         \<lparr>sc_tasks = map (\<lambda>i. \<lparr>jt_env = Jmp_entry, jt_is_finished = False, jt_id = i, jt_local_data = []\<rparr>) [0..<task_count],
          sc_cur = 0, sc_out = []\<rparr>)"

interpretation jmp: cooperative jmp_coroutine
  by unfold_locales (simp add: jmp_coroutine_def)

lemma length_show_nat: "0 < k \<Longrightarrow> n < 10 ^ k \<Longrightarrow> length (show_nat n) \<le> k"
proof (induction n arbitrary: k rule: show_nat.induct)
  case (1 n)
  show ?case
  proof (cases "n < 10")
    case True
    then show ?thesis using 1(2) by (subst show_nat.simps) simp
  next
    case False
    then obtain m where k: "k = Suc m" "0 < m" using 1(2,3) by (cases k; cases "k - 1") auto
    have "n div 10 < 10 ^ m" using 1(3) k(1) by (simp add: less_mult_imp_div_less mult.commute)
    then have "length (show_nat (n div 10)) \<le> m" using 1(1) [OF False k(2)] by blast
    then show ?thesis using False k(1) by (subst show_nat.simps) simp
  qed
qed

lemma jmp_alone:
  assumes "i < 2 ^ 31"
  shows "alone jmp_coroutine i 3 \<lparr>jt_env = Jmp_entry, jt_is_finished = False, jt_id = i, jt_local_data = []\<rparr> =
    Inr \<lparr>jt_env = Jmp112, jt_is_finished = True, jt_id = i, jt_local_data = ''Local data for task_id'' @ show_nat i\<rparr>"
  using length_show_nat [of 10 i] assms
  by (simp add: numeral_3_eq_3 jmp_coroutine_def my_coroutine_def sprintf_local_def)

text \<open>
  The coroutines of \<^verbatim>\<open>example_jmp.c\<close> keep to themselves: for every number of tasks, each of which runs a third of the
  turns, the program returns after three turns per task, all tasks have finished, and each task finds in its
  \<^verbatim>\<open>local_data\<close> the text it wrote there, with its own number, although the others wrote in between. No turn overruns the
  128 characters of that array.
\<close>

theorem jmp_main_keeps_local_data:
  assumes "0 < n" "n \<le> 2 ^ 31"
  shows "\<exists>s. jmp_main (3 * n) n = Some (Inr s) \<and>
    sc_tasks s = map (\<lambda>i. \<lparr>jt_env = Jmp112, jt_is_finished = True, jt_id = i,
                           jt_local_data = ''Local data for task_id'' @ show_nat i\<rparr>) [0..<n]"
  using jmp.interleaving [of "map (\<lambda>i. \<lparr>jt_env = Jmp_entry, jt_is_finished = False, jt_id = i, jt_local_data = []\<rparr>) [0..<n]"
      "map (\<lambda>i. \<lparr>jt_env = Jmp112, jt_is_finished = True, jt_id = i,
                           jt_local_data = ''Local data for task_id'' @ show_nat i\<rparr>) [0..<n]" "\<lambda>_. 3" 2 "[]"] jmp_alone assms
  by (auto simp: jmp_main_def numeral_3_eq_3 jmp_coroutine_def)

theorem jmp_main_keeps_local_data_witness:
  "(0::nat) < 3 \<and> (3::nat) \<le> 2 ^ 31 \<and> (\<exists>s. jmp_main (3 * 3) 3 = Some (Inr s) \<and>
    sc_tasks s = map (\<lambda>i. \<lparr>jt_env = Jmp112, jt_is_finished = True, jt_id = i,
                           jt_local_data = ''Local data for task_id'' @ show_nat i\<rparr>) [0..<3])"
  using jmp_main_keeps_local_data [of 3] by simp

end
