(* ===== verification/Coro_Sort.thy ===== *)
theory Coro_Sort
  imports Round_Robin
begin

text \<open>
  The coroutine sort of \<^verbatim>\<open>src/sysprog/1/hw_sort.cpp\<close>: an iterative quicksort whose stack of bounds is an
  array as long as the input, written as a coroutine that gives way after every line, and the merge of the
  sorted arrays. Arrays are lists of integers indexed by integers; an access out of range is a fault. The clock
  readings of \<^verbatim>\<open>check_resched\<close> are left out. The proofs go through \<open>sort_turn\<close>, the body of the outer loop without
  its switching points.
\<close>

section \<open>Checked arrays\<close>

definition aget :: "'a list \<Rightarrow> int \<Rightarrow> fault + 'a" where
  "aget xs i = (if 0 \<le> i \<and> i < int (length xs) then Inr (xs ! nat i) else Inl OutOfBounds)"

definition aset :: "'a list \<Rightarrow> int \<Rightarrow> 'a \<Rightarrow> fault + 'a list" where
  "aset xs i v = (if 0 \<le> i \<and> i < int (length xs) then Inr (xs[nat i := v]) else Inl OutOfBounds)"

definition aswap :: "'a list \<Rightarrow> int \<Rightarrow> int \<Rightarrow> fault + 'a list" where
  "aswap xs i j = rbind (aget xs i) (\<lambda>t. rbind (aget xs j) (\<lambda>u. rbind (aset xs i u) (\<lambda>ys. aset ys j t)))"

section \<open>Quicksort\<close>

text \<open>The position of a coroutine: the line of the \<^verbatim>\<open>check_resched\<close> where it stopped.\<close>

datatype sort_env = L66 | L67 | L71 | L74 | L76 | L80 | L82 | L85 | L88 | L91 | L93 | L95 | L97 | L99 | L102 | L105
  | L107 | L109 | L111 | L117 | L119 | L121 | L123 | L125 | L132 | L134 | L136 | L138 | L140 | L157

record task =
  t_env :: sort_env
  t_finished :: bool
  t_arr :: "int list"
  t_stack :: "int list"
  t_top :: int
  t_l :: int
  t_h :: int
  t_x :: int
  t_i :: int
  t_j :: int
  t_p :: int
  t_t :: int
  t_N :: int

definition at_line :: "sort_env \<Rightarrow> task \<Rightarrow> fault + task" where
  "at_line e t = Inr (t\<lparr>t_env := e\<rparr>)"

text \<open>The conditions of the two loops and of the two branches after them, up to the next \<^verbatim>\<open>check_resched\<close>.\<close>

definition outer_while :: "task \<Rightarrow> fault + task" where
  "outer_while t = (if t_top t \<ge> 0 then at_line L71 t else at_line L157 (t\<lparr>t_finished := True\<rparr>))"

definition inner_while :: "task \<Rightarrow> fault + task" where
  "inner_while t =
     (if t_j t \<le> t_h t - 1 then at_line L88 t
      else rbind (aget (t_arr t) (t_i t + 1)) (\<lambda>v. at_line L105 (t\<lparr>t_t := v\<rparr>)))"

definition push_right :: "task \<Rightarrow> fault + task" where
  "push_right t = (if t_p t + 1 < t_h t then at_line L132 t else outer_while t)"

definition store_top :: "task \<Rightarrow> int \<Rightarrow> sort_env \<Rightarrow> fault + task" where
  "store_top t v e = rbind (aset (t_stack t) (t_top t) v) (\<lambda>st. at_line e (t\<lparr>t_stack := st\<rparr>))"

text \<open>One step of the coroutine: from where it stopped to the next \<^verbatim>\<open>check_resched\<close>.\<close>

fun sort_step :: "task \<Rightarrow> fault + task" where
  "sort_step t =
     (case t_env t of
        L66 \<Rightarrow> at_line L67 t
      | L67 \<Rightarrow> outer_while t
      | L71 \<Rightarrow> rbind (aget (t_stack t) (t_top t)) (\<lambda>v. at_line L74 (t\<lparr>t_h := v, t_top := t_top t - 1\<rparr>))
      | L74 \<Rightarrow> rbind (aget (t_stack t) (t_top t)) (\<lambda>v. at_line L76 (t\<lparr>t_l := v, t_top := t_top t - 1\<rparr>))
      | L76 \<Rightarrow> rbind (aget (t_arr t) (t_h t)) (\<lambda>v. at_line L80 (t\<lparr>t_x := v\<rparr>))
      | L80 \<Rightarrow> at_line L82 (t\<lparr>t_i := t_l t - 1\<rparr>)
      | L82 \<Rightarrow> at_line L85 (t\<lparr>t_j := t_l t\<rparr>)
      | L85 \<Rightarrow> inner_while t
      | L88 \<Rightarrow> rbind (aget (t_arr t) (t_j t)) (\<lambda>v.
          if v \<le> t_x t then at_line L91 t else at_line L102 (t\<lparr>t_j := t_j t + 1\<rparr>))
      | L91 \<Rightarrow> at_line L93 (t\<lparr>t_i := t_i t + 1\<rparr>)
      | L93 \<Rightarrow> rbind (aget (t_arr t) (t_i t)) (\<lambda>v. at_line L95 (t\<lparr>t_t := v\<rparr>))
      | L95 \<Rightarrow> rbind (aget (t_arr t) (t_j t)) (\<lambda>v. rbind (aset (t_arr t) (t_i t) v) (\<lambda>a. at_line L97 (t\<lparr>t_arr := a\<rparr>)))
      | L97 \<Rightarrow> rbind (aset (t_arr t) (t_j t) (t_t t)) (\<lambda>a. at_line L99 (t\<lparr>t_arr := a\<rparr>))
      | L99 \<Rightarrow> at_line L102 (t\<lparr>t_j := t_j t + 1\<rparr>)
      | L102 \<Rightarrow> inner_while t
      | L105 \<Rightarrow> rbind (aget (t_arr t) (t_h t)) (\<lambda>v. rbind (aset (t_arr t) (t_i t + 1) v) (\<lambda>a. at_line L107 (t\<lparr>t_arr := a\<rparr>)))
      | L107 \<Rightarrow> rbind (aset (t_arr t) (t_h t) (t_t t)) (\<lambda>a. at_line L109 (t\<lparr>t_arr := a\<rparr>))
      | L109 \<Rightarrow> at_line L111 (t\<lparr>t_p := t_i t + 1\<rparr>)
      | L111 \<Rightarrow> if t_p t - 1 > t_l t then at_line L117 t else push_right t
      | L117 \<Rightarrow> at_line L119 (t\<lparr>t_top := t_top t + 1\<rparr>)
      | L119 \<Rightarrow> store_top t (t_l t) L121
      | L121 \<Rightarrow> at_line L123 (t\<lparr>t_top := t_top t + 1\<rparr>)
      | L123 \<Rightarrow> store_top t (t_p t - 1) L125
      | L125 \<Rightarrow> push_right t
      | L132 \<Rightarrow> at_line L134 (t\<lparr>t_top := t_top t + 1\<rparr>)
      | L134 \<Rightarrow> store_top t (t_p t + 1) L136
      | L136 \<Rightarrow> at_line L138 (t\<lparr>t_top := t_top t + 1\<rparr>)
      | L138 \<Rightarrow> store_top t (t_h t) L140
      | L140 \<Rightarrow> outer_while t
      | L157 \<Rightarrow> Inr t)"

declare sort_step.simps [simp del]

definition sort_coroutine :: "task coroutine" where
  "sort_coroutine =
     \<lparr>co_step = (\<lambda>i t. if t_finished t then Inr (t, []) else map_sum id (\<lambda>u. (u, [])) (sort_step t)),
      co_finished = t_finished, co_busy = (\<lambda>i. []), co_done = [''No more active tasks to schedule.'' @ newline]\<rparr>"

section \<open>The sort without its switching points\<close>

text \<open>The inner loop: \<open>i\<close> is the last position of the elements not greater than the pivot \<open>x\<close>.\<close>

function partition_loop :: "int list \<Rightarrow> int \<Rightarrow> int \<Rightarrow> int \<Rightarrow> int \<Rightarrow> fault + int list \<times> int" where
  "partition_loop arr x i j h =
     (if j \<le> h - 1 then
        rbind (aget arr j) (\<lambda>v.
        if v \<le> x then rbind (aswap arr (i + 1) j) (\<lambda>arr'. partition_loop arr' x (i + 1) (j + 1) h)
        else partition_loop arr x i (j + 1) h)
      else Inr (arr, i))"
  by pat_completeness auto
termination by (relation "measure (\<lambda>(arr, x, i, j, h). nat (h - j))") auto

declare partition_loop.simps [simp del]

definition push :: "task \<Rightarrow> int \<Rightarrow> int \<Rightarrow> fault + task" where
  "push t a b =
     rbind (aset (t_stack t) (t_top t + 1) a) (\<lambda>st1.
     rbind (aset st1 (t_top t + 2) b) (\<lambda>st2.
     Inr (t\<lparr>t_stack := st2, t_top := t_top t + 2\<rparr>)))"

definition sort_turn :: "task \<Rightarrow> fault + task" where
  "sort_turn t =
     rbind (aget (t_stack t) (t_top t)) (\<lambda>h.
     rbind (aget (t_stack t) (t_top t - 1)) (\<lambda>l.
     rbind (aget (t_arr t) h) (\<lambda>x.
     rbind (partition_loop (t_arr t) x (l - 1) l h) (\<lambda>(arr1, i).
     rbind (aswap arr1 (i + 1) h) (\<lambda>arr2.
     let p = i + 1; t1 = t\<lparr>t_arr := arr2, t_top := t_top t - 2\<rparr> in
     rbind (if p - 1 > l then push t1 l (p - 1) else Inr t1) (\<lambda>t2.
     if p + 1 < h then push t2 (p + 1) h else Inr t2))))))"

text \<open>The preparation of a task in \<open>main\<close>: the stack has as many cells as the array.\<close>

definition init_task :: "int list \<Rightarrow> fault + task" where
  "init_task nums =
     (let n = int (length nums); stack = replicate (length nums) 0 in
      rbind (aset stack 0 0) (\<lambda>s1.
      rbind (aset s1 1 (n - 1)) (\<lambda>s2.
      Inr \<lparr>t_env = L66, t_finished = False, t_arr = nums, t_stack = s2, t_top = 1, t_l = 0, t_h = n - 1, t_x = 0,
           t_i = 0, t_j = 0, t_p = 0, t_t = 0, t_N = n\<rparr>)))"

section \<open>Merging\<close>

fun merge_loop :: "int list \<Rightarrow> int list \<Rightarrow> int list" where
  "merge_loop (a # as) (b # bs) = (if a \<le> b then a # merge_loop as (b # bs) else b # merge_loop (a # as) bs)"
| "merge_loop [] bs = bs"
| "merge_loop as [] = as"

text \<open>
  \<open>merge(k, arrs)\<close> on the list of the \<open>k\<close> arrays: the first two are merged, the last array takes the place of
  the second, the result the place of the last, and the recursion leaves the first one behind.
\<close>

function merge_tasks :: "int list list \<Rightarrow> int list list" where
  "merge_tasks arrs =
     (if length arrs \<le> 1 then arrs
      else let k = length arrs;
               tmp = merge_loop (arrs ! 0) (arrs ! 1);
               arrs1 = arrs[1 := arrs ! (k - 1)];
               arrs2 = arrs1[k - 1 := tmp] in
        hd arrs2 # merge_tasks (tl arrs2))"
  by pat_completeness auto
termination by (relation "measure length") (auto simp: Let_def)

declare merge_tasks.simps [simp del]

text \<open>The preparation of all tasks, in the order of the file names.\<close>

fun init_tasks :: "int list list \<Rightarrow> fault + task list" where
  "init_tasks [] = Inr []"
| "init_tasks (f # fs) = rbind (init_task f) (\<lambda>t. rbind (init_tasks fs) (\<lambda>ts. Inr (t # ts)))"

text \<open>
  \<open>main\<close> on the numbers of the files: the result is what is written to \<^verbatim>\<open>out.txt\<close>, the first \<open>N_all\<close> numbers of the
  last array; \<open>None\<close> when \<open>fuel\<close> turns of the scheduler are not enough.
\<close>

definition sort_main :: "nat \<Rightarrow> int list list \<Rightarrow> (fault + int list) option" where
  "sort_main fuel files =
     (case init_tasks files of
        Inl e \<Rightarrow> Some (Inl e)
      | Inr ts \<Rightarrow> map_option (map_sum id (\<lambda>s.
          let out = last (merge_tasks (map t_arr (sc_tasks s))) in take (sum_list (map length files)) out))
          (run_all sort_coroutine fuel \<lparr>sc_tasks = ts, sc_cur = 0, sc_out = []\<rparr>))"

section \<open>Partition\<close>

lemma aget_nat [simp]: "i < length xs \<Longrightarrow> aget xs (int i) = Inr (xs ! i)"
  by (simp add: aget_def)

lemma aswap_nat:
  assumes "i < length xs" "j < length xs"
  shows "aswap xs (int i) (int j) = Inr (xs[i := xs ! j, j := xs ! i])"
  using assms by (simp add: aswap_def aget_def aset_def)

text \<open>
  The loop rearranges the part between \<open>l\<close> and \<open>h\<close>: what is not greater than the pivot goes to its front.
\<close>

definition same_outside :: "nat \<Rightarrow> nat \<Rightarrow> int list \<Rightarrow> int list \<Rightarrow> bool" where
  "same_outside l h xs ys \<longleftrightarrow> length ys = length xs \<and> mset ys = mset xs \<and> (\<forall>k. k < l \<or> h < k \<longrightarrow> ys ! k = xs ! k)"

lemma same_outside_refl [simp]: "same_outside l h xs xs"
  by (simp add: same_outside_def)

lemma same_outside_trans: "same_outside l h xs ys \<Longrightarrow> same_outside l h ys zs \<Longrightarrow> same_outside l h xs zs"
  by (simp add: same_outside_def)

lemma same_outside_swap:
  "l \<le> i \<Longrightarrow> i \<le> h \<Longrightarrow> l \<le> j \<Longrightarrow> j \<le> h \<Longrightarrow> h < length xs \<Longrightarrow> same_outside l h xs (xs[i := xs ! j, j := xs ! i])"
  by (auto simp: same_outside_def mset_swap nth_list_update)

lemma partition_loop_correct:
  assumes "l \<le> m" "m \<le> j" "j \<le> h" "h < length arr"
    and "\<forall>k. l \<le> k \<and> k < m \<longrightarrow> arr ! k \<le> x" "\<forall>k. m \<le> k \<and> k < j \<longrightarrow> x < arr ! k"
  shows "\<exists>arr' m'. partition_loop arr x (int m - 1) (int j) (int h) = Inr (arr', int m' - 1) \<and>
    same_outside l h arr arr' \<and> arr' ! h = arr ! h \<and> m \<le> m' \<and> m' \<le> h \<and>
    (\<forall>k. l \<le> k \<and> k < m' \<longrightarrow> arr' ! k \<le> x) \<and> (\<forall>k. m' \<le> k \<and> k < h \<longrightarrow> x < arr' ! k)"
  using assms
proof (induction "h - j" arbitrary: arr m j)
  case 0
  then have "j = h" by simp
  then show ?case using 0 by (subst partition_loop.simps) (auto intro!: exI [of _ m])
next
  case (Suc n)
  then have jh: "j < h" by simp
  show ?case
  proof (cases "arr ! j \<le> x")
    case True
    define arr1 where "arr1 = arr[m := arr ! j, j := arr ! m]"
    have step: "partition_loop arr x (int m - 1) (int j) (int h) = partition_loop arr1 x (int (Suc m) - 1) (int (Suc j)) (int h)"
      using True jh Suc.prems aswap_nat [of m arr j]
      by (subst partition_loop.simps) (simp add: arr1_def add.commute)
    have same: "same_outside l h arr arr1" unfolding arr1_def using Suc.prems jh by (intro same_outside_swap) auto
    have front: "\<forall>k. l \<le> k \<and> k < Suc m \<longrightarrow> arr1 ! k \<le> x"
      using Suc.prems True jh by (auto simp: arr1_def nth_list_update less_Suc_eq)
    have rear: "\<forall>k. Suc m \<le> k \<and> k < Suc j \<longrightarrow> x < arr1 ! k"
      using Suc.prems True jh by (auto simp: arr1_def nth_list_update less_Suc_eq)
    have h1: "arr1 ! h = arr ! h" using Suc.prems jh by (auto simp: arr1_def nth_list_update)
    have "\<exists>arr' m'. partition_loop arr1 x (int (Suc m) - 1) (int (Suc j)) (int h) = Inr (arr', int m' - 1) \<and>
      same_outside l h arr1 arr' \<and> arr' ! h = arr1 ! h \<and> Suc m \<le> m' \<and> m' \<le> h \<and>
      (\<forall>k. l \<le> k \<and> k < m' \<longrightarrow> arr' ! k \<le> x) \<and> (\<forall>k. m' \<le> k \<and> k < h \<longrightarrow> x < arr' ! k)"
      using Suc.prems Suc.hyps(2) jh front rear by (intro Suc.hyps(1)) (auto simp: arr1_def)
    then show ?thesis unfolding step using same_outside_trans [OF same] h1 by (metis Suc_leD)
  next
    case False
    have step: "partition_loop arr x (int m - 1) (int j) (int h) = partition_loop arr x (int m - 1) (int (Suc j)) (int h)"
      using False jh Suc.prems by (subst partition_loop.simps) (simp add: add.commute)
    have rear: "\<forall>k. m \<le> k \<and> k < Suc j \<longrightarrow> x < arr ! k" using Suc.prems False by (auto simp: less_Suc_eq)
    show ?thesis unfolding step using Suc.prems Suc.hyps(2) jh rear by (intro Suc.hyps(1)) auto
  qed
qed

text \<open>A rearrangement of a segment takes the values of the segment from the segment.\<close>

lemma same_outside_split:
  assumes "same_outside l h xs ys" "l \<le> h" "h < length xs"
  shows "mset (take (Suc h - l) (drop l ys)) = mset (take (Suc h - l) (drop l xs))"
proof -
  have sp: "zs = take l zs @ take (Suc h - l) (drop l zs) @ drop (Suc h) zs" if "length zs = length xs" for zs :: "int list"
    using that assms(2,3) by (metis append_take_drop_id drop_drop le_add_diff_inverse2 le_SucI)
  have len: "length ys = length xs" using assms(1) by (simp add: same_outside_def)
  have "take l ys = take l xs" "drop (Suc h) ys = drop (Suc h) xs"
    using assms by (auto simp: same_outside_def intro!: nth_equalityI)
  moreover have "mset ys = mset xs" using assms(1) by (simp add: same_outside_def)
  ultimately show ?thesis using sp [OF len] sp [OF refl] by (metis add_left_cancel add_right_cancel mset_append)
qed

lemma same_outside_value:
  assumes "same_outside l h xs ys" "l \<le> j" "j \<le> h" "h < length xs"
  shows "\<exists>j'. l \<le> j' \<and> j' \<le> h \<and> ys ! j = xs ! j'"
proof -
  have len: "length ys = length xs" using assms(1) by (simp add: same_outside_def)
  have "set (take (Suc h - l) (drop l ys)) = set (take (Suc h - l) (drop l xs))"
    using same_outside_split [OF assms(1) _ assms(4)] assms(2,3) by (metis le_trans set_mset_mset)
  moreover have "take (Suc h - l) (drop l ys) ! (j - l) = ys ! j" "j - l < length (take (Suc h - l) (drop l ys))"
    using assms len by auto
  ultimately have "ys ! j \<in> set (take (Suc h - l) (drop l xs))" by (metis nth_mem)
  then obtain i where "i < length (take (Suc h - l) (drop l xs))" "take (Suc h - l) (drop l xs) ! i = ys ! j"
    by (auto simp: in_set_conv_nth)
  then have "l \<le> l + i" "l + i \<le> h" "ys ! j = xs ! (l + i)" using assms by auto
  then show ?thesis by blast
qed

section \<open>The stack of pending ranges\<close>

definition apart :: "nat \<times> nat \<Rightarrow> nat \<times> nat \<Rightarrow> bool" where
  "apart r s \<longleftrightarrow> snd r < fst s \<or> snd s < fst r"

definition weight :: "(nat \<times> nat) list \<Rightarrow> nat" where
  "weight rs = sum_list (map (\<lambda>(l, h). Suc h - l) rs)"

text \<open>Two positions are in order, unless they lie in the same pending range.\<close>

definition ordered_but :: "(nat \<times> nat) list \<Rightarrow> int list \<Rightarrow> bool" where
  "ordered_but rs arr \<longleftrightarrow>
     (\<forall>i j. i < j \<and> j < length arr \<longrightarrow> (\<exists>(l, h)\<in>set rs. l \<le> i \<and> j \<le> h) \<or> arr ! i \<le> arr ! j)"

definition ranges_ok :: "(nat \<times> nat) list \<Rightarrow> nat \<Rightarrow> bool" where
  "ranges_ok rs n \<longleftrightarrow> (\<forall>(l, h)\<in>set rs. l < h \<and> h < n) \<and> sorted_wrt apart rs \<and> weight rs \<le> n"

definition stack_of :: "(nat \<times> nat) list \<Rightarrow> int list" where
  "stack_of rs = concat (map (\<lambda>(l, h). [int l, int h]) rs)"

definition sort_inv :: "(nat \<times> nat) list \<Rightarrow> task \<Rightarrow> bool" where
  "sort_inv rs t \<longleftrightarrow> length (t_stack t) = length (t_arr t) \<and> t_top t = 2 * int (length rs) - 1 \<and>
     take (2 * length rs) (t_stack t) = stack_of rs \<and> ranges_ok rs (length (t_arr t)) \<and> ordered_but rs (t_arr t)"

lemma length_stack_of [simp]: "length (stack_of rs) = 2 * length rs"
  by (induction rs) (auto simp: stack_of_def)

lemma stack_of_Nil [simp]: "stack_of [] = []"
  by (simp add: stack_of_def)

lemma stack_of_append [simp]: "stack_of (rs @ qs) = stack_of rs @ stack_of qs"
  by (simp add: stack_of_def)

lemma weight_append [simp]: "weight (rs @ qs) = weight rs + weight qs"
  by (simp add: weight_def)

lemma weight_length: "\<forall>(l, h)\<in>set rs. l < h \<Longrightarrow> 2 * length rs \<le> weight rs"
  by (induction rs) (auto simp: weight_def)

lemma push_correct:
  assumes "t_top t = 2 * int (length rs) - 1" "take (2 * length rs) (t_stack t) = stack_of rs"
    and "2 * length rs + 2 \<le> length (t_stack t)"
  shows "\<exists>t'. push t (int l) (int h) = Inr t' \<and> t_arr t' = t_arr t \<and> length (t_stack t') = length (t_stack t) \<and>
    t_finished t' = t_finished t \<and>
    t_top t' = 2 * int (length (rs @ [(l, h)])) - 1 \<and> take (2 * length (rs @ [(l, h)])) (t_stack t') = stack_of (rs @ [(l, h)])"
proof -
  let ?n = "length rs" and ?st = "(t_stack t)[2 * length rs := int l, Suc (2 * length rs) := int h]"
  have top: "t_top t + 1 = int (2 * ?n)" "t_top t + 2 = int (Suc (2 * ?n))" using assms(1) by auto
  have "push t (int l) (int h) = Inr (t\<lparr>t_stack := ?st, t_top := t_top t + 2\<rparr>)"
    using assms(3) by (simp add: push_def aset_def top del: of_nat_Suc of_nat_mult)
  moreover have "take (2 * Suc ?n) ?st = stack_of rs @ [int l, int h]"
    using assms(2,3) by (simp add: take_Suc_conv_app_nth take_update_cancel nth_list_update numeral_2_eq_2)
  ultimately show ?thesis using assms(1) by (auto simp: stack_of_def)
qed

lemma aget_stack:
  assumes "take (2 * length (rs @ [(l, h)])) st = stack_of (rs @ [(l, h)])" "2 * length (rs @ [(l, h)]) \<le> length st"
  shows "aget st (2 * int (length rs) + 1) = Inr (int h)" "aget st (2 * int (length rs)) = Inr (int l)"
proof -
  have "st ! (2 * length rs) = (stack_of rs @ [int l, int h]) ! (2 * length rs)"
    "st ! Suc (2 * length rs) = (stack_of rs @ [int l, int h]) ! Suc (2 * length rs)"
    using assms nth_take [of "2 * length rs" "2 * Suc (length rs)" st] nth_take [of "Suc (2 * length rs)" "2 * Suc (length rs)" st]
    by (simp_all add: stack_of_def)
  then have "st ! (2 * length rs) = int l" "st ! Suc (2 * length rs) = int h" by (simp_all add: nth_append)
  then show "aget st (2 * int (length rs) + 1) = Inr (int h)" "aget st (2 * int (length rs)) = Inr (int l)"
    using assms(2) by (auto simp: aget_def nat_add_distrib nat_mult_distrib)
qed

section \<open>A turn of the loop\<close>

definition split_at :: "nat \<Rightarrow> nat \<Rightarrow> nat \<Rightarrow> (nat \<times> nat) list" where
  "split_at l p h = (if Suc l < p then [(l, p - 1)] else []) @ (if Suc p < h then [(Suc p, h)] else [])"

text \<open>The array after a turn: rearranged between \<open>l\<close> and \<open>h\<close>, and divided by the pivot at \<open>p\<close>.\<close>

lemma turn_array:
  assumes "l < h" "h < length arr"
  shows "\<exists>arr1 arr2 p. partition_loop arr (arr ! h) (int l - 1) (int l) (int h) = Inr (arr1, int p - 1) \<and>
    aswap arr1 (int p) (int h) = Inr arr2 \<and> same_outside l h arr arr2 \<and> l \<le> p \<and> p \<le> h \<and>
    (\<forall>k. l \<le> k \<and> k \<le> p \<longrightarrow> arr2 ! k \<le> arr2 ! p) \<and> (\<forall>k. p \<le> k \<and> k \<le> h \<longrightarrow> arr2 ! p \<le> arr2 ! k)"
proof -
  obtain arr1 p where P: "partition_loop arr (arr ! h) (int l - 1) (int l) (int h) = Inr (arr1, int p - 1)"
    "same_outside l h arr arr1" "arr1 ! h = arr ! h" "l \<le> p" "p \<le> h"
    "\<forall>k. l \<le> k \<and> k < p \<longrightarrow> arr1 ! k \<le> arr ! h" "\<forall>k. p \<le> k \<and> k < h \<longrightarrow> arr ! h < arr1 ! k"
    using partition_loop_correct [of l l l h arr "arr ! h"] assms by auto
  define arr2 where "arr2 = arr1[p := arr1 ! h, h := arr1 ! p]"
  have len: "length arr1 = length arr" using P(2) by (simp add: same_outside_def)
  have "aswap arr1 (int p) (int h) = Inr arr2"
    using aswap_nat [of p arr1 h] P(5) assms(2) len by (simp add: arr2_def)
  moreover have "same_outside l h arr arr2"
    using same_outside_trans [OF P(2) same_outside_swap [of l p h h arr1]] P(4,5) assms len by (simp add: arr2_def)
  moreover have "arr2 ! p = arr ! h" using P(3,5) assms(2) len by (cases "p = h") (auto simp: arr2_def)
  moreover have "\<forall>k. l \<le> k \<and> k < p \<longrightarrow> arr2 ! k \<le> arr ! h" using P(5,6) by (auto simp: arr2_def)
  moreover have "arr ! h \<le> arr2 ! k" if "p < k" "k \<le> h" for k
  proof (cases "k = h")
    case True
    then have "arr2 ! k = arr1 ! p" using len assms(2) by (simp add: arr2_def)
    then show ?thesis using P(7) that True by (metis le_refl less_imp_le)
  next
    case False
    then have "arr2 ! k = arr1 ! k" using that by (simp add: arr2_def)
    then show ?thesis using P(7) that False by (metis le_neq_implies_less less_imp_le)
  qed
  ultimately show ?thesis using P(1,4,5)
    by (intro exI [of _ arr1] exI [of _ arr2] exI [of _ p]) (auto simp: le_less)
qed

lemma ordered_but_turn:
  assumes ord: "ordered_but (rs @ [(l, h)]) arr" and ok: "ranges_ok (rs @ [(l, h)]) (length arr)"
    and same: "same_outside l h arr arr2" and p: "l \<le> p" "p \<le> h"
    and lo: "\<forall>k. l \<le> k \<and> k \<le> p \<longrightarrow> arr2 ! k \<le> arr2 ! p" and hi: "\<forall>k. p \<le> k \<and> k \<le> h \<longrightarrow> arr2 ! p \<le> arr2 ! k"
  shows "ordered_but (rs @ split_at l p h) arr2"
  unfolding ordered_but_def
proof (intro allI impI)
  fix i j assume ij: "i < j \<and> j < length arr2"
  have lh: "l < h" "h < length arr" and ap: "\<forall>r\<in>set rs. apart r (l, h)"
    using ok by (auto simp: ranges_ok_def sorted_wrt_append)
  have len: "length arr2 = length arr" using same by (simp add: same_outside_def)
  have out: "arr2 ! k = arr ! k" if "k < l \<or> h < k" for k using same that unfolding same_outside_def by blast
  have other: "\<not> (\<exists>(a, b)\<in>set rs. a \<le> i' \<and> j' \<le> b)" if "i' \<le> j'" "l \<le> i' \<and> i' \<le> h \<or> l \<le> j' \<and> j' \<le> h" for i' j'
  proof
    assume "\<exists>(a, b)\<in>set rs. a \<le> i' \<and> j' \<le> b"
    then obtain a b where "(a, b) \<in> set rs" "a \<le> i'" "j' \<le> b" by auto
    moreover from this have "apart (a, b) (l, h)" using ap by blast
    ultimately show False using that lh by (auto simp: apart_def)
  qed
  have old: "(\<exists>(a, b)\<in>set rs. a \<le> i' \<and> j' \<le> b) \<or> (l \<le> i' \<and> j' \<le> h) \<or> arr ! i' \<le> arr ! j'" if "i' < j'" "j' < length arr" for i' j'
    using ord that unfolding ordered_but_def by (auto; blast)
  show "(\<exists>(a, b)\<in>set (rs @ split_at l p h). a \<le> i \<and> j \<le> b) \<or> arr2 ! i \<le> arr2 ! j"
  proof (cases "l \<le> i \<and> i \<le> h")
    case True
    show ?thesis
    proof (cases "j \<le> h")
      case jh: True
      consider "j < p" | "p < i" | "i \<le> p \<and> p \<le> j" by linarith
      then show ?thesis
      proof cases
        case 3
        then have "arr2 ! i \<le> arr2 ! p" "arr2 ! p \<le> arr2 ! j" using lo hi True jh by auto
        then show ?thesis by linarith
      qed (use True jh ij in \<open>auto simp: split_at_def\<close>)
    next
      case False
      obtain i' where i': "l \<le> i'" "i' \<le> h" "arr2 ! i = arr ! i'" using same_outside_value [OF same] True lh by blast
      have "arr ! i' \<le> arr ! j" using old [of i' j] other [of i' j] i' False ij len by auto
      then show ?thesis using i'(3) out [of j] False by simp
    qed
  next
    case False
    show ?thesis
    proof (cases "l \<le> j \<and> j \<le> h")
      case True
      then have il: "i < l" using False ij by auto
      obtain j' where j': "l \<le> j'" "j' \<le> h" "arr2 ! j = arr ! j'" using same_outside_value [OF same] True lh by blast
      have "arr ! i \<le> arr ! j'" using old [of i j'] other [of i j'] j' il lh by auto
      then show ?thesis using j'(3) out [of i] il by simp
    next
      case outside: False
      then show ?thesis using old [of i j] out [of i] out [of j] False ij len by auto
    qed
  qed
qed

lemma ranges_ok_turn:
  assumes ok: "ranges_ok (rs @ [(l, h)]) n" and p: "l \<le> p" "p \<le> h"
  shows "ranges_ok (rs @ split_at l p h) n" "weight (split_at l p h) < Suc h - l"
proof -
  have lh: "l < h" using ok by (auto simp: ranges_ok_def)
  show w: "weight (split_at l p h) < Suc h - l" using p lh by (auto simp: split_at_def weight_def)
  have "apart r s" if "r \<in> set rs" "s \<in> set (split_at l p h)" for r s
  proof -
    have "apart r (l, h)" using ok that(1) by (auto simp: ranges_ok_def sorted_wrt_append)
    then show ?thesis using that(2) p by (auto simp: apart_def split_at_def split: if_splits)
  qed
  moreover have "sorted_wrt apart (split_at l p h)" by (auto simp: split_at_def apart_def)
  moreover have "\<forall>(a, b)\<in>set (split_at l p h). a < b \<and> b < n"
    using ok p by (auto simp: split_at_def ranges_ok_def split: if_splits)
  moreover have "weight rs + weight (split_at l p h) \<le> n" using w ok by (auto simp: ranges_ok_def weight_def)
  ultimately show "ranges_ok (rs @ split_at l p h) n"
    using ok by (auto simp: ranges_ok_def sorted_wrt_append)
qed

lemma push_inv:
  assumes "t_top t = 2 * int (length rs) - 1" "take (2 * length rs) (t_stack t) = stack_of rs"
    and "ranges_ok (rs @ [(l, h)] @ qs) (length (t_stack t))"
  shows "\<exists>t'. push t (int l) (int h) = Inr t' \<and> t_arr t' = t_arr t \<and> length (t_stack t') = length (t_stack t) \<and>
    t_top t' = 2 * int (length (rs @ [(l, h)])) - 1 \<and> take (2 * length (rs @ [(l, h)])) (t_stack t') = stack_of (rs @ [(l, h)])"
proof -
  have "2 * length (rs @ [(l, h)] @ qs) \<le> weight (rs @ [(l, h)] @ qs)"
    using assms(3) by (intro weight_length) (auto simp: ranges_ok_def)
  then have "2 * length rs + 2 \<le> length (t_stack t)" using assms(3) by (auto simp: ranges_ok_def)
  then show ?thesis using push_correct [OF assms(1,2)] by blast
qed

lemma sort_turn_correct:
  assumes inv: "sort_inv (rs @ [(l, h)]) t"
  shows "\<exists>t' qs. sort_turn t = Inr t' \<and> sort_inv (rs @ qs) t' \<and> weight qs < weight [(l, h)] \<and> mset (t_arr t') = mset (t_arr t)"
proof -
  note I = inv [unfolded sort_inv_def]
  have ok: "ranges_ok (rs @ [(l, h)]) (length (t_arr t))" using I by simp
  then have lh: "l < h" "h < length (t_arr t)" by (auto simp: ranges_ok_def)
  have "2 * length (rs @ [(l, h)]) \<le> weight (rs @ [(l, h)])"
    using ok by (intro weight_length) (auto simp: ranges_ok_def)
  then have len: "2 * length (rs @ [(l, h)]) \<le> length (t_stack t)" using I ok by (auto simp: ranges_ok_def)
  have top: "t_top t = 2 * int (length rs) + 1" "t_top t - 1 = 2 * int (length rs)" using I by auto
  have pops: "aget (t_stack t) (t_top t) = Inr (int h)" "aget (t_stack t) (t_top t - 1) = Inr (int l)"
    using aget_stack [of rs l h "t_stack t"] I len by (simp_all add: top add.commute)
  obtain arr1 arr2 p where A: "partition_loop (t_arr t) (t_arr t ! h) (int l - 1) (int l) (int h) = Inr (arr1, int p - 1)"
    "aswap arr1 (int p) (int h) = Inr arr2" "same_outside l h (t_arr t) arr2" "l \<le> p" "p \<le> h"
    "\<forall>k. l \<le> k \<and> k \<le> p \<longrightarrow> arr2 ! k \<le> arr2 ! p" "\<forall>k. p \<le> k \<and> k \<le> h \<longrightarrow> arr2 ! p \<le> arr2 ! k"
    using turn_array [OF lh] by blast
  have ord: "ordered_but (rs @ split_at l p h) arr2" using ordered_but_turn [OF _ ok A(3-7)] I by simp
  note R = ranges_ok_turn [OF ok A(4,5)]
  have la: "length arr2 = length (t_arr t)" "mset arr2 = mset (t_arr t)" using A(3) by (auto simp: same_outside_def)
  define t1 where "t1 = t\<lparr>t_arr := arr2, t_top := t_top t - 2\<rparr>"
  have pre: "take (2 * length rs) (t_stack t) = stack_of rs"
  proof -
    have "take (2 * length rs) (take (2 * length (rs @ [(l, h)])) (t_stack t)) = take (2 * length rs) (stack_of (rs @ [(l, h)]))"
      using I by metis
    then show ?thesis by (simp add: take_take min_def del: take_append) simp
  qed
  have t1: "t_top t1 = 2 * int (length rs) - 1" "take (2 * length rs) (t_stack t1) = stack_of rs" "t_arr t1 = arr2"
    "length (t_stack t1) = length (t_arr t)"
    using I top pre by (simp_all add: t1_def)
  have step: "sort_turn t = rbind (if Suc l < p then push t1 (int l) (int (p - 1)) else Inr t1) (\<lambda>t2.
      if Suc p < h then push t2 (int (Suc p)) (int h) else Inr t2)"
    using pops A(1,2) lh A(4,5) by (auto simp: sort_turn_def t1_def Let_def of_nat_diff add.commute cong: if_cong)
  define qs1 where "qs1 = (if Suc l < p then [(l, p - 1)] else [])"
  have "\<exists>t2. (if Suc l < p then push t1 (int l) (int (p - 1)) else Inr t1) = Inr t2 \<and> t_arr t2 = arr2 \<and>
      length (t_stack t2) = length (t_arr t) \<and> t_top t2 = 2 * int (length (rs @ qs1)) - 1 \<and>
      take (2 * length (rs @ qs1)) (t_stack t2) = stack_of (rs @ qs1)"
    using push_inv [OF t1(1,2), of l "p - 1" "if Suc p < h then [(Suc p, h)] else []"] R(1) t1
    by (auto simp: qs1_def split_at_def)
  then obtain t2 where t2: "(if Suc l < p then push t1 (int l) (int (p - 1)) else Inr t1) = Inr t2" "t_arr t2 = arr2"
      "length (t_stack t2) = length (t_arr t)" "t_top t2 = 2 * int (length (rs @ qs1)) - 1"
      "take (2 * length (rs @ qs1)) (t_stack t2) = stack_of (rs @ qs1)" by blast
  have "\<exists>t3. (if Suc p < h then push t2 (int (Suc p)) (int h) else Inr t2) = Inr t3 \<and> t_arr t3 = arr2 \<and>
      length (t_stack t3) = length (t_arr t) \<and> t_top t3 = 2 * int (length (rs @ split_at l p h)) - 1 \<and>
      take (2 * length (rs @ split_at l p h)) (t_stack t3) = stack_of (rs @ split_at l p h)"
    using push_inv [OF t2(4,5), of "Suc p" h "[]"] R(1) t2
    by (auto simp: qs1_def split_at_def)
  then obtain t3 where t3: "(if Suc p < h then push t2 (int (Suc p)) (int h) else Inr t2) = Inr t3" "t_arr t3 = arr2"
      "length (t_stack t3) = length (t_arr t)" "t_top t3 = 2 * int (length (rs @ split_at l p h)) - 1"
      "take (2 * length (rs @ split_at l p h)) (t_stack t3) = stack_of (rs @ split_at l p h)" by blast
  have "sort_turn t = Inr t3" unfolding step t2(1) using t3(1) by simp
  moreover have "sort_inv (rs @ split_at l p h) t3"
    using t3 ord R(1) la by (simp add: sort_inv_def)
  ultimately show ?thesis using R(2) la(2) t3(2) by (auto simp: weight_def)
qed

section \<open>The coroutine performs the sort\<close>

lemma sort_go:
  assumes "\<not> t_finished t" "sort_step t = Inr u" "reaches sort_coroutine i u w"
  shows "reaches sort_coroutine i t w"
  using assms by (intro reaches_step [of sort_coroutine i t u "[]"]) (auto simp: sort_coroutine_def)

lemmas sort_steps = sort_step.simps at_line_def store_top_def

lemma inner_sim:
  assumes "partition_loop (t_arr t) (t_x t) (t_i t) (t_j t) (t_h t) = Inr (arr', i')" "aget arr' (i' + 1) = Inr v"
    and "\<not> t_finished t" "t_env t = L85 \<or> t_env t = L102"
  shows "\<exists>j'. reaches sort_coroutine n t (t\<lparr>t_arr := arr', t_i := i', t_j := j', t_t := v, t_env := L105\<rparr>)"
  using assms
proof (induction "t_arr t" "t_x t" "t_i t" "t_j t" "t_h t" arbitrary: t rule: partition_loop.induct)
  case 1
  note IH = "1.hyps" and prems = "1.prems"
  show ?case
  proof (cases "t_j t \<le> t_h t - 1")
    case False
    then have "arr' = t_arr t" "i' = t_i t" using prems(1) by (auto simp: partition_loop.simps)
    then show ?thesis using False prems
      by (intro exI [of _ "t_j t"], intro sort_go [OF _ _ reaches_refl]) (auto simp: sort_steps inner_while_def)
  next
    case True
    then obtain a where a: "aget (t_arr t) (t_j t) = Inr a" using prems(1)
      by (subst (asm) partition_loop.simps) (auto simp: rbind_Inr_iff)
    define t1 where "t1 = t\<lparr>t_env := L88\<rparr>"
    have go1: "reaches sort_coroutine n t1 w \<Longrightarrow> reaches sort_coroutine n t w" for w
      using prems(3,4) True by (intro sort_go [of t t1]) (auto simp: sort_steps inner_while_def t1_def)
    show ?thesis
    proof (cases "a \<le> t_x t")
      case less: True
      then obtain arr1 where arr1: "aswap (t_arr t) (t_i t + 1) (t_j t) = Inr arr1"
        and rest: "partition_loop arr1 (t_x t) (t_i t + 1) (t_j t + 1) (t_h t) = Inr (arr', i')"
        using prems(1) True a by (subst (asm) partition_loop.simps) (auto simp: rbind_Inr_iff)
      from arr1 obtain b ys where sw: "aget (t_arr t) (t_i t + 1) = Inr b" "aset (t_arr t) (t_i t + 1) a = Inr ys"
        "aset ys (t_j t) b = Inr arr1" using a by (auto simp: aswap_def rbind_Inr_iff)
      define t2 where "t2 = t\<lparr>t_arr := arr1, t_i := t_i t + 1, t_j := t_j t + 1, t_t := b, t_env := L102\<rparr>"
      have go2: "reaches sort_coroutine n t2 w \<Longrightarrow> reaches sort_coroutine n t1 w" for w
        using prems(3) a sw less unfolding t1_def t2_def
        by (intro sort_go [of "t\<lparr>t_env := L88\<rparr>" "t\<lparr>t_env := L91\<rparr>"]
            sort_go [of "t\<lparr>t_env := L91\<rparr>" "t\<lparr>t_i := t_i t + 1, t_env := L93\<rparr>"]
            sort_go [of "t\<lparr>t_i := t_i t + 1, t_env := L93\<rparr>" "t\<lparr>t_i := t_i t + 1, t_t := b, t_env := L95\<rparr>"]
            sort_go [of "t\<lparr>t_i := t_i t + 1, t_t := b, t_env := L95\<rparr>" "t\<lparr>t_arr := ys, t_i := t_i t + 1, t_t := b, t_env := L97\<rparr>"]
            sort_go [of "t\<lparr>t_arr := ys, t_i := t_i t + 1, t_t := b, t_env := L97\<rparr>" "t\<lparr>t_arr := arr1, t_i := t_i t + 1, t_t := b, t_env := L99\<rparr>"]
            sort_go [of "t\<lparr>t_arr := arr1, t_i := t_i t + 1, t_t := b, t_env := L99\<rparr>"]) (auto simp: sort_steps)
      have "\<exists>j'. reaches sort_coroutine n t2 (t2\<lparr>t_arr := arr', t_i := i', t_j := j', t_t := v, t_env := L105\<rparr>)"
        using arr1 rest prems(2,3) by (intro IH(1) [OF True a less]) (simp_all add: t2_def)
      then show ?thesis using go1 go2 by (auto simp: t2_def)
    next
      case False
      define t2 where "t2 = t\<lparr>t_j := t_j t + 1, t_env := L102\<rparr>"
      have go2: "reaches sort_coroutine n t2 w \<Longrightarrow> reaches sort_coroutine n t1 w" for w
        using prems(3) a False by (intro sort_go [of t1 t2]) (auto simp: sort_steps t1_def t2_def)
      have "partition_loop (t_arr t) (t_x t) (t_i t) (t_j t + 1) (t_h t) = Inr (arr', i')"
        using prems(1) True a False by (subst (asm) partition_loop.simps) auto
      then have "\<exists>j'. reaches sort_coroutine n t2 (t2\<lparr>t_arr := arr', t_i := i', t_j := j', t_t := v, t_env := L105\<rparr>)"
        using prems(2,3) by (intro IH(2) [OF True a False]) (simp_all add: t2_def)
      then show ?thesis using go1 go2 by (auto simp: t2_def)
    qed
  qed
qed

text \<open>The way from the pop of the bounds to the inner loop, and from its end to the branches.\<close>

lemma pop_sim:
  assumes "aget (t_stack t) (t_top t) = Inr h" "aget (t_stack t) (t_top t - 1) = Inr l" "aget (t_arr t) h = Inr x"
    and "\<not> t_finished t" "t_env t = L71"
  shows "reaches sort_coroutine n t (t\<lparr>t_top := t_top t - 2, t_l := l, t_h := h, t_x := x, t_i := l - 1, t_j := l, t_env := L85\<rparr>)"
  using assms
  by (intro sort_go [of t "t\<lparr>t_top := t_top t - 1, t_h := h, t_env := L74\<rparr>"]
      sort_go [of "t\<lparr>t_top := t_top t - 1, t_h := h, t_env := L74\<rparr>" "t\<lparr>t_top := t_top t - 2, t_l := l, t_h := h, t_env := L76\<rparr>"]
      sort_go [of "t\<lparr>t_top := t_top t - 2, t_l := l, t_h := h, t_env := L76\<rparr>"
        "t\<lparr>t_top := t_top t - 2, t_l := l, t_h := h, t_x := x, t_env := L80\<rparr>"]
      sort_go [of "t\<lparr>t_top := t_top t - 2, t_l := l, t_h := h, t_x := x, t_env := L80\<rparr>"
        "t\<lparr>t_top := t_top t - 2, t_l := l, t_h := h, t_x := x, t_i := l - 1, t_env := L82\<rparr>"]
      sort_go [of "t\<lparr>t_top := t_top t - 2, t_l := l, t_h := h, t_x := x, t_i := l - 1, t_env := L82\<rparr>" _ _ ])
    (auto simp: sort_steps)

lemma swap_sim:
  assumes "aswap (t_arr t) (t_i t + 1) (t_h t) = Inr arr2" "aget (t_arr t) (t_i t + 1) = Inr (t_t t)"
    and "\<not> t_finished t" "t_env t = L105"
  shows "reaches sort_coroutine n t (t\<lparr>t_arr := arr2, t_p := t_i t + 1, t_env := L111\<rparr>)"
proof -
  obtain b ys where "aget (t_arr t) (t_h t) = Inr b" "aset (t_arr t) (t_i t + 1) b = Inr ys"
      "aset ys (t_h t) (t_t t) = Inr arr2"
    using assms(1,2) by (auto simp: aswap_def rbind_Inr_iff)
  then show ?thesis using assms(3,4)
    by (intro sort_go [of t "t\<lparr>t_arr := ys, t_env := L107\<rparr>"]
        sort_go [of "t\<lparr>t_arr := ys, t_env := L107\<rparr>" "t\<lparr>t_arr := arr2, t_env := L109\<rparr>"]
        sort_go [of "t\<lparr>t_arr := arr2, t_env := L109\<rparr>"]) (auto simp: sort_steps)
qed

text \<open>The two pushes, each four lines long; \<open>u\<close> is the pushed task, at the end of the branch.\<close>

lemma push_left_sim:
  assumes "push t (t_l t) (t_p t - 1) = Inr u" "\<not> t_finished t" "t_env t = L117"
  shows "reaches sort_coroutine n t (u\<lparr>t_env := L125\<rparr>)"
proof -
  obtain st where "aset (t_stack t) (t_top t + 1) (t_l t) = Inr st" "aset st (t_top t + 2) (t_p t - 1) = Inr (t_stack u)"
      "u = t\<lparr>t_stack := t_stack u, t_top := t_top t + 2\<rparr>"
    using assms(1) by (auto simp: push_def rbind_Inr_iff)
  then show ?thesis using assms(2,3)
    by (intro sort_go [of t "t\<lparr>t_top := t_top t + 1, t_env := L119\<rparr>"]
        sort_go [of "t\<lparr>t_top := t_top t + 1, t_env := L119\<rparr>" "t\<lparr>t_stack := st, t_top := t_top t + 1, t_env := L121\<rparr>"]
        sort_go [of "t\<lparr>t_stack := st, t_top := t_top t + 1, t_env := L121\<rparr>" "t\<lparr>t_stack := st, t_top := t_top t + 2, t_env := L123\<rparr>"]
        sort_go [of "t\<lparr>t_stack := st, t_top := t_top t + 2, t_env := L123\<rparr>" "u\<lparr>t_env := L125\<rparr>"])
      (simp_all add: sort_steps, metis task.surjective task.update_convs)
qed

lemma push_right_sim:
  assumes "push t (t_p t + 1) (t_h t) = Inr u" "\<not> t_finished t" "t_env t = L132"
  shows "reaches sort_coroutine n t (u\<lparr>t_env := L140\<rparr>)"
proof -
  obtain st where "aset (t_stack t) (t_top t + 1) (t_p t + 1) = Inr st" "aset st (t_top t + 2) (t_h t) = Inr (t_stack u)"
      "u = t\<lparr>t_stack := t_stack u, t_top := t_top t + 2\<rparr>"
    using assms(1) by (auto simp: push_def rbind_Inr_iff)
  then show ?thesis using assms(2,3)
    by (intro sort_go [of t "t\<lparr>t_top := t_top t + 1, t_env := L134\<rparr>"]
        sort_go [of "t\<lparr>t_top := t_top t + 1, t_env := L134\<rparr>" "t\<lparr>t_stack := st, t_top := t_top t + 1, t_env := L136\<rparr>"]
        sort_go [of "t\<lparr>t_stack := st, t_top := t_top t + 1, t_env := L136\<rparr>" "t\<lparr>t_stack := st, t_top := t_top t + 2, t_env := L138\<rparr>"]
        sort_go [of "t\<lparr>t_stack := st, t_top := t_top t + 2, t_env := L138\<rparr>" "u\<lparr>t_env := L140\<rparr>"])
      (simp_all add: sort_steps, metis task.surjective task.update_convs)
qed

text \<open>
  What the proofs keep of a task: its array, its stack and the top of it. A task \<open>arrives\<close> when it reaches the
  condition of the outer loop with these values.
\<close>

definition core :: "task \<Rightarrow> int list \<times> int list \<times> int" where
  "core t = (t_arr t, t_stack t, t_top t)"

definition arrives :: "nat \<Rightarrow> task \<Rightarrow> int list \<times> int list \<times> int \<Rightarrow> bool" where
  "arrives n t v \<longleftrightarrow> (\<exists>u w. core u = v \<and> \<not> t_finished u \<and> outer_while u = Inr w \<and> reaches sort_coroutine n t w)"

lemma arrives_reaches: "reaches sort_coroutine n t u \<Longrightarrow> arrives n u v \<Longrightarrow> arrives n t v"
  unfolding arrives_def by (elim exE conjE, intro exI conjI, assumption, assumption, assumption) (rule reaches_trans)

lemma push_core:
  "push t a b = Inr u \<Longrightarrow> core t' = core t \<Longrightarrow> \<exists>u'. push t' a b = Inr u' \<and> core u' = core u"
  by (auto simp: push_def core_def rbind_Inr_iff)

lemma pushes_core:
  assumes "rbind (if P then push t a b else Inr t) (\<lambda>t2. if Q then push t2 d e else Inr t2) = Inr u" "core t' = core t"
  shows "\<exists>u'. rbind (if P then push t' a b else Inr t') (\<lambda>t2. if Q then push t2 d e else Inr t2) = Inr u' \<and> core u' = core u"
proof -
  obtain t2 where t2: "(if P then push t a b else Inr t) = Inr t2" "(if Q then push t2 d e else Inr t2) = Inr u"
    using assms(1) by (auto simp: rbind_Inr_iff simp del: if_split_asm)
  obtain t2' where t2': "(if P then push t' a b else Inr t') = Inr t2'" "core t2' = core t2"
    using t2(1) push_core [of t a b t2 t'] assms(2) by (cases P) auto
  show ?thesis using t2(2) t2' push_core [of t2 d e u t2'] by (cases Q) auto
qed

lemma arrives_step:
  assumes "\<not> t_finished t" "sort_step t = outer_while u" "\<not> t_finished u" "core u = v"
  shows "arrives n t v"
proof -
  obtain w where "outer_while u = Inr w" by (cases "t_top u \<ge> 0") (auto simp: outer_while_def at_line_def)
  then show ?thesis unfolding arrives_def using assms sort_go [OF assms(1), of w n w] by auto
qed

lemma right_sim:
  assumes "(if t_p t + 1 < t_h t then push t (t_p t + 1) (t_h t) else Inr t) = Inr u" "\<not> t_finished t"
    and "\<not> t_finished s" "sort_step s = push_right t"
  shows "arrives n s (core u)"
proof (cases "t_p t + 1 < t_h t")
  case False
  then show ?thesis using assms by (intro arrives_step [where u = t]) (auto simp: push_right_def)
next
  case True
  have fin: "\<not> t_finished u" using assms(1,2) True by (auto simp: push_def rbind_Inr_iff)
  have "push (t\<lparr>t_env := L132\<rparr>) (t_p t + 1) (t_h t) = Inr (u\<lparr>t_env := L132\<rparr>)"
    using assms(1) True by (auto simp: push_def rbind_Inr_iff)
  then have "reaches sort_coroutine n (t\<lparr>t_env := L132\<rparr>) (u\<lparr>t_env := L140\<rparr>)"
    using push_right_sim [of "t\<lparr>t_env := L132\<rparr>" "u\<lparr>t_env := L132\<rparr>" n] assms(2) by simp
  moreover have "sort_step s = Inr (t\<lparr>t_env := L132\<rparr>)" using assms(4) True by (simp add: push_right_def at_line_def)
  ultimately have "reaches sort_coroutine n s (u\<lparr>t_env := L140\<rparr>)" using sort_go [OF assms(3)] by blast
  moreover have "arrives n (u\<lparr>t_env := L140\<rparr>) (core u)"
    using fin by (intro arrives_step [where u = "u\<lparr>t_env := L140\<rparr>"]) (auto simp: sort_step.simps core_def)
  ultimately show ?thesis by (rule arrives_reaches)
qed

lemma branches_sim:
  assumes "rbind (if t_p t - 1 > t_l t then push t (t_l t) (t_p t - 1) else Inr t) (\<lambda>t2.
      if t_p t + 1 < t_h t then push t2 (t_p t + 1) (t_h t) else Inr t2) = Inr u"
    and "\<not> t_finished t" "t_env t = L111"
  shows "arrives n t (core u)"
proof (cases "t_p t - 1 > t_l t")
  case False
  then show ?thesis using assms by (intro right_sim [where t = t]) (auto simp: sort_step.simps)
next
  case True
  then obtain t2 where t2: "push t (t_l t) (t_p t - 1) = Inr t2"
      "(if t_p t + 1 < t_h t then push t2 (t_p t + 1) (t_h t) else Inr t2) = Inr u"
    using assms(1) by (auto simp: rbind_Inr_iff)
  have p: "push (t\<lparr>t_env := L117\<rparr>) (t_l t) (t_p t - 1) = Inr (t2\<lparr>t_env := L117\<rparr>)"
    and same: "t_p t2 = t_p t" "t_h t2 = t_h t" "t_finished t2 = t_finished t"
    using t2(1) by (auto simp: push_def rbind_Inr_iff)
  have "reaches sort_coroutine n t (t2\<lparr>t_env := L125\<rparr>)"
    using push_left_sim [of "t\<lparr>t_env := L117\<rparr>" "t2\<lparr>t_env := L117\<rparr>" n] p assms(2,3) True
    by (intro sort_go [of t "t\<lparr>t_env := L117\<rparr>"]) (auto simp: sort_steps)
  moreover have "arrives n (t2\<lparr>t_env := L125\<rparr>) (core (u\<lparr>t_env := L125\<rparr>))"
    using t2(2) same assms(2)
    by (intro right_sim [where t = "t2\<lparr>t_env := L125\<rparr>"]) (auto simp: sort_step.simps push_def rbind_Inr_iff split: if_splits)
  ultimately show ?thesis using arrives_reaches by (simp add: core_def)
qed

lemma turn_sim:
  assumes "sort_turn t = Inr u" "\<not> t_finished t" "t_env t = L71"
  shows "arrives n t (core u)"
proof -
  obtain h l x arr1 i arr2 where T: "aget (t_stack t) (t_top t) = Inr h" "aget (t_stack t) (t_top t - 1) = Inr l"
      "aget (t_arr t) h = Inr x" "partition_loop (t_arr t) x (l - 1) l h = Inr (arr1, i)" "aswap arr1 (i + 1) h = Inr arr2"
      "rbind (if (i + 1) - 1 > l then push (t\<lparr>t_arr := arr2, t_top := t_top t - 2\<rparr>) l ((i + 1) - 1) else Inr (t\<lparr>t_arr := arr2, t_top := t_top t - 2\<rparr>)) (\<lambda>t2.
        if (i + 1) + 1 < h then push t2 ((i + 1) + 1) h else Inr t2) = Inr u"
    using assms(1) by (auto simp: sort_turn_def rbind_Inr_iff Let_def)
  obtain v where v: "aget arr1 (i + 1) = Inr v" using T(5) by (auto simp: aswap_def rbind_Inr_iff)
  define t1 where "t1 = t\<lparr>t_top := t_top t - 2, t_l := l, t_h := h, t_x := x, t_i := l - 1, t_j := l, t_env := L85\<rparr>"
  have r1: "reaches sort_coroutine n t t1" unfolding t1_def using pop_sim [OF T(1-3) assms(2,3)] .
  obtain j where r2: "reaches sort_coroutine n t1 (t1\<lparr>t_arr := arr1, t_i := i, t_j := j, t_t := v, t_env := L105\<rparr>)"
    using inner_sim [of t1 arr1 i v n] T(4) v assms(2) by (auto simp: t1_def)
  define t2 where "t2 = t1\<lparr>t_arr := arr1, t_i := i, t_j := j, t_t := v, t_env := L105\<rparr>"
  define t3 where "t3 = t2\<lparr>t_arr := arr2, t_p := i + 1, t_env := L111\<rparr>"
  have r3: "reaches sort_coroutine n t2 t3"
    using swap_sim [of t2 arr2 n] T(5) v assms(2) by (simp add: t1_def t2_def t3_def)
  have f3: "t_p t3 = i + 1" "t_l t3 = l" "t_h t3 = h" by (simp_all add: t1_def t2_def t3_def)
  have "\<exists>u'. rbind (if t_p t3 - 1 > t_l t3 then push t3 (t_l t3) (t_p t3 - 1) else Inr t3) (\<lambda>t2.
      if t_p t3 + 1 < t_h t3 then push t2 (t_p t3 + 1) (t_h t3) else Inr t2) = Inr u' \<and> core u' = core u"
    unfolding f3 by (rule pushes_core [OF T(6)]) (simp add: t1_def t2_def t3_def core_def)
  then obtain u' where "rbind (if t_p t3 - 1 > t_l t3 then push t3 (t_l t3) (t_p t3 - 1) else Inr t3) (\<lambda>t2.
      if t_p t3 + 1 < t_h t3 then push t2 (t_p t3 + 1) (t_h t3) else Inr t2) = Inr u'" "core u' = core u" by blast
  then have "arrives n t3 (core u)" using branches_sim [of t3 u' n] assms(2) by (simp add: t1_def t2_def t3_def)
  then show ?thesis using r1 r2 r3 arrives_reaches unfolding t2_def by blast
qed

section \<open>The coroutine sorts its array\<close>

lemma outer_again:
  assumes "sort_inv rs u" "core u' = core u" "\<not> t_finished u'" "outer_while u' = Inr w"
  shows "\<exists>f. reaches sort_coroutine n w f \<and> t_finished f \<and> sorted (t_arr f) \<and> mset (t_arr f) = mset (t_arr u)"
  using assms
proof (induction "weight rs" arbitrary: rs u u' w rule: less_induct)
  case less
  have inv: "sort_inv rs u'" using less.prems(1,2) by (simp add: sort_inv_def core_def)
  have arr: "t_arr u' = t_arr u" using less.prems(2) by (simp add: core_def)
  show ?case
  proof (cases rs rule: rev_cases)
    case Nil
    then have "t_finished w" "t_arr w = t_arr u'" "sorted (t_arr u')"
      using inv less.prems(4) by (auto simp: sort_inv_def outer_while_def at_line_def ordered_but_def sorted_iff_nth_mono_less)
    then show ?thesis using arr by (intro exI [of _ w]) auto
  next
    case (snoc rs' r)
    obtain l h where r: "r = (l, h)" by (cases r)
    have w: "w = u'\<lparr>t_env := L71\<rparr>"
      using inv less.prems(4) snoc by (simp add: sort_inv_def outer_while_def at_line_def split: if_splits)
    have "sort_inv (rs' @ [(l, h)]) w" using inv snoc r by (simp add: w sort_inv_def)
    then obtain t' qs where t': "sort_turn w = Inr t'" "sort_inv (rs' @ qs) t'" "weight qs < weight [(l, h)]"
        "mset (t_arr t') = mset (t_arr w)"
      using sort_turn_correct by blast
    obtain v w' where v: "core v = core t'" "\<not> t_finished v" "outer_while v = Inr w'" "reaches sort_coroutine n w w'"
      using turn_sim [OF t'(1), of n] less.prems(3) by (auto simp: w arrives_def)
    have "weight (rs' @ qs) < weight rs" using t'(3) snoc r by simp
    then obtain f where "reaches sort_coroutine n w' f" "t_finished f" "sorted (t_arr f)" "mset (t_arr f) = mset (t_arr t')"
      using less.hyps [OF _ t'(2) v(1-3)] by blast
    then show ?thesis using reaches_trans [OF v(4)] t'(4) arr by (intro exI [of _ f]) (simp add: w)
  qed
qed

lemma init_task_inv:
  assumes "2 \<le> length nums"
  shows "\<exists>t. init_task nums = Inr t \<and> t_arr t = nums \<and> \<not> t_finished t \<and> t_env t = L66 \<and> sort_inv [(0, length nums - 1)] t"
proof -
  obtain a b ns where "nums = a # b # ns" using assms by (cases nums; cases "tl nums") auto
  then show ?thesis
    by (auto simp: init_task_def aset_def Let_def sort_inv_def ranges_ok_def weight_def ordered_but_def stack_of_def of_nat_diff)
qed

lemma sort_alone:
  assumes "2 \<le> length nums"
  shows "\<exists>t k f. init_task nums = Inr t \<and> alone sort_coroutine n k t = Inr f \<and> t_finished f \<and>
    sorted (t_arr f) \<and> mset (t_arr f) = mset nums"
proof -
  obtain t where t: "init_task nums = Inr t" "t_arr t = nums" "\<not> t_finished t" "t_env t = L66"
      "sort_inv [(0, length nums - 1)] t"
    using init_task_inv [OF assms] by blast
  let ?u = "t\<lparr>t_env := L67\<rparr>"
  obtain w where w: "outer_while ?u = Inr w" by (cases "t_top t \<ge> 0") (auto simp: outer_while_def at_line_def)
  then have r: "reaches sort_coroutine n t w"
    using t(3,4) by (intro sort_go [of t ?u] sort_go [of ?u w]) (auto simp: sort_steps)
  obtain f where "reaches sort_coroutine n w f" "t_finished f" "sorted (t_arr f)" "mset (t_arr f) = mset nums"
    using outer_again [OF t(5) _ _ w, of n] t(2,3) by (auto simp: core_def)
  then show ?thesis using reaches_trans [OF r] t(1) unfolding reaches_def by blast
qed

section \<open>Merging\<close>

lemma merge_loop_mset [simp]: "mset (merge_loop as bs) = mset as + mset bs"
  by (induction as bs rule: merge_loop.induct) auto

lemma merge_loop_set [simp]: "set (merge_loop as bs) = set as \<union> set bs"
  by (induction as bs rule: merge_loop.induct) auto

lemma merge_loop_sorted: "sorted as \<Longrightarrow> sorted bs \<Longrightarrow> sorted (merge_loop as bs)"
  by (induction as bs rule: merge_loop.induct) auto

lemma merge_tasks_step:
  "merge_tasks (a # b # rest) =
     a # merge_tasks (if rest = [] then [merge_loop a b] else last rest # butlast rest @ [merge_loop a b])"
  by (subst merge_tasks.simps, cases rest rule: rev_cases) (simp_all add: nth_append nth_Cons' list_update_append)

lemma merge_tasks_sorted:
  assumes "arrs \<noteq> []" "\<forall>a\<in>set arrs. sorted a"
  shows "sorted (last (merge_tasks arrs)) \<and> mset (last (merge_tasks arrs)) = mset (concat arrs) \<and> merge_tasks arrs \<noteq> []"
  using assms
proof (induction "length arrs" arbitrary: arrs rule: less_induct)
  case less
  show ?case
  proof (cases "length arrs \<le> 1")
    case True
    then obtain a where "arrs = [a]" using less.prems(1) by (cases arrs) auto
    then show ?thesis using less.prems(2) by (simp add: merge_tasks.simps)
  next
    case False
    then obtain a b rest where arrs: "arrs = a # b # rest" by (cases arrs; cases "tl arrs") auto
    define next_arrs where "next_arrs = (if rest = [] then [merge_loop a b] else last rest # butlast rest @ [merge_loop a b])"
    have len: "length next_arrs < length arrs" and ne: "next_arrs \<noteq> []" by (auto simp: next_arrs_def arrs)
    have s: "\<forall>a\<in>set next_arrs. sorted a"
      using less.prems(2) by (auto simp: next_arrs_def arrs merge_loop_sorted dest: in_set_butlastD)
    have m: "mset (concat next_arrs) = mset (concat arrs)"
      by (cases rest rule: rev_cases) (auto simp: next_arrs_def arrs)
    note IH = less.hyps [OF len ne s]
    have "merge_tasks arrs = a # merge_tasks next_arrs" unfolding arrs next_arrs_def by (rule merge_tasks_step)
    then show ?thesis using IH m by simp
  qed
qed

interpretation sorter: cooperative sort_coroutine
  by unfold_locales (simp add: sort_coroutine_def)

lemma init_tasks_sorted:
  assumes "\<forall>f\<in>set files. 2 \<le> length f"
  shows "\<exists>ts fs. init_tasks files = Inr ts \<and> length ts = length files \<and> length fs = length files \<and>
    (\<forall>i < length files. (\<exists>k. alone sort_coroutine i k (ts ! i) = Inr (fs ! i)) \<and> t_finished (fs ! i) \<and>
       sorted (t_arr (fs ! i)) \<and> mset (t_arr (fs ! i)) = mset (files ! i))"
proof -
  have "\<exists>ts. init_tasks files = Inr ts \<and> length ts = length files \<and> (\<forall>i < length files. init_task (files ! i) = Inr (ts ! i))"
    using assms
  proof (induction files)
    case (Cons f files)
    then obtain ts where "init_tasks files = Inr ts" "length ts = length files"
        "\<forall>i < length files. init_task (files ! i) = Inr (ts ! i)" by auto
    moreover obtain t where "init_task f = Inr t" using init_task_inv [of f] Cons.prems by auto
    ultimately show ?case by (auto simp: less_Suc_eq_0_disj)
  qed simp
  then obtain ts where ts: "init_tasks files = Inr ts" "length ts = length files"
      "\<And>i. i < length files \<Longrightarrow> init_task (files ! i) = Inr (ts ! i)" by blast
  have "\<exists>f. (\<exists>k. alone sort_coroutine i k (ts ! i) = Inr f) \<and> t_finished f \<and> sorted (t_arr f) \<and> mset (t_arr f) = mset (files ! i)"
    if "i < length files" for i
    using sort_alone [of "files ! i" i] assms that ts(3) [OF that] by (metis nth_mem sum.inject(2))
  then obtain g where g: "\<And>i. i < length files \<Longrightarrow> (\<exists>k. alone sort_coroutine i k (ts ! i) = Inr (g i)) \<and> t_finished (g i) \<and>
      sorted (t_arr (g i)) \<and> mset (t_arr (g i)) = mset (files ! i)" by metis
  show ?thesis using ts(1,2) g by (intro exI [of _ ts] exI [of _ "map g [0..<length files]"]) auto
qed

text \<open>
  C6. \<^verbatim>\<open>hw_sort\<close> sorts: given one or more files with at least two numbers each, there is a number of scheduler turns
  after which all coroutines have returned, and what is written to \<^verbatim>\<open>out.txt\<close> is sorted and holds exactly the numbers of all
  files. No coroutine ever reads or writes outside its array or its stack of bounds, although that stack has only as many
  cells as the array; the switches between the coroutines, one after every line, do not disturb any of them.
\<close>

theorem hw_sort_sorts:
  assumes "files \<noteq> []" "\<forall>f\<in>set files. 2 \<le> length f"
  shows "\<exists>fuel out. sort_main fuel files = Some (Inr out) \<and> sorted out \<and> mset out = mset (concat files)"
proof -
  obtain ts fs where F: "init_tasks files = Inr ts" "length ts = length files" "length fs = length files"
      "\<And>i. i < length files \<Longrightarrow> (\<exists>k. alone sort_coroutine i k (ts ! i) = Inr (fs ! i)) \<and> t_finished (fs ! i) \<and>
       sorted (t_arr (fs ! i)) \<and> mset (t_arr (fs ! i)) = mset (files ! i)"
    using init_tasks_sorted [OF assms(2)] by blast
  have "ts \<noteq> []" using assms(1) F(2) by auto
  moreover have "\<exists>k. alone sort_coroutine i k (ts ! i) = Inr (fs ! i) \<and> co_finished sort_coroutine (fs ! i)" if "i < length ts" for i
    using F(2,4) that by (auto simp: sort_coroutine_def)
  ultimately obtain fuel s' where run: "run_all sort_coroutine fuel \<lparr>sc_tasks = ts, sc_cur = 0, sc_out = []\<rparr> = Some (Inr s')"
      "sc_tasks s' = fs"
    using sorter.interleaving_ex [of ts fs "[]"] F(2,3) by auto
  define out where "out = last (merge_tasks (map t_arr fs))"
  have ne: "fs \<noteq> []" using assms(1) F(3) by auto
  have "\<forall>a\<in>set (map t_arr fs). sorted a" using F(3,4) by (auto simp: in_set_conv_nth)
  then have out: "sorted out" "mset out = mset (concat (map t_arr fs))"
    using merge_tasks_sorted [of "map t_arr fs"] ne by (auto simp: out_def)
  have "map mset (map t_arr fs) = map mset files" using F(3,4) by (intro nth_equalityI) auto
  then have ms: "mset out = mset (concat files)" using out(2) by (simp add: mset_concat)
  then have "length out = sum_list (map length files)" by (metis length_concat size_mset)
  then have "sort_main fuel files = Some (Inr out)" using F(1) run by (simp add: sort_main_def out_def Let_def)
  then show ?thesis using out(1) ms by blast
qed

theorem hw_sort_sorts_witness:
  "2 \<le> length [3, 1, 2::int] \<and> 2 \<le> length [5, 4::int] \<and>
   (\<exists>fuel out. sort_main fuel [[3, 1, 2], [5, 4]] = Some (Inr out) \<and> sorted out \<and> mset out = mset (concat [[3, 1, 2], [5, 4]]))"
  using hw_sort_sorts [of "[[3, 1, 2], [5, 4]]"] by simp

text \<open>A file with fewer than two numbers makes \<^verbatim>\<open>main\<close> write outside the stack it allocated for it.\<close>

lemma short_file_overruns: "length f < 2 \<Longrightarrow> f \<in> set files \<Longrightarrow> sort_main fuel files = Some (Inl OutOfBounds)"
proof -
  assume f: "length f < 2" "f \<in> set files"
  have short: "init_task g = Inl OutOfBounds" if "length g < 2" for g
    using that by (cases g) (auto simp: init_task_def aset_def Let_def)
  have "init_tasks files = Inl OutOfBounds" using f(2)
  proof (induction files)
    case (Cons g gs)
    then show ?case using short [of g] short [of f] f(1) init_task_inv [of g]
      by (cases "length g < 2") (auto simp: rbind_Inl_iff not_less)
  qed simp
  then show ?thesis by (simp add: sort_main_def)
qed

end
