(* ===== verification/Int_Bytes.thy ===== *)
theory Int_Bytes
  imports Prelude
begin

text \<open>An \<^verbatim>\<open>int\<close> as the four bytes it has in memory, least significant first, as it is read from and written to descriptors.\<close>

type_synonym octet = "8 word"

fun le_word :: "octet list \<Rightarrow> u32" where
  "le_word [] = 0"
| "le_word (b # bs) = ucast b + 256 * le_word bs"

definition le_bytes :: "u32 \<Rightarrow> octet list" where
  "le_bytes v = [ucast v, ucast (drop_bit 8 v), ucast (drop_bit 16 v), ucast (drop_bit 24 v)]"

lemma le_word_bytes: "le_word (le_bytes v) = v"
proof -
  let ?n = "unat v"
  have n: "?n < 4294967296" using unsigned_less [of v, where 'a = nat] by simp
  have d: "unat (ucast (drop_bit k v) :: octet) = ?n div 2 ^ k mod 256" for k
    by (simp add: unsigned_ucast_eq unat_drop_bit_eq take_bit_eq_mod flip: drop_bit_eq_div)
  have w: "(ucast b :: u32) = of_nat (unat b)" for b :: octet by (simp add: of_nat_unat)
  have sum: "?n mod 256 + 256 * (?n div 256 mod 256 + 256 * (?n div 65536 mod 256 + 256 * (?n div 16777216 mod 256))) = ?n"
  proof -
    define p q r where "p = ?n div 256" "q = p div 256" "r = q div 256"
    have "?n div 65536 = q" "?n div 16777216 = r" by (simp_all add: p_q_r_def flip: div_mult2_eq)
    moreover have "r < 256" using n by (simp add: p_q_r_def less_mult_imp_div_less)
    moreover have "?n = 256 * p + ?n mod 256" "p = 256 * q + p mod 256" "q = 256 * r + q mod 256" by (simp_all add: p_q_r_def)
    ultimately show ?thesis unfolding p_q_r_def(1) [symmetric] by simp
  qed
  have "le_word (le_bytes v) = of_nat (?n mod 256 + 256 * (?n div 256 mod 256 + 256 * (?n div 65536 mod 256 + 256 * (?n div 16777216 mod 256))))"
    using d [of 0] d [of 8] d [of 16] d [of 24] by (simp add: le_bytes_def w)
  then show ?thesis unfolding sum by simp
qed

lemma length_le_bytes [simp]: "length (le_bytes v) = 4"
  by (simp add: le_bytes_def)

lemma le_bytes_not_Nil [simp]: "le_bytes v \<noteq> []"
  by (simp add: le_bytes_def)

text \<open>An array of \<^verbatim>\<open>int\<close> as bytes and back.\<close>

definition array_bytes :: "u32 list \<Rightarrow> octet list" where
  "array_bytes xs = concat (map le_bytes xs)"

fun bytes_array :: "nat \<Rightarrow> octet list \<Rightarrow> u32 list" where
  "bytes_array 0 bs = []"
| "bytes_array (Suc n) bs = le_word (take 4 bs) # bytes_array n (drop 4 bs)"

lemma length_array_bytes [simp]: "length (array_bytes xs) = 4 * length xs"
  by (induction xs) (auto simp: array_bytes_def)

lemma array_bytes_Cons: "array_bytes (x # xs) = le_bytes x @ array_bytes xs"
  by (simp add: array_bytes_def)

lemma bytes_array_roundtrip: "bytes_array (length xs) (array_bytes xs) = xs"
  by (induction xs) (simp_all add: array_bytes_Cons le_word_bytes)

end
