(* ===== verification/Increment_Servers.thy ===== *)
theory Increment_Servers
  imports Int_Bytes
begin

text \<open>
  The servers that add one: a client sends an \<^verbatim>\<open>int\<close>, the server answers with its successor. The theory models
  the event loops over \<^verbatim>\<open>select\<close>, \<^verbatim>\<open>poll\<close>, \<^verbatim>\<open>kqueue\<close> and \<^verbatim>\<open>epoll\<close> of \<^verbatim>\<open>src/sysprog/lecture_examples/9_aio\<close>, the daemon of
  \<^verbatim>\<open>10_users\<close>, the servers with a thread per client of \<^verbatim>\<open>8_net\<close> and \<^verbatim>\<open>7_ipc\<close>, and the client they share.

  What the kernel decides is the argument of a turn: which descriptors are ready, what \<^verbatim>\<open>accept\<close>, \<^verbatim>\<open>read\<close> and \<^verbatim>\<open>write\<close> return
  for them. A server appends to a log what it prints and what it does to its descriptors.
\<close>

section \<open>The world of a turn\<close>

text \<open>A \<^verbatim>\<open>read\<close> of four bytes returns at most four; no bytes at all is the end of the stream. A \<^verbatim>\<open>write\<close> fails or sends a prefix.\<close>

datatype read_res = RErr | RBytes "octet list"
datatype write_res = WErr | WSize nat
datatype wait_res = WaitTimeout | WaitError | Ready "int list"

record turn_env =
  e_wait :: wait_res
  e_accept :: int
  e_read :: "int \<Rightarrow> read_res"
  e_write :: "int \<Rightarrow> write_res"
  e_eof :: "int \<Rightarrow> bool"
  e_ctl :: bool

datatype io = Log_timeout | Log_error | Log_new | Log_interact int | Log_gone | Log_text string
  | Rd int u32 | Wr int "octet list" | Closed int

definition INT_MAX :: u32 where
  "INT_MAX = 2147483647"

text \<open>\<open>interact\<close>: one exchange with a client. Incrementing the largest \<^verbatim>\<open>int\<close> is undefined.\<close>

definition interact :: "turn_env \<Rightarrow> int \<Rightarrow> fault + int \<times> io list" where
  "interact e fd =
     (case e_read e fd of
        RErr \<Rightarrow> Inr (-1, [])
      | RBytes bs \<Rightarrow>
          if bs = [] then Inr (0, [])
          else let buffer = le_word (take 4 bs) in
            if buffer = INT_MAX then Inl SignedOverflow
            else case e_write e fd of
                WErr \<Rightarrow> Inr (-1, [Rd fd buffer])
              | WSize n \<Rightarrow>
                  let sent = take n (le_bytes (buffer + 1)) in
                  Inr (int (length sent), Rd fd buffer # (if sent = [] then [] else [Wr fd sent])))"

section \<open>select\<close>

record select_srv =
  ss_server :: int
  ss_clients :: "int list"
  ss_log :: "io list"

definition FD_SETSIZE :: int where
  "FD_SETSIZE = 1024"

text \<open>\<open>FD_SET\<close> writes outside the set for a descriptor that does not fit in it.\<close>

definition fill_fdset :: "int list \<Rightarrow> int \<Rightarrow> fault + int list \<times> int" where
  "fill_fdset clients server =
     (if \<forall>fd \<in> set (server # clients). 0 \<le> fd \<and> fd < FD_SETSIZE
      then Inr (server # clients, fold max clients server) else Inl OutOfBounds)"

definition remove_client :: "'a list \<Rightarrow> nat \<Rightarrow> 'a list" where
  "remove_client xs i = take i xs @ drop (i + 1) xs"

definition add_log :: "io list \<Rightarrow> select_srv \<Rightarrow> select_srv" where
  "add_log out s = s\<lparr>ss_log := ss_log s @ out\<rparr>"

function select_loop :: "turn_env \<Rightarrow> int list \<Rightarrow> nat \<Rightarrow> nat \<Rightarrow> select_srv \<Rightarrow> fault + select_srv" where
  "select_loop e readset i nfds s =
     (if i < length (ss_clients s) \<and> nfds > 0 then
        if ss_clients s ! i \<notin> set readset then select_loop e readset (i + 1) nfds s
        else
          (case interact e (ss_clients s ! i) of
             Inl f \<Rightarrow> Inl f
           | Inr (rc, out) \<Rightarrow>
               let s1 = add_log (Log_interact (ss_clients s ! i) # out) s in
               if rc = -1 then Inr (add_log [Log_error] s1)
               else if rc = 0 then
                 select_loop e readset (i + 1) (nfds - 1)
                   (add_log [Log_gone] (s1\<lparr>ss_clients := remove_client (ss_clients s) i\<rparr>))
               else select_loop e readset (i + 1) (nfds - 1) s1)
      else Inr s)"
  by pat_completeness auto
termination
  by (relation "measure (\<lambda>(e, r, i, n, s). length (ss_clients s) - i)") (auto simp: add_log_def remove_client_def)

declare select_loop.simps [simp del]

text \<open>
  A turn of the loop; the flag is set by \<^verbatim>\<open>break\<close>. \<^verbatim>\<open>select\<close> reports descriptors of the set only, and their number.
\<close>

definition select_turn :: "turn_env \<Rightarrow> select_srv \<Rightarrow> fault + select_srv \<times> bool" where
  "select_turn e s =
     rbind (fill_fdset (ss_clients s) (ss_server s)) (\<lambda>(watched, max_fd).
     case e_wait e of
       WaitError \<Rightarrow> Inr (add_log [Log_error] s, True)
     | WaitTimeout \<Rightarrow> Inr (add_log [Log_timeout] s, False)
     | Ready fds \<Rightarrow>
         let readset = filter (\<lambda>fd. fd \<in> set fds) watched; nfds = length readset in
         if nfds = 0 then Inr (add_log [Log_timeout] s, False)
         else if ss_server s \<in> set readset then
           if e_accept e = -1 then Inr (add_log [Log_error] s, True)
           else map_sum id (\<lambda>s'. (s', False))
             (select_loop e readset 0 (nfds - 1) (add_log [Log_new] (s\<lparr>ss_clients := ss_clients s @ [e_accept e]\<rparr>)))
         else map_sum id (\<lambda>s'. (s', False)) (select_loop e readset 0 nfds s))"

section \<open>poll\<close>

text \<open>\<open>pf_revents\<close> is \<open>None\<close> while the field has not been written by \<^verbatim>\<open>poll\<close>; the mask of interest is \<^verbatim>\<open>POLLIN\<close> throughout.\<close>

record pollfd =
  pf_fd :: int
  pf_revents :: "bool option"

record poll_srv =
  ps_server :: int
  ps_fds :: "pollfd list"
  ps_log :: "io list"

definition plog :: "io list \<Rightarrow> poll_srv \<Rightarrow> poll_srv" where
  "plog out s = s\<lparr>ps_log := ps_log s @ out\<rparr>"

function poll_loop :: "turn_env \<Rightarrow> nat \<Rightarrow> nat \<Rightarrow> poll_srv \<Rightarrow> fault + poll_srv" where
  "poll_loop e i nfds s =
     (if i < length (ps_fds s) \<and> nfds > 0 then
        (case pf_revents (ps_fds s ! i) of
           None \<Rightarrow> Inl UninitRead
         | Some False \<Rightarrow> poll_loop e (i + 1) nfds s
         | Some True \<Rightarrow>
             (case interact e (pf_fd (ps_fds s ! i)) of
                Inl f \<Rightarrow> Inl f
              | Inr (rc, out) \<Rightarrow>
                  let s1 = plog (Log_interact (pf_fd (ps_fds s ! i)) # out) s in
                  if rc = -1 then Inr (plog [Log_error] s1)
                  else if rc = 0 then
                    poll_loop e (i + 1) (nfds - 1) (plog [Log_gone] (s1\<lparr>ps_fds := remove_client (ps_fds s) i\<rparr>))
                  else poll_loop e (i + 1) (nfds - 1) s1))
      else Inr s)"
  by pat_completeness auto
termination
  by (relation "measure (\<lambda>(e, i, n, s). length (ps_fds s) - i)") (auto simp: plog_def remove_client_def)

declare poll_loop.simps [simp del]

definition poll_turn :: "turn_env \<Rightarrow> poll_srv \<Rightarrow> fault + poll_srv \<times> bool" where
  "poll_turn e s =
     (case e_wait e of
        WaitError \<Rightarrow> Inr (plog [Log_error] s, True)
      | WaitTimeout \<Rightarrow> Inr (plog [Log_timeout] s, False)
      | Ready fds \<Rightarrow>
          let polled = map (\<lambda>p. p\<lparr>pf_revents := Some (pf_fd p \<in> set fds)\<rparr>) (ps_fds s);
              nfds = length (filter (\<lambda>p. pf_fd p \<in> set fds) (ps_fds s));
              s1 = s\<lparr>ps_fds := polled\<rparr> in
          if nfds = 0 then Inr (plog [Log_timeout] s1, False)
          else case polled of
            [] \<Rightarrow> Inl OutOfBounds
          | p # _ \<Rightarrow>
              if pf_revents p = Some True then
                if e_accept e = -1 then Inr (plog [Log_error] s1, True)
                else map_sum id (\<lambda>s'. (s', False))
                  (poll_loop e 0 (nfds - 1) (plog [Log_new] (s1\<lparr>ps_fds := polled @ [\<lparr>pf_fd = e_accept e, pf_revents = None\<rparr>]\<rparr>)))
              else map_sum id (\<lambda>s'. (s', False)) (poll_loop e 0 nfds s1))"

section \<open>kqueue and epoll\<close>

text \<open>Both wait for one event of a registered descriptor; closing a descriptor removes it from the queue.\<close>

record queue_srv =
  qs_server :: int
  qs_watched :: "int list"
  qs_log :: "io list"

definition qlog :: "io list \<Rightarrow> queue_srv \<Rightarrow> queue_srv" where
  "qlog out s = s\<lparr>qs_log := qs_log s @ out\<rparr>"

definition close_fd :: "int \<Rightarrow> queue_srv \<Rightarrow> queue_srv" where
  "close_fd fd s = qlog [Closed fd] (s\<lparr>qs_watched := filter (\<lambda>g. g \<noteq> fd) (qs_watched s)\<rparr>)"

text \<open>The one event that is delivered.\<close>

definition one_event :: "wait_res \<Rightarrow> int list \<Rightarrow> wait_res" where
  "one_event w watched =
     (case w of Ready fds \<Rightarrow> (case filter (\<lambda>fd. fd \<in> set watched) fds of [] \<Rightarrow> WaitTimeout | fd # _ \<Rightarrow> Ready [fd]) | _ \<Rightarrow> w)"

definition queue_accept :: "turn_env \<Rightarrow> queue_srv \<Rightarrow> fault + queue_srv \<times> bool" where
  "queue_accept e s =
     (if e_accept e = -1 then Inr (qlog [Log_error] s, True)
      else if e_ctl e then Inr (qlog [Log_new] (s\<lparr>qs_watched := qs_watched s @ [e_accept e]\<rparr>), False)
      else Inr (qlog [Log_new, Log_error] s, True))"

text \<open>The branch for a client; \<open>gone\<close> is the condition under which the server closes it.\<close>

definition queue_client :: "turn_env \<Rightarrow> int \<Rightarrow> (int \<Rightarrow> bool) \<Rightarrow> queue_srv \<Rightarrow> fault + queue_srv \<times> bool" where
  "queue_client e fd gone s =
     rbind (interact e fd) (\<lambda>(rc, out).
     let s1 = qlog (Log_interact fd # out) s in
     if rc = -1 then Inr (qlog [Log_error] s1, True)
     else if gone rc then Inr (close_fd fd (qlog [Log_gone] s1), False)
     else Inr (s1, False))"

definition kqueue_turn :: "turn_env \<Rightarrow> queue_srv \<Rightarrow> fault + queue_srv \<times> bool" where
  "kqueue_turn e s =
     (case one_event (e_wait e) (qs_watched s) of
        WaitError \<Rightarrow> Inr (qlog [Log_error] s, True)
      | Ready (fd # _) \<Rightarrow>
          if fd = qs_server s then queue_accept e s else queue_client e fd (\<lambda>rc. e_eof e fd) s
      | _ \<Rightarrow> Inr (qlog [Log_timeout] s, False))"

definition epoll_turn :: "turn_env \<Rightarrow> queue_srv \<Rightarrow> fault + queue_srv \<times> bool" where
  "epoll_turn e s =
     (case one_event (e_wait e) (qs_watched s) of
        WaitError \<Rightarrow> Inr (qlog [Log_error] s, True)
      | Ready (fd # _) \<Rightarrow>
          if fd = qs_server s then queue_accept e s else queue_client e fd (\<lambda>rc. rc = 0) s
      | _ \<Rightarrow> Inr (qlog [Log_timeout] s, False))"

section \<open>The main functions\<close>

fun run_turns :: "(turn_env \<Rightarrow> 's \<Rightarrow> fault + 's \<times> bool) \<Rightarrow> turn_env list \<Rightarrow> 's \<Rightarrow> fault + 's \<times> bool" where
  "run_turns turn [] s = Inr (s, False)"
| "run_turns turn (e # es) s = rbind (turn e s) (\<lambda>(s', stop). if stop then Inr (s', True) else run_turns turn es s')"

text \<open>How the calls before the loop went: the socket, and whether the other calls succeeded.\<close>

record setup_env =
  su_socket :: int
  su_bind :: bool
  su_listen :: bool
  su_queue :: bool
  su_add :: bool

datatype main_res = Exits int | Runs

definition listening :: "setup_env \<Rightarrow> bool" where
  "listening u \<longleftrightarrow> su_socket u \<noteq> -1 \<and> su_bind u \<and> su_listen u"

definition select_main :: "setup_env \<Rightarrow> turn_env list \<Rightarrow> fault + main_res \<times> io list" where
  "select_main u es =
     (if \<not> listening u then Inr (Exits (-1), [Log_error])
      else rbind (run_turns select_turn es \<lparr>ss_server = su_socket u, ss_clients = [], ss_log = []\<rparr>) (\<lambda>(s, stop).
        if stop then Inr (Exits 0, ss_log s @ Closed (ss_server s) # map Closed (ss_clients s)) else Inr (Runs, ss_log s)))"

definition poll_main :: "setup_env \<Rightarrow> turn_env list \<Rightarrow> fault + main_res \<times> io list" where
  "poll_main u es =
     (if \<not> listening u then Inr (Exits (-1), [Log_error])
      else rbind (run_turns poll_turn es \<lparr>ps_server = su_socket u, ps_fds = [\<lparr>pf_fd = su_socket u, pf_revents = None\<rparr>], ps_log = []\<rparr>) (\<lambda>(s, stop).
        if stop then Inr (Exits 0, ps_log s @ map (Closed \<circ> pf_fd) (ps_fds s) @ [Closed (ps_server s)]) else Inr (Runs, ps_log s)))"

definition queue_main :: "(turn_env \<Rightarrow> queue_srv \<Rightarrow> fault + queue_srv \<times> bool) \<Rightarrow> int \<Rightarrow> setup_env \<Rightarrow> turn_env list \<Rightarrow> fault + main_res \<times> io list" where
  "queue_main turn queue u es =
     (if \<not> listening u then Inr (Exits (-1), [Log_error])
      else if \<not> su_queue u \<or> \<not> su_add u then Inr (Exits (-1), [Log_error, Closed (su_socket u)])
      else rbind (run_turns turn es \<lparr>qs_server = su_socket u, qs_watched = [su_socket u], qs_log = []\<rparr>) (\<lambda>(s, stop).
        if stop then Inr (Exits 0, qs_log s @ [Closed queue, Closed (qs_server s)]) else Inr (Runs, qs_log s)))"

definition kqueue_main :: "int \<Rightarrow> setup_env \<Rightarrow> turn_env list \<Rightarrow> fault + main_res \<times> io list" where
  "kqueue_main = queue_main kqueue_turn"

definition epoll_main :: "int \<Rightarrow> setup_env \<Rightarrow> turn_env list \<Rightarrow> fault + main_res \<times> io list" where
  "epoll_main = queue_main epoll_turn"

section \<open>The daemon\<close>

text \<open>The results of the calls of \<open>daemonize\<close>; \<open>de_fork\<close> is positive in the parent.\<close>

record daemon_env =
  de_fork :: int
  de_open :: int
  de_dup2 :: int
  de_setsid :: int

datatype daemon_res = Parent_exits | Daemon_rc int

definition daemonize :: "daemon_env \<Rightarrow> daemon_res \<times> io list" where
  "daemonize d =
     (if de_fork d > 0 then (Parent_exits, [])
      else if de_open d = -1 then (Daemon_rc (-1), [Log_text ''open error''])
      else if de_dup2 d = -1 then (Daemon_rc (-1), [Closed (de_open d), Log_text ''dup error''])
      else (Daemon_rc (de_setsid d), [Closed (de_open d), Closed 0, Closed 2]))"

definition daemon_main :: "daemon_env \<Rightarrow> setup_env \<Rightarrow> turn_env list \<Rightarrow> fault + main_res \<times> io list" where
  "daemon_main d u es =
     (case daemonize d of
        (Parent_exits, log) \<Rightarrow> Inr (Exits 0, log)
      | (Daemon_rc rc, log) \<Rightarrow>
          if rc = -1 then Inr (Exits (-1), log @ [Log_error])
          else map_sum id (\<lambda>(r, log'). (r, log @ log')) (poll_main u es))"

section \<open>A thread per client\<close>

text \<open>
  \<open>worker_f\<close> on the results of its reads and writes, one pair for each turn of its loop; it closes its descriptor
  only at the end of the stream. The flag tells that it returned.
\<close>

fun worker_f :: "int \<Rightarrow> (read_res \<times> write_res) list \<Rightarrow> fault + io list \<times> bool" where
  "worker_f fd [] = Inr ([], False)"
| "worker_f fd ((r, w) # rws) =
     (case r of
        RErr \<Rightarrow> map_sum id (apfst (\<lambda>log. Log_error # log)) (worker_f fd rws)
      | RBytes bs \<Rightarrow>
          if bs = [] then Inr ([Log_gone, Closed fd], True)
          else let buffer = le_word (take 4 bs) in
            if buffer = INT_MAX then Inl SignedOverflow
            else case w of
                WErr \<Rightarrow> map_sum id (apfst (\<lambda>log. Rd fd buffer # Log_error # log)) (worker_f fd rws)
              | WSize n \<Rightarrow> map_sum id (apfst (\<lambda>log. Rd fd buffer # Wr fd (take n (le_bytes (buffer + 1))) # log)) (worker_f fd rws))"

text \<open>The accepting loop: every accepted client gets a detached thread, or is closed when there is none.\<close>

fun accept_loop :: "(int \<times> bool) list \<Rightarrow> io list \<times> int list" where
  "accept_loop [] = ([], [])"
| "accept_loop ((client, created) # as) =
     (let (log, threads) = accept_loop as in
      if client = -1 then (Log_error # log, threads)
      else if created then (log, client # threads)
      else (Log_error # Closed client # log, threads))"

definition threaded_main :: "setup_env \<Rightarrow> (int \<times> bool) list \<Rightarrow> main_res \<times> io list \<times> int list" where
  "threaded_main u as = (if \<not> listening u then (Exits (-1), [Log_error], []) else (Runs, accept_loop as))"

text \<open>The server of \<^verbatim>\<open>7_ipc\<close> has the same worker and the same loop on a local socket.\<close>

definition sock_worker_f :: "int \<Rightarrow> (read_res \<times> write_res) list \<Rightarrow> fault + io list \<times> bool" where
  "sock_worker_f = worker_f"

definition sock_server_main :: "setup_env \<Rightarrow> (int \<times> bool) list \<Rightarrow> main_res \<times> io list \<times> int list" where
  "sock_server_main = threaded_main"

section \<open>The client\<close>

text \<open>
  The client on the numbers typed in; \<open>send\<close> and \<open>recv\<close> are what its \<^verbatim>\<open>write\<close> and \<^verbatim>\<open>read\<close> return in the turn for a number.
  A failed write goes on with the next number, a closed connection ends the loop.
\<close>

fun client_loop :: "int \<Rightarrow> (u32 \<times> write_res \<times> read_res) list \<Rightarrow> io list" where
  "client_loop sock [] = [Closed sock]"
| "client_loop sock ((number, w, r) # ios) =
     (case w of
        WErr \<Rightarrow> Log_error # client_loop sock ios
      | WSize n \<Rightarrow> Wr sock (take n (le_bytes number)) #
          (case r of
             RErr \<Rightarrow> Log_error # client_loop sock ios
           | RBytes bs \<Rightarrow> if bs = [] then [Log_gone, Closed sock] else Rd sock (le_word (take 4 bs)) # client_loop sock ios))"

definition client_main :: "int \<Rightarrow> bool \<Rightarrow> (u32 \<times> write_res \<times> read_res) list \<Rightarrow> main_res \<times> io list" where
  "client_main sock connected ios =
     (if sock = -1 then (Exits (-1), [Log_error])
      else if \<not> connected then (Exits (-1), [Log_error, Closed sock])
      else (Exits 0, client_loop sock ios))"

text \<open>The client of \<^verbatim>\<open>7_ipc\<close> leaves its socket open when it cannot connect.\<close>

definition sock_client_main :: "int \<Rightarrow> bool \<Rightarrow> (u32 \<times> write_res \<times> read_res) list \<Rightarrow> main_res \<times> io list" where
  "sock_client_main sock connected ios =
     (if sock = -1 \<or> \<not> connected then (Exits (-1), [Log_error]) else (Exits 0, client_loop sock ios))"

text \<open>The client of \<^verbatim>\<open>8_net\<close> looks the address up first; the lookup may fail or find nothing.\<close>

datatype lookup_res = Lookup_error | Lookup_empty | Lookup_ok

definition net_client_main :: "int \<Rightarrow> lookup_res \<Rightarrow> bool \<Rightarrow> (u32 \<times> write_res \<times> read_res) list \<Rightarrow> main_res \<times> io list" where
  "net_client_main sock addr connected ios =
     (if sock = -1 then (Exits (-1), [Log_error])
      else case addr of
          Lookup_error \<Rightarrow> (Exits (-1), [Log_error, Closed sock])
        | Lookup_empty \<Rightarrow> (Exits (-1), [Log_text ''not found a server'', Closed sock])
        | Lookup_ok \<Rightarrow> if connected then (Exits 0, client_loop sock ios) else (Exits (-1), [Log_error, Closed sock]))"

section \<open>Every answer is the successor of a request\<close>

text \<open>The requests read from a descriptor and the answers written to it, in the order of a log.\<close>

definition requests :: "int \<Rightarrow> io list \<Rightarrow> u32 list" where
  "requests fd log = concat (map (\<lambda>ev. case ev of Rd g v \<Rightarrow> if g = fd then [v] else [] | _ \<Rightarrow> []) log)"

definition answers :: "int \<Rightarrow> io list \<Rightarrow> octet list list" where
  "answers fd log = concat (map (\<lambda>ev. case ev of Wr g bs \<Rightarrow> if g = fd then [bs] else [] | _ \<Rightarrow> []) log)"

definition answered :: "io list \<Rightarrow> bool" where
  "answered log \<longleftrightarrow> (\<forall>fd. answers fd log = map (\<lambda>v. le_bytes (v + 1)) (requests fd log))"

definition writes_ok :: "turn_env \<Rightarrow> bool" where
  "writes_ok e \<longleftrightarrow> (\<forall>fd. e_write e fd = WSize 4)"

lemma requests_simps [simp]:
  "requests fd [] = []" "requests fd (xs @ ys) = requests fd xs @ requests fd ys"
  "requests fd (Rd g v # log) = (if g = fd then v # requests fd log else requests fd log)"
  "requests fd (Wr g bs # log) = requests fd log"
  by (auto simp: requests_def)

lemma answers_simps [simp]:
  "answers fd [] = []" "answers fd (xs @ ys) = answers fd xs @ answers fd ys"
  "answers fd (Wr g bs # log) = (if g = fd then bs # answers fd log else answers fd log)"
  "answers fd (Rd g v # log) = answers fd log"
  by (auto simp: answers_def)

lemma answered_Nil [simp]: "answered []"
  by (simp add: answered_def)

lemma answered_append: "answered xs \<Longrightarrow> answered ys \<Longrightarrow> answered (xs @ ys)"
  by (simp add: answered_def)

fun silent :: "io \<Rightarrow> bool" where
  "silent (Rd fd v) = False"
| "silent (Wr fd bs) = False"
| "silent _ = True"

lemma answered_Cons [simp]: "silent ev \<Longrightarrow> answered (ev # log) = answered log"
  by (cases ev) (auto simp: answered_def requests_def answers_def)

lemma answered_Closed [simp]: "answered (map Closed fds)" "answered (map (Closed \<circ> f) xs)"
  by (induction fds) (auto, induction xs, auto)

lemma interact_answered: "interact e fd = Inr (rc, out) \<Longrightarrow> writes_ok e \<Longrightarrow> answered out"
  by (auto simp: interact_def writes_ok_def answered_def Let_def split: read_res.splits if_splits)

text \<open>
  The contract of a server: whatever a turn adds to the log answers every request it contains, as long as the
  writes of the turn succeed.
\<close>

locale answering_server =
  fixes turn :: "turn_env \<Rightarrow> 's \<Rightarrow> fault + 's \<times> bool"
    and log_of :: "'s \<Rightarrow> io list"
  assumes turn_answers: "turn e s = Inr (s', stop) \<Longrightarrow> writes_ok e \<Longrightarrow> \<exists>out. log_of s' = log_of s @ out \<and> answered out"
begin

lemma run_answers:
  "run_turns turn es s = Inr (s', stop) \<Longrightarrow> list_all writes_ok es \<Longrightarrow> answered (log_of s) \<Longrightarrow> answered (log_of s')"
proof (induction es arbitrary: s)
  case (Cons e es)
  obtain s1 b where s1: "turn e s = Inr (s1, b)" "(if b then Inr (s1, True) else run_turns turn es s1) = Inr (s', stop)"
    using Cons.prems(1) by (auto simp: rbind_Inr_iff)
  have "answered (log_of s1)" using turn_answers [OF s1(1)] Cons.prems(2,3) answered_append by auto
  then show ?case using s1(2) Cons by (auto split: if_splits)
qed simp

end

lemma select_loop_answers:
  "select_loop e rs i n s = Inr s' \<Longrightarrow> writes_ok e \<Longrightarrow> \<exists>out. ss_log s' = ss_log s @ out \<and> answered out"
proof (induction e rs i n s rule: select_loop.induct)
  case (1 e rs i n s)
  show ?case
  proof (cases "i < length (ss_clients s) \<and> n > 0 \<and> ss_clients s ! i \<in> set rs")
    case False
    then show ?thesis using 1 by (subst (asm) select_loop.simps) (auto split: if_splits)
  next
    case True
    note T = True
    obtain rc out where io: "interact e (ss_clients s ! i) = Inr (rc, out)"
      using 1(4) T by (subst (asm) select_loop.simps) (auto split: sum.splits)
    have a: "answered (Log_interact (ss_clients s ! i) # out)" using interact_answered [OF io 1(5)] by simp
    let ?s1 = "add_log (Log_interact (ss_clients s ! i) # out) s"
    consider "rc = -1" | "rc = 0" | "rc \<noteq> -1" "rc \<noteq> 0" by blast
    then show ?thesis
    proof cases
      case 1
      then have "s' = add_log [Log_error] ?s1" using "1.prems"(1) T io by (subst (asm) select_loop.simps) (auto simp: Let_def)
      then show ?thesis using answered_append [OF a, of "[Log_error]"] by (auto simp: add_log_def)
    next
      case 2
      let ?s2 = "add_log [Log_gone] (?s1\<lparr>ss_clients := remove_client (ss_clients s) i\<rparr>)"
      have "select_loop e rs (i + 1) (n - 1) ?s2 = Inr s'"
        using "1.prems"(1) T io 2 by (subst (asm) select_loop.simps) (auto simp: Let_def)
      then have "\<exists>o'. ss_log s' = ss_log ?s2 @ o' \<and> answered o'" using "1.IH"(2) T io 2 "1.prems"(2) by auto
      then show ?thesis using answered_append [OF a] by (auto simp: add_log_def)
    next
      case 3
      have "select_loop e rs (i + 1) (n - 1) ?s1 = Inr s'"
        using "1.prems"(1) T io 3 by (subst (asm) select_loop.simps) (auto simp: Let_def)
      then have "\<exists>o'. ss_log s' = ss_log ?s1 @ o' \<and> answered o'" using "1.IH"(3) T io 3 "1.prems"(2) by auto
      then show ?thesis using answered_append [OF a] by (auto simp: add_log_def)
    qed
  qed
qed

lemma poll_loop_answers:
  "poll_loop e i n s = Inr s' \<Longrightarrow> writes_ok e \<Longrightarrow> \<exists>out. ps_log s' = ps_log s @ out \<and> answered out"
proof (induction e i n s rule: poll_loop.induct)
  case (1 e i n s)
  show ?case
  proof (cases "i < length (ps_fds s) \<and> n > 0 \<and> pf_revents (ps_fds s ! i) = Some True")
    case False
    then show ?thesis using 1
      by (subst (asm) poll_loop.simps) (auto split: if_splits option.splits bool.splits)
  next
    case True
    note T = True
    obtain rc out where io: "interact e (pf_fd (ps_fds s ! i)) = Inr (rc, out)"
      using 1(4) T by (subst (asm) poll_loop.simps) (auto split: sum.splits)
    have a: "answered (Log_interact (pf_fd (ps_fds s ! i)) # out)" using interact_answered [OF io 1(5)] by simp
    let ?s1 = "plog (Log_interact (pf_fd (ps_fds s ! i)) # out) s"
    consider "rc = -1" | "rc = 0" | "rc \<noteq> -1" "rc \<noteq> 0" by blast
    then show ?thesis
    proof cases
      case 1
      then have "s' = plog [Log_error] ?s1" using "1.prems"(1) T io by (subst (asm) poll_loop.simps) (auto simp: Let_def)
      then show ?thesis using answered_append [OF a, of "[Log_error]"] by (auto simp: plog_def)
    next
      case 2
      let ?s2 = "plog [Log_gone] (?s1\<lparr>ps_fds := remove_client (ps_fds s) i\<rparr>)"
      have "poll_loop e (i + 1) (n - 1) ?s2 = Inr s'"
        using "1.prems"(1) T io 2 by (subst (asm) poll_loop.simps) (auto simp: Let_def)
      then have "\<exists>o'. ps_log s' = ps_log ?s2 @ o' \<and> answered o'" using "1.IH"(1) T io 2 "1.prems"(2) by auto
      then show ?thesis using answered_append [OF a] by (auto simp: plog_def)
    next
      case 3
      have "poll_loop e (i + 1) (n - 1) ?s1 = Inr s'"
        using "1.prems"(1) T io 3 by (subst (asm) poll_loop.simps) (auto simp: Let_def)
      then have "\<exists>o'. ps_log s' = ps_log ?s1 @ o' \<and> answered o'" using "1.IH"(2) T io 3 "1.prems"(2) by auto
      then show ?thesis using answered_append [OF a] by (auto simp: plog_def)
    qed
  qed
qed

lemma select_turn_answers:
  assumes "select_turn e s = Inr (s', stop)" "writes_ok e"
  shows "\<exists>out. ss_log s' = ss_log s @ out \<and> answered out"
proof -
  have loop: "\<exists>out. ss_log s' = ss_log s @ out \<and> answered out"
    if "select_loop e r i n t = Inr s'" "\<exists>pre. ss_log t = ss_log s @ pre \<and> answered pre" for r i n t
    using select_loop_answers [OF that(1) assms(2)] that(2) answered_append by fastforce
  show ?thesis
    using assms(1)
    by (auto simp: select_turn_def fill_fdset_def rbind_Inr_iff Let_def map_sum_Inr_iff
        split: if_splits wait_res.splits intro!: loop) (auto simp: add_log_def)
qed

lemma poll_turn_answers:
  assumes "poll_turn e s = Inr (s', stop)" "writes_ok e"
  shows "\<exists>out. ps_log s' = ps_log s @ out \<and> answered out"
proof -
  have loop: "\<exists>out. ps_log s' = ps_log s @ out \<and> answered out"
    if "poll_loop e i n t = Inr s'" "\<exists>pre. ps_log t = ps_log s @ pre \<and> answered pre" for i n t
    using poll_loop_answers [OF that(1) assms(2)] that(2) answered_append by fastforce
  show ?thesis
    using assms(1)
    by (auto simp: poll_turn_def Let_def map_sum_Inr_iff split: if_splits wait_res.splits list.splits intro!: loop)
       (auto simp: plog_def)
qed

lemma queue_client_answers:
  assumes "queue_client e fd gone s = Inr (s', stop)" "writes_ok e"
  shows "\<exists>out. qs_log s' = qs_log s @ out \<and> answered out"
proof -
  obtain rc out where io: "interact e fd = Inr (rc, out)"
    using assms(1) by (auto simp: queue_client_def rbind_Inr_iff)
  then have a: "answered (Log_interact fd # out)" using interact_answered assms(2) by simp
  have "qs_log s' \<in> (\<lambda>tl. qs_log s @ (Log_interact fd # out) @ tl) ` {[], [Log_error], [Log_gone, Closed fd]}"
    using assms(1) io by (auto simp: queue_client_def Let_def qlog_def close_fd_def split: if_splits)
  then show ?thesis using answered_append [OF a, of "[Log_error]"] answered_append [OF a, of "[Log_gone, Closed fd]"] a
    by auto
qed

lemma queue_accept_answers:
  "queue_accept e s = Inr (s', stop) \<Longrightarrow> \<exists>out. qs_log s' = qs_log s @ out \<and> answered out"
  by (auto simp: queue_accept_def qlog_def split: if_splits)

interpretation sel: answering_server select_turn ss_log
  by unfold_locales (rule select_turn_answers)

interpretation pol: answering_server poll_turn ps_log
  by unfold_locales (rule poll_turn_answers)

interpretation kq: answering_server kqueue_turn qs_log
proof
  show "\<exists>out. qs_log s' = qs_log s @ out \<and> answered out" if "kqueue_turn e s = Inr (s', stop)" "writes_ok e" for e s s' stop
    using that queue_client_answers queue_accept_answers
    by (fastforce simp: kqueue_turn_def qlog_def split: wait_res.splits list.splits if_splits)
qed

interpretation ep: answering_server epoll_turn qs_log
proof
  show "\<exists>out. qs_log s' = qs_log s @ out \<and> answered out" if "epoll_turn e s = Inr (s', stop)" "writes_ok e" for e s s' stop
    using that queue_client_answers queue_accept_answers
    by (fastforce simp: epoll_turn_def qlog_def split: wait_res.splits list.splits if_splits)
qed

lemma run_main_answers:
  assumes "rbind (run_turns turn es s0) (\<lambda>(s, stop). if stop then Inr (Exits 0, log_of s @ fin s) else Inr (Runs, log_of s)) = Inr (r, log)"
    and "answering_server turn log_of" "list_all writes_ok es" "log_of s0 = []" "\<And>s. answered (fin s)"
  shows "answered log"
proof -
  obtain s stop where s: "run_turns turn es s0 = Inr (s, stop)" "log = (if stop then log_of s @ fin s else log_of s)"
    using assms(1) by (auto simp: rbind_Inr_iff split: if_splits)
  then have "answered (log_of s)" using answering_server.run_answers [OF assms(2) s(1) assms(3)] assms(4) by simp
  then show ?thesis using s(2) assms(5) answered_append by auto
qed

lemma poll_main_answers: "poll_main u es = Inr (r, log) \<Longrightarrow> list_all writes_ok es \<Longrightarrow> answered log"
  using run_main_answers [OF _ pol.answering_server_axioms, of es "\<lparr>ps_server = su_socket u, ps_fds = [\<lparr>pf_fd = su_socket u, pf_revents = None\<rparr>], ps_log = []\<rparr>"
      "\<lambda>s. map (Closed \<circ> pf_fd) (ps_fds s) @ [Closed (ps_server s)]" r log]
  by (auto simp: poll_main_def answered_append split: if_splits)

lemma daemonize_answers: "daemonize d = (r, log) \<Longrightarrow> answered log"
  by (auto simp: daemonize_def split: if_splits)

lemma queue_main_answers:
  assumes "queue_main turn q u es = Inr (r, log)" "answering_server turn qs_log" "list_all writes_ok es"
  shows "answered log"
  using run_main_answers [OF _ assms(2,3), of "\<lparr>qs_server = su_socket u, qs_watched = [su_socket u], qs_log = []\<rparr>"
      "\<lambda>s. [Closed q, Closed (qs_server s)]" r log] assms(1)
  by (auto simp: queue_main_def split: if_splits)

text \<open>
  C40. The servers that add one answer correctly, whichever way they wait for their clients: over any run in which the
  writes succeed, with any order of events, connections and disconnections, \<^verbatim>\<open>select\<close>, \<^verbatim>\<open>poll\<close>, \<^verbatim>\<open>kqueue\<close>, \<^verbatim>\<open>epoll\<close> and the
  daemon have written to each descriptor exactly the successors of the numbers they read from it, in the same order.
\<close>

theorem increment_servers_answer:
  assumes "list_all writes_ok es"
  shows "(\<forall>r log. select_main u es = Inr (r, log) \<longrightarrow> answered log) \<and>
    (\<forall>r log. poll_main u es = Inr (r, log) \<longrightarrow> answered log) \<and>
    (\<forall>r log. daemon_main d u es = Inr (r, log) \<longrightarrow> answered log) \<and>
    (\<forall>r log. kqueue_main q u es = Inr (r, log) \<longrightarrow> answered log) \<and>
    (\<forall>r log. epoll_main q u es = Inr (r, log) \<longrightarrow> answered log)"
proof (intro conjI allI impI)
  show "answered log" if "select_main u es = Inr (r, log)" for r log
    using that run_main_answers [OF _ sel.answering_server_axioms assms, of "\<lparr>ss_server = su_socket u, ss_clients = [], ss_log = []\<rparr>"
      "\<lambda>s. Closed (ss_server s) # map Closed (ss_clients s)" r log]
    by (auto simp: select_main_def split: if_splits)
  show "answered log" if "poll_main u es = Inr (r, log)" for r log
    using that assms by (rule poll_main_answers)
  show "answered log" if "daemon_main d u es = Inr (r, log)" for r log
    using that assms daemonize_answers [of d] poll_main_answers [of u es]
    by (auto simp: daemon_main_def map_sum_Inr_iff answered_append split: daemon_res.splits prod.splits if_splits)
  show "answered log" if "kqueue_main q u es = Inr (r, log)" for r log
    using that queue_main_answers [OF _ kq.answering_server_axioms assms] by (simp add: kqueue_main_def)
  show "answered log" if "epoll_main q u es = Inr (r, log)" for r log
    using that queue_main_answers [OF _ ep.answering_server_axioms assms] by (simp add: epoll_main_def)
qed

definition demo_setup :: setup_env where
  "demo_setup = \<lparr>su_socket = 3, su_bind = True, su_listen = True, su_queue = True, su_add = True\<rparr>"

definition demo_turn :: "int list \<Rightarrow> int \<Rightarrow> octet list \<Rightarrow> turn_env" where
  "demo_turn ready client bs = \<lparr>e_wait = Ready ready, e_accept = client, e_read = (\<lambda>_. RBytes bs), e_write = (\<lambda>_. WSize 4),
     e_eof = (\<lambda>_. False), e_ctl = True\<rparr>"

theorem increment_servers_answer_witness:
  "epoll_main 4 demo_setup [demo_turn [3] 5 [], demo_turn [5] 0 [6, 0, 0, 0]] =
     Inr (Runs, [Log_new, Log_interact 5, Rd 5 6, Wr 5 [7, 0, 0, 0]]) \<and>
   answered [Log_new, Log_interact 5, Rd 5 6, Wr 5 [7, 0, 0, 0]]"
proof -
  let ?es = "[demo_turn [3] 5 [], demo_turn [5] 0 [6, 0, 0, 0]]"
  have run: "epoll_main 4 demo_setup ?es = Inr (Runs, [Log_new, Log_interact 5, Rd 5 6, Wr 5 [7, 0, 0, 0]])"
    by code_simp
  have "list_all writes_ok ?es" by (simp add: writes_ok_def demo_turn_def)
  from increment_servers_answer [OF this, where u = demo_setup and q = 4] run show ?thesis by blast
qed

section \<open>Which clients a turn serves\<close>

text \<open>A client that is to be answered: it sent something, and not the largest number.\<close>

definition sends :: "turn_env \<Rightarrow> int \<Rightarrow> u32 \<Rightarrow> bool" where
  "sends e fd v \<longleftrightarrow> (\<exists>bs. e_read e fd = RBytes bs \<and> bs \<noteq> [] \<and> v = le_word (take 4 bs) \<and> v \<noteq> INT_MAX)"

definition exchange :: "int \<Rightarrow> u32 \<Rightarrow> io list" where
  "exchange fd v = [Log_interact fd, Rd fd v, Wr fd (le_bytes (v + 1))]"

lemma interact_sends: "sends e fd v \<Longrightarrow> writes_ok e \<Longrightarrow> interact e fd = Inr (4, [Rd fd v, Wr fd (le_bytes (v + 1))])"
  by (auto simp: sends_def interact_def writes_ok_def Let_def)

lemma select_loop_serves:
  assumes "writes_ok e" "\<forall>fd \<in> set (filter (\<lambda>fd. fd \<in> set rs) (drop i (ss_clients s))). sends e fd (val fd)"
    and "n = length (filter (\<lambda>fd. fd \<in> set rs) (drop i (ss_clients s)))"
  shows "select_loop e rs i n s =
    Inr (add_log (concat (map (\<lambda>fd. exchange fd (val fd)) (filter (\<lambda>fd. fd \<in> set rs) (drop i (ss_clients s))))) s)"
  using assms
proof (induction "length (ss_clients s) - i" arbitrary: i n s)
  case 0
  then show ?case by (subst select_loop.simps) (simp add: add_log_def)
next
  case (Suc k)
  then have i: "i < length (ss_clients s)" by simp
  let ?c = "ss_clients s ! i"
  have d: "drop i (ss_clients s) = ?c # drop (Suc i) (ss_clients s)" using i by (simp add: Cons_nth_drop_Suc)
  have k: "k = length (ss_clients s) - Suc i" using Suc.hyps(2) by simp
  show ?case
  proof (cases "?c \<in> set rs")
    case False
    have "select_loop e rs i n s = select_loop e rs (Suc i) n s \<or> n = 0"
      using i False by (subst select_loop.simps) auto
    moreover have "n = 0 \<Longrightarrow> select_loop e rs i n s = Inr s" by (subst select_loop.simps) simp
    moreover have "select_loop e rs (Suc i) n s =
        Inr (add_log (concat (map (\<lambda>fd. exchange fd (val fd)) (filter (\<lambda>fd. fd \<in> set rs) (drop (Suc i) (ss_clients s))))) s)"
      using Suc.prems k False by (intro Suc.hyps(1)) (auto simp: d)
    ultimately show ?thesis using Suc.prems(3) False by (auto simp: d add_log_def)
  next
    case True
    let ?s1 = "add_log (exchange ?c (val ?c)) s"
    have io: "interact e ?c = Inr (4, [Rd ?c (val ?c), Wr ?c (le_bytes (val ?c + 1))])"
      using Suc.prems(1,2) True interact_sends by (auto simp: d)
    have "select_loop e rs i n s = select_loop e rs (Suc i) (n - 1) ?s1"
      using i True Suc.prems(3) io by (subst select_loop.simps) (simp add: d exchange_def)
    moreover have "select_loop e rs (Suc i) (n - 1) ?s1 =
        Inr (add_log (concat (map (\<lambda>fd. exchange fd (val fd)) (filter (\<lambda>fd. fd \<in> set rs) (drop (Suc i) (ss_clients ?s1))))) ?s1)"
      using Suc.prems k True by (intro Suc.hyps(1)) (auto simp: d add_log_def)
    ultimately show ?thesis using True by (simp add: d add_log_def)
  qed
qed

text \<open>
  A turn of the \<^verbatim>\<open>select\<close> server is complete: when new data is ready on any number of clients, with or without a new
  connection at the same time, it accepts the connection and then serves every ready client once, in the order of its list.
\<close>

theorem select_turn_serves:
  assumes "writes_ok e" "e_wait e = Ready fds" "ready = filter (\<lambda>fd. fd \<in> set fds) (ss_clients s)"
    and "ready \<noteq> [] \<or> ss_server s \<in> set fds"
    and "\<forall>fd \<in> set (ss_server s # ss_clients s). 0 \<le> fd \<and> fd < FD_SETSIZE"
    and "ss_server s \<notin> set (ss_clients s)" "e_accept e \<noteq> -1" "e_accept e \<notin> set (ss_server s # ss_clients s)"
    and "\<forall>fd \<in> set ready. sends e fd (val fd)"
  shows "select_turn e s =
    (let served = concat (map (\<lambda>fd. exchange fd (val fd)) ready) in
     if ss_server s \<in> set fds
     then Inr (add_log (Log_new # served) (s\<lparr>ss_clients := ss_clients s @ [e_accept e]\<rparr>), False)
     else Inr (add_log served s, False))"
proof -
  define watched where "watched = filter (\<lambda>fd. fd \<in> set fds) (ss_server s # ss_clients s)"
  have fill: "fill_fdset (ss_clients s) (ss_server s) = Inr (ss_server s # ss_clients s, fold max (ss_clients s) (ss_server s))"
    using assms(5) by (simp add: fill_fdset_def)
  have ready: "filter (\<lambda>fd. fd \<in> set watched) (ss_clients s) = ready" "filter (\<lambda>fd. fd \<in> set watched) [e_accept e] = []"
    using assms(3,8) by (auto simp: watched_def intro: filter_cong)
  have w: "watched \<noteq> []" "length watched = (if ss_server s \<in> set fds then 1 else 0) + length ready" 
    "ss_server s \<in> set watched \<longleftrightarrow> ss_server s \<in> set fds"
    using assms(3,4) by (auto simp: watched_def)
  have old: "select_loop e watched 0 (length ready) s = Inr (add_log (concat (map (\<lambda>fd. exchange fd (val fd)) ready)) s)"
    using select_loop_serves [of e watched 0 s val "length ready"] assms(1,9) ready(1) by simp
  let ?s1 = "add_log [Log_new] (s\<lparr>ss_clients := ss_clients s @ [e_accept e]\<rparr>)"
  have new: "select_loop e watched 0 (length ready) ?s1 = Inr (add_log (concat (map (\<lambda>fd. exchange fd (val fd)) ready)) ?s1)"
    using select_loop_serves [of e watched 0 ?s1 val "length ready"] assms(1,9) ready by (simp add: add_log_def)
  show ?thesis
    using w old new assms(2,7) by (simp add: select_turn_def fill Let_def watched_def [symmetric] add_log_def del: filter.simps)
qed

theorem select_turn_serves_witness:
  "select_turn (demo_turn [3, 5] 6 [1]) \<lparr>ss_server = 3, ss_clients = [4, 5], ss_log = []\<rparr> =
     Inr (\<lparr>ss_server = 3, ss_clients = [4, 5, 6], ss_log = Log_new # exchange 5 1\<rparr>, False)"
  using select_turn_serves [of "demo_turn [3, 5] 6 [1]" "[3, 5]" "[5]" "\<lparr>ss_server = 3, ss_clients = [4, 5], ss_log = []\<rparr>" "\<lambda>_. 1"]
  by (simp add: demo_turn_def writes_ok_def FD_SETSIZE_def sends_def INT_MAX_def add_log_def)

text \<open>
  The \<^verbatim>\<open>poll\<close> server is not complete: when a connection and the data of a client arrive together, it accepts the connection
  and then finds the event of the listening socket again in the first cell of the array. It tries to read from that socket, which
  fails, and leaves the loop without having served any client.
\<close>

theorem poll_accept_skips_clients:
  assumes "ps_fds s = \<lparr>pf_fd = ps_server s, pf_revents = r\<rparr> # rest" "e_wait e = Ready fds" "ps_server s \<in> set fds"
    and "p \<in> set rest" "pf_fd p \<in> set fds" "e_accept e \<noteq> -1" "e_read e (ps_server s) = RErr"
  shows "\<exists>s'. poll_turn e s = Inr (s', False) \<and> ps_log s' = ps_log s @ [Log_new, Log_interact (ps_server s), Log_error]"
proof -
  have "filter (\<lambda>p. pf_fd p \<in> set fds) rest \<noteq> []" using assms(4,5) by (auto simp: filter_empty_conv)
  then have n: "length (filter (\<lambda>p. pf_fd p \<in> set fds) rest) > 0" by simp
  then show ?thesis using assms(1-3,6,7)
    by (simp add: poll_turn_def poll_loop.simps interact_def plog_def)
qed

theorem poll_accept_skips_clients_witness:
  "\<exists>s'. poll_turn ((demo_turn [3, 5] 6 [1])\<lparr>e_read := (\<lambda>fd. if fd = 3 then RErr else RBytes [1])\<rparr>)
       \<lparr>ps_server = 3, ps_fds = [\<lparr>pf_fd = 3, pf_revents = None\<rparr>, \<lparr>pf_fd = 5, pf_revents = None\<rparr>], ps_log = []\<rparr> = Inr (s', False) \<and>
     ps_log s' = [Log_new, Log_interact 3, Log_error]"
  using poll_accept_skips_clients [of "\<lparr>ps_server = 3, ps_fds = [\<lparr>pf_fd = 3, pf_revents = None\<rparr>, \<lparr>pf_fd = 5, pf_revents = None\<rparr>], ps_log = []\<rparr>"
      None "[\<lparr>pf_fd = 5, pf_revents = None\<rparr>]" "(demo_turn [3, 5] 6 [1])\<lparr>e_read := (\<lambda>fd. if fd = 3 then RErr else RBytes [1])\<rparr>"
      "[3, 5]" "\<lparr>pf_fd = 5, pf_revents = None\<rparr>"]
  by (simp add: demo_turn_def)

section \<open>A client and its thread\<close>

text \<open>
  A client and the thread that serves it: for every list of numbers typed in, none of them the largest \<^verbatim>\<open>int\<close>, over a
  stream that keeps the four bytes of a number together, the thread ends when the client does and the client has printed
  the successor of each number.
\<close>

theorem client_worker_session:
  assumes "INT_MAX \<notin> set nums"
  shows "\<exists>log. worker_f fd (map (\<lambda>n. (RBytes (le_bytes n), WSize 4)) nums @ [(RBytes [], WErr)]) = Inr (log, True) \<and>
    requests fd log = nums \<and>
    client_loop sock (map2 (\<lambda>n bs. (n, WSize 4, RBytes bs)) nums (answers fd log)) =
      concat (map (\<lambda>n. [Wr sock (le_bytes n), Rd sock (n + 1)]) nums) @ [Closed sock]"
  using assms
proof (induction nums)
  case Nil
  then show ?case by (auto simp: requests_def answers_def)
next
  case (Cons n nums)
  then obtain log where "worker_f fd (map (\<lambda>n. (RBytes (le_bytes n), WSize 4)) nums @ [(RBytes [], WErr)]) = Inr (log, True)"
      "requests fd log = nums" "client_loop sock (map2 (\<lambda>n bs. (n, WSize 4, RBytes bs)) nums (answers fd log)) =
        concat (map (\<lambda>n. [Wr sock (le_bytes n), Rd sock (n + 1)]) nums) @ [Closed sock]" by auto
  then show ?case using Cons.prems by (auto simp: le_word_bytes)
qed

theorem client_worker_session_witness:
  "INT_MAX \<notin> set [7, 0] \<and> (\<exists>log. worker_f 5 (map (\<lambda>n. (RBytes (le_bytes n), WSize 4)) [7, 0] @ [(RBytes [], WErr)]) = Inr (log, True) \<and>
    requests 5 log = [7, 0] \<and>
    client_loop 4 (map2 (\<lambda>n bs. (n, WSize 4, RBytes bs)) [7, 0] (answers 5 log)) =
      concat (map (\<lambda>n. [Wr 4 (le_bytes n), Rd 4 (n + 1)]) [7, 0]) @ [Closed 4])"
  using client_worker_session [of "[7, 0]" 5 4] by (simp add: INT_MAX_def)

end
