(* ===== verification/Shell.thy ===== *)
theory Shell
  imports Prelude
begin

text \<open>
  The shell of \<^verbatim>\<open>src/sysprog/2\<close>: the reader of a command line (\<^verbatim>\<open>parse_line\<close> in \<^verbatim>\<open>parser.cpp\<close>), which splits what it reads
  into tokens and the tokens into the commands of a pipeline, and the part of \<^verbatim>\<open>main.cpp\<close> that starts the commands. Buffers have
  their capacities in the model and a write outside of them is a fault. The block that \<^verbatim>\<open>malloc(0)\<close> returns is the
  parameter \<open>slack\<close>: the number of pointers it happens to have room for, zero by the standard.
\<close>

section \<open>Reading tokens\<close>

record shell =
  sh_token :: string
  sh_max_len :: nat
  sh_tokens :: "string list"
  sh_tokens_cap :: nat
  sh_cmd_count :: nat
  sh_prev :: char
  sh_prompts :: nat

definition shell_init :: "nat \<Rightarrow> shell" where
  "shell_init slack = \<lparr>sh_token = [], sh_max_len = 3, sh_tokens = [], sh_tokens_cap = slack, sh_cmd_count = 1,
     sh_prev = CHR 0x00, sh_prompts = 0\<rparr>"

text \<open>\<open>alloc1\<close> doubles the buffer when it is full.\<close>

definition alloc1 :: "shell \<Rightarrow> shell" where
  "alloc1 s = (if length (sh_token s) = sh_max_len s then s\<lparr>sh_max_len := sh_max_len s * 2\<rparr> else s)"

definition put_char :: "char \<Rightarrow> shell \<Rightarrow> fault + shell" where
  "put_char c s =
     (if length (sh_token s) < sh_max_len s then Inr (alloc1 (s\<lparr>sh_token := sh_token s @ [c]\<rparr>)) else Inl OutOfBounds)"

text \<open>The token as a C string ends at its first zero.\<close>

definition c_string :: "string \<Rightarrow> string" where
  "c_string cs = takeWhile (\<lambda>c. c \<noteq> CHR 0x00) cs"

definition store_token :: "shell \<Rightarrow> fault + shell" where
  "store_token s =
     (if length (sh_token s) < sh_max_len s \<and> length (sh_tokens s) < sh_tokens_cap s
      then Inr (s\<lparr>sh_tokens := sh_tokens s @ [c_string (sh_token s)]\<rparr>) else Inl OutOfBounds)"

definition end_token :: "shell \<Rightarrow> fault + shell" where
  "end_token s = rbind (store_token s) (\<lambda>s1.
     Inr (s1\<lparr>sh_tokens_cap := length (sh_tokens s1) + 1, sh_max_len := 5, sh_token := []\<rparr>))"

definition set_prev :: "char \<Rightarrow> shell \<Rightarrow> shell" where
  "set_prev c s = s\<lparr>sh_prev := c\<rparr>"

definition put_prev :: "char \<Rightarrow> char \<Rightarrow> shell \<Rightarrow> fault + shell" where
  "put_prev c p s = rbind (put_char c s) (\<lambda>s'. Inr (set_prev p s'))"

abbreviation EOFC :: char where "EOFC \<equiv> CHR 0xFF"
abbreviation NL :: char where "NL \<equiv> CHR 0x0A"
abbreviation DQ :: char where "DQ \<equiv> CHR 0x22"
abbreviation SQ :: char where "SQ \<equiv> CHR 0x27"
abbreviation BSL :: char where "BSL \<equiv> CHR 0x5C"

datatype quoting = Unquoted | DoubleQuoted | SingleQuoted

text \<open>
  The loop over \<^verbatim>\<open>getchar()\<close>; the end of the list is \<^verbatim>\<open>EOF\<close>. The result keeps what is left of the input after the line.
\<close>

fun scan :: "quoting \<Rightarrow> string \<Rightarrow> shell \<Rightarrow> fault + shell \<times> string" where
  "scan Unquoted [] s = Inr (s, [])"
| "scan Unquoted (c # cs) s =
     (if c = NL then Inr (s, cs)
      else if c = CHR '' '' then rbind (end_token s) (\<lambda>s'. scan Unquoted cs (set_prev c s'))
      else if c = DQ then scan DoubleQuoted cs (set_prev (CHR 0x00) s)
      else if c = CHR ''>'' then scan Unquoted cs s
      else if c = SQ then scan SingleQuoted cs s
      else if c = CHR ''|'' then
        rbind (put_prev c c (s\<lparr>sh_cmd_count := sh_cmd_count s + 1\<rparr>)) (scan Unquoted cs)
      else if c = BSL then
        (case cs of
           [] \<Rightarrow> rbind (put_prev c EOFC s) (scan Unquoted [])
         | d # ds \<Rightarrow> if d = NL then scan Unquoted ds s else rbind (put_prev c d s) (scan Unquoted ds))
      else rbind (put_prev c c s) (scan Unquoted cs))"
| "scan DoubleQuoted [] s = Inr (s, [])"
| "scan DoubleQuoted (c # cs) s =
     (let s1 = (if c = NL then s\<lparr>sh_prompts := sh_prompts s + 1\<rparr> else s) in
      if c \<noteq> DQ \<or> sh_prev s = BSL then rbind (put_prev c c s1) (scan DoubleQuoted cs)
      else rbind (end_token s1) (scan Unquoted cs))"
| "scan SingleQuoted [] s = Inr (set_prev EOFC s, [])"
| "scan SingleQuoted (c # cs) s =
     (if c = NL then scan SingleQuoted cs (s\<lparr>sh_prompts := sh_prompts s + 1\<rparr>)
      else if c \<noteq> SQ \<or> sh_prev s = BSL then rbind (put_prev c c s) (scan SingleQuoted cs)
      else rbind (end_token s) (\<lambda>s'. scan Unquoted cs (set_prev c s')))"

section \<open>Grouping the tokens into commands\<close>

record cmd =
  cmd_name :: "string option"
  cmd_argv :: "string list"
  cmd_argc :: nat

text \<open>A cell of the array of commands that has not been written is \<open>None\<close>.\<close>

record cmd_line =
  cl_count :: nat
  cl_commands :: "cmd option list"

definition store_cmd :: "string list \<Rightarrow> nat \<Rightarrow> nat \<Rightarrow> cmd option list \<Rightarrow> fault + cmd option list" where
  "store_cmd argv cap n cmds =
     (if length argv < cap \<and> n < length cmds
      then Inr (cmds[n := Some \<lparr>cmd_name = (case argv of [] \<Rightarrow> None | a # _ \<Rightarrow> Some a), cmd_argv = argv, cmd_argc = length argv\<rparr>])
      else Inl OutOfBounds)"

fun group_tokens :: "nat \<Rightarrow> nat \<Rightarrow> string list \<Rightarrow> string list \<Rightarrow> nat \<Rightarrow> nat \<Rightarrow> cmd option list \<Rightarrow> fault + cmd option list" where
  "group_tokens tokens_count i [] argv cap n cmds = store_cmd argv cap n cmds"
| "group_tokens tokens_count i (t # ts) argv cap n cmds =
     (if t = ''|'' then
        rbind (store_cmd argv cap n cmds) (\<lambda>cmds'. group_tokens tokens_count (i + 1) ts [] (tokens_count + 1 - i) (n + 1) cmds')
      else if length argv < cap then group_tokens tokens_count (i + 1) ts (argv @ [t]) cap n cmds
      else Inl OutOfBounds)"

definition parse_line :: "nat \<Rightarrow> string \<Rightarrow> fault + cmd_line \<times> string" where
  "parse_line slack input =
     rbind (scan Unquoted input (shell_init slack)) (\<lambda>(s, rest).
     rbind (if sh_token s \<noteq> [] then store_token s else Inr s) (\<lambda>s1.
     let tokens_count = length (sh_tokens s1) in
     rbind (group_tokens tokens_count 0 (sh_tokens s1) [] (tokens_count + 1) 0 (replicate (sh_cmd_count s1) None)) (\<lambda>cmds.
     Inr (\<lparr>cl_count = sh_cmd_count s1, cl_commands = cmds\<rparr>, rest))))"

section \<open>The scanner stays within its buffers\<close>

text \<open>
  There is always room for the terminating zero, and for one more token; before the first token that room is the
  block of \<^verbatim>\<open>malloc(0)\<close>.
\<close>

definition shell_inv :: "shell \<Rightarrow> bool" where
  "shell_inv s \<longleftrightarrow> length (sh_token s) < sh_max_len s \<and> length (sh_tokens s) < sh_tokens_cap s"

lemma put_char_inv: "shell_inv s \<Longrightarrow> \<exists>s'. put_char c s = Inr s' \<and> shell_inv s' \<and> sh_tokens s' = sh_tokens s \<and>
    sh_cmd_count s' = sh_cmd_count s \<and> sh_token s' = sh_token s @ [c]"
  by (auto simp: put_char_def alloc1_def shell_inv_def)

lemma put_prev_inv: "shell_inv s \<Longrightarrow> \<exists>s'. put_prev c p s = Inr s' \<and> shell_inv s' \<and> sh_tokens s' = sh_tokens s \<and>
    sh_cmd_count s' = sh_cmd_count s \<and> sh_token s' = sh_token s @ [c]"
  using put_char_inv [of s c] by (auto simp: put_prev_def set_prev_def shell_inv_def)

lemma end_token_inv: "shell_inv s \<Longrightarrow> \<exists>s'. end_token s = Inr s' \<and> shell_inv s' \<and> sh_tokens s' = sh_tokens s @ [c_string (sh_token s)] \<and>
    sh_cmd_count s' = sh_cmd_count s \<and> sh_token s' = []"
  by (auto simp: end_token_def store_token_def shell_inv_def)

lemma inv_simps [simp]:
  "shell_inv (set_prev c s) = shell_inv s" "shell_inv (s\<lparr>sh_prompts := n\<rparr>) = shell_inv s"
  "shell_inv (s\<lparr>sh_cmd_count := n\<rparr>) = shell_inv s"
  by (auto simp: shell_inv_def set_prev_def)

lemma scan_safe: "shell_inv s \<Longrightarrow> \<exists>s' rest. scan q input s = Inr (s', rest) \<and> shell_inv s'"
proof (induction q input s rule: scan.induct)
  case (2 c cs s)
  note inv = "2.prems" and put = put_prev_inv [OF "2.prems"]
  consider "c = NL" | "c = CHR '' ''" | "c = DQ" | "c = CHR ''>''" | "c = SQ" | "c = CHR ''|''" | "c = BSL" |
    "c \<notin> {NL, CHR '' '', DQ, CHR ''>'', SQ, CHR ''|'', BSL}" by blast
  then show ?case
  proof cases
    case 2
    then show ?thesis using end_token_inv [OF inv] "2.IH"(1) by auto
  next
    case 6
    then show ?thesis using put_prev_inv [of "s\<lparr>sh_cmd_count := sh_cmd_count s + 1\<rparr>" c c] inv "2.IH"(5) by auto
  next
    case 7
    show ?thesis
    proof (cases cs)
      case Nil
      then show ?thesis using 7 put [of c EOFC] by auto
    next
      case (Cons d ds)
      then show ?thesis using 7 inv put [of c d] "2.IH"(7,8) by (cases "d = NL") auto
    qed
  next
    case 8
    then show ?thesis using put [of c c] "2.IH"(9) by auto
  qed (use inv "2.IH"(2-4) in auto)
next
  case (4 c cs s)
  have inv: "shell_inv (if c = NL then s\<lparr>sh_prompts := sh_prompts s + 1\<rparr> else s)" using 4(3) by simp
  show ?case
    using put_prev_inv [OF inv, of c c] end_token_inv [OF inv] 4(1,2) by (cases "c \<noteq> DQ \<or> sh_prev s = BSL") auto
next
  case (6 c cs s)
  show ?case
    using put_prev_inv [OF 6(4), of c c] end_token_inv [OF 6(4)] 6
    by (cases "c = NL"; cases "c \<noteq> SQ \<or> sh_prev s = BSL") auto
qed auto

section \<open>What the grouping yields\<close>

definition mk_cmd :: "string list \<Rightarrow> cmd" where
  "mk_cmd argv = \<lparr>cmd_name = (case argv of [] \<Rightarrow> None | a # _ \<Rightarrow> Some a), cmd_argv = argv, cmd_argc = length argv\<rparr>"

fun commands_of :: "string list \<Rightarrow> string list \<Rightarrow> string list list" where
  "commands_of argv [] = [argv]"
| "commands_of argv (t # ts) = (if t = ''|'' then argv # commands_of [] ts else commands_of (argv @ [t]) ts)"

lemma length_commands_of: "length (commands_of argv ts) = Suc (count_list ts ''|'')"
  by (induction ts arbitrary: argv) auto

lemma group_tokens_eq:
  assumes "length argv + length ts < cap" "i + length ts = tokens_count"
  shows "group_tokens tokens_count i ts argv cap n cmds =
    (if n + count_list ts ''|'' < length cmds
     then Inr (take n cmds @ map (Some \<circ> mk_cmd) (commands_of argv ts) @ drop (n + Suc (count_list ts ''|'')) cmds)
     else Inl OutOfBounds)"
  using assms
proof (induction ts arbitrary: i argv cap n cmds)
  case Nil
  then show ?case by (auto simp: store_cmd_def mk_cmd_def upd_conv_take_nth_drop)
next
  case (Cons t ts)
  show ?case
  proof (cases "t = ''|''")
    case False
    then show ?thesis using Cons by simp
  next
    case True
    show ?thesis
    proof (cases "n < length cmds")
      case False
      then show ?thesis using True by (simp add: store_cmd_def)
    next
      case n: True
      then have "store_cmd argv cap n cmds = Inr (cmds[n := Some (mk_cmd argv)])"
        using Cons.prems(1) by (simp add: store_cmd_def mk_cmd_def)
      then show ?thesis
        using Cons.IH [of "[]" "tokens_count + 1 - i" "i + 1" "n + 1" "cmds[n := Some (mk_cmd argv)]"] Cons.prems(2) True n
        by (auto simp: upd_conv_take_nth_drop add.commute)
    qed
  qed
qed

text \<open>The tokens of a line: those stored while reading, and the one that the end of the line cuts off.\<close>

definition line_tokens :: "shell \<Rightarrow> string list" where
  "line_tokens s = sh_tokens s @ (if sh_token s \<noteq> [] then [c_string (sh_token s)] else [])"

lemma parse_line_eq:
  assumes "scan Unquoted input (shell_init slack) = Inr (s, rest)" "shell_inv s"
  shows "parse_line slack input =
    (let ts = line_tokens s in
     if count_list ts ''|'' < sh_cmd_count s
     then Inr (\<lparr>cl_count = sh_cmd_count s, cl_commands = map (Some \<circ> mk_cmd) (commands_of [] ts) @
                 replicate (sh_cmd_count s - Suc (count_list ts ''|'')) None\<rparr>, rest)
     else Inl OutOfBounds)"
proof -
  have "(if sh_token s \<noteq> [] then store_token s else Inr s) = Inr (s\<lparr>sh_tokens := line_tokens s\<rparr>)"
    using assms(2) by (auto simp: store_token_def shell_inv_def line_tokens_def)
  then show ?thesis using assms(1)
    by (simp add: parse_line_def Let_def group_tokens_eq)
qed

lemma init_inv: "0 < slack \<Longrightarrow> shell_inv (shell_init slack)"
  by (simp add: shell_inv_def shell_init_def)

section \<open>Lines without quotes\<close>

text \<open>The bars the commands were counted by: as many as there are bars in all tokens, at least.\<close>

definition bars_ok :: "shell \<Rightarrow> bool" where
  "bars_ok s \<longleftrightarrow> count_list (sh_tokens s) ''|'' + count_list (sh_token s) (CHR ''|'') < sh_cmd_count s"

lemma count_c_string: "count_list [c_string cs] ''|'' \<le> count_list cs (CHR ''|'')"
proof -
  have "c_string cs = ''|'' \<Longrightarrow> CHR ''|'' \<in> set cs"
    unfolding c_string_def by (metis list.set_intros(1) set_takeWhileD)
  then show ?thesis by (auto simp: Suc_le_eq count_list_0_iff intro: gr0I)
qed

lemma put_prev_bars:
  assumes "put_prev c p s = Inr s'" "if c = CHR ''|'' then bars_ok (s\<lparr>sh_cmd_count := sh_cmd_count s - 1\<rparr>) else bars_ok s"
  shows "bars_ok s'"
  using assms by (auto simp: put_prev_def put_char_def alloc1_def set_prev_def bars_ok_def rbind_Inr_iff split: if_splits)

lemma end_token_bars: "end_token s = Inr s' \<Longrightarrow> bars_ok s \<Longrightarrow> bars_ok s'"
  using count_c_string [of "sh_token s"]
  by (auto simp: end_token_def store_token_def bars_ok_def rbind_Inr_iff split: if_splits)

lemma bars_simps [simp]: "bars_ok (set_prev c s) = bars_ok s" "bars_ok (s\<lparr>sh_prompts := n\<rparr>) = bars_ok s"
  by (auto simp: bars_ok_def set_prev_def)

lemma scan_bars:
  "scan q input s = Inr (s', rest) \<Longrightarrow> q = Unquoted \<Longrightarrow> DQ \<notin> set input \<Longrightarrow> SQ \<notin> set input \<Longrightarrow> bars_ok s \<Longrightarrow> bars_ok s'"
proof (induction q input s arbitrary: s' rest rule: scan.induct)
  case (2 c cs s)
  consider "c = NL" | "c = CHR '' ''" | "c = CHR ''>''" | "c = CHR ''|''" | "c = BSL" |
    "c \<notin> {NL, CHR '' '', DQ, CHR ''>'', SQ, CHR ''|'', BSL}" using "2.prems" by auto
  then show ?case
  proof cases
    case 2
    then show ?thesis using "2.prems" "2.IH"(1) end_token_bars by (fastforce simp: rbind_Inr_iff)
  next
    case 4
    obtain s1 where s1: "put_prev c c (s\<lparr>sh_cmd_count := sh_cmd_count s + 1\<rparr>) = Inr s1" "scan Unquoted cs s1 = Inr (s', rest)"
      using "2.prems"(1) 4 by (auto simp: rbind_Inr_iff)
    then have "bars_ok s1" using put_prev_bars [OF s1(1)] "2.prems"(5) 4 by (simp add: bars_ok_def)
    then show ?thesis using "2.IH"(5) [of s1] s1 4 "2.prems" by auto
  next
    case 5
    show ?thesis
    proof (cases cs)
      case Nil
      then show ?thesis using 5 "2.prems" put_prev_bars [of c EOFC s s'] by (auto simp: rbind_Inr_iff)
    next
      case (Cons d ds)
      show ?thesis
      proof (cases "d = NL")
        case True
        then show ?thesis using 5 Cons "2.prems" "2.IH"(7) by auto
      next
        case False
        then obtain s1 where s1: "put_prev c d s = Inr s1" "scan Unquoted ds s1 = Inr (s', rest)"
          using 5 Cons "2.prems"(1) by (auto simp: rbind_Inr_iff)
        then have "bars_ok s1" using put_prev_bars [OF s1(1)] "2.prems"(5) 5 by simp
        then show ?thesis using "2.IH"(8) [of d ds s1] s1 5 Cons False "2.prems" by auto
      qed
    qed
  next
    case 6
    obtain s1 where s1: "put_prev c c s = Inr s1" "scan Unquoted cs s1 = Inr (s', rest)"
      using "2.prems"(1) 6 by (auto simp: rbind_Inr_iff)
    then have "bars_ok s1" using put_prev_bars [OF s1(1)] "2.prems"(5) 6 by simp
    then show ?thesis using "2.IH"(9) [of s1] s1 6 "2.prems" by auto
  qed (use "2.prems" "2.IH"(3) in auto)
qed auto

text \<open>
  C39. Reading a command line never overruns a buffer, whatever is typed, as long as the line has no quotes and the block of
  \<^verbatim>\<open>malloc(0)\<close> has room for one pointer: the token buffers grow in time, and there are always as many cells for
  commands as the tokens need.
\<close>

theorem parse_line_safe:
  assumes "0 < slack" "DQ \<notin> set input" "SQ \<notin> set input"
  shows "\<exists>cl rest. parse_line slack input = Inr (cl, rest) \<and> length (cl_commands cl) = cl_count cl \<and> 0 < cl_count cl"
proof -
  obtain s rest where s: "scan Unquoted input (shell_init slack) = Inr (s, rest)" "shell_inv s"
    using scan_safe [OF init_inv [OF assms(1)]] by blast
  have b: "bars_ok s" using scan_bars [OF s(1)] assms(2,3) by (simp add: bars_ok_def shell_init_def)
  then have "count_list (line_tokens s) ''|'' < sh_cmd_count s"
    using count_c_string [of "sh_token s"] by (auto simp: bars_ok_def line_tokens_def)
  then show ?thesis by (auto simp: parse_line_eq [OF s] Let_def length_commands_of)
qed

theorem parse_line_safe_witness:
  "\<exists>cl rest. parse_line 1 ''ls -l | wc'' = Inr (cl, rest) \<and> length (cl_commands cl) = cl_count cl \<and> 0 < cl_count cl"
  using parse_line_safe [of 1 "''ls -l | wc''"] by simp

text \<open>Without that room the first token is written outside of the block, and a quoted bar writes past the commands.\<close>

lemma parse_line_malloc_zero: "parse_line 0 ''ls'' = Inl OutOfBounds"
  by code_simp

lemma quoted_bar_overruns: "parse_line 3 (''echo '' @ [DQ] @ ''|'' @ [DQ]) = Inl OutOfBounds"
  by code_simp

text \<open>Bars inside a word are counted but do not separate: the last commands stay uninitialised.\<close>

lemma inner_bar_uninitialised:
  "parse_line 1 ''a|b'' = Inr (\<lparr>cl_count = 2, cl_commands = [Some (mk_cmd [''a|b'']), None]\<rparr>, [])"
  by code_simp

section \<open>Pipelines are read back\<close>

definition plain :: "char \<Rightarrow> bool" where
  "plain c \<longleftrightarrow> c \<notin> {NL, CHR '' '', DQ, CHR ''>'', SQ, CHR ''|'', BSL, CHR 0x00}"

definition plain_word :: "string \<Rightarrow> bool" where
  "plain_word w \<longleftrightarrow> w \<noteq> [] \<and> list_all plain w"

fun join :: "string \<Rightarrow> string list \<Rightarrow> string" where
  "join sep [] = []"
| "join sep [w] = w"
| "join sep (w # ws) = w @ sep @ join sep ws"

definition show_line :: "string list list \<Rightarrow> string" where
  "show_line cmds = join '' | '' (map (join '' '') cmds)"

text \<open>The characters of a token, plain ones or bars.\<close>

lemma scan_word:
  assumes "list_all (\<lambda>c. plain c \<or> c = CHR ''|'') w" "shell_inv s"
  shows "\<exists>s'. scan Unquoted (w @ cs) s = scan Unquoted cs s' \<and> shell_inv s' \<and> sh_tokens s' = sh_tokens s \<and>
    sh_token s' = sh_token s @ w \<and> sh_cmd_count s' = sh_cmd_count s + count_list w (CHR ''|'')"
  using assms
proof (induction w arbitrary: s)
  case (Cons c w)
  let ?s = "if c = CHR ''|'' then s\<lparr>sh_cmd_count := sh_cmd_count s + 1\<rparr> else s"
  obtain s1 where s1: "put_prev c c ?s = Inr s1" "shell_inv s1" "sh_tokens s1 = sh_tokens s" "sh_token s1 = sh_token s @ [c]"
      "sh_cmd_count s1 = sh_cmd_count s + (if c = CHR ''|'' then 1 else 0)"
    using put_prev_inv [of ?s c c] Cons.prems(2) by (cases "c = CHR ''|''") auto
  have "scan Unquoted (c # w @ cs) s = scan Unquoted (w @ cs) s1"
    using s1(1) Cons.prems(1) by (auto simp: plain_def)
  then show ?case using Cons.IH [OF _ s1(2)] Cons.prems(1) s1 by auto
qed auto

definition token_ok :: "string \<Rightarrow> bool" where
  "token_ok t \<longleftrightarrow> t = ''|'' \<or> plain_word t"

lemma token_ok_props:
  assumes "token_ok t"
  shows "list_all (\<lambda>c. plain c \<or> c = CHR ''|'') t" "t \<noteq> []" "c_string t = t"
    "count_list t (CHR ''|'') = (if t = ''|'' then 1 else 0)"
proof -
  have "CHR ''|'' \<notin> set t" if "plain_word t" using that by (auto simp: plain_word_def plain_def list_all_iff)
  then show "count_list t (CHR ''|'') = (if t = ''|'' then 1 else 0)" using assms by (auto simp: token_ok_def)
  have "CHR 0x00 \<notin> set t" using assms by (auto simp: token_ok_def plain_word_def plain_def list_all_iff)
  then show "c_string t = t" unfolding c_string_def takeWhile_eq_all_conv by blast
qed (use assms in \<open>auto simp: token_ok_def plain_word_def list_all_iff\<close>)

lemma scan_tokens:
  assumes "list_all token_ok ts" "shell_inv s" "sh_token s = []"
  shows "\<exists>s'. scan Unquoted (join '' '' ts @ NL # rest) s = Inr (s', rest) \<and> shell_inv s' \<and>
    line_tokens s' = sh_tokens s @ ts \<and> sh_cmd_count s' = sh_cmd_count s + count_list ts ''|''"
  using assms
proof (induction ts arbitrary: s)
  case Nil
  then show ?case by (auto simp: line_tokens_def)
next
  case (Cons t ts)
  note t = token_ok_props [of t]
  have ok: "token_ok t" using Cons.prems(1) by simp
  show ?case
  proof (cases ts)
    case Nil
    obtain s1 where "scan Unquoted (t @ NL # rest) s = scan Unquoted (NL # rest) s1" "shell_inv s1" "sh_tokens s1 = sh_tokens s"
        "sh_token s1 = t" "sh_cmd_count s1 = sh_cmd_count s + (if t = ''|'' then 1 else 0)"
      using scan_word [OF t(1) [OF ok] Cons.prems(2), of "NL # rest"] t(4) [OF ok] Cons.prems(3) by auto
    then show ?thesis using t(2,3) [OF ok] Nil by (simp add: line_tokens_def)
  next
    case (Cons u us)
    obtain s1 where s1: "scan Unquoted (t @ '' '' @ join '' '' ts @ NL # rest) s = scan Unquoted ('' '' @ join '' '' ts @ NL # rest) s1"
        "shell_inv s1" "sh_tokens s1 = sh_tokens s" "sh_token s1 = t"
        "sh_cmd_count s1 = sh_cmd_count s + (if t = ''|'' then 1 else 0)"
      using scan_word [OF t(1) [OF ok] Cons.prems(2), of "'' '' @ join '' '' ts @ NL # rest"] t(4) [OF ok] Cons.prems(3) by auto
    obtain s2 where s2: "end_token s1 = Inr s2" "shell_inv s2" "sh_tokens s2 = sh_tokens s @ [t]" "sh_token s2 = []"
        "sh_cmd_count s2 = sh_cmd_count s1"
      using end_token_inv [OF s1(2)] s1(3,4) t(3) [OF ok] by auto
    have "scan Unquoted (join '' '' (t # ts) @ NL # rest) s = scan Unquoted (join '' '' ts @ NL # rest) (set_prev (CHR '' '') s2)"
      using s1(1) s2(1) Cons by simp
    moreover have "\<exists>s'. scan Unquoted (join '' '' ts @ NL # rest) (set_prev (CHR '' '') s2) = Inr (s', rest) \<and> shell_inv s' \<and>
        line_tokens s' = sh_tokens (set_prev (CHR '' '') s2) @ ts \<and>
        sh_cmd_count s' = sh_cmd_count (set_prev (CHR '' '') s2) + count_list ts ''|''"
      using Cons.prems(1) s2(2,4) by (intro Cons.IH) (auto simp: set_prev_def shell_inv_def)
    ultimately show ?thesis using s1(5) s2 by (auto simp: set_prev_def)
  qed
qed

text \<open>A pipeline as one list of tokens.\<close>

fun pipe_tokens :: "string list list \<Rightarrow> string list" where
  "pipe_tokens [] = []"
| "pipe_tokens [c] = c"
| "pipe_tokens (c # cs) = c @ ''|'' # pipe_tokens cs"

lemma join_append: "ts \<noteq> [] \<Longrightarrow> us \<noteq> [] \<Longrightarrow> join sep (ts @ us) = join sep ts @ sep @ join sep us"
proof (induction ts)
  case (Cons t ts)
  then show ?case by (cases ts; cases us) auto
qed simp

lemma show_line_tokens: "list_all (\<lambda>c. c \<noteq> []) cmds \<Longrightarrow> show_line cmds = join '' '' (pipe_tokens cmds)"
proof (induction cmds rule: pipe_tokens.induct)
  case (3 c d ds)
  have ne: "pipe_tokens (d # ds) \<noteq> []" using 3(2) by (cases ds) auto
  have "join '' '' (c @ ''|'' # pipe_tokens (d # ds)) = join '' '' c @ '' '' @ ''|'' @ '' '' @ join '' '' (pipe_tokens (d # ds))"
    using join_append [of c "''|'' # pipe_tokens (d # ds)"] 3(2) ne by (cases "pipe_tokens (d # ds)") auto
  then show ?case using 3 by (simp add: show_line_def)
qed (auto simp: show_line_def)

lemma commands_of_pipe:
  "list_all (list_all plain_word) cmds \<Longrightarrow> cmds \<noteq> [] \<Longrightarrow>
    commands_of [] (pipe_tokens cmds) = cmds \<and> count_list (pipe_tokens cmds) ''|'' = length cmds - 1 \<and> list_all token_ok (pipe_tokens cmds)"
proof (induction cmds rule: pipe_tokens.induct)
  case (2 c)
  have "list_all plain_word c \<Longrightarrow> commands_of argv c = [argv @ c] \<and> count_list c ''|'' = 0 \<and> list_all token_ok c" for argv
    by (induction c arbitrary: argv) (auto simp: plain_word_def plain_def token_ok_def)
  from this [of "[]"] show ?case using 2 by simp
next
  case (3 c d ds)
  have "list_all plain_word c \<Longrightarrow> commands_of argv (c @ ''|'' # ts) = (argv @ c) # commands_of [] ts \<and>
      count_list c ''|'' = 0 \<and> list_all token_ok c" for argv ts
    by (induction c arbitrary: argv) (auto simp: plain_word_def plain_def token_ok_def)
  from this [of "[]" "pipe_tokens (d # ds)"] show ?case using 3 by (simp add: token_ok_def [of "''|''"])
qed auto

lemma parse_pipeline:
  assumes "0 < slack" "cmds \<noteq> []" "list_all (\<lambda>c. c \<noteq> [] \<and> list_all plain_word c) cmds"
  shows "parse_line slack (show_line cmds @ NL # rest) =
    Inr (\<lparr>cl_count = length cmds, cl_commands = map (Some \<circ> mk_cmd) cmds\<rparr>, rest)"
proof -
  have ne: "list_all (\<lambda>c. c \<noteq> []) cmds" and pw: "list_all (list_all plain_word) cmds"
    using assms(3) by (auto simp: list_all_iff)
  note C = commands_of_pipe [OF pw assms(2)]
  obtain s where s: "scan Unquoted (join '' '' (pipe_tokens cmds) @ NL # rest) (shell_init slack) = Inr (s, rest)" "shell_inv s"
      "line_tokens s = pipe_tokens cmds" "sh_cmd_count s = 1 + count_list (pipe_tokens cmds) ''|''"
    using scan_tokens [of "pipe_tokens cmds" "shell_init slack" rest] C init_inv [OF assms(1)] by (auto simp: shell_init_def)
  have "Suc (length cmds - Suc 0) = length cmds" using assms(2) by (cases cmds) auto
  then show ?thesis
    using parse_line_eq [OF s(1,2)] s(3,4) C by (simp add: show_line_tokens [OF ne] Let_def)
qed

text \<open>
  A pipeline that is typed in is the pipeline that is run: for commands of one or more words each, written with single
  spaces and bars between them, the reader returns exactly these commands, with their names, arguments and counts, and
  leaves the input after the line for the next call.
\<close>

theorem pipeline_roundtrip:
  assumes "0 < slack" "cmds \<noteq> []" "list_all (\<lambda>c. c \<noteq> [] \<and> list_all plain_word c) cmds"
  shows "parse_line slack (show_line cmds @ NL # rest) =
    Inr (\<lparr>cl_count = length cmds, cl_commands = map (Some \<circ> mk_cmd) cmds\<rparr>, rest)"
  using assms by (rule parse_pipeline)

theorem pipeline_roundtrip_witness:
  "parse_line 1 (''ls -l | wc'' @ NL # ''exit'') =
    Inr (\<lparr>cl_count = 2, cl_commands = [Some (mk_cmd [''ls'', ''-l'']), Some (mk_cmd [''wc''])]\<rparr>, ''exit'')"
  using pipeline_roundtrip [of 1 "[[''ls'', ''-l''], [''wc'']]" "''exit''"]
  by (simp add: show_line_def plain_word_def plain_def)

end
