(* ===== verification/Shell_Main.thy ===== *)
theory Shell_Main
  imports Shell
begin

text \<open>
  The loop of \<^verbatim>\<open>src/sysprog/2/main.cpp\<close>: what the shell does with a line, and which files the commands of a pipeline get
  as their standard input and output. The descriptors of a process are a list of open files; a new
  descriptor is the lowest free one.
\<close>

section \<open>Descriptors\<close>

datatype ofile = Tty | PipeR nat | PipeW nat

type_synonym fd_table = "ofile option list"

fun alloc_fd :: "ofile \<Rightarrow> fd_table \<Rightarrow> nat \<times> fd_table" where
  "alloc_fd f [] = (0, [Some f])"
| "alloc_fd f (None # t) = (0, Some f # t)"
| "alloc_fd f (Some g # t) = (case alloc_fd f t of (i, t') \<Rightarrow> (Suc i, Some g # t'))"

text \<open>\<open>pipe\<close> for the pipe with number \<open>k\<close>; the results are the read end and the write end.\<close>

definition sys_pipe :: "nat \<Rightarrow> fd_table \<Rightarrow> nat \<times> nat \<times> fd_table" where
  "sys_pipe k t = (case alloc_fd (PipeR k) t of (r, t1) \<Rightarrow> case alloc_fd (PipeW k) t1 of (w, t2) \<Rightarrow> (r, w, t2))"

definition fd_file :: "fd_table \<Rightarrow> nat \<Rightarrow> ofile option" where
  "fd_file t fd = (if fd < length t then t ! fd else None)"

text \<open>\<open>dup2\<close> of a descriptor that is not open fails and changes nothing; the new ones here are always open.\<close>

definition sys_dup2 :: "nat \<Rightarrow> nat \<Rightarrow> fd_table \<Rightarrow> fd_table" where
  "sys_dup2 old new t = (case fd_file t old of None \<Rightarrow> t | Some f \<Rightarrow> t[new := Some f])"

definition sys_close :: "nat \<Rightarrow> fd_table \<Rightarrow> fd_table" where
  "sys_close fd t = t[fd := None]"

section \<open>Starting commands\<close>

text \<open>What a child does before \<^verbatim>\<open>exec\<close>: the pipe becomes its standard input and output.\<close>

definition child_table :: "nat \<Rightarrow> nat \<Rightarrow> fd_table \<Rightarrow> fd_table" where
  "child_table r w t = sys_close w (sys_dup2 w 1 (sys_close r (sys_dup2 r 0 t)))"

datatype started = Exec string "string list" "ofile option" "ofile option"

text \<open>A command with arguments is run by \<^verbatim>\<open>execvp\<close>; without any its name is a null pointer.\<close>

definition exec_cmd :: "cmd option \<Rightarrow> fd_table \<Rightarrow> fault + started" where
  "exec_cmd c t =
     (case c of
        None \<Rightarrow> Inl UninitRead
      | Some cmd \<Rightarrow> (case cmd_name cmd of
            None \<Rightarrow> Inl NullDeref
          | Some name \<Rightarrow> Inr (Exec name (cmd_argv cmd) (fd_file t 0) (fd_file t 1))))"

text \<open>The loop over the commands of a pipeline; \<open>in_fd\<close> is not set before the first turn.\<close>

fun launch :: "cmd option list \<Rightarrow> nat \<Rightarrow> nat option \<Rightarrow> fd_table \<Rightarrow> fault + started list \<times> fd_table" where
  "launch [] i in_fd t = Inr ([], t)"
| "launch (c # cs) i in_fd t =
     (case sys_pipe i t of
        (r, w, t1) \<Rightarrow>
          let t2 = (if i > 0 then case in_fd of None \<Rightarrow> t1 | Some fd \<Rightarrow> sys_dup2 fd r t1 else t1) in
          rbind (exec_cmd c (child_table r w t2)) (\<lambda>p.
          rbind (launch cs (i + 1) (Some w) (sys_close w t2)) (\<lambda>(ps, t3). Inr (p # ps, t3))))"

datatype shell_action = Bye | Started "started list"

definition std_table :: fd_table where
  "std_table = [Some Tty, Some Tty, Some Tty]"

definition shell_turn :: "nat \<Rightarrow> string \<Rightarrow> fault + shell_action \<times> string" where
  "shell_turn slack input =
     rbind (parse_line slack input) (\<lambda>(cmds, rest).
     case cl_commands cmds of
       [] \<Rightarrow> Inl OutOfBounds
     | c # cs \<Rightarrow> (case c of
           None \<Rightarrow> Inl UninitRead
         | Some cmd \<Rightarrow> (case cmd_name cmd of
               None \<Rightarrow> Inl NullDeref
             | Some name \<Rightarrow>
                 if name = ''exit'' @ [NL] then Inr (Bye, rest)
                 else if cl_count cmds = 1 then rbind (exec_cmd c std_table) (\<lambda>p. Inr (Started [p], rest))
                 else rbind (launch (cl_commands cmds) 0 None std_table) (\<lambda>(ps, t). Inr (Started ps, rest)))))"

section \<open>The files of a pipeline\<close>

lemma alloc_full: "alloc_fd f (map Some xs) = (length xs, map Some xs @ [Some f])"
  by (induction xs) auto

lemma alloc_hole: "alloc_fd f (map Some xs @ None # t) = (length xs, map Some xs @ Some f # t)"
  by (induction xs) auto

definition ends :: "nat \<Rightarrow> ofile list" where
  "ends k = [Tty, Tty, Tty] @ map PipeR [0..<k]"

definition parent_table :: "nat \<Rightarrow> fd_table" where
  "parent_table k = (if k = 0 then std_table else map Some (ends k) @ [None])"

lemma pipe_parent: "sys_pipe k (parent_table k) = (3 + k, 4 + k, map Some (ends k) @ [Some (PipeR k), Some (PipeW k)])"
proof -
  have "alloc_fd (PipeR k) (parent_table k) = (3 + k, map Some (ends k @ [PipeR k]))"
    using alloc_full [of "PipeR k" "ends 0"] alloc_hole [of "PipeR k" "ends k" "[]"]
    by (auto simp: parent_table_def std_table_def ends_def)
  then show ?thesis
    using alloc_full [of "PipeW k" "ends k @ [PipeR k]"] by (simp add: sys_pipe_def ends_def)
qed

lemma launch_files:
  assumes "list_all (\<lambda>c. \<exists>argv. argv \<noteq> [] \<and> c = Some (mk_cmd argv)) cs" "in_fd = (if k = 0 then None else Some (3 + k))"
  shows "launch cs k in_fd (parent_table k) =
    Inr (map (\<lambda>(j, c). Exec (hd (cmd_argv (the c))) (cmd_argv (the c)) (Some (PipeR j)) (Some (PipeW j))) (zip [k..<k + length cs] cs),
      parent_table (k + length cs))"
  using assms
proof (induction cs arbitrary: k in_fd)
  case (Cons c cs)
  let ?t = "map Some (ends k) @ [Some (PipeR k), Some (PipeW k)]"
  obtain argv where c: "c = Some (mk_cmd argv)" "argv \<noteq> []" using Cons.prems(1) by auto
  have t2: "(if k > 0 then case in_fd of None \<Rightarrow> ?t | Some fd \<Rightarrow> sys_dup2 fd (3 + k) ?t else ?t) = ?t"
    using Cons.prems(2) by (auto simp: sys_dup2_def fd_file_def ends_def nth_append list_update_append)
  have "fd_file (child_table (3 + k) (4 + k) ?t) 0 = Some (PipeR k)" "fd_file (child_table (3 + k) (4 + k) ?t) 1 = Some (PipeW k)"
    by (auto simp: child_table_def sys_dup2_def sys_close_def fd_file_def ends_def nth_append)
  then have p: "exec_cmd c (child_table (3 + k) (4 + k) ?t) = Inr (Exec (hd argv) argv (Some (PipeR k)) (Some (PipeW k)))"
    using c by (cases argv) (auto simp: exec_cmd_def mk_cmd_def)
  have ca: "cmd_argv (the c) = argv" using c by (simp add: mk_cmd_def)
  have close: "sys_close (4 + k) ?t = parent_table (k + 1)"
    by (auto simp: sys_close_def parent_table_def ends_def list_update_append)
  have rest: "launch cs (k + 1) (Some (4 + k)) (parent_table (k + 1)) =
    Inr (map (\<lambda>(j, c). Exec (hd (cmd_argv (the c))) (cmd_argv (the c)) (Some (PipeR j)) (Some (PipeW j))) (zip [k + 1..<k + 1 + length cs] cs),
      parent_table (k + 1 + length cs))"
    using Cons.prems(1) by (intro Cons.IH) auto
  have "[k..<k + length (c # cs)] = k # [k + 1..<k + 1 + length cs]" by (simp add: upt_rec)
  then show ?case
    using p rest ca by (simp add: pipe_parent t2 close del: upt_Suc)
qed (simp add: parent_table_def)

text \<open>
  The commands of a pipeline are not connected: whatever pipeline of two or more commands is typed in, command \<open>j\<close> is
  started with the read end of pipe \<open>j\<close> as its input and the write end of the same pipe as its output. The \<^verbatim>\<open>dup2\<close> that should
  join it to the previous command is called on a descriptor the parent has closed and the new pipe has taken over.
\<close>

theorem pipeline_reads_itself:
  assumes "0 < slack" "2 \<le> length cmds" "list_all (\<lambda>c. c \<noteq> [] \<and> list_all plain_word c) cmds"
  shows "shell_turn slack (show_line cmds @ NL # rest) =
    Inr (Started (map (\<lambda>(j, argv). Exec (hd argv) argv (Some (PipeR j)) (Some (PipeW j))) (zip [0..<length cmds] cmds)), rest)"
proof -
  obtain c cs where cmds: "cmds = c # cs" using assms(2) by (cases cmds) auto
  have c: "c \<noteq> []" "plain_word (hd c)" using assms(3) cmds by (cases c; auto)+
  then have no_exit: "hd c \<noteq> ''exit'' @ [NL]" by (auto simp: plain_word_def plain_def)
  have all: "list_all (\<lambda>c. \<exists>argv. argv \<noteq> [] \<and> c = Some (mk_cmd argv)) (map (Some \<circ> mk_cmd) cmds)"
    using assms(3) unfolding list_all_iff by fastforce
  have "launch (map (Some \<circ> mk_cmd) cmds) 0 None std_table =
    Inr (map (\<lambda>(j, c). Exec (hd (cmd_argv (the c))) (cmd_argv (the c)) (Some (PipeR j)) (Some (PipeW j)))
          (zip [0..<length cmds] (map (Some \<circ> mk_cmd) cmds)), parent_table (length cmds))"
    using launch_files [OF all, of None 0] by (simp add: parent_table_def [of 0])
  moreover have "parse_line slack (show_line cmds @ NL # rest) =
      Inr (\<lparr>cl_count = length cmds, cl_commands = map (Some \<circ> mk_cmd) cmds\<rparr>, rest)"
    using parse_pipeline [OF assms(1) _ assms(3)] cmds by blast
  moreover have "cmd_name (mk_cmd c) = Some (hd c)" using c(1) by (cases c) (auto simp: mk_cmd_def)
  moreover have "map (\<lambda>(j, c). Exec (hd (cmd_argv (the c))) (cmd_argv (the c)) (Some (PipeR j)) (Some (PipeW j))) (zip ns (map (Some \<circ> mk_cmd) cmds)) =
      map (\<lambda>(j, argv). Exec (hd argv) argv (Some (PipeR j)) (Some (PipeW j))) (zip ns cmds)" for ns
    by (simp add: zip_map2 mk_cmd_def case_prod_unfold)
  moreover have "length cmds \<noteq> 1" using assms(2) by simp
  ultimately show ?thesis using no_exit by (simp add: shell_turn_def) (simp add: cmds)
qed

theorem pipeline_reads_itself_witness:
  "shell_turn 1 (''ls -l | wc'' @ NL # []) =
    Inr (Started [Exec ''ls'' [''ls'', ''-l''] (Some (PipeR 0)) (Some (PipeW 0)), Exec ''wc'' [''wc''] (Some (PipeR 1)) (Some (PipeW 1))], [])"
  using pipeline_reads_itself [of 1 "[[''ls'', ''-l''], [''wc'']]" "[]"]
  by (simp add: show_line_def plain_word_def plain_def upt_rec)

text \<open>An empty line, and the end of the input, make the shell compare a null pointer with \<^verbatim>\<open>exit\<close>; typing \<^verbatim>\<open>exit\<close> starts a program.\<close>

lemma empty_line_crashes: "shell_turn slack [] = Inl NullDeref" "shell_turn slack (NL # rest) = Inl NullDeref"
  by (simp_all add: shell_turn_def parse_line_def shell_init_def store_cmd_def)

lemma exit_does_not_exit: "shell_turn 1 (''exit'' @ [NL]) = Inr (Started [Exec ''exit'' [''exit''] (Some Tty) (Some Tty)], [])"
  by code_simp

end
