(* ===== verification/Logging.thy ===== *)
theory Logging
  imports Prelude
begin

text \<open>
  The logging service of afina (\<^verbatim>\<open>src/logging/ServiceImpl.cpp\<close>, \<^verbatim>\<open>include/afina/logging/Config.h\<close>): building the sinks and loggers of a
  configuration, choosing a logger by its dotted name, expanding a message pattern, and reopening all log files. The spdlog
  library is not part of the sources; what the service uses of it is its registry of loggers by name and the fields of a
  logger. Sinks are objects in a heap, addressed by their index.
\<close>

section \<open>Configuration\<close>

datatype appender_type = STDOUT | STDERR | FILE | DAILY | SIZED | SYSLOG

record appender =
  ap_type :: appender_type
  ap_color :: bool
  ap_file :: string
  ap_suffix :: string
  ap_rotate_at_hours :: int
  ap_rotate_at_mins :: int
  ap_rotate_at_size :: size_t
  ap_history_to_keep :: int
  ap_ident :: string
  ap_option :: int
  ap_facility :: int

datatype level = CRITICAL | ERROR | WARNING | INFO | DEBUG | TRACE

record logger_cfg =
  lc_level :: level
  lc_format :: string
  lc_appenders :: "string list"

text \<open>The maps of the configuration, in the order their keys are visited.\<close>

record log_config =
  cfg_appenders :: "(string \<times> appender) list"
  cfg_loggers :: "(string \<times> logger_cfg) list"

section \<open>Sinks and loggers\<close>

type_synonym sink_ptr = "nat option"

datatype sink =
    StdoutSink | StderrSink | ColorSink sink_ptr | FileSink string | DailySink string int int
  | RotatingSink string size_t int | SyslogSink string int int | DistSink "sink_ptr list"

datatype spd_level = Spd_trace | Spd_debug | Spd_info | Spd_warn | Spd_err | Spd_critical

record logger =
  lg_name :: string
  lg_sinks :: "sink_ptr list"
  lg_level :: spd_level
  lg_pattern :: string
  lg_flush_on :: spd_level

record log_service =
  ls_heap :: "sink list"
  ls_registry :: "(string \<times> logger) list"
  ls_root :: "logger option"

datatype log_error = LoggerExists string | NoRootLogger

definition new_sink :: "sink \<Rightarrow> log_service \<Rightarrow> nat \<times> log_service" where
  "new_sink s sv = (length (ls_heap sv), sv\<lparr>ls_heap := ls_heap sv @ [s]\<rparr>)"

text \<open>The console sinks of spdlog are shared objects; the model makes a new one for each appender, which nothing observes.\<close>

section \<open>Start\<close>

definition colored :: "bool \<Rightarrow> nat \<times> log_service \<Rightarrow> nat \<times> log_service" where
  "colored color r = (case r of (a, sv) \<Rightarrow> if color then new_sink (ColorSink (Some a)) sv else (a, sv))"

definition build_appender :: "appender \<Rightarrow> log_service \<Rightarrow> nat \<times> log_service" where
  "build_appender ap sv =
     (case ap_type ap of
        STDOUT \<Rightarrow> colored (ap_color ap) (new_sink StdoutSink sv)
      | STDERR \<Rightarrow> colored (ap_color ap) (new_sink StderrSink sv)
      | FILE \<Rightarrow> new_sink (FileSink (ap_file ap)) sv
      | DAILY \<Rightarrow> new_sink (DailySink (ap_file ap) (ap_rotate_at_hours ap) (ap_rotate_at_mins ap)) sv
      | SIZED \<Rightarrow> new_sink (RotatingSink (ap_file ap) (ap_rotate_at_size ap) (ap_history_to_keep ap)) sv
      | SYSLOG \<Rightarrow> new_sink (SyslogSink (ap_ident ap) (ap_option ap) (ap_facility ap)) sv)"

fun build_appenders :: "(string \<times> appender) list \<Rightarrow> (string \<times> sink_ptr) list \<Rightarrow> log_service \<Rightarrow> (string \<times> sink_ptr) list \<times> log_service" where
  "build_appenders [] results sv = (results, sv)"
| "build_appenders ((name, ap) # aps) results sv =
     (case build_appender ap sv of (a, sv') \<Rightarrow> build_appenders aps (results @ [(name, Some a)]) sv')"

text \<open>\<open>results[name]\<close> of a name that is not there yields a null pointer.\<close>

definition sink_named :: "(string \<times> sink_ptr) list \<Rightarrow> string \<Rightarrow> sink_ptr" where
  "sink_named results name = (case map_of results name of None \<Rightarrow> None | Some p \<Rightarrow> p)"

definition logger_sink :: "(string \<times> sink_ptr) list \<Rightarrow> string list \<Rightarrow> log_service \<Rightarrow> sink_ptr \<times> log_service" where
  "logger_sink results names sv =
     (case names of
        [] \<Rightarrow> (None, sv)
      | [n] \<Rightarrow> (sink_named results n, sv)
      | _ \<Rightarrow> (case new_sink (DistSink (map (sink_named results) names)) sv of (a, sv') \<Rightarrow> (Some a, sv')))"

definition spd_level_of :: "level \<Rightarrow> spd_level" where
  "spd_level_of l =
     (case l of TRACE \<Rightarrow> Spd_trace | DEBUG \<Rightarrow> Spd_debug | INFO \<Rightarrow> Spd_info | WARNING \<Rightarrow> Spd_warn | ERROR \<Rightarrow> Spd_err | CRITICAL \<Rightarrow> Spd_critical)"

text \<open>\<open>spdlog::register_logger\<close> refuses a name that is taken.\<close>

definition register_logger :: "logger \<Rightarrow> log_service \<Rightarrow> log_error + log_service" where
  "register_logger lg sv =
     (if map_of (ls_registry sv) (lg_name lg) \<noteq> None then Inl (LoggerExists (lg_name lg))
      else Inr (sv\<lparr>ls_registry := ls_registry sv @ [(lg_name lg, lg)]\<rparr>))"

fun build_loggers :: "(string \<times> sink_ptr) list \<Rightarrow> (string \<times> logger_cfg) list \<Rightarrow> log_service \<Rightarrow> log_error + log_service" where
  "build_loggers results [] sv = Inr sv"
| "build_loggers results ((name, lc) # lcs) sv =
     (case logger_sink results (lc_appenders lc) sv of (ptr, sv1) \<Rightarrow>
      rbind (register_logger \<lparr>lg_name = name, lg_sinks = [ptr], lg_level = spd_level_of (lc_level lc), lg_pattern = lc_format lc,
               lg_flush_on = Spd_err\<rparr> sv1)
        (build_loggers results lcs))"

definition log_Start :: "log_config \<Rightarrow> log_service \<Rightarrow> log_error + log_service" where
  "log_Start cfg sv =
     (case build_appenders (cfg_appenders cfg) [] sv of (results, sv1) \<Rightarrow>
      rbind (build_loggers results (cfg_loggers cfg) sv1) (\<lambda>sv2.
      case map_of (ls_registry sv2) ''root'' of
        None \<Rightarrow> Inl NoRootLogger
      | Some lg \<Rightarrow> Inr (sv2\<lparr>ls_root := Some lg\<rparr>)))"

section \<open>select\<close>

text \<open>\<open>tmp_name.substr(0, idx)\<close> with \<open>idx\<close> the last dot, or zero when there is none.\<close>

definition cut_last :: "string \<Rightarrow> string" where
  "cut_last name = (if CHR ''.'' \<in> set name then rev (tl (dropWhile (\<lambda>c. c \<noteq> CHR ''.'') (rev name))) else [])"

lemma cut_last_shorter: "name \<noteq> [] \<Longrightarrow> length (cut_last name) < length name"
proof (cases "CHR ''.'' \<in> set name")
  case True
  then have "dropWhile (\<lambda>c. c \<noteq> CHR ''.'') (rev name) \<noteq> []" by auto
  moreover have "length (dropWhile (\<lambda>c. c \<noteq> CHR ''.'') (rev name)) \<le> length name" by (metis length_dropWhile_le length_rev)
  ultimately show ?thesis using True
    by (cases "dropWhile (\<lambda>c. c \<noteq> CHR ''.'') (rev name)") (auto simp: cut_last_def)
qed (auto simp: cut_last_def)

text \<open>The loop tries at least once, also for an empty name.\<close>

function select_loop :: "log_service \<Rightarrow> string \<Rightarrow> logger option" where
  "select_loop sv tmp_name =
     (case map_of (ls_registry sv) tmp_name of
        Some lg \<Rightarrow> Some lg
      | None \<Rightarrow> (let cut = cut_last tmp_name in if cut \<noteq> [] then select_loop sv cut else ls_root sv))"
  by pat_completeness auto
termination
proof (relation "measure (\<lambda>(sv, name). length name)")
  show "((sv, x), (sv, tmp_name)) \<in> measure (\<lambda>(sv, name). length name)" if "x = cut_last tmp_name" "x \<noteq> []"
    for sv :: log_service and tmp_name x
    using that cut_last_shorter [of tmp_name] by (cases "tmp_name = []") (auto simp: cut_last_def)
qed simp

declare select_loop.simps [simp del]

definition select :: "log_service \<Rightarrow> string \<Rightarrow> logger option" where
  "select sv name = select_loop sv name"

section \<open>create\<close>

text \<open>
  The pattern with its placeholders \<^verbatim>\<open>%X{key}\<close>. A pattern that ends in \<^verbatim>\<open>%\<close> or \<^verbatim>\<open>%X\<close> moves or reads the iterator past the end.
\<close>

definition split_brace :: "string \<Rightarrow> (string \<times> string) option" where
  "split_brace cs = (if CHR ''}'' \<in> set cs
     then Some (takeWhile (\<lambda>c. c \<noteq> CHR ''}'') cs, tl (dropWhile (\<lambda>c. c \<noteq> CHR ''}'') cs)) else None)"

lemma split_brace_shorter: "split_brace cs = Some (key, rest) \<Longrightarrow> length rest < length cs"
proof -
  assume "split_brace cs = Some (key, rest)"
  then have "rest = tl (dropWhile (\<lambda>c. c \<noteq> CHR ''}'') cs)" "CHR ''}'' \<in> set cs"
    by (auto simp: split_brace_def split: if_splits)
  moreover have "length (dropWhile (\<lambda>c. c \<noteq> CHR ''}'') cs) \<le> length cs" by (rule length_dropWhile_le)
  moreover have "dropWhile (\<lambda>c. c \<noteq> CHR ''}'') cs \<noteq> []" using calculation(2) by auto
  ultimately show ?thesis by (cases "dropWhile (\<lambda>c. c \<noteq> CHR ''}'') cs") auto
qed

function expand :: "(string \<times> string) list \<Rightarrow> string \<Rightarrow> fault + string" where
  "expand mdc pattern =
     (case pattern of
        [] \<Rightarrow> Inr []
      | c # cs \<Rightarrow>
          if c \<noteq> CHR ''%'' then map_sum id (\<lambda>out. c # out) (expand mdc cs)
          else (case cs of
            [] \<Rightarrow> Inl OutOfBounds
          | d # ds \<Rightarrow>
              if d \<noteq> CHR ''X'' then map_sum id (\<lambda>out. CHR ''%'' # d # out) (expand mdc ds)
              else (case ds of
                [] \<Rightarrow> Inl OutOfBounds
              | e # es \<Rightarrow>
                  if e \<noteq> CHR ''{'' then map_sum id (\<lambda>out. ''%X'' @ e # out) (expand mdc es)
                  else (case split_brace es of
                    None \<Rightarrow> map_sum id (\<lambda>out. ''%X{'' @ e # out) (expand mdc es)
                  | Some (key, rest) \<Rightarrow>
                      (case map_of mdc key of
                         None \<Rightarrow> map_sum id (\<lambda>out. ''%X{'' @ e # out) (expand mdc es)
                       | Some val \<Rightarrow> map_sum id (\<lambda>out. key @ out) (expand mdc rest))))))"
  by pat_completeness auto
termination by (relation "measure (\<lambda>(mdc, p). length p)") (auto dest: split_brace_shorter)

declare expand.simps [simp del]

definition log_create :: "log_service \<Rightarrow> string \<Rightarrow> (string \<times> string) list \<Rightarrow> fault + logger" where
  "log_create sv name mdc =
     (case select sv name of
        None \<Rightarrow> Inl NullDeref
      | Some lg \<Rightarrow> rbind (expand mdc (lg_pattern lg)) (\<lambda>pattern.
          Inr \<lparr>lg_name = lg_name lg, lg_sinks = lg_sinks lg, lg_level = lg_level lg, lg_pattern = pattern, lg_flush_on = Spd_err\<rparr>))"

section \<open>reopen_all\<close>

text \<open>
  The queue of sinks to visit and the set of those seen; the result is the list of file sinks in the order in which they are
  reopened. Null pointers are passed over by the casts.
\<close>

definition sink_at :: "sink list \<Rightarrow> sink_ptr \<Rightarrow> sink option" where
  "sink_at heap p = (case p of None \<Rightarrow> None | Some a \<Rightarrow> if a < length heap then Some (heap ! a) else None)"

definition unseen :: "sink list \<Rightarrow> sink_ptr list \<Rightarrow> nat" where
  "unseen heap seen = card (insert None (Some ` {..<length heap}) - set seen)"

lemma unseen_less:
  assumes "p \<notin> set seen" "p = None \<or> (\<exists>a < length heap. p = Some a)"
  shows "unseen heap (p # seen) < unseen heap seen"
proof -
  let ?U = "insert None (Some ` {..<length heap}) - set seen"
  have "p \<in> ?U" using assms by auto
  moreover have "insert None (Some ` {..<length heap}) - set (p # seen) = ?U - {p}" by auto
  ultimately show ?thesis unfolding unseen_def by (simp only: card_Diff1_less finite_Diff finite_insert finite_imageI finite_lessThan)
qed

lemma unseen_outside: "\<not> a < length heap \<Longrightarrow> unseen heap (Some a # seen) = unseen heap seen"
proof -
  assume "\<not> a < length heap"
  then have "insert None (Some ` {..<length heap}) - set (Some a # seen) = insert None (Some ` {..<length heap}) - set seen" by auto
  then show ?thesis unfolding unseen_def by (rule arg_cong)
qed

function reopen_loop :: "sink list \<Rightarrow> sink_ptr list \<Rightarrow> sink_ptr list \<Rightarrow> sink_ptr list" where
  "reopen_loop heap sinks seen =
     (case sinks of
        [] \<Rightarrow> []
      | p # ps \<Rightarrow>
          if p \<in> set seen then reopen_loop heap ps seen
          else (case p of
              Some a \<Rightarrow>
                if a < length heap then
                  (case heap ! a of
                     DistSink qs \<Rightarrow> reopen_loop heap (ps @ qs) (p # seen)
                   | FileSink f \<Rightarrow> p # reopen_loop heap ps (p # seen)
                   | _ \<Rightarrow> reopen_loop heap ps (p # seen))
                else reopen_loop heap ps (p # seen)
            | None \<Rightarrow> reopen_loop heap ps (p # seen)))"
  by pat_completeness auto
termination
  by (relation "measures [\<lambda>(heap, sinks, seen). unseen heap seen, \<lambda>(heap, sinks, seen). length sinks]")
     (auto simp: unseen_less unseen_outside)

declare reopen_loop.simps [simp del]

definition reopen_all :: "log_service \<Rightarrow> sink_ptr list" where
  "reopen_all sv = reopen_loop (ls_heap sv) (concat (map (lg_sinks \<circ> snd) (ls_registry sv))) []"

section \<open>The logger of the longest prefix\<close>

definition dotted :: "string \<Rightarrow> string \<Rightarrow> bool" where
  "dotted p name \<longleftrightarrow> p = name \<or> (\<exists>r. name = p @ CHR ''.'' # r)"

lemma cut_last_split:
  assumes "CHR ''.'' \<in> set name"
  shows "\<exists>r. name = cut_last name @ CHR ''.'' # r \<and> CHR ''.'' \<notin> set r"
proof -
  let ?P = "\<lambda>c. c \<noteq> CHR ''.''"
  have "dropWhile ?P (rev name) \<noteq> []" using assms by auto
  then obtain c d where d: "dropWhile ?P (rev name) = c # d" by (cases "dropWhile ?P (rev name)") auto
  then have c: "c = CHR ''.''" using hd_dropWhile [of ?P "rev name"] by auto
  have "rev name = takeWhile ?P (rev name) @ CHR ''.'' # d" using d c takeWhile_dropWhile_id [of ?P "rev name"] by simp
  then have "name = rev d @ CHR ''.'' # rev (takeWhile ?P (rev name))"
    by (metis append.assoc append_Cons append_Nil rev_append rev_rev_ident rev.simps(2))
  moreover have "cut_last name = rev d" using assms d by (simp add: cut_last_def)
  moreover have "CHR ''.'' \<notin> set (takeWhile ?P (rev name))" by (auto dest: set_takeWhileD)
  ultimately show ?thesis by (intro exI [of _ "rev (takeWhile ?P (rev name))"]) auto
qed

lemma dotted_cut: "CHR ''.'' \<in> set name \<Longrightarrow> dotted (cut_last name) name"
  using cut_last_split dotted_def by blast

lemma dotted_proper:
  assumes "dotted p name" "p \<noteq> name"
  shows "CHR ''.'' \<in> set name" "dotted p (cut_last name)"
proof -
  obtain r where r: "name = p @ CHR ''.'' # r" using assms by (auto simp: dotted_def)
  then show dot: "CHR ''.'' \<in> set name" by simp
  obtain q where q: "name = cut_last name @ CHR ''.'' # q" "CHR ''.'' \<notin> set q" using cut_last_split [OF dot] by blast
  have "p @ CHR ''.'' # r = cut_last name @ CHR ''.'' # q" using q(1) r by simp
  then obtain us where "p = cut_last name @ us \<and> us @ CHR ''.'' # r = CHR ''.'' # q \<or>
      p @ us = cut_last name \<and> CHR ''.'' # r = us @ CHR ''.'' # q"
    by (auto simp: append_eq_append_conv2)
  then show "dotted p (cut_last name)"
  proof (elim disjE conjE)
    assume "p = cut_last name @ us" "us @ CHR ''.'' # r = CHR ''.'' # q"
    then show ?thesis using q(2) by (cases us) (auto simp: dotted_def)
  next
    assume "p @ us = cut_last name" "CHR ''.'' # r = us @ CHR ''.'' # q"
    then show ?thesis by (cases us) (auto simp: dotted_def dest: sym)
  qed
qed

lemma dotted_trans: "dotted p q \<Longrightarrow> dotted q name \<Longrightarrow> dotted p name"
  by (auto simp: dotted_def)

lemma dotted_length: "dotted p name \<Longrightarrow> length p \<le> length name"
  by (auto simp: dotted_def)

text \<open>\<open>p\<close> is the longest dotted prefix of the name that is registered, or none of them is.\<close>

definition picked :: "log_service \<Rightarrow> string \<Rightarrow> string \<Rightarrow> bool" where
  "picked sv name p \<longleftrightarrow> dotted p name \<and> (p = name \<or> p \<noteq> []) \<and> map_of (ls_registry sv) p \<noteq> None \<and>
     (\<forall>q. dotted q name \<and> map_of (ls_registry sv) q \<noteq> None \<longrightarrow> length q \<le> length p)"

definition unregistered :: "log_service \<Rightarrow> string \<Rightarrow> bool" where
  "unregistered sv name \<longleftrightarrow> (\<forall>p. dotted p name \<and> (p = name \<or> p \<noteq> []) \<longrightarrow> map_of (ls_registry sv) p = None)"

lemma picked_cut:
  assumes ne: "cut_last name \<noteq> []" and none: "map_of (ls_registry sv) name = None" and p: "picked sv (cut_last name) p"
  shows "picked sv name p"
proof -
  have dot: "CHR ''.'' \<in> set name" using ne unfolding cut_last_def by presburger
  have "length q \<le> length p" if "dotted q name" "map_of (ls_registry sv) q \<noteq> None" for q
  proof -
    have "q \<noteq> name" using that(2) none by auto
    from dotted_proper(2) [OF that(1) this] show ?thesis using p that(2) unfolding picked_def by blast
  qed
  moreover have "p \<noteq> []" "dotted p name" using p ne dotted_trans [OF _ dotted_cut [OF dot]] by (auto simp: picked_def)
  ultimately show ?thesis using p unfolding picked_def by blast
qed

lemma unregistered_cut:
  assumes "map_of (ls_registry sv) name = None" "unregistered sv (cut_last name)"
  shows "unregistered sv name"
  unfolding unregistered_def
proof (intro allI impI)
  fix p assume p: "dotted p name \<and> (p = name \<or> p \<noteq> [])"
  show "map_of (ls_registry sv) p = None"
  proof (cases "p = name")
    case False
    then show ?thesis using assms(2) dotted_proper(2) [of p name] p unfolding unregistered_def by blast
  qed (use assms(1) in simp)
qed

lemma select_picks:
  "(\<exists>p. picked sv name p \<and> select sv name = map_of (ls_registry sv) p) \<or> unregistered sv name \<and> select sv name = ls_root sv"
proof (induction "length name" arbitrary: name rule: less_induct)
  case less
  show ?case
  proof (cases "map_of (ls_registry sv) name")
    case (Some lg)
    then have "select sv name = Some lg" "picked sv name name"
      using dotted_length by (auto simp: select_def select_loop.simps picked_def dotted_def)
    then show ?thesis using Some by auto
  next
    case None
    show ?thesis
    proof (cases "cut_last name = []")
      case True
      have "unregistered sv name"
        using None dotted_proper(2) [of _ name] True by (auto simp: unregistered_def dotted_def [of _ "[]"])
      then show ?thesis using None True by (simp add: select_def select_loop.simps)
    next
      case False
      then have "CHR ''.'' \<in> set name" unfolding cut_last_def by presburger
      then have "length (cut_last name) < length name" by (intro cut_last_shorter) auto
      from less.hyps [OF this] show ?thesis
        using picked_cut [OF False None] unregistered_cut [OF None] None False by (auto simp: select_def select_loop.simps [of sv name])
    qed
  qed
qed

text \<open>
  C31. \<open>select\<close> always returns, and what it returns is the logger registered under the longest dotted prefix of the name: under the
  name itself if there is one, else with its last part cut off, and so on. Only when no prefix is registered does it fall back
  to the root logger of the service.
\<close>

theorem select_longest_prefix:
  "(\<exists>p lg. dotted p name \<and> (p = name \<or> p \<noteq> []) \<and> map_of (ls_registry sv) p = Some lg \<and>
      (\<forall>q. dotted q name \<and> map_of (ls_registry sv) q \<noteq> None \<longrightarrow> length q \<le> length p) \<and> select sv name = Some lg) \<or>
   (\<forall>p. dotted p name \<and> (p = name \<or> p \<noteq> []) \<longrightarrow> map_of (ls_registry sv) p = None) \<and> select sv name = ls_root sv"
  using select_picks [of sv name]
proof (elim disjE exE conjE)
  fix p assume p: "picked sv name p" "select sv name = map_of (ls_registry sv) p"
  then obtain lg where "map_of (ls_registry sv) p = Some lg" by (auto simp: picked_def)
  with p show ?thesis unfolding picked_def by (intro disjI1 exI [of _ p] exI [of _ lg]) simp
qed (simp add: unregistered_def)

definition demo_logger :: "string \<Rightarrow> logger" where
  "demo_logger n = \<lparr>lg_name = n, lg_sinks = [], lg_level = Spd_info, lg_pattern = [], lg_flush_on = Spd_err\<rparr>"

definition demo_service :: log_service where
  "demo_service = \<lparr>ls_heap = [FileSink ''a'', DistSink [Some 0, Some 1, Some 2], FileSink ''b''],
     ls_registry = [(''root'', (demo_logger ''root'')\<lparr>lg_sinks := [Some 0]\<rparr>), (''network'', (demo_logger ''network'')\<lparr>lg_sinks := [Some 1]\<rparr>)],
     ls_root = Some (demo_logger ''root'')\<rparr>"

theorem select_longest_prefix_witness:
  "select demo_service ''network.worker'' = Some ((demo_logger ''network'')\<lparr>lg_sinks := [Some 1]\<rparr>)"
proof -
  have d: "dotted ''network'' ''network.worker''" by (simp add: dotted_def)
  have r: "map_of (ls_registry demo_service) ''network'' = Some ((demo_logger ''network'')\<lparr>lg_sinks := [Some 1]\<rparr>)"
    by (simp add: demo_service_def)
  have "\<not> dotted ''root'' ''network.worker''" by (auto simp: dotted_def)
  then have only: "p = ''network''" if "dotted p ''network.worker''" "map_of (ls_registry demo_service) p \<noteq> None" for p
    using that by (auto simp: demo_service_def split: if_splits)
  from select_longest_prefix [of "''network.worker''" demo_service] show ?thesis
  proof (rule disjE)
    assume "\<exists>p lg. dotted p ''network.worker'' \<and> (p = ''network.worker'' \<or> p \<noteq> []) \<and> map_of (ls_registry demo_service) p = Some lg \<and>
      (\<forall>q. dotted q ''network.worker'' \<and> map_of (ls_registry demo_service) q \<noteq> None \<longrightarrow> length q \<le> length p) \<and>
      select demo_service ''network.worker'' = Some lg"
    then obtain p lg where p: "dotted p ''network.worker''" "map_of (ls_registry demo_service) p = Some lg" "select demo_service ''network.worker'' = Some lg"
      by blast
    have "p = ''network''" using only [OF p(1)] p(2) by simp
    then show ?thesis using p(2,3) r by simp
  next
    assume "(\<forall>p. dotted p ''network.worker'' \<and> (p = ''network.worker'' \<or> p \<noteq> []) \<longrightarrow> map_of (ls_registry demo_service) p = None) \<and>
      select demo_service ''network.worker'' = ls_root demo_service"
    then have "map_of (ls_registry demo_service) ''network'' = None" using d by blast
    then show ?thesis using r by simp
  qed
qed

section \<open>Reopening\<close>

fun children :: "sink list \<Rightarrow> sink_ptr \<Rightarrow> sink_ptr set" where
  "children heap p = (case sink_at heap p of Some (DistSink qs) \<Rightarrow> set qs | _ \<Rightarrow> {})"

text \<open>
  The sink of a \<^verbatim>\<open>FILE\<close> appender, which is the class the loop looks for. The sinks of \<^verbatim>\<open>DAILY\<close> and \<^verbatim>\<open>SIZED\<close> appenders write to files as well,
  but are of other classes.
\<close>

definition is_ext_file :: "sink list \<Rightarrow> sink_ptr \<Rightarrow> bool" where
  "is_ext_file heap p \<longleftrightarrow> (\<exists>f. sink_at heap p = Some (FileSink f))"

inductive reach :: "sink list \<Rightarrow> sink_ptr set \<Rightarrow> sink_ptr \<Rightarrow> bool" for heap A where
  base: "p \<in> A \<Longrightarrow> reach heap A p"
| step: "reach heap A p \<Longrightarrow> q \<in> children heap p \<Longrightarrow> reach heap A q"

lemma reach_mono: "reach heap A p \<Longrightarrow> (\<And>q. q \<in> A \<Longrightarrow> reach heap B q) \<Longrightarrow> reach heap B p"
  by (induction rule: reach.induct) (auto intro: reach.step)

lemma reach_closed: "(\<And>p. p \<in> A \<Longrightarrow> children heap p \<subseteq> A) \<Longrightarrow> reach heap A q \<longleftrightarrow> q \<in> A"
proof
  show "reach heap A q \<Longrightarrow> (\<And>p. p \<in> A \<Longrightarrow> children heap p \<subseteq> A) \<Longrightarrow> q \<in> A"
    by (induction rule: reach.induct) auto
qed (auto intro: reach.base)

lemma reach_add_children: "reach heap (insert p (children heap p \<union> A)) q \<longleftrightarrow> reach heap (insert p A) q"
  by (auto elim!: reach_mono intro: reach.intros simp del: children.simps)

text \<open>The children of every sink that has been seen are seen or waiting.\<close>

definition frontier :: "sink list \<Rightarrow> sink_ptr list \<Rightarrow> sink_ptr list \<Rightarrow> bool" where
  "frontier heap sinks seen \<longleftrightarrow> (\<forall>p \<in> set seen. children heap p \<subseteq> set seen \<union> set sinks)"

lemmas reopen_loop_Cons = reopen_loop.simps [where sinks = "p # ps" for p ps, simplified]

text \<open>What the loop still has to reopen.\<close>

definition reopened :: "sink list \<Rightarrow> sink_ptr list \<Rightarrow> sink_ptr list \<Rightarrow> sink_ptr list \<Rightarrow> bool" where
  "reopened heap sinks seen r \<longleftrightarrow>
     distinct r \<and> set r = {p. is_ext_file heap p \<and> p \<notin> set seen \<and> reach heap (set sinks \<union> set seen) p}"

lemma reopened_Nil:
  assumes "frontier heap [] seen"
  shows "reopened heap [] seen []"
proof -
  have "reach heap (set seen) q \<longleftrightarrow> q \<in> set seen" for q
    using assms by (intro reach_closed) (auto simp: frontier_def simp del: children.simps)
  then show ?thesis by (simp add: reopened_def)
qed

lemma reopened_seen:
  assumes "frontier heap (p # ps) seen" "p \<in> set seen" "frontier heap ps seen \<Longrightarrow> reopened heap ps seen r"
  shows "reopened heap (p # ps) seen r"
proof -
  have "frontier heap ps seen" using assms(1,2) by (auto simp: frontier_def simp del: children.simps)
  moreover have "set (p # ps) \<union> set seen = set ps \<union> set seen" using assms(2) by auto
  ultimately show ?thesis using assms(3) by (simp only: reopened_def)
qed

lemma reopened_leaf:
  assumes "frontier heap (p # ps) seen" "p \<notin> set seen" "children heap p = {}"
    and "frontier heap ps (p # seen) \<Longrightarrow> reopened heap ps (p # seen) r"
  shows "reopened heap (p # ps) seen ((if is_ext_file heap p then [p] else []) @ r)"
proof -
  have "frontier heap ps (p # seen)" using assms(1,3) by (auto simp: frontier_def simp del: children.simps)
  note r = assms(4) [OF this]
  have "set ps \<union> set (p # seen) = set (p # ps) \<union> set seen" by auto
  moreover have "reach heap (set (p # ps) \<union> set seen) p" by (auto intro: reach.base)
  ultimately show ?thesis using r assms(2) by (auto simp: reopened_def)
qed

lemma reopened_dist:
  assumes "frontier heap (p # ps) seen" "sink_at heap p = Some (DistSink qs)"
    and "frontier heap (ps @ qs) (p # seen) \<Longrightarrow> reopened heap (ps @ qs) (p # seen) r"
  shows "reopened heap (p # ps) seen r"
proof -
  have ch: "children heap p = set qs" using assms(2) by simp
  have "frontier heap (ps @ qs) (p # seen)" using assms(1) ch by (auto simp: frontier_def simp del: children.simps)
  moreover have "reach heap (set (ps @ qs) \<union> set (p # seen)) q \<longleftrightarrow> reach heap (set (p # ps) \<union> set seen) q" for q
    using reach_add_children [of heap p "set ps \<union> set seen" q] ch by (simp add: Un_left_commute Un_commute Un_assoc del: children.simps)
  ultimately show ?thesis using assms(2,3) by (auto simp: reopened_def is_ext_file_def)
qed

lemma reopen_loop_files: "frontier heap sinks seen \<Longrightarrow> reopened heap sinks seen (reopen_loop heap sinks seen)"
proof (induction heap sinks seen rule: reopen_loop.induct)
  case (1 heap sinks seen)
  note IH = "1.IH" and fr = "1.prems"
  show ?case
  proof (cases sinks)
    case Nil
    then show ?thesis using fr reopened_Nil by (simp add: reopen_loop.simps)
  next
    case (Cons p ps)
    show ?thesis
    proof (cases "p \<in> set seen")
      case True
      then show ?thesis using reopened_seen [OF _ True IH(1) [OF Cons True]] fr Cons by (simp add: reopen_loop_Cons)
    next
      case False
      note leaf = reopened_leaf [OF fr [unfolded Cons] False]
      show ?thesis
      proof (cases "sink_at heap p")
        case None
        then have "children heap p = {}" by simp
        note leaf = leaf [OF this]
        show ?thesis
        proof (cases p)
          case p: None
          show ?thesis using leaf [OF IH(2) [OF Cons False p]] Cons False p None by (simp add: reopen_loop_Cons is_ext_file_def)
        next
          case (Some a)
          then have na: "\<not> a < length heap" using None by (auto simp: sink_at_def split: if_splits)
          show ?thesis using leaf [OF IH(11) [OF Cons False Some na]] Cons False Some None na
            by (simp add: reopen_loop_Cons is_ext_file_def)
        qed
      next
        case (Some s)
        then obtain a where a: "p = Some a" "a < length heap" "heap ! a = s"
          by (auto simp: sink_at_def split: option.splits if_splits)
        note h = IH(3-10) [OF Cons False a(1,2)]
        show ?thesis
        proof (cases s)
          case (DistSink qs)
          then show ?thesis using reopened_dist [OF fr [unfolded Cons], of qs] h(8) [of qs] Some Cons False a
            by (simp add: reopen_loop_Cons)
        qed (use leaf h Some Cons False a in \<open>auto simp: reopen_loop_Cons is_ext_file_def\<close>)
      qed
    qed
  qed
qed


text \<open>The log file of a \<^verbatim>\<open>DAILY\<close> appender is not reopened.\<close>

lemma daily_not_reopened:
  assumes "ls_heap sv = [DailySink f h m]"
  shows "reopen_all sv = []"
proof -
  have "p \<notin> {p. is_ext_file (ls_heap sv) p}" for p using assms by (cases p) (auto simp: is_ext_file_def sink_at_def)
  then show ?thesis
    using reopen_loop_files [of "ls_heap sv" "concat (map (lg_sinks \<circ> snd) (ls_registry sv))" "[]"]
    by (simp add: reopen_all_def frontier_def reopened_def)
qed

text \<open>A cycle of distribution sinks.\<close>

lemma reopen_demo: "reopen_all demo_service = [Some 0, Some 2]"
  by code_simp

section \<open>Starting\<close>

lemma build_appenders_registry: "build_appenders aps res sv = (res', sv') \<Longrightarrow> ls_registry sv' = ls_registry sv"
proof (induction aps arbitrary: res sv)
  case (Cons x aps)
  obtain name ap where x: "x = (name, ap)" by fastforce
  obtain a sv1 where b: "build_appender ap sv = (a, sv1)" by fastforce
  then have "ls_registry sv1 = ls_registry sv"
    by (auto simp: build_appender_def colored_def new_sink_def split: appender_type.splits if_splits)
  then show ?case using Cons b x by auto
qed simp

lemma logger_sink_registry: "logger_sink res names sv = (p, sv') \<Longrightarrow> ls_registry sv' = ls_registry sv"
  by (auto simp: logger_sink_def new_sink_def split: list.splits)

definition configured :: "logger_cfg \<Rightarrow> string \<Rightarrow> logger \<Rightarrow> bool" where
  "configured lc name lg \<longleftrightarrow> lg_name lg = name \<and> lg_level lg = spd_level_of (lc_level lc) \<and> lg_pattern lg = lc_format lc"

lemma build_loggers_ok:
  assumes "distinct (map fst (ls_registry sv) @ map fst lcs)"
  shows "\<exists>sv' lgs. build_loggers res lcs sv = Inr sv' \<and> ls_registry sv' = ls_registry sv @ lgs \<and> map fst lgs = map fst lcs \<and>
    list_all2 (\<lambda>(n, lc) (m, lg). configured lc n lg) lcs lgs"
  using assms
proof (induction lcs arbitrary: sv)
  case (Cons x lcs)
  obtain name lc where x: "x = (name, lc)" by fastforce
  obtain p sv1 where ls: "logger_sink res (lc_appenders lc) sv = (p, sv1)" by fastforce
  note r1 = logger_sink_registry [OF ls]
  define lg where "lg = \<lparr>lg_name = name, lg_sinks = [p], lg_level = spd_level_of (lc_level lc), lg_pattern = lc_format lc, lg_flush_on = Spd_err\<rparr>"
  define sv2 where "sv2 = sv1\<lparr>ls_registry := ls_registry sv1 @ [(name, lg)]\<rparr>"
  have "map_of (ls_registry sv1) name = None" using Cons.prems x r1 by (auto simp: map_of_eq_None_iff)
  then have reg: "register_logger lg sv1 = Inr sv2" by (simp add: register_logger_def lg_def sv2_def)
  have "distinct (map fst (ls_registry sv2) @ map fst lcs)" using Cons.prems x r1 by (auto simp: sv2_def)
  from Cons.IH [OF this] obtain sv' lgs where "build_loggers res lcs sv2 = Inr sv'" "ls_registry sv' = ls_registry sv2 @ lgs"
      "map fst lgs = map fst lcs" "list_all2 (\<lambda>(n, lc) (m, lg). configured lc n lg) lcs lgs" by blast
  then show ?case using reg x ls r1
    by (intro exI [of _ sv'] exI [of _ "(name, lg) # lgs"]) (auto simp: sv2_def lg_def configured_def)
qed simp

lemma select_loop_root: "ls_root sv \<noteq> None \<Longrightarrow> select_loop sv name \<noteq> None"
  by (induction sv name rule: select_loop.induct) (subst select_loop.simps, auto simp: Let_def split: option.splits)

text \<open>
  \<open>Start\<close> with a configuration that names its loggers differently and has one called \<^verbatim>\<open>root\<close> succeeds on an empty
  registry: every configured logger is registered under its name with its level and format, and from then on \<open>select\<close> never returns
  a null pointer. Without a root logger it throws.
\<close>

theorem log_Start_registers:
  assumes "ls_registry sv = []" "distinct (map fst (cfg_loggers cfg))"
  shows "if ''root'' \<in> fst ` set (cfg_loggers cfg)
    then \<exists>sv'. log_Start cfg sv = Inr sv' \<and> (\<forall>name. select sv' name \<noteq> None) \<and>
      (\<forall>(name, lc) \<in> set (cfg_loggers cfg). \<exists>lg. select sv' name = Some lg \<and> configured lc name lg)
    else log_Start cfg sv = Inl NoRootLogger"
proof -
  obtain res sv1 where b: "build_appenders (cfg_appenders cfg) [] sv = (res, sv1)" by fastforce
  have "ls_registry sv1 = []" using build_appenders_registry [OF b] assms(1) by simp
  then obtain sv2 lgs where l: "build_loggers res (cfg_loggers cfg) sv1 = Inr sv2" "ls_registry sv2 = lgs" "map fst lgs = map fst (cfg_loggers cfg)"
      "list_all2 (\<lambda>(n, lc) (m, lg). configured lc n lg) (cfg_loggers cfg) lgs"
    using build_loggers_ok [of sv1 "cfg_loggers cfg" res] assms(2) by auto
  have dom: "map_of lgs name = None \<longleftrightarrow> name \<notin> fst ` set (cfg_loggers cfg)" for name
    using arg_cong [OF l(3), of set] by (simp add: map_of_eq_None_iff)
  show ?thesis
  proof (cases "''root'' \<in> fst ` set (cfg_loggers cfg)")
    case False
    then show ?thesis using b l dom [of "''root''"] by (simp add: log_Start_def)
  next
    case True
    then obtain rt where rt: "map_of lgs ''root'' = Some rt" using dom [of "''root''"] by auto
    define sv' where "sv' = sv2\<lparr>ls_root := Some rt\<rparr>"
    have st: "log_Start cfg sv = Inr sv'" using b l rt by (simp add: log_Start_def sv'_def)
    have sel: "select_loop sv' name \<noteq> None" for name by (rule select_loop_root) (simp add: sv'_def)
    have "\<exists>lg. select sv' name = Some lg \<and> configured lc name lg" if m: "(name, lc) \<in> set (cfg_loggers cfg)" for name lc
    proof -
      obtain i where i: "i < length (cfg_loggers cfg)" "cfg_loggers cfg ! i = (name, lc)" using m by (auto simp: in_set_conv_nth)
      have len: "length lgs = length (cfg_loggers cfg)" using l(3) by (metis length_map)
      obtain m' lg where lg: "lgs ! i = (m', lg)" by fastforce
      have "m' = name" using arg_cong [OF l(3), of "\<lambda>xs. xs ! i"] i lg len by simp
      moreover have "configured lc name lg" using list_all2_nthD [OF l(4) i(1)] i(2) lg by simp
      moreover have "map_of lgs name = Some lg"
        using l(3) assms(2) lg i(1) len \<open>m' = name\<close> by (metis map_of_is_SomeI nth_mem)
      ultimately show ?thesis using l(2) by (auto simp: select_def select_loop.simps sv'_def)
    qed
    then show ?thesis using st sel True by (auto simp: select_def)
  qed
qed

theorem log_Start_registers_witness:
  "\<exists>sv'. log_Start \<lparr>cfg_appenders = [], cfg_loggers = [(''root'', \<lparr>lc_level = WARNING, lc_format = ''%v'', lc_appenders = [''console'']\<rparr>)]\<rparr>
       \<lparr>ls_heap = [], ls_registry = [], ls_root = None\<rparr> = Inr sv' \<and>
     (\<exists>lg. select sv' ''root'' = Some lg \<and> lg_level lg = Spd_warn)"
  using log_Start_registers [of "\<lparr>ls_heap = [], ls_registry = [], ls_root = None\<rparr>"
      "\<lparr>cfg_appenders = [], cfg_loggers = [(''root'', \<lparr>lc_level = WARNING, lc_format = ''%v'', lc_appenders = [''console'']\<rparr>)]\<rparr>"]
  by (auto simp: configured_def spd_level_of_def)

section \<open>Patterns\<close>

lemma expand_equations:
  "expand mdc [] = Inr []"
  "c \<noteq> CHR ''%'' \<Longrightarrow> expand mdc (c # cs) = map_sum id (\<lambda>out. c # out) (expand mdc cs)"
  "expand mdc [CHR ''%''] = Inl OutOfBounds"
  "d \<noteq> CHR ''X'' \<Longrightarrow> expand mdc (CHR ''%'' # d # ds) = map_sum id (\<lambda>out. CHR ''%'' # d # out) (expand mdc ds)"
  "expand mdc [CHR ''%'', CHR ''X''] = Inl OutOfBounds"
  "e \<noteq> CHR ''{'' \<Longrightarrow> expand mdc (CHR ''%'' # CHR ''X'' # e # es) = map_sum id (\<lambda>out. ''%X'' @ e # out) (expand mdc es)"
  "expand mdc (CHR ''%'' # CHR ''X'' # CHR ''{'' # es) =
     (case split_brace es of
        None \<Rightarrow> map_sum id (\<lambda>out. ''%X{'' @ CHR ''{'' # out) (expand mdc es)
      | Some (key, rest) \<Rightarrow>
          (case map_of mdc key of
             None \<Rightarrow> map_sum id (\<lambda>out. ''%X{'' @ CHR ''{'' # out) (expand mdc es)
           | Some val \<Rightarrow> map_sum id (\<lambda>out. key @ out) (expand mdc rest)))"
  by (subst expand.simps, simp)+

lemma expand_same_keys:
  assumes "dom (map_of mdc) = dom (map_of mdc')"
  shows "expand mdc p = expand mdc' p"
proof (induction "length p" arbitrary: p rule: less_induct)
  case less
  have key: "map_of mdc k = None \<longleftrightarrow> map_of mdc' k = None" for k using assms by (metis domIff)
  consider "p = []" | c cs where "p = c # cs" "c \<noteq> CHR ''%''" | "p = ''%''" | d ds where "p = CHR ''%'' # d # ds" "d \<noteq> CHR ''X''" |
    "p = ''%X''" | e es where "p = CHR ''%'' # CHR ''X'' # e # es" "e \<noteq> CHR ''{''" | es where "p = CHR ''%'' # CHR ''X'' # CHR ''{'' # es"
    by (cases p; cases "tl p"; cases "tl (tl p)"; fastforce)
  then show ?case
  proof cases
    case (7 es)
    show ?thesis
    proof (cases "split_brace es")
      case None
      then show ?thesis using 7 less [of es] by (simp add: expand_equations)
    next
      case (Some kr)
      obtain k rest where kr: "kr = (k, rest)" by fastforce
      have "length rest < length p" using split_brace_shorter [of es k rest] Some kr 7 by simp
      then show ?thesis using Some kr 7 less [of es] less [of rest] key [of k]
        by (cases "map_of mdc k"; cases "map_of mdc' k") (auto simp: expand_equations)
    qed
  qed (use less in \<open>auto simp: expand_equations\<close>)
qed

text \<open>
  \<open>create\<close> does not put the values of the context into the pattern: two contexts with the same keys give the same pattern,
  whatever their values are. A placeholder is replaced by its own key.
\<close>

theorem create_ignores_values:
  assumes "dom (map_of mdc) = dom (map_of mdc')"
  shows "log_create sv name mdc = log_create sv name mdc'"
  unfolding log_create_def expand_same_keys [OF assms] ..

theorem create_ignores_values_witness:
  "log_create demo_service ''root'' [(''id'', ''1'')] = log_create demo_service ''root'' [(''id'', ''2'')]"
  by (rule create_ignores_values) simp

lemma expand_key: "expand [(''id'', ''17'')] ''%v %X{id}'' = Inr ''%v id''"
  by code_simp

lemma expand_at_end: "expand mdc ''%'' = Inl OutOfBounds" "expand mdc ''%X'' = Inl OutOfBounds"
  by (simp_all add: expand_equations)

end
