(* ===== verification/Application.thy ===== *)
theory Application
  imports Logging Thread_Safe_LRU Service_Start
begin

text \<open>
  The application (\<^verbatim>\<open>src/main.cpp\<close>): reading the options, building the logging, storage and network services from them, starting
  and stopping these in order, and waiting for a signal in between. The parser of the command line is a library; its outcome
  is an argument.
\<close>

section \<open>Configuration\<close>

text \<open>The value of an option, where it was given.\<close>

record app_options =
  o_logger :: "string option"
  o_storage :: "string option"
  o_network :: "string option"

datatype config_error = UnknownLogger | UnknownStorage | UnknownNetwork

datatype app_storage = Simple lru | Thread_safe ts_lru

datatype app_server = STblocking | MTblocking | STnonblock | MTnonblock

record application =
  app_logConfig :: log_config
  app_logService :: log_service
  app_storage :: app_storage
  app_server :: app_server

definition option_value :: "string \<Rightarrow> string option \<Rightarrow> string" where
  "option_value def_val opt = (case opt of None \<Rightarrow> def_val | Some v \<Rightarrow> v)"

definition logger_level :: "string \<Rightarrow> level option" where
  "logger_level logger_type =
     (if logger_type = ''warn'' then Some WARNING
      else if logger_type = ''info'' then Some INFO
      else if logger_type = ''critical'' then Some CRITICAL
      else if logger_type = ''error'' then Some ERROR
      else if logger_type = ''debug'' then Some DEBUG
      else if logger_type = ''trace'' then Some TRACE
      else None)"

text \<open>The appender of the console; \<open>history_to_keep\<close> is not initialised by its constructor.\<close>

definition console_appender :: "int \<Rightarrow> appender" where
  "console_appender garbage = \<lparr>ap_type = STDOUT, ap_color = True, ap_file = [], ap_suffix = [], ap_rotate_at_hours = -1, ap_rotate_at_mins = -1,
     ap_rotate_at_size = 0, ap_history_to_keep = garbage, ap_ident = [], ap_option = 0, ap_facility = 0\<rparr>"

definition root_logger_cfg :: "level \<Rightarrow> logger_cfg" where
  "root_logger_cfg lvl = \<lparr>lc_level = lvl, lc_format = ''[%H:%M:%S %z] [thread %t] [%n] [%l] %v'', lc_appenders = [''console'']\<rparr>"

definition make_storage :: "string \<Rightarrow> app_storage option" where
  "make_storage storage_type =
     (if storage_type = ''st_lru'' then Some (Simple (SimpleLRU 1024))
      else if storage_type = ''mt_lru'' then Some (Thread_safe (ThreadSafeSimplLRU 1024))
      else None)"

definition make_server :: "string \<Rightarrow> app_server option" where
  "make_server network_type =
     (if network_type = ''st_block'' then Some STblocking
      else if network_type = ''mt_block'' then Some MTblocking
      else if network_type = ''st_nonblock'' then Some STnonblock
      else if network_type = ''mt_nonblock'' then Some MTnonblock
      else None)"

definition Configure :: "int \<Rightarrow> app_options \<Rightarrow> config_error + application" where
  "Configure garbage opts =
     (case logger_level (option_value ''warn'' (o_logger opts)) of
        None \<Rightarrow> Inl UnknownLogger
      | Some lvl \<Rightarrow>
          (case make_storage (option_value ''st_lru'' (o_storage opts)) of
             None \<Rightarrow> Inl UnknownStorage
           | Some st \<Rightarrow>
               (case make_server (option_value ''st_block'' (o_network opts)) of
                  None \<Rightarrow> Inl UnknownNetwork
                | Some srv \<Rightarrow> Inr
                    \<lparr>app_logConfig = \<lparr>cfg_appenders = [(''console'', console_appender garbage)], cfg_loggers = [(''root'', root_logger_cfg lvl)]\<rparr>,
                     app_logService = \<lparr>ls_heap = [], ls_registry = [], ls_root = None\<rparr>, app_storage = st, app_server = srv\<rparr>)))"

section \<open>Start and Stop\<close>

text \<open>What the application does to its services, in order.\<close>

datatype app_event = Log_started | Warned string | Storage_started | Server_started nat nat | Server_stopped | Server_joined
  | Storage_stopped | Log_stopped

datatype app_error = Logging_failed log_error | Null_logger | Network_failed start_error

definition server_Start :: "app_server \<Rightarrow> start_env \<Rightarrow> start_result" where
  "server_Start srv e =
     (case srv of STblocking \<Rightarrow> st_blocking_Start e | MTblocking \<Rightarrow> mt_blocking_Start e
      | STnonblock \<Rightarrow> st_nonblocking_Start e | MTnonblock \<Rightarrow> mt_nonblocking_Start 4 4 e)"

definition app_Start :: "start_env \<Rightarrow> application \<Rightarrow> (app_error + application) \<times> app_event list" where
  "app_Start e app =
     (case log_Start (app_logConfig app) (app_logService app) of
        Inl er \<Rightarrow> (Inl (Logging_failed er), [])
      | Inr sv \<Rightarrow>
          (case select sv ''root'' of
             None \<Rightarrow> (Inl Null_logger, [Log_started])
           | Some lg \<Rightarrow>
               let done = [Log_started, Warned ''Start afina server'', Warned ''Start storage'', Storage_started, Warned ''Start network on 8080''] in
               (case fst (server_Start (app_server app) e) of
                  Inl er \<Rightarrow> (Inl (Network_failed er), done)
                | Inr (workers, acceptors) \<Rightarrow> (Inr (app\<lparr>app_logService := sv\<rparr>), done @ [Server_started workers acceptors]))))"

text \<open>
  \<open>Stop\<close> makes its calls one after the other; the flag says whether the server could wake up its threads. The calls are kept as
  events: \<open>Stop\<close> of the storage and of the logging service have empty bodies, and what \<open>Stop\<close> and \<open>Join\<close> of a server do is in the
  theories of the services.
\<close>

definition app_Stop :: "bool \<Rightarrow> application \<Rightarrow> (app_error + application) \<times> app_event list" where
  "app_Stop wakes app =
     (case select (app_logService app) ''root'' of
        None \<Rightarrow> (Inl Null_logger, [])
      | Some lg \<Rightarrow>
          if wakes then (Inr app, [Warned ''Stop application'', Server_stopped, Server_joined, Storage_stopped, Log_stopped])
          else (Inl (Network_failed EventfdFailed), [Warned ''Stop application'']))"

section \<open>main\<close>

text \<open>
  The wait of the main thread: it reads \<open>stop_reason\<close>, and if that is still zero waits for the semaphore. The list holds
  the reason it reads and the outcome of the wait, turn by turn; the result is the number of turns.
\<close>

datatype sem_result = Sem_ok | Sem_interrupted | Sem_error

fun wait_stop :: "(int \<times> sem_result) list \<Rightarrow> nat option" where
  "wait_stop [] = None"
| "wait_stop ((stop_reason, r) # ws) = (if stop_reason = 0 \<and> r = Sem_interrupted then map_option Suc (wait_stop ws) else Some 0)"

datatype parsed = Parse_error | Help | Parsed app_options

datatype main_end = Exit int | Terminated config_error | Semaphore_failed | Waiting

definition app_main :: "int \<Rightarrow> parsed \<Rightarrow> bool \<Rightarrow> start_env \<Rightarrow> (int \<times> sem_result) list \<Rightarrow> bool \<Rightarrow> main_end \<times> app_event list" where
  "app_main garbage cmdline sem_ok e ws wakes =
     (case cmdline of
        Parse_error \<Rightarrow> (Exit 1, [])
      | Help \<Rightarrow> (Exit 0, [])
      | Parsed opts \<Rightarrow>
          (case Configure garbage opts of
             Inl er \<Rightarrow> (Terminated er, [])
           | Inr app \<Rightarrow>
               if \<not> sem_ok then (Semaphore_failed, [])
               else (case app_Start e app of
                   (Inl er, evs) \<Rightarrow> (Exit 0, evs)
                 | (Inr app', evs) \<Rightarrow>
                     (case wait_stop ws of
                        None \<Rightarrow> (Waiting, evs)
                      | Some n \<Rightarrow> (case app_Stop wakes app' of (r, evs') \<Rightarrow> (Exit 0, evs @ evs'))))))"

section \<open>What is logged where\<close>

lemma select_only_root:
  "ls_registry sv = [(''root'', lg)] \<Longrightarrow> ls_root sv = Some lg \<Longrightarrow> select_loop sv name = Some lg"
  by (induction sv name rule: select_loop.induct) (subst select_loop.simps, auto simp: Let_def split: option.splits)

lemma Configure_log_Start:
  assumes "Configure garbage opts = Inr app" "logger_level (option_value ''warn'' (o_logger opts)) = Some lvl"
  obtains sv lg where "log_Start (app_logConfig app) (app_logService app) = Inr sv" "ls_registry sv = [(''root'', lg)]" "ls_root sv = Some lg"
    "configured (root_logger_cfg lvl) ''root'' lg" "lg_sinks lg = [Some 1]" "ls_heap sv = [StdoutSink, ColorSink (Some 0)]"
proof -
  let ?lg = "\<lparr>lg_name = ''root'', lg_sinks = [Some 1], lg_level = spd_level_of lvl, lg_pattern = lc_format (root_logger_cfg lvl), lg_flush_on = Spd_err\<rparr>"
  have "log_Start (app_logConfig app) (app_logService app) =
      Inr \<lparr>ls_heap = [StdoutSink, ColorSink (Some 0)], ls_registry = [(''root'', ?lg)], ls_root = Some ?lg\<rparr>"
    using assms by (auto simp: Configure_def log_Start_def build_appender_def console_appender_def colored_def new_sink_def
        logger_sink_def root_logger_cfg_def sink_named_def register_logger_def split: option.splits)
  then show thesis by (rule that [of _ ?lg]) (simp_all add: configured_def root_logger_cfg_def)
qed

text \<open>
  Whatever options are accepted, the logging service starts, and from then on every logger that any component selects, of
  whatever name, is the root logger with the level of the options, writing to the coloured console. The start succeeds exactly
  when the network service starts.
\<close>

theorem application_starts:
  assumes "Configure garbage opts = Inr app" "logger_level (option_value ''warn'' (o_logger opts)) = Some lvl"
  shows "\<exists>sv lg. log_Start (app_logConfig app) (app_logService app) = Inr sv \<and> configured (root_logger_cfg lvl) ''root'' lg \<and>
    lg_sinks lg = [Some 1] \<and> ls_heap sv = [StdoutSink, ColorSink (Some 0)] \<and> (\<forall>name. select sv name = Some lg) \<and>
    (case fst (server_Start (app_server app) e) of
       Inl er \<Rightarrow> fst (app_Start e app) = Inl (Network_failed er)
     | Inr n \<Rightarrow> fst (app_Start e app) = Inr (app\<lparr>app_logService := sv\<rparr>))"
proof -
  obtain sv lg where s: "log_Start (app_logConfig app) (app_logService app) = Inr sv" "ls_registry sv = [(''root'', lg)]" "ls_root sv = Some lg"
    "configured (root_logger_cfg lvl) ''root'' lg" "lg_sinks lg = [Some 1]" "ls_heap sv = [StdoutSink, ColorSink (Some 0)]"
    by (rule Configure_log_Start [OF assms])
  have sel: "select sv name = Some lg" for name using select_only_root [OF s(2,3)] by (simp add: select_def)
  then show ?thesis using s
    by (intro exI [of _ sv] exI [of _ lg]) (auto simp: app_Start_def Let_def split: sum.splits)
qed

definition default_options :: app_options where
  "default_options = \<lparr>o_logger = None, o_storage = None, o_network = None\<rparr>"

theorem application_starts_witness:
  "\<exists>app sv lg. Configure 0 default_options = Inr app \<and> log_Start (app_logConfig app) (app_logService app) = Inr sv \<and>
     select sv ''network.worker'' = Some lg \<and> lg_level lg = Spd_warn"
proof -
  obtain app where app: "Configure 0 default_options = Inr app"
    by (simp add: Configure_def default_options_def option_value_def logger_level_def make_storage_def make_server_def)
  moreover have "logger_level (option_value ''warn'' (o_logger default_options)) = Some WARNING"
    by (simp add: default_options_def option_value_def logger_level_def)
  ultimately show ?thesis using application_starts [OF app, of WARNING undefined]
    by (auto simp: configured_def root_logger_cfg_def spd_level_of_def)
qed

text \<open>
  The options may combine the storage without a lock with a server that executes commands on several threads; nothing is
  said about it.
\<close>

definition unsynchronised :: "application \<Rightarrow> bool" where
  "unsynchronised app \<longleftrightarrow> (case app_storage app of Simple s \<Rightarrow> True | Thread_safe s \<Rightarrow> False) \<and> app_server app \<in> {MTblocking, MTnonblock}"

theorem Configure_allows_races:
  "\<exists>app. Configure garbage \<lparr>o_logger = None, o_storage = None, o_network = Some ''mt_block''\<rparr> = Inr app \<and> unsynchronised app"
  by (simp add: Configure_def option_value_def logger_level_def make_storage_def make_server_def unsynchronised_def)

text \<open>The main thread stops waiting when it sees a signal, however often the wait was interrupted before.\<close>

lemma wait_stop_returns: "ws \<noteq> [] \<Longrightarrow> fst (last ws) \<noteq> 0 \<or> snd (last ws) \<noteq> Sem_interrupted \<Longrightarrow> wait_stop ws \<noteq> None"
  by (induction ws rule: wait_stop.induct) (auto split: if_splits)

end
