(* ===== verification/Nonblocking_Connection.thy ===== *)
theory Nonblocking_Connection
  imports Sessions
begin

text \<open>
  The connections of the nonblocking services, \<^verbatim>\<open>{st,mt}_nonblocking/Connection.{h,cpp}\<close>: results are queued in
  \<open>_results\<close> and written when the socket is ready; the mask of awaited events is a 32-bit word. The two copies
  of the class differ in their masks only, which is the parameter \<open>extra\<close> here.
\<close>

unbundle bit_operations_syntax

section \<open>Event masks\<close>

definition EPOLLIN :: u32 where "EPOLLIN = 0x001"
definition EPOLLOUT :: u32 where "EPOLLOUT = 0x004"
definition EPOLLERR :: u32 where "EPOLLERR = 0x008"
definition EPOLLHUP :: u32 where "EPOLLHUP = 0x010"
definition EPOLLRDHUP :: u32 where "EPOLLRDHUP = 0x2000"
definition EPOLLONESHOT :: u32 where "EPOLLONESHOT = 0x40000000"
definition EPOLLET :: u32 where "EPOLLET = 0x80000000"

lemmas epoll_defs = EPOLLIN_def EPOLLOUT_def EPOLLERR_def EPOLLHUP_def EPOLLRDHUP_def EPOLLONESHOT_def EPOLLET_def

definition has_event :: "u32 \<Rightarrow> u32 \<Rightarrow> bool" where
  "has_event m e \<longleftrightarrow> m AND e \<noteq> 0"

definition read_mask :: "u32 \<Rightarrow> u32" where
  "read_mask extra = EPOLLIN OR EPOLLRDHUP OR extra"

definition write_mask :: "u32 \<Rightarrow> u32" where
  "write_mask extra = EPOLLOUT OR EPOLLIN OR EPOLLRDHUP OR extra"

text \<open>The masks of the single-threaded and of the multi-threaded service.\<close>

definition st_extra :: u32 where "st_extra = 0"
definition mt_extra :: u32 where "mt_extra = EPOLLERR"

lemma masks_watch:
  "extra \<in> {st_extra, mt_extra} \<Longrightarrow>
   has_event (read_mask extra) EPOLLIN \<and> \<not> has_event (read_mask extra) EPOLLOUT \<and> has_event (write_mask extra) EPOLLOUT"
  by (auto simp: has_event_def read_mask_def write_mask_def st_extra_def mt_extra_def epoll_defs)

section \<open>Connections\<close>

record nb_sink =
  nb_results :: string
  nb_events :: u32

record 's connection =
  nc_socket :: int
  nc_alive :: bool
  nc_state :: "('s, nb_sink) cstate"

definition new_Connection :: "int \<Rightarrow> 's \<Rightarrow> bool \<Rightarrow> bool \<Rightarrow> 's connection" where
  "new_Connection fd st alive_garbage negative_garbage =
     \<lparr>nc_socket = fd, nc_alive = alive_garbage, nc_state = init_conn st \<lparr>nb_results = [], nb_events = 0\<rparr> negative_garbage\<rparr>"

definition set_events :: "u32 \<Rightarrow> 's connection \<Rightarrow> 's connection" where
  "set_events m c = c\<lparr>nc_state := (nc_state c)\<lparr>cs_sink := (cs_sink (nc_state c))\<lparr>nb_events := m\<rparr>\<rparr>\<rparr>"

definition events_of :: "'s connection \<Rightarrow> u32" where
  "events_of c = nb_events (cs_sink (nc_state c))"

definition results_of :: "'s connection \<Rightarrow> string" where
  "results_of c = nb_results (cs_sink (nc_state c))"

definition Connection_Start :: "u32 \<Rightarrow> 's connection \<Rightarrow> 's connection" where
  "Connection_Start extra c = set_events (read_mask extra) (c\<lparr>nc_alive := True\<rparr>)"

definition Connection_OnClose :: "'s connection \<Rightarrow> 's connection" where
  "Connection_OnClose c = c\<lparr>nc_alive := False\<rparr>"

definition Connection_OnError :: "'s connection \<Rightarrow> 's connection" where
  "Connection_OnError c = Connection_OnClose c"

definition nb_deliver :: "u32 \<Rightarrow> nb_sink deliver" where
  "nb_deliver extra result k =
     (True, k\<lparr>nb_results := nb_results k @ (result @ crlf), nb_events := write_mask extra\<rparr>)"

definition DoRead :: "u32 \<Rightarrow> 's storage_ops \<Rightarrow> read_result list \<Rightarrow> 's connection \<Rightarrow> fault + 's connection" where
  "DoRead extra ops reads c =
     (case read_loop ops (nb_deliver extra) (nc_state c) reads of
        (Failed (ExecuteFault f), s) \<Rightarrow> Inl f
      | (Failed e, s) \<Rightarrow> Inr (c\<lparr>nc_state := s, nc_alive := False\<rparr>)
      | (ReadFailed, s) \<Rightarrow> Inr (c\<lparr>nc_state := s, nc_alive := False\<rparr>)
      | (ClosedByPeer, s) \<Rightarrow> Inr (c\<lparr>nc_state := s\<rparr>)
      | (WouldBlock, s) \<Rightarrow> Inr (c\<lparr>nc_state := s\<rparr>))"

text \<open>
  \<open>DoWrite\<close>: \<open>n\<close> is what \<open>send\<close> returns. The source keeps it in an \<open>unsigned long\<close>, so the comparison with
  zero is unsigned. The bytes taken by the kernel are appended to the wire.
\<close>

definition DoWrite :: "u32 \<Rightarrow> int \<Rightarrow> 's connection \<Rightarrow> string \<Rightarrow> 's connection \<times> string" where
  "DoWrite extra n c wire =
     (let send_b = word_of_int n :: size_t;
          wire' = wire @ take (nat n) (results_of c);
          k = cs_sink (nc_state c) in
      if send_b \<le> 0 then (c\<lparr>nc_alive := False\<rparr>, wire')
      else if send_b \<ge> of_nat (length (results_of c)) then
        (c\<lparr>nc_state := (nc_state c)\<lparr>cs_sink := k\<lparr>nb_results := [], nb_events := read_mask extra\<rparr>\<rparr>\<rparr>, wire')
      else
        (c\<lparr>nc_state := (nc_state c)\<lparr>cs_sink := k\<lparr>nb_results := drop (unat send_b) (results_of c),
           nb_events := write_mask extra\<rparr>\<rparr>\<rparr>, wire'))"

text \<open>The methods of the two classes.\<close>

definition st_Start :: "'s connection \<Rightarrow> 's connection" where
  "st_Start = Connection_Start st_extra"

definition st_DoRead :: "'s storage_ops \<Rightarrow> read_result list \<Rightarrow> 's connection \<Rightarrow> fault + 's connection" where
  "st_DoRead = DoRead st_extra"

definition st_DoWrite :: "int \<Rightarrow> 's connection \<Rightarrow> string \<Rightarrow> 's connection \<times> string" where
  "st_DoWrite = DoWrite st_extra"

definition mt_Start :: "'s connection \<Rightarrow> 's connection" where
  "mt_Start = Connection_Start mt_extra"

definition mt_DoRead :: "'s storage_ops \<Rightarrow> read_result list \<Rightarrow> 's connection \<Rightarrow> fault + 's connection" where
  "mt_DoRead = DoRead mt_extra"

definition mt_DoWrite :: "int \<Rightarrow> 's connection \<Rightarrow> string \<Rightarrow> 's connection \<times> string" where
  "mt_DoWrite = DoWrite mt_extra"

section \<open>Reading\<close>

interpretation nb: delivery "nb_deliver extra" "\<lambda>r. r @ crlf" nb_results "\<lambda>k. True" for extra
  by unfold_locales (auto simp: nb_deliver_def)

lemma read_loop_data:
  "read_loop ops deliver s (map Data bufs @ rs) =
     (case process_all ops deliver s bufs of (Some e, s') \<Rightarrow> (Failed e, s') | (None, s') \<Rightarrow> read_loop ops deliver s' rs)"
  by (induction bufs arbitrary: s) (auto split: prod.splits option.splits)

text \<open>
  C13. A nonblocking connection gives every well-formed session its exact answer, in whatever pieces it is read until the
  socket has no more data, and whatever the storage does. Well-formed are requests \<open>set\<close>, \<open>add\<close> or \<open>append\<close> with a key
  without a blank, flags below 2 to the 32, an expiration time below 2 to the 31 in absolute value and a data block of any length below
  2 to the 32, and \<open>get\<close> of one or more keys without blank or carriage return. The requests are executed in order and each
  result is queued with a line end behind it, until a command faults, which leaves the reading with that fault, or a block of
  zero bytes has been stored, whose line end is taken for an unknown command: then the connection is no longer alive.
  Otherwise it stays as alive as it was. If no block is empty and no command faults, all requests are executed
  and exactly their framed results are queued.
\<close>

theorem nonblocking_session:
  assumes "fresh_conn (nc_state c)" "list_all request_ok rs" "concat bufs = concat (map request_text rs)"
  shows "(case answer ops (nb_deliver extra) rs (cs_store (nc_state c)) (cs_sink (nc_state c)) of
      (Some (ExecuteFault f), st, k) \<Rightarrow> DoRead extra ops (map Data bufs @ [ReadErr True]) c = Inl f
    | (r, st, k) \<Rightarrow> \<exists>c'. DoRead extra ops (map Data bufs @ [ReadErr True]) c = Inr c' \<and>
        nc_alive c' = (nc_alive c \<and> r = None) \<and> cs_store (nc_state c') = st \<and> cs_sink (nc_state c') = k) \<and>
    (\<forall>outs st'. list_all (\<lambda>r. \<not> empty_block r) rs \<longrightarrow> exec_all ops rs (cs_store (nc_state c)) = Inr (outs, st') \<longrightarrow>
      (\<exists>c'. DoRead extra ops (map Data bufs @ [ReadErr True]) c = Inr c' \<and> nc_alive c' = nc_alive c \<and>
        cs_store (nc_state c') = st' \<and> results_of c' = results_of c @ concat (map (\<lambda>out. out @ crlf) outs)))"
proof -
  obtain r st k where a: "answer ops (nb_deliver extra) rs (cs_store (nc_state c)) (cs_sink (nc_state c)) = (r, st, k)"
    by (cases "answer ops (nb_deliver extra) rs (cs_store (nc_state c)) (cs_sink (nc_state c))") auto
  obtain s' where p: "process_all ops (nb_deliver extra) (nc_state c) bufs = (r, s')" "cs_store s' = st" "cs_sink s' = k"
    using process_answer [OF assms a] by blast
  have good: "r = None \<and> st = st' \<and> nb_results k = results_of c @ concat (map (\<lambda>out. out @ crlf) outs)"
    if "list_all (\<lambda>r. \<not> empty_block r) rs" "exec_all ops rs (cs_store (nc_state c)) = Inr (outs, st')" for outs st'
    using nb.answer_delivers [OF that(1) _ that(2), of extra "cs_sink (nc_state c)"] a by (auto simp: results_of_def)
  consider f where "r = Some (ExecuteFault f)" | e where "r = Some e" "\<And>f. e \<noteq> ExecuteFault f" | "r = None"
    by (cases r) auto
  then show ?thesis
  proof cases
    case 1
    then show ?thesis using a p good by (auto simp: DoRead_def read_loop_data)
  next
    case 2
    then have "DoRead extra ops (map Data bufs @ [ReadErr True]) c = Inr (c\<lparr>nc_state := s', nc_alive := False\<rparr>)"
      using p by (auto simp: DoRead_def read_loop_data split: conn_error.splits)
    then show ?thesis using a p good 2 by (auto split: conn_error.splits)
  next
    case 3
    then have "DoRead extra ops (map Data bufs @ [ReadErr True]) c = Inr (c\<lparr>nc_state := s'\<rparr>)"
      using p by (simp add: DoRead_def read_loop_data)
    then show ?thesis using a p good 3 by (auto simp: results_of_def)
  qed
qed

theorem nonblocking_session_witness:
  "\<exists>c'. st_DoRead lru_ops (map Data (map request_text [Store ''set'' ''k'' 0 0 ''abc'', Fetch [''k'']]) @ [ReadErr True])
      (st_Start (new_Connection 5 (SimpleLRU 10) False False)) = Inr c' \<and> nc_alive c' \<and>
    results_of c' = ''STORED'' @ crlf @ ''VALUE k 0 5'' @ crlf @ ''abc'' @ crlf @ crlf @ ''END'' @ crlf"
proof -
  let ?rs = "[Store ''set'' ''k'' 0 0 ''abc'', Fetch [''k'']]"
  let ?c = "st_Start (new_Connection 5 (SimpleLRU 10) False False)"
  have s: "fresh_conn (nc_state ?c)" "cs_store (nc_state ?c) = SimpleLRU 10" "nc_alive ?c" "results_of ?c = []"
    using init_conn_fresh
    by (simp_all add: st_Start_def Connection_Start_def set_events_def new_Connection_def fresh_conn_def init_conn_def results_of_def)
  obtain st where e: "exec_all lru_ops ?rs (cs_store (nc_state ?c)) =
      Inr ([''STORED'', ''VALUE k 0 5'' @ crlf @ ''abc'' @ crlf @ crlf @ ''END''], st)" by (rule exec_demo_obtain [OF s(2)])
  have ok: "list_all request_ok ?rs" "list_all (\<lambda>r. \<not> empty_block r) ?rs" by simp_all
  show ?thesis
    using nonblocking_session [OF s(1) ok(1) refl, of st_extra lru_ops, THEN conjunct2, rule_format, OF ok(2) e] s(3,4)
    by (auto simp: st_DoRead_def)
qed

section \<open>Writing\<close>

text \<open>
  When \<open>send\<close> takes some of the queued bytes, no byte is lost, duplicated or reordered: what is on
  the wire followed by what is queued stays the same, the queue shrinks, and the connection waits for the
  socket to be writable exactly while bytes are queued.
\<close>

theorem DoWrite_conserves:
  assumes "extra \<in> {st_extra, mt_extra}" "0 < n" "n \<le> int (length (results_of c))" "length (results_of c) < 2 ^ 63"
    and "DoWrite extra n c wire = (c', wire')"
  shows "wire' @ results_of c' = wire @ results_of c \<and> length (results_of c') = length (results_of c) - nat n \<and>
    nc_alive c' = nc_alive c \<and> has_event (events_of c') EPOLLOUT = (results_of c' \<noteq> [])"
proof -
  define m where "m = nat n"
  have n: "n = int m" "0 < m" "m \<le> length (results_of c)" "m < 2 ^ 64" using assms(2-4) by (auto simp: m_def)
  have w: "word_of_int n = (of_nat m :: size_t)" by (simp add: n(1))
  have um: "unat (of_nat m :: size_t) = m" "unat (of_nat (length (results_of c)) :: size_t) = length (results_of c)"
    using n(4) assms(4) by (simp_all add: unat_of_nat)
  have pos: "\<not> (of_nat m :: size_t) \<le> 0" using um(1) n(2) by (metis unat_0 word_le_0_iff less_irrefl)
  show ?thesis
  proof (cases "m = length (results_of c)")
    case True
    then show ?thesis
      using assms(5) n pos w masks_watch [OF assms(1)]
      by (auto simp: DoWrite_def Let_def results_of_def events_of_def)
  next
    case False
    then have "\<not> (of_nat (length (results_of c)) :: size_t) \<le> of_nat m" using um n(3) by (simp add: word_le_nat_alt)
    then show ?thesis
      using assms(5) n pos w um False masks_watch [OF assms(1)]
      by (auto simp: DoWrite_def Let_def results_of_def events_of_def)
  qed
qed

definition demo_conn :: "lru connection" where
  "demo_conn = \<lparr>nc_socket = 5, nc_alive = True, nc_state = init_conn (SimpleLRU 10) \<lparr>nb_results = ''STORED'', nb_events = 5\<rparr> False\<rparr>"

theorem DoWrite_conserves_witness:
  "snd (st_DoWrite 4 demo_conn ''x'') @ results_of (fst (st_DoWrite 4 demo_conn ''x'')) = ''xSTORED''"
  using DoWrite_conserves [of st_extra 4 demo_conn "''x''", OF _ _ _ _ prod.collapse [symmetric]]
  by (simp add: st_DoWrite_def results_of_def demo_conn_def init_conn_def)

text \<open>
  When \<open>send\<close> fails with -1 the connection is not closed: the unsigned comparison takes the failure for
  success, all queued results are dropped without a byte on the wire and the connection stays alive.
\<close>

theorem DoWrite_failure_unnoticed:
  "case DoWrite extra (-1) c wire of (c', wire') \<Rightarrow>
     wire' = wire \<and> results_of c' = [] \<and> nc_alive c' = nc_alive c \<and> events_of c' = read_mask extra"
proof -
  have "of_nat (length (results_of c)) \<le> (- 1 :: size_t)" by simp
  then show ?thesis by (simp add: DoWrite_def Let_def results_of_def events_of_def)
qed

end
