(* ===== verification/Nonblocking_Services.thy ===== *)
theory Nonblocking_Services
  imports Nonblocking_Connection
begin

text \<open>
  The event loops of the nonblocking services: \<^verbatim>\<open>st_nonblocking/ServerImpl.cpp\<close>, which owns its connections
  in a map of \<open>unique_ptr\<close>, and \<^verbatim>\<open>mt_nonblocking/{ServerImpl,Worker}.cpp\<close>, whose workers delete
  connections that the map of the server owns. Connections live in an explicit heap; a freed cell is \<open>None\<close>,
  and touching it is a fault.
\<close>

section \<open>State\<close>

record 's nb_server =
  ns_store :: 's
  ns_heap :: "'s connection option list"
  ns_connections :: "int \<rightharpoonup> nat"
  ns_wire :: "int \<Rightarrow> string"
  ns_closed :: "int list"

definition nb_server_init :: "'s \<Rightarrow> 's nb_server" where
  "nb_server_init st = \<lparr>ns_store = st, ns_heap = [], ns_connections = Map.empty, ns_wire = (\<lambda>_. []), ns_closed = []\<rparr>"

text \<open>
  What the operating system answers while an event is handled: the reads, the result of \<open>send\<close>, and
  whether \<open>epoll_ctl\<close> succeeds.
\<close>

record event_env =
  ev_reads :: "read_result list"
  ev_send :: int
  ev_ctl_ok :: bool

definition load_conn :: "'s nb_server \<Rightarrow> nat \<Rightarrow> fault + 's connection" where
  "load_conn sv a =
     (if a < length (ns_heap sv) then
        case ns_heap sv ! a of None \<Rightarrow> Inl UseAfterFree
        | Some c \<Rightarrow> Inr (c\<lparr>nc_state := (nc_state c)\<lparr>cs_store := ns_store sv\<rparr>\<rparr>)
      else Inl UseAfterFree)"

definition store_conn :: "'s nb_server \<Rightarrow> nat \<Rightarrow> 's connection \<Rightarrow> 's nb_server" where
  "store_conn sv a c = sv\<lparr>ns_heap := (ns_heap sv)[a := Some c], ns_store := cs_store (nc_state c)\<rparr>"

text \<open>\<open>delete\<close> of a connection runs its destructor, which closes the socket.\<close>

definition delete_conn :: "'s nb_server \<Rightarrow> nat \<Rightarrow> fault + 's nb_server" where
  "delete_conn sv a =
     (if a < length (ns_heap sv) then
        case ns_heap sv ! a of None \<Rightarrow> Inl DoubleFree
        | Some c \<Rightarrow> Inr (sv\<lparr>ns_heap := (ns_heap sv)[a := None], ns_closed := ns_closed sv @ [nc_socket c]\<rparr>)
      else Inl DoubleFree)"

section \<open>Handling an event\<close>

text \<open>The part both services share: react to the event mask, reading before writing.\<close>

definition dispatch ::
  "u32 \<Rightarrow> 's storage_ops \<Rightarrow> u32 \<Rightarrow> event_env \<Rightarrow> 's connection \<Rightarrow> string \<Rightarrow> fault + 's connection \<times> string" where
  "dispatch extra ops events env c wire =
     (if has_event events EPOLLERR \<or> has_event events EPOLLHUP then Inr (Connection_OnError c, wire)
      else if has_event events EPOLLRDHUP then Inr (Connection_OnClose c, wire)
      else rbind (if has_event events EPOLLIN then DoRead extra ops (ev_reads env) c else Inr c) (\<lambda>c1.
        Inr (if has_event events EPOLLOUT then DoWrite extra (ev_send env) c1 wire else (c1, wire))))"

definition st_handle_event ::
  "'s storage_ops \<Rightarrow> nat \<Rightarrow> u32 \<Rightarrow> event_env \<Rightarrow> 's nb_server \<Rightarrow> fault + 's nb_server" where
  "st_handle_event ops a events env sv =
     rbind (load_conn sv a) (\<lambda>c.
     let old_mask = events_of c in
     rbind (dispatch st_extra ops events env c (ns_wire sv (nc_socket c))) (\<lambda>(c', wire').
     let sv1 = (store_conn sv a c')\<lparr>ns_wire := (ns_wire sv)(nc_socket c' := wire')\<rparr> in
     if \<not> nc_alive c' then
       let owned = ns_connections sv1 (nc_socket c');
           sv2 = sv1\<lparr>ns_connections := (ns_connections sv1)(nc_socket c' := None)\<rparr> in
       rbind (load_conn sv2 a) (\<lambda>pc.
       let sv3 = store_conn sv2 a (Connection_OnClose pc) in
       (case owned of None \<Rightarrow> Inr sv3 | Some b \<Rightarrow> delete_conn sv3 b))
     else if events_of c' \<noteq> old_mask \<and> \<not> ev_ctl_ok env then
       rbind (case ns_connections sv1 (nc_socket c') of None \<Rightarrow> Inr sv1 | Some b \<Rightarrow>
           delete_conn (sv1\<lparr>ns_connections := (ns_connections sv1)(nc_socket c' := None)\<rparr>) b) (\<lambda>sv2.
       rbind (load_conn sv2 a) (\<lambda>pc. delete_conn (store_conn sv2 a (Connection_OnError pc)) a))
     else Inr sv1))"

definition mt_handle_event ::
  "'s storage_ops \<Rightarrow> nat \<Rightarrow> u32 \<Rightarrow> event_env \<Rightarrow> 's nb_server \<Rightarrow> fault + 's nb_server" where
  "mt_handle_event ops a events env sv =
     rbind (load_conn sv a) (\<lambda>c.
     rbind (dispatch mt_extra ops events env c (ns_wire sv (nc_socket c))) (\<lambda>(c', wire').
     if nc_alive c' then
       let c2 = set_events (events_of c' OR EPOLLONESHOT) c';
           sv1 = (store_conn sv a c2)\<lparr>ns_wire := (ns_wire sv)(nc_socket c' := wire')\<rparr> in
       if ev_ctl_ok env then Inr sv1 else delete_conn (store_conn sv1 a (Connection_OnError c2)) a
     else delete_conn ((store_conn sv a c')\<lparr>ns_wire := (ns_wire sv)(nc_socket c' := wire')\<rparr>) a))"

section \<open>New connections, stopping\<close>

text \<open>
  One turn of the accept loop for the descriptor \<open>fd\<close>: the connection is created, started, registered
  with epoll and put into the map; \<open>insert\<close> into a map that has the key destroys the new object.
\<close>

definition nb_accept :: "u32 \<Rightarrow> u32 \<Rightarrow> int \<Rightarrow> bool \<Rightarrow> 's nb_server \<Rightarrow> fault + bool \<times> 's nb_server" where
  "nb_accept extra mods fd ctl_ok sv =
     (let a = length (ns_heap sv);
          c0 = Connection_Start extra (new_Connection fd (ns_store sv) False False);
          c = set_events (events_of c0 OR mods) c0;
          sv1 = sv\<lparr>ns_heap := ns_heap sv @ [Some c]\<rparr> in
      if ctl_ok then
        (case ns_connections sv1 fd of
           None \<Rightarrow> Inr (True, sv1\<lparr>ns_connections := (ns_connections sv1)(fd \<mapsto> a)\<rparr>)
         | Some b \<Rightarrow> rbind (delete_conn sv1 a) (\<lambda>sv2. Inr (True, sv2)))
      else rbind (delete_conn (store_conn sv1 a (Connection_OnError c)) a) (\<lambda>sv2. Inr (False, sv2)))"

definition st_OnNewConnection_turn :: "int \<Rightarrow> bool \<Rightarrow> 's nb_server \<Rightarrow> fault + bool \<times> 's nb_server" where
  "st_OnNewConnection_turn fd ctl_ok sv = nb_accept st_extra 0 fd ctl_ok sv"

definition mt_accept_turn :: "int \<Rightarrow> bool \<Rightarrow> 's nb_server \<Rightarrow> fault + bool \<times> 's nb_server" where
  "mt_accept_turn fd ctl_ok sv = nb_accept mt_extra (EPOLLET OR EPOLLONESHOT) fd ctl_ok sv"

text \<open>\<open>Stop\<close> destroys every connection the map owns, then clears the map.\<close>

fun destroy_conns :: "int list \<Rightarrow> 's nb_server \<Rightarrow> fault + 's nb_server" where
  "destroy_conns [] sv = Inr sv"
| "destroy_conns (fd # fds) sv =
     (case ns_connections sv fd of None \<Rightarrow> destroy_conns fds sv
      | Some a \<Rightarrow> rbind (delete_conn sv a) (destroy_conns fds))"

definition nb_Stop :: "int list \<Rightarrow> 's nb_server \<Rightarrow> fault + 's nb_server" where
  "nb_Stop keys sv = rbind (destroy_conns keys sv) (\<lambda>sv'. Inr (sv'\<lparr>ns_connections := Map.empty\<rparr>))"

section \<open>Ownership in the single-threaded service\<close>

text \<open>
  Every connection the map owns is allocated and registered under its own descriptor, and every
  allocated connection is owned.
\<close>

definition owned_inv :: "'s nb_server \<Rightarrow> bool" where
  "owned_inv sv \<longleftrightarrow> (\<forall>fd a. ns_connections sv fd = Some a \<longleftrightarrow>
     a < length (ns_heap sv) \<and> (\<exists>c. ns_heap sv ! a = Some c \<and> nc_socket c = fd \<and> nc_alive c))"

lemma owned_invD: "owned_inv sv \<Longrightarrow> ns_connections sv fd = Some a \<longleftrightarrow>
     a < length (ns_heap sv) \<and> (\<exists>c. ns_heap sv ! a = Some c \<and> nc_socket c = fd \<and> nc_alive c)"
  by (simp add: owned_inv_def)

lemma DoRead_socket: "DoRead extra ops reads c = Inr c' \<Longrightarrow> nc_socket c' = nc_socket c"
  by (auto simp: DoRead_def split: prod.splits conn_end.splits conn_error.splits)

lemma DoWrite_socket: "DoWrite extra n c wire = (c', wire') \<Longrightarrow> nc_socket c' = nc_socket c"
  by (auto simp: DoWrite_def Let_def split: if_splits)

lemma dispatch_socket: "dispatch extra ops events env c wire = Inr (c', wire') \<Longrightarrow> nc_socket c' = nc_socket c"
  by (auto simp: dispatch_def Connection_OnError_def Connection_OnClose_def res_simps split: if_splits
      dest!: DoRead_socket DoWrite_socket)

lemma load_conn_Inr:
  "load_conn sv a = Inr c \<longleftrightarrow> (\<exists>c0. a < length (ns_heap sv) \<and> ns_heap sv ! a = Some c0 \<and>
     c = c0\<lparr>nc_state := (nc_state c0)\<lparr>cs_store := ns_store sv\<rparr>\<rparr>)"
  by (auto simp: load_conn_def split: option.splits)

lemma owned_inv_update:
  assumes inv: "owned_inv sv" and a: "a < length (ns_heap sv)" "ns_heap sv ! a = Some c0" "nc_alive c0"
    and c: "nc_socket c = nc_socket c0" "nc_alive c"
    and sv': "ns_heap sv' = (ns_heap sv)[a := Some c]" "ns_connections sv' = ns_connections sv"
  shows "owned_inv sv'"
  unfolding owned_inv_def sv' using owned_invD [OF inv] a c by (auto simp: nth_list_update split: if_splits)

lemma owned_inv_delete:
  assumes inv: "owned_inv sv" and a: "a < length (ns_heap sv)" "ns_heap sv ! a = Some c0" "nc_alive c0"
    and sv': "ns_heap sv' = (ns_heap sv)[a := None]" "ns_connections sv' = (ns_connections sv)(nc_socket c0 := None)"
  shows "owned_inv sv'"
  unfolding owned_inv_def sv'
proof (intro allI)
  fix fd b
  have o: "ns_connections sv (nc_socket c0) = Some a" using owned_invD [OF inv] a by auto
  show "((ns_connections sv)(nc_socket c0 := None)) fd = Some b \<longleftrightarrow>
    b < length ((ns_heap sv)[a := None]) \<and> (\<exists>c. (ns_heap sv)[a := None] ! b = Some c \<and> nc_socket c = fd \<and> nc_alive c)"
  proof (cases "b = a")
    case True
    have "ns_connections sv fd = Some a \<Longrightarrow> fd = nc_socket c0" using owned_invD [OF inv, of fd a] a by auto
    then show ?thesis using True a(1) by auto
  next
    case False
    then have "ns_connections sv (nc_socket c0) \<noteq> Some b" using o by simp
    then show ?thesis using False owned_invD [OF inv, of fd b] by (auto simp: nth_list_update)
  qed
qed

text \<open>Accepting a connection on a descriptor that is not in the map keeps the ownership.\<close>

lemma nb_accept_inv:
  assumes inv: "owned_inv sv" and fd: "ns_connections sv fd = None"
  shows "\<exists>b sv'. nb_accept extra mods fd ctl_ok sv = Inr (b, sv') \<and> owned_inv sv' \<and> b = ctl_ok \<and>
    (ctl_ok \<longrightarrow> ns_connections sv' = (ns_connections sv)(fd \<mapsto> length (ns_heap sv)))"
proof (cases ctl_ok)
  case True
  define c where "c = set_events (events_of (Connection_Start extra (new_Connection fd (ns_store sv) False False)) OR mods)
    (Connection_Start extra (new_Connection fd (ns_store sv) False False))"
  define sv' where "sv' = sv\<lparr>ns_heap := ns_heap sv @ [Some c], ns_connections := (ns_connections sv)(fd \<mapsto> length (ns_heap sv))\<rparr>"
  have c: "nc_socket c = fd" "nc_alive c"
    by (simp_all add: c_def set_events_def Connection_Start_def new_Connection_def)
  have "nb_accept extra mods fd ctl_ok sv = Inr (True, sv')"
    using True fd by (simp add: nb_accept_def Let_def sv'_def c_def)
  moreover have "owned_inv sv'"
    unfolding owned_inv_def
  proof (intro allI)
    fix fd' b
    have "fd' = fd \<Longrightarrow> ns_connections sv fd' \<noteq> Some b" using fd by simp
    then show "ns_connections sv' fd' = Some b \<longleftrightarrow> b < length (ns_heap sv') \<and>
        (\<exists>c. ns_heap sv' ! b = Some c \<and> nc_socket c = fd' \<and> nc_alive c)"
      using owned_invD [OF inv, of fd' b] c by (auto simp: sv'_def nth_append less_Suc_eq)
  qed
  ultimately show ?thesis using True by (auto simp: sv'_def)
next
  case False
  then show ?thesis using inv
    by (auto simp: nb_accept_def Let_def store_conn_def delete_conn_def owned_inv_def nth_append less_Suc_eq
        set_events_def Connection_Start_def Connection_OnError_def Connection_OnClose_def new_Connection_def init_conn_def)
qed

lemma st_handle_event_inv:
  assumes inv: "owned_inv sv" and own: "ns_connections sv fd = Some a" and ctl: "ev_ctl_ok env"
    and r: "\<And>f c. load_conn sv a = Inr c \<Longrightarrow> dispatch st_extra ops events env c (ns_wire sv (nc_socket c)) \<noteq> Inl f"
  shows "\<exists>sv'. st_handle_event ops a events env sv = Inr sv' \<and> owned_inv sv' \<and>
    (ns_closed sv' = ns_closed sv \<and> ns_connections sv' = ns_connections sv \<or>
     ns_closed sv' = ns_closed sv @ [fd] \<and> ns_connections sv' = (ns_connections sv)(fd := None))"
proof -
  obtain c0 where c0: "a < length (ns_heap sv)" "ns_heap sv ! a = Some c0" "nc_socket c0 = fd" "nc_alive c0"
    using owned_invD [OF inv, of fd a] own by auto
  define c where "c = c0\<lparr>nc_state := (nc_state c0)\<lparr>cs_store := ns_store sv\<rparr>\<rparr>"
  have l: "load_conn sv a = Inr c" using c0 by (simp add: load_conn_def c_def)
  obtain c' wire' where d: "dispatch st_extra ops events env c (ns_wire sv (nc_socket c)) = Inr (c', wire')"
    using r [OF l] by (cases "dispatch st_extra ops events env c (ns_wire sv (nc_socket c))") auto
  have sock: "nc_socket c' = fd" using dispatch_socket [OF d] c0(3) by (simp add: c_def)
  show ?thesis
  proof (cases "nc_alive c'")
    case True
    define sv1 where "sv1 = (store_conn sv a c')\<lparr>ns_wire := (ns_wire sv)(nc_socket c' := wire')\<rparr>"
    have "st_handle_event ops a events env sv = Inr sv1"
      using l d True ctl by (simp add: st_handle_event_def Let_def sv1_def)
    moreover have "owned_inv sv1"
      by (rule owned_inv_update [OF inv c0(1,2,4), of c']) (use sock c0(3) True in \<open>simp_all add: sv1_def store_conn_def\<close>)
    ultimately show ?thesis by (auto simp: sv1_def store_conn_def)
  next
    case False
    define sv1 where "sv1 = (store_conn sv a c')\<lparr>ns_wire := (ns_wire sv)(nc_socket c' := wire')\<rparr>"
    define sv' where "sv' = sv1\<lparr>ns_heap := (ns_heap sv)[a := None], ns_connections := (ns_connections sv)(fd := None),
        ns_closed := ns_closed sv @ [fd]\<rparr>"
    have "st_handle_event ops a events env sv = Inr sv'"
      using l d False own sock c0(1)
      by (simp add: st_handle_event_def Let_def sv1_def sv'_def store_conn_def load_conn_def delete_conn_def
          Connection_OnClose_def)
    moreover have "owned_inv sv'"
      by (rule owned_inv_delete [OF inv c0(1,2,4)]) (use c0(3) in \<open>simp_all add: sv'_def\<close>)
    ultimately show ?thesis by (auto simp: sv'_def sv1_def store_conn_def)
  qed
qed

definition demo_server :: "lru nb_server" where
  "demo_server = (case st_OnNewConnection_turn 5 True (nb_server_init (SimpleLRU 10)) of
     Inl f \<Rightarrow> nb_server_init (SimpleLRU 10) | Inr (b, sv) \<Rightarrow> sv)"

lemma demo_server_inv: "owned_inv demo_server" "ns_connections demo_server 5 = Some 0"
proof -
  have i: "owned_inv (nb_server_init (SimpleLRU 10))" "ns_connections (nb_server_init (SimpleLRU 10)) 5 = None"
    by (simp_all add: owned_inv_def nb_server_init_def)
  obtain sv where "nb_accept st_extra 0 5 True (nb_server_init (SimpleLRU 10)) = Inr (True, sv)" "owned_inv sv"
    "ns_connections sv = [5 \<mapsto> 0]"
    using nb_accept_inv [OF i, of st_extra 0 True] by (auto simp: nb_server_init_def)
  then show "owned_inv demo_server" "ns_connections demo_server 5 = Some 0"
    by (simp_all add: demo_server_def st_OnNewConnection_turn_def)
qed

text \<open>
  When changing the event mask of a living connection fails, the single-threaded nonblocking service
  destroys the connection through the map and then uses it: the error path always touches freed memory.
\<close>

theorem st_nonblocking_mod_fails:
  assumes inv: "owned_inv sv" and own: "ns_connections sv fd = Some a" and l: "load_conn sv a = Inr c"
    and d: "dispatch st_extra ops events env c (ns_wire sv (nc_socket c)) = Inr (c', wire')"
    and alive: "nc_alive c'" and changed: "events_of c' \<noteq> events_of c" and fails: "\<not> ev_ctl_ok env"
  shows "st_handle_event ops a events env sv = Inl UseAfterFree"
proof -
  have a: "a < length (ns_heap sv)" and fd: "nc_socket c = fd"
    using l owned_invD [OF inv, of fd a] own by (auto simp: load_conn_Inr)
  have "nc_socket c' = fd" using dispatch_socket [OF d] fd by simp
  then show ?thesis
    using l d alive changed fails own a
    by (simp add: st_handle_event_def Let_def store_conn_def delete_conn_def load_conn_def)
qed

theorem st_nonblocking_mod_fails_witness:
  "st_handle_event lru_ops 0 EPOLLIN \<lparr>ev_reads = [Data (''stats'' @ crlf), ReadErr True], ev_send = 0, ev_ctl_ok = False\<rparr> demo_server
   = Inl UseAfterFree"
proof -
  let ?env = "\<lparr>ev_reads = [Data (''stats'' @ crlf), ReadErr True], ev_send = 0, ev_ctl_ok = False\<rparr>"
  have "case load_conn demo_server 0 of Inl f \<Rightarrow> False | Inr c \<Rightarrow>
      (case dispatch st_extra lru_ops EPOLLIN ?env c [] of Inl f \<Rightarrow> False
       | Inr (c', w) \<Rightarrow> nc_alive c' \<and> events_of c' \<noteq> events_of c \<and> ns_wire demo_server (nc_socket c) = [])" by code_simp
  then obtain c c' w where "load_conn demo_server 0 = Inr c" "nc_alive c'" "events_of c' \<noteq> events_of c"
    "dispatch st_extra lru_ops EPOLLIN ?env c (ns_wire demo_server (nc_socket c)) = Inr (c', w)"
    by (auto split: sum.splits prod.splits)
  then show ?thesis using st_nonblocking_mod_fails [OF demo_server_inv] by fastforce
qed

section \<open>Ownership in the multi-threaded service\<close>

text \<open>
  In the multi-threaded nonblocking service a worker deletes a connection that ended while the map of
  the server still owns it, so that stopping the server frees it a second time.
\<close>

theorem mt_nonblocking_double_free:
  assumes own: "ns_connections sv fd = Some a" and l: "load_conn sv a = Inr c"
    and d: "dispatch mt_extra ops events env c (ns_wire sv (nc_socket c)) = Inr (c', wire')" and dead: "\<not> nc_alive c'"
  shows "\<exists>sv'. mt_handle_event ops a events env sv = Inr sv' \<and> nb_Stop [fd] sv' = Inl DoubleFree"
proof -
  have "a < length (ns_heap sv)" using l by (auto simp: load_conn_Inr)
  then show ?thesis using l d dead own
    by (simp add: mt_handle_event_def Let_def store_conn_def delete_conn_def nb_Stop_def)
qed

theorem mt_nonblocking_double_free_witness:
  "\<exists>sv'. mt_handle_event lru_ops 0 EPOLLRDHUP \<lparr>ev_reads = [], ev_send = 0, ev_ctl_ok = True\<rparr> demo_server = Inr sv' \<and>
    nb_Stop [5] sv' = Inl DoubleFree"
proof -
  let ?env = "\<lparr>ev_reads = [], ev_send = 0, ev_ctl_ok = True\<rparr>"
  have "case load_conn demo_server 0 of Inl f \<Rightarrow> False | Inr c \<Rightarrow> True" by code_simp
  then obtain c where "load_conn demo_server 0 = Inr c" by (auto split: sum.splits)
  moreover have "dispatch mt_extra lru_ops EPOLLRDHUP ?env c w = Inr (Connection_OnClose c, w)" for c w
    by (simp add: dispatch_def has_event_def epoll_defs)
  ultimately show ?thesis
    using mt_nonblocking_double_free [OF demo_server_inv(2)] by (fastforce simp: Connection_OnClose_def)
qed

end
