(* ===== verification/Nonblocking_Loops.thy ===== *)
theory Nonblocking_Loops
  imports Nonblocking_Services
begin

text \<open>
  The loops of the nonblocking services around the handling of one event: \<open>OnRun\<close> and \<open>OnNewConnection\<close> of
  \<^verbatim>\<open>st_nonblocking/ServerImpl.cpp\<close>, \<open>OnRun\<close> of \<^verbatim>\<open>mt_nonblocking/ServerImpl.cpp\<close> and of its workers. The kernel decides what
  \<^verbatim>\<open>epoll_wait\<close> delivers and what \<^verbatim>\<open>accept4\<close> returns; both are arguments. An event carries either a descriptor or the address
  of a connection; the model tells the two apart by what was registered.
\<close>

section \<open>The loops\<close>

datatype accept_res = Accepted int bool | Accept_again | Accept_error

text \<open>
  The accepting loop of the single-threaded service. An accepted descriptor comes with the result of registering it.
  A failure is thrown and caught at the end of the function, so that the loop is left.
\<close>

fun st_OnNewConnection :: "accept_res list \<Rightarrow> 's nb_server \<Rightarrow> fault + 's nb_server" where
  "st_OnNewConnection [] sv = Inr sv"
| "st_OnNewConnection (Accept_again # as) sv = Inr sv"
| "st_OnNewConnection (Accept_error # as) sv = Inr sv"
| "st_OnNewConnection (Accepted fd ctl_ok # as) sv =
     rbind (st_OnNewConnection_turn fd ctl_ok sv) (\<lambda>(ok, sv'). if ok then st_OnNewConnection as sv' else Inr sv')"

text \<open>In the multi-threaded service a connection that cannot be registered is deleted and the loop goes on.\<close>

fun mt_accept_all :: "accept_res list \<Rightarrow> 's nb_server \<Rightarrow> fault + 's nb_server" where
  "mt_accept_all [] sv = Inr sv"
| "mt_accept_all (Accept_again # as) sv = Inr sv"
| "mt_accept_all (Accept_error # as) sv = Inr sv"
| "mt_accept_all (Accepted fd ctl_ok # as) sv = rbind (mt_accept_turn fd ctl_ok sv) (\<lambda>(ok, sv'). mt_accept_all as sv')"

datatype loop_event = Ev_stop | Ev_server "accept_res list" | Ev_conn nat u32 event_env

definition st_event :: "'s storage_ops \<Rightarrow> loop_event \<Rightarrow> 's nb_server \<Rightarrow> fault + 's nb_server" where
  "st_event ops ev sv =
     (case ev of Ev_stop \<Rightarrow> Inr sv | Ev_server as \<Rightarrow> st_OnNewConnection as sv | Ev_conn a events env \<Rightarrow> st_handle_event ops a events env sv)"

text \<open>The events of one \<^verbatim>\<open>epoll_wait\<close>; the stop event ends the outer loop only.\<close>

fun st_events :: "'s storage_ops \<Rightarrow> loop_event list \<Rightarrow> bool \<Rightarrow> 's nb_server \<Rightarrow> fault + bool \<times> 's nb_server" where
  "st_events ops [] run sv = Inr (run, sv)"
| "st_events ops (ev # evs) run sv = rbind (st_event ops ev sv) (st_events ops evs (run \<and> ev \<noteq> Ev_stop))"

fun st_loop :: "'s storage_ops \<Rightarrow> loop_event list list \<Rightarrow> 's nb_server \<Rightarrow> fault + bool \<times> 's nb_server" where
  "st_loop ops [] sv = Inr (True, sv)"
| "st_loop ops (evs # batches) sv =
     rbind (st_events ops evs True sv) (\<lambda>(run, sv'). if run then st_loop ops batches sv' else Inr (False, sv'))"

text \<open>A failure to set up epoll is thrown out of the thread.\<close>

datatype 'a thread_end = Thrown string | Still_running 'a | Stopped 'a

definition st_nb_OnRun :: "'s storage_ops \<Rightarrow> bool \<Rightarrow> bool \<Rightarrow> bool \<Rightarrow> loop_event list list \<Rightarrow> 's nb_server \<Rightarrow> fault + 's nb_server thread_end" where
  "st_nb_OnRun ops epoll_ok add1 add2 batches sv =
     (if \<not> epoll_ok then Inr (Thrown ''Failed to create epoll file descriptor: '')
      else if \<not> add1 \<or> \<not> add2 then Inr (Thrown ''Failed to add file descriptor to epoll'')
      else rbind (st_loop ops batches sv) (\<lambda>(run, sv'). Inr (if run then Still_running sv' else Stopped sv')))"

text \<open>The acceptors of the multi-threaded service have two registered descriptors only.\<close>

fun mt_events :: "accept_res list option list \<Rightarrow> bool \<Rightarrow> 's nb_server \<Rightarrow> fault + bool \<times> 's nb_server" where
  "mt_events [] run sv = Inr (run, sv)"
| "mt_events (None # evs) run sv = mt_events evs False sv"
| "mt_events (Some as # evs) run sv = rbind (mt_accept_all as sv) (mt_events evs run)"

fun mt_loop :: "accept_res list option list list \<Rightarrow> 's nb_server \<Rightarrow> fault + bool \<times> 's nb_server" where
  "mt_loop [] sv = Inr (True, sv)"
| "mt_loop (evs # batches) sv = rbind (mt_events evs True sv) (\<lambda>(run, sv'). if run then mt_loop batches sv' else Inr (False, sv'))"

definition mt_nb_OnRun :: "bool \<Rightarrow> bool \<Rightarrow> bool \<Rightarrow> accept_res list option list list \<Rightarrow> 's nb_server \<Rightarrow> fault + 's nb_server thread_end" where
  "mt_nb_OnRun epoll_ok add1 add2 batches sv =
     (if \<not> epoll_ok then Inr (Thrown ''Failed to create epoll file descriptor: '')
      else if \<not> add1 \<or> \<not> add2 then Inr (Thrown ''Failed to add file descriptor to epoll'')
      else rbind (mt_loop batches sv) (\<lambda>(run, sv'). Inr (if run then Still_running sv' else Stopped sv')))"

text \<open>A worker looks at \<open>isRunning\<close> before each wait; the event of the server that wakes it up has a null pointer.\<close>

fun worker_events :: "'s storage_ops \<Rightarrow> (nat \<times> u32 \<times> event_env) option list \<Rightarrow> 's nb_server \<Rightarrow> fault + 's nb_server" where
  "worker_events ops [] sv = Inr sv"
| "worker_events ops (None # evs) sv = worker_events ops evs sv"
| "worker_events ops (Some (a, events, env) # evs) sv = rbind (mt_handle_event ops a events env sv) (worker_events ops evs)"

fun worker_loop :: "'s storage_ops \<Rightarrow> (bool \<times> (nat \<times> u32 \<times> event_env) option list) list \<Rightarrow> 's nb_server \<Rightarrow> fault + 's nb_server thread_end" where
  "worker_loop ops [] sv = Inr (Still_running sv)"
| "worker_loop ops ((isRunning, evs) # batches) sv =
     (if isRunning then rbind (worker_events ops evs sv) (worker_loop ops batches) else Inr (Stopped sv))"

text \<open>\<open>Start\<close> of a worker does nothing when it is running already; \<open>Stop\<close> only clears the flag.\<close>

record worker =
  w_isRunning :: bool
  w_epoll_fd :: int
  w_thread :: bool

definition new_Worker :: worker where
  "new_Worker = \<lparr>w_isRunning = False, w_epoll_fd = -1, w_thread = False\<rparr>"

definition worker_Start :: "int \<Rightarrow> worker \<Rightarrow> worker option" where
  "worker_Start epoll_fd w =
     (if w_isRunning w then Some w
      else if w_epoll_fd w \<noteq> -1 then None
      else Some \<lparr>w_isRunning = True, w_epoll_fd = epoll_fd, w_thread = True\<rparr>)"

definition worker_Stop :: "worker \<Rightarrow> worker" where
  "worker_Stop w = w\<lparr>w_isRunning := False\<rparr>"

text \<open>The result is none where the assertion fails.\<close>

definition worker_Join :: "worker \<Rightarrow> worker option" where
  "worker_Join w = (if w_thread w then Some (w\<lparr>w_thread := False\<rparr>) else None)"

text \<open>
  \<open>Stop\<close> and \<open>Join\<close> of the multi-threaded service; \<open>keys\<close> are the keys of its map in order, and \<open>wakes\<close> tells whether writing to
  the event descriptor succeeds. The workers are told to stop before their connections are destroyed.
\<close>

definition mt_nb_Stop :: "int list \<Rightarrow> bool \<Rightarrow> worker list \<Rightarrow> 's nb_server \<Rightarrow> worker list \<times> (fault + 's nb_server) option" where
  "mt_nb_Stop keys wakes ws sv = (map worker_Stop ws, if wakes then Some (nb_Stop keys sv) else None)"

fun mt_nb_Join :: "worker list \<Rightarrow> worker list option" where
  "mt_nb_Join [] = Some []"
| "mt_nb_Join (w # ws) =
     (case worker_Join w of None \<Rightarrow> None | Some w' \<Rightarrow> map_option (\<lambda>ws'. w' # ws') (mt_nb_Join ws))"

section \<open>Accepting keeps what is owned\<close>

text \<open>The kernel returns descriptors that are not open, in particular none that belongs to a connection of the map.\<close>

fun fresh_accepts :: "accept_res list \<Rightarrow> 's nb_server \<Rightarrow> bool" where
  "fresh_accepts (Accepted fd ctl_ok # as) sv \<longleftrightarrow> ns_connections sv fd = None \<and>
     (case st_OnNewConnection_turn fd ctl_ok sv of Inr (True, sv') \<Rightarrow> fresh_accepts as sv' | _ \<Rightarrow> True)"
| "fresh_accepts _ sv \<longleftrightarrow> True"

definition owns :: "'s nb_server \<Rightarrow> nat \<Rightarrow> bool" where
  "owns sv a \<longleftrightarrow> (\<exists>fd. ns_connections sv fd = Some a)"

lemma accept_turn_keeps:
  assumes "owned_inv sv" "ns_connections sv fd = None"
  obtains b sv' where "st_OnNewConnection_turn fd ctl_ok sv = Inr (b, sv')" "owned_inv sv'" "\<And>a. owns sv a \<Longrightarrow> owns sv' a"
proof -
  from nb_accept_inv [OF assms, of st_extra 0 ctl_ok] obtain b sv' where
    r: "nb_accept st_extra 0 fd ctl_ok sv = Inr (b, sv')" "owned_inv sv'" "b = ctl_ok"
      "ctl_ok \<longrightarrow> ns_connections sv' = (ns_connections sv)(fd \<mapsto> length (ns_heap sv))" by blast
  have "ns_connections sv' = ns_connections sv" if "\<not> ctl_ok"
    using that r(1) by (auto simp: nb_accept_def Let_def delete_conn_def store_conn_def nth_append split: if_splits option.splits)
  then have "ns_connections sv' g = Some a" if "ns_connections sv g = Some a" for g a
    using that r(4) assms(2) by (cases ctl_ok; cases "g = fd") auto
  then have "owns sv' a" if "owns sv a" for a using that unfolding owns_def by blast
  then show thesis using that r by (simp add: st_OnNewConnection_turn_def)
qed

lemma OnNewConnection_keeps:
  assumes "owned_inv sv" "fresh_accepts as sv"
  shows "\<exists>sv'. st_OnNewConnection as sv = Inr sv' \<and> owned_inv sv' \<and> (\<forall>a. owns sv a \<longrightarrow> owns sv' a)"
  using assms
proof (induction as sv rule: st_OnNewConnection.induct)
  case (4 fd ctl_ok as sv)
  then have fd: "ns_connections sv fd = None" by simp
  from accept_turn_keeps [OF 4(2) fd, of ctl_ok] obtain b sv1 where
    t: "st_OnNewConnection_turn fd ctl_ok sv = Inr (b, sv1)" "owned_inv sv1" "\<And>a. owns sv a \<Longrightarrow> owns sv1 a" by metis
  show ?case
  proof (cases b)
    case True
    with 4(3) t have "fresh_accepts as sv1" by simp
    from "4.IH" [OF t(1) refl True t(2) this] t True show ?thesis by auto
  next
    case False
    then show ?thesis using t by auto
  qed
qed auto

section \<open>A batch of events\<close>

text \<open>
  What the kernel promises about a batch: an event for a connection is for one that is registered, hence owned, when the
  batch is delivered, and there is one event per connection at most.
\<close>

fun targets :: "loop_event list \<Rightarrow> nat list" where
  "targets [] = []"
| "targets (Ev_conn a events env # evs) = a # targets evs"
| "targets (ev # evs) = targets evs"

fun batch_fresh :: "'s storage_ops \<Rightarrow> loop_event list \<Rightarrow> 's nb_server \<Rightarrow> bool" where
  "batch_fresh ops [] sv \<longleftrightarrow> True"
| "batch_fresh ops (ev # evs) sv \<longleftrightarrow> (case ev of Ev_server as \<Rightarrow> fresh_accepts as sv | _ \<Rightarrow> True) \<and>
     (case st_event ops ev sv of Inl f \<Rightarrow> True | Inr sv' \<Rightarrow> batch_fresh ops evs sv')"

text \<open>
  The two ways in which handling the event of an owned connection faults: the command it reads faults, or the connection awaits
  other events than before and epoll refuses the new mask.
\<close>

definition event_faults :: "'s storage_ops \<Rightarrow> nat \<Rightarrow> u32 \<Rightarrow> event_env \<Rightarrow> 's nb_server \<Rightarrow> fault \<Rightarrow> bool" where
  "event_faults ops a events env sv f \<longleftrightarrow>
     (case load_conn sv a of Inl g \<Rightarrow> False
      | Inr c \<Rightarrow> (case dispatch st_extra ops events env c (ns_wire sv (nc_socket c)) of
          Inl g \<Rightarrow> f = g
        | Inr (c', w) \<Rightarrow> f = UseAfterFree \<and> nc_alive c' \<and> events_of c' \<noteq> events_of c \<and> \<not> ev_ctl_ok env))"

lemma owned_load:
  assumes "owned_inv sv" "ns_connections sv fd = Some a"
  obtains c where "load_conn sv a = Inr c"
  using owned_invD [OF assms(1), of fd a] assms(2) by (auto simp: load_conn_Inr)

lemma st_handle_event_fails:
  assumes "owned_inv sv" "ns_connections sv fd = Some a" "event_faults ops a events env sv f"
  shows "st_handle_event ops a events env sv = Inl f"
proof -
  obtain c where l: "load_conn sv a = Inr c" using owned_load [OF assms(1,2)] .
  show ?thesis
  proof (cases "dispatch st_extra ops events env c (ns_wire sv (nc_socket c))")
    case (Inl g)
    then show ?thesis using assms(3) l by (simp add: event_faults_def st_handle_event_def Let_def)
  next
    case (Inr cw)
    then show ?thesis using assms(3) l st_nonblocking_mod_fails [OF assms(1,2) l]
      by (cases cw) (auto simp: event_faults_def)
  qed
qed

lemma st_handle_event_works:
  assumes inv: "owned_inv sv" and own: "ns_connections sv fd = Some a" and "\<And>f. \<not> event_faults ops a events env sv f"
  shows "\<exists>sv'. st_handle_event ops a events env sv = Inr sv' \<and> owned_inv sv' \<and>
    (ns_connections sv' = ns_connections sv \<or> ns_connections sv' = (ns_connections sv)(fd := None))"
proof -
  let ?env = "env\<lparr>ev_ctl_ok := True\<rparr>"
  obtain c where l: "load_conn sv a = Inr c" using owned_load [OF inv own] .
  have d: "dispatch st_extra ops events ?env = dispatch st_extra ops events env"
  proof -
    have "ev_reads ?env = ev_reads env" "ev_send ?env = ev_send env" by simp_all
    then show ?thesis unfolding dispatch_def by (simp only:)
  qed
  obtain c' w where c': "dispatch st_extra ops events env c (ns_wire sv (nc_socket c)) = Inr (c', w)"
    "\<not> (nc_alive c' \<and> events_of c' \<noteq> events_of c \<and> \<not> ev_ctl_ok env)"
    using assms(3) l by (cases "dispatch st_extra ops events env c (ns_wire sv (nc_socket c))") (auto simp: event_faults_def)
  then have "st_handle_event ops a events env sv = st_handle_event ops a events ?env sv"
    using l d by (auto simp: st_handle_event_def Let_def)
  moreover have "ev_ctl_ok ?env" by simp
  note st_handle_event_inv [OF inv own this, of ops events, unfolded d]
  ultimately show ?thesis using l c'(1) by fastforce
qed

lemma st_event_keeps:
  assumes inv: "owned_inv sv"
    and own: "\<And>a events env. ev = Ev_conn a events env \<Longrightarrow> owns sv a \<and> (\<forall>f. \<not> event_faults ops a events env sv f)"
    and fresh: "\<And>as. ev = Ev_server as \<Longrightarrow> fresh_accepts as sv"
  shows "\<exists>sv'. st_event ops ev sv = Inr sv' \<and> owned_inv sv' \<and> (\<forall>a. owns sv a \<longrightarrow> a \<notin> set (targets [ev]) \<longrightarrow> owns sv' a)"
proof (cases ev)
  case Ev_stop
  then show ?thesis using inv by (simp add: st_event_def)
next
  case (Ev_server as)
  then show ?thesis using OnNewConnection_keeps [OF inv fresh [OF Ev_server]] by (auto simp: st_event_def)
next
  case (Ev_conn a events env)
  from own [OF this] obtain fd where fd: "ns_connections sv fd = Some a" by (auto simp: owns_def)
  from st_handle_event_works [OF inv fd] own [OF Ev_conn] obtain sv' where
    sv': "st_handle_event ops a events env sv = Inr sv'" "owned_inv sv'"
    and c: "ns_connections sv' = ns_connections sv \<or> ns_connections sv' = (ns_connections sv)(fd := None)" by blast
  have "owns sv' b" if "owns sv b" "b \<noteq> a" for b
  proof -
    from that(1) obtain g where g: "ns_connections sv g = Some b" by (auto simp: owns_def)
    with fd that(2) have "g \<noteq> fd" by auto
    with g c show ?thesis by (auto simp: owns_def)
  qed
  then show ?thesis using sv' Ev_conn by (auto simp: st_event_def)
qed

lemma targets_Cons: "targets (ev # evs) = targets [ev] @ targets evs"
  by (cases ev) auto

text \<open>The batch faults at an event that can fault when it is reached, and in no other way.\<close>

definition batch_faults :: "'s storage_ops \<Rightarrow> loop_event list \<Rightarrow> 's nb_server \<Rightarrow> bool \<Rightarrow> fault \<Rightarrow> bool" where
  "batch_faults ops evs sv run f \<longleftrightarrow> (\<exists>evs1 a events env evs2 run1 sv1.
     evs = evs1 @ Ev_conn a events env # evs2 \<and> st_events ops evs1 run sv = Inr (run1, sv1) \<and> owned_inv sv1 \<and> owns sv1 a \<and>
     event_faults ops a events env sv1 f)"

lemma batch_faults_later:
  assumes "st_event ops ev sv = Inr sv1" "batch_faults ops evs sv1 (run \<and> ev \<noteq> Ev_stop) f"
  shows "batch_faults ops (ev # evs) sv run f"
proof -
  obtain evs1 a events env evs2 run1 sv2 where "evs = evs1 @ Ev_conn a events env # evs2"
    "st_events ops evs1 (run \<and> ev \<noteq> Ev_stop) sv1 = Inr (run1, sv2)" "owned_inv sv2" "owns sv2 a" "event_faults ops a events env sv2 f"
    using assms(2) unfolding batch_faults_def by blast
  then show ?thesis unfolding batch_faults_def using assms(1)
    by (intro exI [of _ "ev # evs1"] exI [of _ a] exI [of _ events] exI [of _ env] exI [of _ evs2]) simp
qed

lemma batch_outcome:
  assumes "owned_inv sv" "batch_fresh ops evs sv" "distinct (targets evs)" "\<forall>a \<in> set (targets evs). owns sv a"
  shows "case st_events ops evs run sv of
      Inr (run', sv') \<Rightarrow> run' = (run \<and> Ev_stop \<notin> set evs) \<and> owned_inv sv'
    | Inl f \<Rightarrow> batch_faults ops evs sv run f"
  using assms
proof (induction evs arbitrary: run sv)
  case (Cons ev evs)
  show ?case
  proof (cases "\<exists>a events env f. ev = Ev_conn a events env \<and> event_faults ops a events env sv f")
    case True
    then obtain a events env f where f: "ev = Ev_conn a events env" "event_faults ops a events env sv f" by blast
    then obtain fd where "ns_connections sv fd = Some a" using Cons.prems(4) by (auto simp: owns_def)
    from st_handle_event_fails [OF Cons.prems(1) this f(2)] f(1) have "st_events ops (ev # evs) run sv = Inl f"
      by (simp add: st_event_def)
    moreover have "batch_faults ops (ev # evs) sv run f"
      unfolding batch_faults_def using f Cons.prems(1,4) by (intro exI [of _ "[]"]) auto
    ultimately show ?thesis by simp
  next
    case False
    then obtain sv1 where sv1: "st_event ops ev sv = Inr sv1" "owned_inv sv1" "\<forall>a. owns sv a \<longrightarrow> a \<notin> set (targets [ev]) \<longrightarrow> owns sv1 a"
      using st_event_keeps [OF Cons.prems(1), of ev ops] Cons.prems(2,4) by (auto split: loop_event.splits)
    have "batch_fresh ops evs sv1" using Cons.prems(2) sv1(1) by simp
    moreover have "distinct (targets evs)" "\<forall>a \<in> set (targets evs). owns sv1 a"
      using Cons.prems(3,4) sv1(3) unfolding targets_Cons [of ev evs] by auto
    ultimately show ?thesis
      using Cons.IH [OF sv1(2), of "run \<and> ev \<noteq> Ev_stop"] batch_faults_later [OF sv1(1), of evs run] sv1(1)
      by (auto split: sum.splits prod.splits)
  qed
qed simp

text \<open>
  C14. A batch of events of the single-threaded nonblocking service, connections ending and new ones arriving in any order among
  them. The kernel's part is that an event for a connection is for one that is registered when the batch is delivered, one event
  per connection at most, and that an accepted descriptor is not that of a registered connection. Then the batch is handled to its
  end with exactly the living connections owned, and the loop goes on if and only if the stop event was not among them; or it
  faults at an event for a connection that is still owned when its turn comes, after the events before it were handled, and only
  because the command that is read there faults or because epoll refuses the new mask of a connection that awaits other events than
  before, which is a use after free.
\<close>

theorem st_nonblocking_batch:
  assumes "owned_inv sv" "batch_fresh ops evs sv" "distinct (targets evs)" "\<forall>a \<in> set (targets evs). owns sv a"
  shows "case st_events ops evs True sv of
      Inr (run, sv') \<Rightarrow> run = (Ev_stop \<notin> set evs) \<and> owned_inv sv'
    | Inl f \<Rightarrow> \<exists>evs1 a events env evs2 run1 sv1. evs = evs1 @ Ev_conn a events env # evs2 \<and>
        st_events ops evs1 True sv = Inr (run1, sv1) \<and> owned_inv sv1 \<and> owns sv1 a \<and> event_faults ops a events env sv1 f"
  using batch_outcome [OF assms, of True] unfolding batch_faults_def simp_thms .

text \<open>A connection that reads a request while another one arrives.\<close>

lemma batch_demo:
  "case st_events lru_ops [Ev_server [Accepted 6 True, Accept_again],
      Ev_conn 0 EPOLLIN \<lparr>ev_reads = [Data (get_line [''a'']), ReadErr True], ev_send = 0, ev_ctl_ok = True\<rparr>, Ev_stop] True demo_server of
     Inl f \<Rightarrow> False | Inr (run, sv) \<Rightarrow> map_option results_of (hd (ns_heap sv)) = Some (''END'' @ crlf)"
  by code_simp

theorem st_nonblocking_batch_witness:
  "\<exists>sv'. st_events lru_ops [Ev_server [Accepted 6 True, Accept_again],
      Ev_conn 0 EPOLLIN \<lparr>ev_reads = [Data (get_line [''a'']), ReadErr True], ev_send = 0, ev_ctl_ok = True\<rparr>, Ev_stop]
    True demo_server = Inr (False, sv') \<and> owned_inv sv' \<and> map_option results_of (hd (ns_heap sv')) = Some (''END'' @ crlf)"
proof -
  let ?env = "\<lparr>ev_reads = [Data (get_line [''a'']), ReadErr True], ev_send = 0, ev_ctl_ok = True\<rparr>"
  let ?evs = "[Ev_server [Accepted 6 True, Accept_again], Ev_conn 0 EPOLLIN ?env, Ev_stop]"
  have "ns_connections demo_server 6 = None" by code_simp
  then have fresh: "batch_fresh lru_ops ?evs demo_server" by (auto split: sum.splits prod.splits bool.splits)
  have "\<forall>a \<in> set (targets ?evs). owns demo_server a" using demo_server_inv(2) by (auto simp: owns_def)
  from st_nonblocking_batch [OF demo_server_inv(1) fresh _ this] batch_demo show ?thesis
    by (auto split: sum.splits prod.splits)
qed

section \<open>Stopping\<close>

text \<open>
  \<open>Stop\<close> of the single-threaded nonblocking service destroys the connections while its thread may still have events for
  them: an event for a connection that is delivered together with the stop event is handled after it, on freed memory.
\<close>

theorem st_nonblocking_stop_race:
  assumes "owned_inv sv" "ns_connections sv fd = Some a"
  shows "\<exists>sv'. nb_Stop [fd] sv = Inr sv' \<and> st_events ops [Ev_stop, Ev_conn a events env] True sv' = Inl UseAfterFree"
proof -
  from assms obtain c where "a < length (ns_heap sv)" "ns_heap sv ! a = Some c" using owned_invD by blast
  then show ?thesis using assms(2)
    by (simp add: nb_Stop_def delete_conn_def st_event_def st_handle_event_def load_conn_def)
qed

theorem st_nonblocking_stop_race_witness:
  "\<exists>sv'. nb_Stop [5] demo_server = Inr sv' \<and>
    st_events lru_ops [Ev_stop, Ev_conn 0 EPOLLIN \<lparr>ev_reads = [], ev_send = 0, ev_ctl_ok = True\<rparr>] True sv' = Inl UseAfterFree"
  by (rule st_nonblocking_stop_race [OF demo_server_inv])

end
