(* ===== verification/Coroutine_Engine.thy ===== *)
theory Coroutine_Engine
  imports Prelude
begin

text \<open>
  The coroutine engine of afina (\<^verbatim>\<open>include/afina/coroutine/Engine.h\<close>, \<^verbatim>\<open>src/coroutine/Engine.cpp\<close>). The first part models how
  \<open>Store\<close> and \<open>Restore\<close> copy a stack out of the memory and back. The second part models the scheduler: the list of
  routines, \<open>yield\<close>, \<open>sched\<close>, \<open>run\<close> and \<open>start\<close>, over routines of any kind, whose saved stack and registers are the local
  state with which they go on.
\<close>

section \<open>Copying stacks\<close>

type_synonym memory = "nat \<Rightarrow> 8 word"

record stack_image =
  sk_Low :: nat
  sk_Hight :: nat
  sk_Stack :: "8 word list"

text \<open>\<open>ends\<close> is the address of \<^verbatim>\<open>StackEndsHere\<close>; the size of the copy is kept in 32 bits.\<close>

definition Store_stack :: "nat \<Rightarrow> nat \<Rightarrow> memory \<Rightarrow> stack_image" where
  "Store_stack bottom ends m =
     (let low = (if ends > bottom then bottom else ends); hight = (if ends > bottom then ends else bottom);
          sufficient_size = unat (of_nat (hight - low) :: u32) in
      \<lparr>sk_Low = low, sk_Hight = hight, sk_Stack = map m [low..<low + sufficient_size]\<rparr>)"

text \<open>
  \<open>Restore\<close> calls itself until its own frame lies below \<^verbatim>\<open>Hight\<close>; every call takes \<open>frame\<close> bytes of a stack that grows
  towards lower addresses. The result is the address of the local variable of the last call, or none when the stack is
  used up.
\<close>

fun restore_frame :: "nat \<Rightarrow> nat \<Rightarrow> nat \<Rightarrow> nat option" where
  "restore_frame frame r hight =
     (if r \<ge> hight then if 0 < frame \<and> frame \<le> r then restore_frame frame (r - frame) hight else None
      else Some r)"

declare restore_frame.simps [simp del]

datatype restored = Stack_exhausted | Frame_overwritten | Restored memory

text \<open>The copy back overwrites the frame of \<open>Restore\<close> itself when the two overlap.\<close>

definition Restore_stack :: "nat \<Rightarrow> nat \<Rightarrow> stack_image \<Rightarrow> memory \<Rightarrow> restored" where
  "Restore_stack frame r k m =
     (case restore_frame frame r (sk_Hight k) of
        None \<Rightarrow> Stack_exhausted
      | Some r' \<Rightarrow>
          if sk_Low k < r' + frame \<and> r' < sk_Low k + length (sk_Stack k) then Frame_overwritten
          else Restored (\<lambda>a. if sk_Low k \<le> a \<and> a < sk_Low k + length (sk_Stack k) then sk_Stack k ! (a - sk_Low k) else m a))"

section \<open>Routines\<close>

text \<open>
  What a routine does next, on its local state: it prints, yields, schedules the routine whose handle is in a
  variable of the client, registers a new routine and keeps its handle in a variable, or is done.
\<close>

datatype 'l act = AOut string 'l | AYield 'l | ASched nat 'l | ARun nat 'l 'l | ADone

text \<open>Where a \<^verbatim>\<open>longjmp\<close> arrives: at the call of the function in \<open>run\<close>, after a \<open>yield\<close> or \<open>sched\<close>, or in \<open>start\<close>.\<close>

datatype 'l point = Enter 'l | Resume 'l | Idle_point

record 'l routine_ctx =
  cx_Environment :: "'l point option"
  cx_prev :: "nat option"
  cx_next :: "nat option"

text \<open>The engine, with the handles its client keeps and what the routines have printed.\<close>

record 'l engine =
  en_StackBottom :: bool
  en_heap :: "'l routine_ctx option list"
  en_cur_routine :: "nat option"
  en_alive :: "nat option"
  en_idle_ctx :: "nat option"
  en_handles :: "nat \<rightharpoonup> nat"
  en_out :: "string list"

definition Engine :: "'l engine" where
  "Engine = \<lparr>en_StackBottom = False, en_heap = [], en_cur_routine = None, en_alive = None, en_idle_ctx = None,
     en_handles = Map.empty, en_out = []\<rparr>"

definition get_ctx :: "'l engine \<Rightarrow> nat option \<Rightarrow> fault + 'l routine_ctx" where
  "get_ctx e p =
     (case p of None \<Rightarrow> Inl NullDeref
      | Some a \<Rightarrow> if a < length (en_heap e) then (case en_heap e ! a of None \<Rightarrow> Inl UseAfterFree | Some c \<Rightarrow> Inr c) else Inl UseAfterFree)"

definition upd_ctx :: "nat option \<Rightarrow> ('l routine_ctx \<Rightarrow> 'l routine_ctx) \<Rightarrow> 'l engine \<Rightarrow> fault + 'l engine" where
  "upd_ctx p f e = rbind (get_ctx e p) (\<lambda>c. Inr (e\<lparr>en_heap := (en_heap e)[the p := Some (f c)]\<rparr>))"

text \<open>\<open>Store\<close> with the \<^verbatim>\<open>setjmp\<close> that goes with it.\<close>

definition Store :: "'l point \<Rightarrow> nat option \<Rightarrow> 'l engine \<Rightarrow> fault + 'l engine" where
  "Store pt p e = upd_ctx p (\<lambda>c. c\<lparr>cx_Environment := Some pt\<rparr>) e"

datatype 'l transfer = Returns | Jumps nat "'l point"

text \<open>
  \<open>clear\<close> tells whether the copy back of the stack succeeds, that is whether \<open>Restore_stack\<close> yields a memory: when the stack is used up before
  the frame of \<open>Restore\<close> is far enough, or the copy overwrites this frame, the model faults. It depends on where the compiler puts the
  frames and is an argument of every operation that restores a routine; one step restores at most one.
\<close>

definition Restore :: "bool \<Rightarrow> nat option \<Rightarrow> 'l engine \<Rightarrow> fault + 'l engine \<times> 'l transfer" where
  "Restore clear p e =
     rbind (get_ctx e p) (\<lambda>c.
     if \<not> clear then Inl OutOfBounds
     else case cx_Environment c of
       None \<Rightarrow> Inl UninitRead
     | Some pt \<Rightarrow> Inr (e\<lparr>en_cur_routine := (if p = en_idle_ctx e then None else p)\<rparr>, Jumps (the p) pt))"

definition yield :: "bool \<Rightarrow> 'l point \<Rightarrow> 'l engine \<Rightarrow> fault + 'l engine \<times> 'l transfer" where
  "yield clear pt e =
     rbind (if en_alive e \<noteq> None \<and> en_alive e = en_cur_routine e
            then rbind (get_ctx e (en_alive e)) (\<lambda>c. Inr (cx_next c)) else Inr (en_alive e)) (\<lambda>next_routine.
     if next_routine \<noteq> None then
       rbind (if en_cur_routine e \<noteq> en_idle_ctx e then Store pt (en_cur_routine e) e else Inr e) (Restore clear next_routine)
     else Inr (e, Returns))"

definition sched :: "bool \<Rightarrow> nat option \<Rightarrow> 'l point \<Rightarrow> 'l engine \<Rightarrow> fault + 'l engine \<times> 'l transfer" where
  "sched clear routine pt e =
     (if routine = None then yield clear pt e
      else if routine \<noteq> en_cur_routine e then
        rbind (if en_cur_routine e \<noteq> None then Store pt (en_cur_routine e) e else Inr e) (Restore clear routine)
      else Inr (e, Returns))"

text \<open>\<open>run\<close>: the new routine is put in front of the others.\<close>

definition run :: "'l \<Rightarrow> 'l engine \<Rightarrow> fault + nat option \<times> 'l engine" where
  "run func e =
     (if \<not> en_StackBottom e then Inr (None, e)
      else let pc = length (en_heap e);
               e1 = e\<lparr>en_heap := en_heap e @ [Some \<lparr>cx_Environment = Some (Enter func), cx_prev = None, cx_next = en_alive e\<rparr>],
                      en_alive := Some pc\<rparr> in
        rbind (if en_alive e \<noteq> None then upd_ctx (en_alive e) (\<lambda>c. c\<lparr>cx_prev := Some pc\<rparr>) e1 else Inr e1) (\<lambda>e2.
        Inr (Some pc, e2)))"

text \<open>The end of a routine, in \<open>run\<close> after its function has returned.\<close>

definition finish :: "bool \<Rightarrow> nat \<Rightarrow> 'l engine \<Rightarrow> fault + 'l engine \<times> 'l transfer" where
  "finish clear pc e =
     rbind (get_ctx e (Some pc)) (\<lambda>c.
     rbind (if cx_prev c \<noteq> None then upd_ctx (cx_prev c) (\<lambda>d. d\<lparr>cx_next := cx_next c\<rparr>) e else Inr e) (\<lambda>e1.
     rbind (get_ctx e1 (Some pc)) (\<lambda>c1.
     rbind (if cx_next c1 \<noteq> None then upd_ctx (cx_next c1) (\<lambda>d. d\<lparr>cx_prev := cx_prev c1\<rparr>) e1 else Inr e1) (\<lambda>e2.
     rbind (if en_alive e2 = en_cur_routine e2
            then rbind (get_ctx e2 (en_alive e2)) (\<lambda>d. Inr (e2\<lparr>en_alive := cx_next d\<rparr>)) else Inr e2) (\<lambda>e3.
     Restore clear (en_idle_ctx e3) (e3\<lparr>en_cur_routine := None, en_heap := (en_heap e3)[pc := None]\<rparr>))))))"

section \<open>Execution\<close>

text \<open>A routine is running on its own stack, the code of \<open>start\<close> after its \<^verbatim>\<open>setjmp\<close> is, or \<open>start\<close> has returned.\<close>

datatype 'l control = Running nat 'l | At_idle | Returned

fun arrive :: "'l control \<Rightarrow> 'l engine \<times> 'l transfer \<Rightarrow> 'l engine \<times> 'l control" where
  "arrive back (e, Returns) = (e, back)"
| "arrive back (e, Jumps a (Enter l)) = (e, Running a l)"
| "arrive back (e, Jumps a (Resume l)) = (e, Running a l)"
| "arrive back (e, Jumps a Idle_point) = (e, At_idle)"

definition start :: "bool \<Rightarrow> 'l \<Rightarrow> 'l engine \<Rightarrow> fault + 'l engine \<times> 'l control" where
  "start clear main e =
     rbind (run main (e\<lparr>en_StackBottom := True\<rparr>)) (\<lambda>(pc, e1).
     let idle = length (en_heap e1);
         e2 = e1\<lparr>en_heap := en_heap e1 @ [Some \<lparr>cx_Environment = None, cx_prev = None, cx_next = None\<rparr>], en_idle_ctx := Some idle\<rparr> in
     if pc = None then Inr (e2, Returned)
     else rbind (Store Idle_point (Some idle) e2) (\<lambda>e3.
       rbind (sched clear pc Idle_point e3) (\<lambda>r. Inr (arrive Returned r))))"

definition shutdown :: "'l engine \<Rightarrow> 'l engine" where
  "shutdown e = e\<lparr>en_heap := (en_heap e)[the (en_idle_ctx e) := None], en_StackBottom := False\<rparr>"

fun engine_step :: "('l \<Rightarrow> 'l act) \<Rightarrow> bool \<Rightarrow> 'l engine \<times> 'l control \<Rightarrow> fault + 'l engine \<times> 'l control" where
  "engine_step body clear (e, Running pc l) =
     (case body l of
        AOut s l' \<Rightarrow> Inr (e\<lparr>en_out := en_out e @ [s]\<rparr>, Running pc l')
      | AYield l' \<Rightarrow> rbind (yield clear (Resume l') e) (\<lambda>r. Inr (arrive (Running pc l') r))
      | ASched v l' \<Rightarrow> rbind (sched clear (en_handles e v) (Resume l') e) (\<lambda>r. Inr (arrive (Running pc l') r))
      | ARun v func l' \<Rightarrow> rbind (run func e) (\<lambda>(p, e'). Inr (e'\<lparr>en_handles := (en_handles e')(v := p)\<rparr>, Running pc l'))
      | ADone \<Rightarrow> rbind (finish clear pc e) (\<lambda>r. Inr (arrive (Running pc l) r)))"
| "engine_step body clear (e, At_idle) =
     rbind (yield clear Idle_point e) (\<lambda>r. case r of
         (e', Returns) \<Rightarrow> Inr (shutdown e', Returned)
       | (e', Jumps a pt) \<Rightarrow> Inr (arrive At_idle (e', Jumps a pt)))"
| "engine_step body clear (e, Returned) = Inr (e, Returned)"

text \<open>A run takes one step for each element of the list, which tells whether the copy in it succeeds.\<close>

fun engine_run :: "('l \<Rightarrow> 'l act) \<Rightarrow> bool list \<Rightarrow> 'l engine \<times> 'l control \<Rightarrow> fault + 'l engine \<times> 'l control" where
  "engine_run body [] c = Inr c"
| "engine_run body (clear # clears) c = rbind (engine_step body clear c) (engine_run body clears)"

section \<open>Saving and restoring a stack\<close>

text \<open>
  A stack that was stored is the stack that is restored, whatever the memory holds by then, and nothing else changes; this
  needs a stack of less than four gigabytes that grows downwards. The copy back is safe exactly when the frame of
  \<open>Restore\<close> ends below the image. The check in \<open>Restore\<close> compares with the upper end of the image: it lets
  every frame inside the image pass, which is then overwritten.
\<close>

theorem stack_roundtrip:
  assumes "ends \<le> bottom" "bottom - ends < 2 ^ 32"
  shows "(case Restore_stack frame r (Store_stack bottom ends m) m' of
            Restored m2 \<Rightarrow> (\<forall>a. m2 a = (if ends \<le> a \<and> a < bottom then m a else m' a))
          | _ \<Rightarrow> True) \<and>
    (r < bottom \<longrightarrow>
       (Restore_stack frame r (Store_stack bottom ends m) m' = Frame_overwritten \<longleftrightarrow> ends < r + frame))"
proof -
  have size: "unat (of_nat (bottom - ends) :: u32) = bottom - ends"
    using assms(2) by (simp add: unat_of_nat)
  have img: "Store_stack bottom ends m = \<lparr>sk_Low = ends, sk_Hight = bottom, sk_Stack = map m [ends..<bottom]\<rparr>"
    using assms(1) size by (simp add: Store_stack_def)
  have "restore_frame frame r bottom = Some r" if "r < bottom"
    using that by (subst restore_frame.simps) simp
  then show ?thesis using assms(1)
    by (auto simp: img Restore_stack_def split: option.splits if_splits)
qed

theorem stack_roundtrip_witness:
  "(case Restore_stack 16 900 (Store_stack 1000 950 (\<lambda>_. 7)) (\<lambda>_. 0) of
      Restored m2 \<Rightarrow> m2 970 = 7 \<and> m2 1000 = 0 | _ \<Rightarrow> False) \<and>
   Restore_stack 16 940 (Store_stack 1000 950 (\<lambda>_. 7)) (\<lambda>_. 0) = Frame_overwritten"
proof -
  let ?k = "Store_stack 1000 950 (\<lambda>_. 7)"
  have "Restore_stack 16 900 ?k (\<lambda>_. 0) \<noteq> Stack_exhausted" "Restore_stack 16 900 ?k (\<lambda>_. 0) \<noteq> Frame_overwritten"
    by (simp_all add: Restore_stack_def Store_stack_def restore_frame.simps)
  then have "case Restore_stack 16 900 ?k (\<lambda>_. 0) of Restored m2 \<Rightarrow> m2 970 = 7 \<and> m2 1000 = 0 | _ \<Rightarrow> False"
    using stack_roundtrip [of 950 1000 "\<lambda>_. 7" "\<lambda>_. 0" 16 900] by (auto split: restored.splits)
  moreover have "Restore_stack 16 940 ?k (\<lambda>_. 0) = Frame_overwritten"
    using stack_roundtrip [of 950 1000 "\<lambda>_. 7" "\<lambda>_. 0" 16 940] by simp
  ultimately show ?thesis by blast
qed

section \<open>The list of routines\<close>

definition links :: "'l routine_ctx option list \<Rightarrow> nat \<Rightarrow> (nat option \<times> nat option) option" where
  "links h a = (if a < length h then map_option (\<lambda>c. (cx_prev c, cx_next c)) (h ! a) else None)"

fun chain :: "(nat \<Rightarrow> (nat option \<times> nat option) option) \<Rightarrow> nat option \<Rightarrow> nat option \<Rightarrow> nat list \<Rightarrow> bool" where
  "chain L p s [] \<longleftrightarrow> s = None"
| "chain L p s (a # as) \<longleftrightarrow> s = Some a \<and> (\<exists>nx. L a = Some (p, nx) \<and> chain L (Some a) nx as)"

lemma chain_cong: "(\<And>a. a \<in> set as \<Longrightarrow> L' a = L a) \<Longrightarrow> chain L' p s as = chain L p s as"
  by (induction as arbitrary: p s) auto

lemma chain_None: "chain L p None as \<longleftrightarrow> as = []"
  by (cases as) auto

lemma chain_start: "chain L p s as \<Longrightarrow> s = (case as of [] \<Rightarrow> None | a # _ \<Rightarrow> Some a)"
  by (cases as) auto

text \<open>Taking a routine out of the chain leaves a chain when its neighbours are joined.\<close>

lemma chain_links:
  "chain L p s (xs @ a # ys) \<Longrightarrow>
   L a = Some (if xs = [] then p else Some (last xs), case ys of [] \<Rightarrow> None | b # _ \<Rightarrow> Some b)"
proof (induction xs arbitrary: p s)
  case Nil
  then show ?case by (auto dest: chain_start)
next
  case (Cons x xs)
  from Cons.prems obtain nx where "chain L (Some x) nx (xs @ a # ys)" by auto
  from Cons.IH [OF this] show ?case by auto
qed

definition join :: "nat option \<Rightarrow> nat option \<Rightarrow> (nat \<Rightarrow> (nat option \<times> nat option) option) \<Rightarrow> nat \<Rightarrow> (nat option \<times> nat option) option" where
  "join q s L b = map_option (\<lambda>(p, n). (if Some b = s then q else p, if Some b = q then s else n)) (L b)"

lemma join_at: "L b = Some (p, n) \<Longrightarrow> join q s L b = Some (if Some b = s then q else p, if Some b = q then s else n)"
  by (simp add: join_def)

lemma chain_join_tail:
  assumes "chain L (Some a) s ys" "distinct ys" "a \<notin> set ys" "q \<notin> Some ` set ys"
  shows "chain (join q s L) q s ys"
proof (cases ys)
  case Nil
  with assms show ?thesis by simp
next
  case (Cons b zs)
  with assms obtain nx where b: "s = Some b" "L b = Some (Some a, nx)" "chain L (Some b) nx zs" by auto
  have "join q s L c = L c" if "c \<in> set zs" for c
    using that assms Cons b by (cases "L c") (auto simp: join_def)
  then have "chain (join q s L) (Some b) nx zs" using b(3) chain_cong [of zs "join q s L" L] by auto
  moreover have "Some b \<noteq> q" using assms(4) Cons by auto
  ultimately show ?thesis using Cons b by (auto simp: join_at)
qed

lemma chain_remove:
  assumes "chain L p s (xs @ a # ys)" "distinct (xs @ a # ys)" "p \<notin> Some ` set (xs @ a # ys)"
  defines "q \<equiv> if xs = [] then p else Some (last xs)" and "r \<equiv> case ys of [] \<Rightarrow> None | b # _ \<Rightarrow> Some b"
  shows "chain (join q r L) p (if xs = [] then r else s) (xs @ ys)"
  using assms(1-3) unfolding q_def r_def
proof (induction xs arbitrary: p s)
  case Nil
  then obtain nx where nx: "L a = Some (p, nx)" "chain L (Some a) nx ys" by auto
  have "nx = (case ys of [] \<Rightarrow> None | b # _ \<Rightarrow> Some b)" using nx(2) by (rule chain_start)
  with chain_join_tail [OF nx(2), of p] Nil.prems show ?case by auto
next
  case (Cons x xs)
  let ?r = "case ys of [] \<Rightarrow> None | b # _ \<Rightarrow> Some b"
  from Cons.prems obtain nx where x: "s = Some x" "L x = Some (p, nx)" "chain L (Some x) nx (xs @ a # ys)" by auto
  have rx: "?r \<noteq> Some x" using Cons.prems(2) by (cases ys) auto
  show ?case
  proof (cases "xs = []")
    case True
    with x obtain ny where "chain L (Some a) ny ys" by auto
    moreover from this have "ny = ?r" by (rule chain_start)
    ultimately have "chain (join (Some x) ?r L) (Some x) ?r ys"
      using chain_join_tail [of L a ?r ys "Some x"] Cons.prems(2) True by auto
    with True x rx show ?thesis by (auto simp: join_at)
  next
    case False
    have "last xs \<noteq> x" using Cons.prems(2) False by auto
    moreover have "chain (join (Some (last xs)) ?r L) (Some x) nx (xs @ ys)"
      using Cons.IH [OF x(3)] Cons.prems(2) False by auto
    ultimately show ?thesis using x rx False by (auto simp: join_at)
  qed
qed

section \<open>What the operations do to the list\<close>

definition env_at :: "'l routine_ctx option list \<Rightarrow> nat \<Rightarrow> 'l point option option" where
  "env_at h a = (if a < length h then map_option cx_Environment (h ! a) else None)"

lemma get_ctx_links:
  "links (en_heap e) a = Some (p, n) \<Longrightarrow>
   \<exists>c. get_ctx e (Some a) = Inr c \<and> en_heap e ! a = Some c \<and> a < length (en_heap e) \<and> cx_prev c = p \<and> cx_next c = n \<and>
     env_at (en_heap e) a = Some (cx_Environment c)"
  by (auto simp: links_def get_ctx_def env_at_def split: if_splits)

lemma get_ctx_env:
  "env_at (en_heap e) a = Some v \<Longrightarrow> \<exists>c. get_ctx e (Some a) = Inr c \<and> en_heap e ! a = Some c \<and> a < length (en_heap e) \<and> cx_Environment c = v"
  by (auto simp: get_ctx_def env_at_def split: if_splits)

text \<open>The parts of the engine an update of contexts leaves alone.\<close>

definition same_but_heap :: "'l engine \<Rightarrow> 'l engine \<Rightarrow> bool" where
  "same_but_heap e e' \<longleftrightarrow> e' = e\<lparr>en_heap := en_heap e'\<rparr> \<and> length (en_heap e') = length (en_heap e)"

lemma same_but_heapD:
  assumes "same_but_heap e e'"
  shows "en_StackBottom e' = en_StackBottom e" "en_cur_routine e' = en_cur_routine e" "en_alive e' = en_alive e"
    "en_idle_ctx e' = en_idle_ctx e" "en_handles e' = en_handles e" "en_out e' = en_out e" "length (en_heap e') = length (en_heap e)"
proof -
  have "e' = e\<lparr>en_heap := en_heap e'\<rparr>" using assms by (simp add: same_but_heap_def)
  then show "en_StackBottom e' = en_StackBottom e" "en_cur_routine e' = en_cur_routine e" "en_alive e' = en_alive e"
    "en_idle_ctx e' = en_idle_ctx e" "en_handles e' = en_handles e" "en_out e' = en_out e"
    by (metis engine.ext_inject engine.surjective engine.update_convs(2))+
  show "length (en_heap e') = length (en_heap e)" using assms by (simp add: same_but_heap_def)
qed

definition cell :: "'l routine_ctx option list \<Rightarrow> nat \<Rightarrow> 'l routine_ctx option" where
  "cell h b = (if b < length h then h ! b else None)"

lemma links_cell: "links h b = map_option (\<lambda>c. (cx_prev c, cx_next c)) (cell h b)"
  by (simp add: links_def cell_def)

lemma env_at_cell: "env_at h b = map_option cx_Environment (cell h b)"
  by (simp add: env_at_def cell_def)

lemma upd_live:
  assumes "\<And>a. p = Some a \<Longrightarrow> links (en_heap e) a \<noteq> None"
  obtains e' where "(if p \<noteq> None then upd_ctx p f e else Inr e) = Inr e'" "same_but_heap e e'"
    "\<And>b. cell (en_heap e') b = (if Some b = p then map_option f (cell (en_heap e) b) else cell (en_heap e) b)"
proof (cases p)
  case None
  then show thesis using that [of e] by (simp add: same_but_heap_def)
next
  case (Some a)
  with assms obtain c where c: "get_ctx e (Some a) = Inr c" "en_heap e ! a = Some c" "a < length (en_heap e)"
    using get_ctx_links by fastforce
  let ?e = "e\<lparr>en_heap := (en_heap e)[a := Some (f c)]\<rparr>"
  show thesis
  proof (rule that [of ?e])
    show "(if p \<noteq> None then upd_ctx p f e else Inr e) = Inr ?e" using Some c by (simp add: upd_ctx_def)
    show "same_but_heap e ?e" by (simp add: same_but_heap_def)
    show "cell (en_heap ?e) b = (if Some b = p then map_option f (cell (en_heap e) b) else cell (en_heap e) b)" for b
      using Some c by (simp add: cell_def nth_list_update)
  qed
qed

lemma Store_live:
  assumes "links (en_heap e) a \<noteq> None"
  obtains e' where "Store pt (Some a) e = Inr e'" "same_but_heap e e'" "links (en_heap e') = links (en_heap e)"
    "\<And>b. env_at (en_heap e') b = (if b = a then Some (Some pt) else env_at (en_heap e) b)"
proof -
  obtain e' where e': "Store pt (Some a) e = Inr e'" "same_but_heap e e'" and
    c: "\<And>b. cell (en_heap e') b = (if b = a then map_option (\<lambda>c. c\<lparr>cx_Environment := Some pt\<rparr>) (cell (en_heap e) b) else cell (en_heap e) b)"
    by (rule upd_live [of "Some a" e "\<lambda>c. c\<lparr>cx_Environment := Some pt\<rparr>"]) (use assms in \<open>auto simp: Store_def\<close>)
  have "links (en_heap e') = links (en_heap e)" by (auto simp: links_cell c option.map_comp comp_def)
  moreover have "env_at (en_heap e') b = (if b = a then Some (Some pt) else env_at (en_heap e) b)" for b
    using assms by (auto simp: env_at_cell links_cell c)
  ultimately show thesis using that e' by blast
qed

lemma Restore_env:
  "env_at (en_heap e) a = Some (Some pt) \<Longrightarrow>
   Restore True (Some a) e = Inr (e\<lparr>en_cur_routine := (if Some a = en_idle_ctx e then None else Some a)\<rparr>, Jumps a pt)"
  by (drule get_ctx_env, elim exE conjE, simp add: Restore_def)

section \<open>The invariant of the scheduler\<close>

definition running_inv :: "'l engine \<Rightarrow> nat \<Rightarrow> nat list \<Rightarrow> nat \<Rightarrow> bool" where
  "running_inv e pc ns i \<longleftrightarrow>
     en_StackBottom e \<and> en_idle_ctx e = Some i \<and> chain (links (en_heap e)) None (en_alive e) ns \<and> distinct ns \<and> i \<notin> set ns \<and>
     insert i (set ns) = {..<length (en_heap e)} \<and> en_cur_routine e = Some pc \<and> pc \<in> set ns \<and>
     (\<forall>a\<in>set ns. a \<noteq> pc \<longrightarrow> (\<exists>pt. env_at (en_heap e) a = Some (Some pt) \<and> pt \<noteq> Idle_point)) \<and>
     env_at (en_heap e) i = Some (Some Idle_point) \<and> ran (en_handles e) \<subseteq> set ns"

definition idle_inv :: "'l engine \<Rightarrow> bool" where
  "idle_inv e \<longleftrightarrow> en_cur_routine e = None \<and> (\<exists>i ns. en_idle_ctx e = Some i \<and>
     chain (links (en_heap e)) None (en_alive e) ns \<and> distinct ns \<and> length (en_heap e) = length ns + 2)"

lemma chain_live: "chain L p s as \<Longrightarrow> a \<in> set as \<Longrightarrow> L a \<noteq> None"
  by (induction as arbitrary: p s) auto

text \<open>The current routine hands over to another one.\<close>

lemma switch:
  assumes inv: "running_inv e pc ns i" and b: "b \<in> set ns" "b \<noteq> pc"
  obtains e' pt where "rbind (Store (Resume l) (Some pc) e) (Restore True (Some b)) = Inr (e', Jumps b pt)"
    "running_inv e' b ns i" "env_at (en_heap e) b = Some (Some pt)" "pt \<noteq> Idle_point"
    "env_at (en_heap e') pc = Some (Some (Resume l))" "\<And>a. a \<noteq> pc \<Longrightarrow> env_at (en_heap e') a = env_at (en_heap e) a"
    "en_out e' = en_out e"
proof -
  from inv have "links (en_heap e) pc \<noteq> None" by (auto simp: running_inv_def dest: chain_live)
  then obtain e1 where e1: "Store (Resume l) (Some pc) e = Inr e1" "same_but_heap e e1" "links (en_heap e1) = links (en_heap e)"
    "\<And>a. env_at (en_heap e1) a = (if a = pc then Some (Some (Resume l)) else env_at (en_heap e) a)"
    using Store_live by metis
  from inv b obtain pt where pt: "env_at (en_heap e) b = Some (Some pt)" "pt \<noteq> Idle_point" by (auto simp: running_inv_def)
  have "i \<noteq> b" "pc \<noteq> i" using inv b by (auto simp: running_inv_def)
  have "Restore True (Some b) e1 = Inr (e1\<lparr>en_cur_routine := Some b\<rparr>, Jumps b pt)"
    using Restore_env [of e1 b pt] e1 pt b \<open>i \<noteq> b\<close> inv by (auto simp: running_inv_def same_but_heapD)
  moreover have "running_inv (e1\<lparr>en_cur_routine := Some b\<rparr>) b ns i"
    using inv b e1 \<open>pc \<noteq> i\<close> by (auto simp: running_inv_def same_but_heapD)
  ultimately show thesis using that [of "e1\<lparr>en_cur_routine := Some b\<rparr>" pt] e1 pt b by (auto simp: same_but_heapD)
qed

text \<open>
  \<open>yield\<close> goes to the first routine of the list, and from there to the second; with no other routine it returns.
\<close>

definition next_of :: "nat list \<Rightarrow> nat \<Rightarrow> nat option" where
  "next_of ns pc = (case ns of [] \<Rightarrow> None | a # as \<Rightarrow> if a \<noteq> pc then Some a else case as of [] \<Rightarrow> None | b # _ \<Rightarrow> Some b)"

lemma next_of_other: "distinct ns \<Longrightarrow> next_of ns pc = Some b \<Longrightarrow> b \<in> set ns \<and> b \<noteq> pc"
  by (auto simp: next_of_def split: list.splits if_splits)

lemma yield_next:
  assumes "running_inv e pc ns i"
  shows "yield True pt e = (case next_of ns pc of None \<Rightarrow> Inr (e, Returns) | Some b \<Rightarrow> rbind (Store pt (Some pc) e) (Restore True (Some b)))"
proof -
  have c: "chain (links (en_heap e)) None (en_alive e) ns" and cur: "en_cur_routine e = Some pc" "pc \<in> set ns" "i \<notin> set ns" "en_idle_ctx e = Some i"
    using assms by (auto simp: running_inv_def)
  then obtain a as where ns: "ns = a # as" "en_alive e = Some a" by (cases ns) auto
  have "pc \<noteq> i" using cur by auto
  show ?thesis
  proof (cases "a = pc")
    case True
    have "links (en_heap e) a = Some (None, case as of [] \<Rightarrow> None | b # _ \<Rightarrow> Some b)"
      using chain_links [of "links (en_heap e)" None "en_alive e" "[]" a as] c ns by simp
    from get_ctx_links [OF this] show ?thesis
      using True ns cur \<open>pc \<noteq> i\<close> by (auto simp: yield_def next_of_def split: list.splits)
  next
    case False
    then show ?thesis using ns cur \<open>pc \<noteq> i\<close> by (simp add: yield_def next_of_def)
  qed
qed

lemma run_inv:
  assumes inv: "running_inv e pc ns i"
  obtains e' a where "run func e = Inr (Some a, e')" "running_inv e' pc (a # ns) i" "a = length (en_heap e)"
    "length (en_heap e') = length (en_heap e) + 1" "en_handles e' = en_handles e" "en_out e' = en_out e"
proof -
  let ?a = "length (en_heap e)"
  let ?e = "e\<lparr>en_heap := en_heap e @ [Some \<lparr>cx_Environment = Some (Enter func), cx_prev = None, cx_next = en_alive e\<rparr>], en_alive := Some ?a\<rparr>"
  have c: "chain (links (en_heap e)) None (en_alive e) ns" and b: "pc \<in> set ns" and bot: "en_StackBottom e"
    and all: "insert i (set ns) = {..<?a}" and d: "distinct ns"
    using inv by (auto simp: running_inv_def)
  then obtain b bs where ns: "ns = b # bs" "en_alive e = Some b" by (cases ns) auto
  have old: "cell (en_heap ?e) x = cell (en_heap e) x" if "x < ?a" for x
    using that by (simp add: cell_def nth_append)
  have lt: "x < ?a" if "x \<in> insert i (set ns)" for x using that all by auto
  have bl: "links (en_heap ?e) b \<noteq> None"
    using chain_live [OF c, of b] old [of b] lt [of b] ns by (simp add: links_cell)
  obtain e2 where e2: "(if en_alive e \<noteq> None then upd_ctx (en_alive e) (\<lambda>c. c\<lparr>cx_prev := Some ?a\<rparr>) ?e else Inr ?e) = Inr e2"
    "same_but_heap ?e e2" and cells: "\<And>x. cell (en_heap e2) x =
      (if x = b then map_option (\<lambda>c. c\<lparr>cx_prev := Some ?a\<rparr>) (cell (en_heap ?e) x) else cell (en_heap ?e) x)"
    using upd_live [of "en_alive e" ?e "\<lambda>c. c\<lparr>cx_prev := Some ?a\<rparr>"] bl ns by (smt (verit) option.inject)
  have ne: "b \<noteq> ?a" "?a \<notin> set ns" "?a \<noteq> i" using lt ns by fastforce+
  have new: "cell (en_heap e2) ?a = Some \<lparr>cx_Environment = Some (Enter func), cx_prev = None, cx_next = en_alive e\<rparr>"
    using cells [of ?a] ne by (simp add: cell_def)
  have env: "env_at (en_heap e2) x = env_at (en_heap e) x" if "x < ?a" for x
    using cells [of x] old [OF that] by (auto simp: env_at_cell option.map_comp comp_def)
  from c ns obtain nx where nx: "links (en_heap e) b = Some (None, nx)" "chain (links (en_heap e)) (Some b) nx bs" by auto
  have "links (en_heap e2) x = links (en_heap e) x" if "x \<in> set bs" for x
    using cells [of x] old [of x] lt [of x] that ns d by (auto simp: links_cell)
  then have "chain (links (en_heap e2)) (Some b) nx bs" using nx(2) chain_cong [of bs "links (en_heap e2)"] by blast
  moreover have "links (en_heap e2) b = Some (Some ?a, nx)"
    using cells [of b] old [of b] lt [of b] ns nx(1) by (auto simp: links_cell)
  ultimately have "chain (links (en_heap e2)) None (Some ?a) (?a # ns)"
    using new ns by (auto simp: links_cell)
  moreover have "env_at (en_heap e2) ?a = Some (Some (Enter func))" using new by (simp add: env_at_cell)
  moreover have "env_at (en_heap e2) i = env_at (en_heap e) i" using env lt by simp
  moreover have "\<forall>x\<in>set ns. env_at (en_heap e2) x = env_at (en_heap e) x" using env lt by simp
  ultimately have "running_inv e2 pc (?a # ns) i"
    using inv ne same_but_heapD [OF e2(2)] unfolding running_inv_def by (auto simp: lessThan_Suc)
  moreover have "run func e = Inr (Some ?a, e2)" using e2(1) bot by (simp add: run_def)
  ultimately show thesis using that e2(2) by (simp add: same_but_heapD)
qed

text \<open>The two assignments that take a context out of the list.\<close>

definition unlinked :: "'l engine \<Rightarrow> nat \<Rightarrow> nat option \<Rightarrow> nat option \<Rightarrow> 'l engine \<Rightarrow> bool" where
  "unlinked e pc q r e2 \<longleftrightarrow> same_but_heap e e2 \<and> length (en_heap e2) = length (en_heap e) \<and>
     (\<forall>b. links (en_heap e2) b = join q r (links (en_heap e)) b) \<and>
     (\<forall>b. Some b \<noteq> q \<longrightarrow> Some b \<noteq> r \<longrightarrow> cell (en_heap e2) b = cell (en_heap e) b)"

lemma unlink_ctx:
  assumes l: "links (en_heap e) pc = Some (q, r)" "q \<noteq> Some pc" "r \<noteq> Some pc"
    and live: "\<And>a. q = Some a \<or> r = Some a \<Longrightarrow> links (en_heap e) a \<noteq> None"
  obtains c e1 c1 e2 where "get_ctx e (Some pc) = Inr c" "cx_prev c = q" "cx_next c = r"
    "(if q \<noteq> None then upd_ctx q (\<lambda>d. d\<lparr>cx_next := r\<rparr>) e else Inr e) = Inr e1"
    "get_ctx e1 (Some pc) = Inr c1" "cx_prev c1 = q" "cx_next c1 = r"
    "(if r \<noteq> None then upd_ctx r (\<lambda>d. d\<lparr>cx_prev := q\<rparr>) e1 else Inr e1) = Inr e2" "unlinked e pc q r e2"
proof -
  obtain c where c: "get_ctx e (Some pc) = Inr c" "cx_prev c = q" "cx_next c = r" using get_ctx_links [OF l(1)] by blast
  obtain e1 where e1: "(if q \<noteq> None then upd_ctx q (\<lambda>d. d\<lparr>cx_next := r\<rparr>) e else Inr e) = Inr e1" "same_but_heap e e1"
    and c1: "\<And>b. cell (en_heap e1) b = (if Some b = q then map_option (\<lambda>d. d\<lparr>cx_next := r\<rparr>) (cell (en_heap e) b) else cell (en_heap e) b)"
    by (rule upd_live [of q e "\<lambda>d. d\<lparr>cx_next := r\<rparr>"]) (use live in auto)
  have "links (en_heap e1) pc = Some (q, r)" using l c1 [of pc] by (auto simp: links_cell)
  then obtain d where d: "get_ctx e1 (Some pc) = Inr d" "cx_prev d = q" "cx_next d = r" using get_ctx_links by blast
  have live1: "links (en_heap e1) a \<noteq> None" if "r = Some a" for a using live [of a] that c1 [of a] by (auto simp: links_cell)
  obtain e2 where e2: "(if r \<noteq> None then upd_ctx r (\<lambda>d. d\<lparr>cx_prev := q\<rparr>) e1 else Inr e1) = Inr e2" "same_but_heap e1 e2"
    and c2: "\<And>b. cell (en_heap e2) b = (if Some b = r then map_option (\<lambda>d. d\<lparr>cx_prev := q\<rparr>) (cell (en_heap e1) b) else cell (en_heap e1) b)"
    by (rule upd_live [of r e1 "\<lambda>d. d\<lparr>cx_prev := q\<rparr>"]) (use live1 in auto)
  have "links (en_heap e2) b = join q r (links (en_heap e)) b" for b
    by (cases "cell (en_heap e) b") (auto simp: links_cell join_def c1 c2)
  then have "unlinked e pc q r e2"
    using same_but_heapD [OF e1(2)] same_but_heapD [OF e2(2)] e1(2) e2(2) c1 c2 by (auto simp: unlinked_def same_but_heap_def)
  then show thesis by (rule that [OF c e1(1) d e2(1)])
qed

lemma unlinked_chain:
  assumes c: "chain (links (en_heap e)) None (en_alive e) (xs @ pc # ys)" "distinct (xs @ pc # ys)"
    and u: "unlinked e pc (if xs = [] then None else Some (last xs)) (case ys of [] \<Rightarrow> None | b # _ \<Rightarrow> Some b) e2"
  shows "chain (links ((en_heap e2)[pc := None])) None (if xs = [] then (case ys of [] \<Rightarrow> None | b # _ \<Rightarrow> Some b) else en_alive e) (xs @ ys)"
    (is "chain ?l None ?al _")
proof -
  let ?j = "join (if xs = [] then None else Some (last xs)) (case ys of [] \<Rightarrow> None | b # _ \<Rightarrow> Some b) (links (en_heap e))"
  have "?l b = ?j b" if "b \<in> set (xs @ ys)" for b
  proof -
    have "b \<noteq> pc" using that c(2) by auto
    then have "?l b = links (en_heap e2) b" by (simp add: links_def)
    then show ?thesis using u by (simp add: unlinked_def)
  qed
  then have "chain ?l None ?al (xs @ ys) = chain ?j None ?al (xs @ ys)" by (rule chain_cong)
  then show ?thesis using chain_remove [of "links (en_heap e)" None "en_alive e" xs pc ys] c by auto
qed

lemma finish_inv:
  assumes inv: "running_inv e pc ns i"
  obtains e' where "finish True pc e = Inr (e', Jumps i Idle_point)" "idle_inv e'" "en_alive e' = None \<longleftrightarrow> ns = [pc]"
    "length (en_heap e') = length (en_heap e)" "en_out e' = en_out e"
proof -
  have c: "chain (links (en_heap e)) None (en_alive e) ns" and d: "distinct ns" and pc: "pc \<in> set ns" "i \<notin> set ns"
    and i: "en_idle_ctx e = Some i" and cur: "en_cur_routine e = Some pc" and all: "insert i (set ns) = {..<length (en_heap e)}"
    using inv by (auto simp: running_inv_def)
  from pc obtain xs ys where ns: "ns = xs @ pc # ys" by (meson split_list)
  define q where "q = (if xs = [] then None else Some (last xs))"
  define r where "r = (case ys of [] \<Rightarrow> None | b # _ \<Rightarrow> Some b)"
  have in_ns: "a \<in> set (xs @ ys)" if "q = Some a \<or> r = Some a" for a
    using that by (auto simp: q_def r_def split: if_splits list.splits)
  have lpc: "links (en_heap e) pc = Some (q, r)"
    using chain_links [of "links (en_heap e)" None "en_alive e" xs pc ys] c ns by (simp add: q_def r_def)
  have ne: "i \<noteq> pc" "q \<noteq> Some pc" "r \<noteq> Some pc" "q \<noteq> Some i" "r \<noteq> Some i" using in_ns d ns pc by auto
  obtain cp e1 cp1 e2 where ctx: "get_ctx e (Some pc) = Inr cp" "cx_prev cp = q" "cx_next cp = r"
    "(if q \<noteq> None then upd_ctx q (\<lambda>d. d\<lparr>cx_next := r\<rparr>) e else Inr e) = Inr e1"
    "get_ctx e1 (Some pc) = Inr cp1" "cx_prev cp1 = q" "cx_next cp1 = r"
    "(if r \<noteq> None then upd_ctx r (\<lambda>d. d\<lparr>cx_prev := q\<rparr>) e1 else Inr e1) = Inr e2" and u: "unlinked e pc q r e2"
    by (rule unlink_ctx [OF lpc ne(2,3)]) (use chain_live [OF c] in_ns ns in auto)
  have e2s: "en_alive e2 = en_alive e" "en_cur_routine e2 = Some pc" "en_idle_ctx e2 = Some i" "en_out e2 = en_out e"
    "length (en_heap e2) = length (en_heap e)"
    using u same_but_heapD [of e e2] cur i by (auto simp: unlinked_def)
  let ?al = "if xs = [] then r else en_alive e"
  have alive: "en_alive e = Some pc \<longleftrightarrow> xs = []" using chain_start [OF c] ns d by (cases xs) auto
  have "links (en_heap e2) pc = Some (q, r)" using u lpc ne(2,3) by (simp add: unlinked_def join_def)
  from get_ctx_links [OF this] have e3: "(if en_alive e2 = en_cur_routine e2 then rbind (get_ctx e2 (en_alive e2)) (\<lambda>d. Inr (e2\<lparr>en_alive := cx_next d\<rparr>)) else Inr e2)
    = Inr (e2\<lparr>en_alive := ?al\<rparr>)" using alive e2s by auto
  let ?e = "e2\<lparr>en_alive := ?al, en_cur_routine := None, en_heap := (en_heap e2)[pc := None]\<rparr>"
  have "env_at (en_heap ?e) i = Some (Some Idle_point)"
    using inv u ne by (auto simp: running_inv_def env_at_cell unlinked_def cell_def split: if_splits)
  from Restore_env [OF this] have "Restore True (Some i) ?e = Inr (?e, Jumps i Idle_point)" using e2s by simp
  moreover have "finish True pc e = Restore True (en_idle_ctx (e2\<lparr>en_alive := ?al\<rparr>)) ?e"
    by (simp only: finish_def ctx e3 rbind.simps) simp
  ultimately have fin: "finish True pc e = Inr (?e, Jumps i Idle_point)" using e2s by simp
  have ch: "chain (links (en_heap ?e)) None ?al (xs @ ys)"
    using unlinked_chain [of e xs pc ys e2] c d ns u by (auto simp: q_def r_def)
  have "card {..<length (en_heap e)} = Suc (length ns)" using d pc by (simp flip: all add: distinct_card)
  then have "idle_inv ?e" using ch ns e2s d unfolding idle_inv_def by (intro conjI exI [of _ i] exI [of _ "xs @ ys"]) auto
  moreover have "?al = None \<longleftrightarrow> ns = [pc]" using ch ns chain_start [OF ch] by (cases xs; cases ys) auto
  ultimately show thesis using that [OF fin] e2s by simp
qed

section \<open>Reachable states\<close>

definition engine_inv :: "'l engine \<times> 'l control \<Rightarrow> bool" where
  "engine_inv c = (case c of
      (e, Running pc l) \<Rightarrow> \<exists>ns i. running_inv e pc ns i
    | (e, At_idle) \<Rightarrow> idle_inv e
    | (e, Returned) \<Rightarrow> length (en_heap e) = 2)"

lemma inv_Running [intro]: "running_inv e pc ns i \<Longrightarrow> engine_inv (e, Running pc l)"
  by (auto simp: engine_inv_def)

lemma arrive_Jumps: "pt \<noteq> Idle_point \<Longrightarrow> \<exists>l. arrive b (e, Jumps a pt) = (e, Running a l) \<and> (pt = Enter l \<or> pt = Resume l)"
  by (cases pt) auto

lemma yield_inv:
  assumes "running_inv e pc ns i"
  shows "\<exists>c. rbind (yield True (Resume l) e) (\<lambda>r. Inr (arrive (Running pc l) r)) = Inr c \<and> engine_inv c"
proof (cases "next_of ns pc")
  case None
  then show ?thesis using yield_next [OF assms] assms by (auto simp: engine_inv_def)
next
  case (Some b)
  with assms have "b \<in> set ns" "b \<noteq> pc" using next_of_other by (auto simp: running_inv_def)
  from switch [OF assms this, of l] obtain e' pt where sw:
    "rbind (Store (Resume l) (Some pc) e) (Restore True (Some b)) = Inr (e', Jumps b pt)" "running_inv e' b ns i" "pt \<noteq> Idle_point"
    by metis
  then show ?thesis using yield_next [OF assms] Some arrive_Jumps [OF sw(3), of "Running pc l" e' b] by auto
qed

lemma sched_inv:
  assumes "running_inv e pc ns i"
  shows "\<exists>c. rbind (sched True (en_handles e v) (Resume l) e) (\<lambda>r. Inr (arrive (Running pc l) r)) = Inr c \<and> engine_inv c"
proof (cases "en_handles e v")
  case None
  then show ?thesis using yield_inv [OF assms] by (simp add: sched_def)
next
  case (Some b)
  have cur: "en_cur_routine e = Some pc" using assms by (simp add: running_inv_def)
  have bn: "b \<in> set ns" using assms Some by (auto simp: running_inv_def ran_def)
  show ?thesis
  proof (cases "b = pc")
    case True
    then show ?thesis using Some cur assms by (auto simp: sched_def engine_inv_def)
  next
    case False
    from switch [OF assms bn this, of l] obtain e' pt where sw:
      "rbind (Store (Resume l) (Some pc) e) (Restore True (Some b)) = Inr (e', Jumps b pt)" "running_inv e' b ns i" "pt \<noteq> Idle_point"
      by metis
    then show ?thesis using Some cur False arrive_Jumps [OF sw(3), of "Running pc l" e' b] by (auto simp: sched_def)
  qed
qed

lemma handles_inv:
  "running_inv e pc ns i \<Longrightarrow> p = None \<or> (\<exists>a \<in> set ns. p = Some a) \<Longrightarrow> running_inv (e\<lparr>en_handles := (en_handles e)(v := p)\<rparr>) pc ns i"
  by (auto simp: running_inv_def ran_def)

lemma idle_step:
  assumes "idle_inv e"
  shows "engine_step body True (e, At_idle) = (if en_alive e = None then Inr (shutdown e, Returned) else Inl NullDeref)"
    and "en_alive e = None \<Longrightarrow> length (en_heap e) = 2"
proof -
  have "en_cur_routine e = None" "en_idle_ctx e \<noteq> None" using assms by (auto simp: idle_inv_def)
  then show "engine_step body True (e, At_idle) = (if en_alive e = None then Inr (shutdown e, Returned) else Inl NullDeref)"
    by (auto simp: yield_def Store_def upd_ctx_def get_ctx_def)
  show "en_alive e = None \<Longrightarrow> length (en_heap e) = 2" using assms by (auto simp: idle_inv_def chain_None)
qed

text \<open>From a state that satisfies the invariant the engine goes on, except in \<open>start\<close> with a routine still alive.\<close>

lemma engine_step_inv:
  assumes "engine_inv (e, ctl)"
  shows "(\<exists>c. engine_step body True (e, ctl) = Inr c \<and> engine_inv c) \<or>
    ctl = At_idle \<and> en_alive e \<noteq> None \<and> engine_step body True (e, ctl) = Inl NullDeref"
proof (cases ctl)
  case (Running pc l)
  with assms obtain ns i where inv: "running_inv e pc ns i" by (auto simp: engine_inv_def)
  show ?thesis
  proof (cases "body l")
    case (AOut s l')
    have "running_inv (e\<lparr>en_out := en_out e @ [s]\<rparr>) pc ns i" using inv by (simp add: running_inv_def)
    then show ?thesis using Running AOut by (auto simp: engine_inv_def)
  next
    case (AYield l')
    then show ?thesis using Running yield_inv [OF inv, of l'] by simp
  next
    case (ASched v l')
    then show ?thesis using Running sched_inv [OF inv, of v l'] by simp
  next
    case (ARun v func l')
    from run_inv [OF inv, of func] obtain e' a where r: "run func e = Inr (Some a, e')" "running_inv e' pc (a # ns) i"
      "a = length (en_heap e)" "length (en_heap e') = length (en_heap e) + 1" "en_handles e' = en_handles e" "en_out e' = en_out e"
      by blast
    from handles_inv [OF r(2), of "Some a" v] r(1) show ?thesis using Running ARun by (auto simp: engine_inv_def)
  next
    case ADone
    from finish_inv [OF inv] obtain e' where "finish True pc e = Inr (e', Jumps i Idle_point)" "idle_inv e'" by metis
    then show ?thesis using Running ADone by (simp add: engine_inv_def)
  qed
next
  case At_idle
  then have inv: "idle_inv e" using assms by (simp add: engine_inv_def)
  show ?thesis using At_idle idle_step [OF inv] by (auto simp: engine_inv_def shutdown_def)
next
  case Returned
  then show ?thesis using assms by (simp add: engine_inv_def)
qed

lemma start_inv:
  obtains e i where "start True main Engine = Inr (e, Running 0 main)" "running_inv e 0 [0] 1" "en_handles e = Map.empty" "en_out e = []"
proof -
  let ?h = "[Some \<lparr>cx_Environment = Some (Enter main), cx_prev = None, cx_next = None\<rparr>,
    Some \<lparr>cx_Environment = Some Idle_point, cx_prev = None, cx_next = None\<rparr>]"
  let ?e = "\<lparr>en_StackBottom = True, en_heap = ?h, en_cur_routine = Some 0, en_alive = Some 0, en_idle_ctx = Some 1,
     en_handles = Map.empty, en_out = []\<rparr>"
  have "start True main Engine = Inr (?e, Running 0 main)"
    by (simp add: start_def Engine_def run_def Store_def upd_ctx_def get_ctx_def sched_def Restore_def Let_def)
  moreover have "running_inv ?e 0 [0] 1" by (auto simp: running_inv_def links_def env_at_def lessThan_Suc)
  ultimately show thesis using that by auto
qed

text \<open>When the copy does not succeed, an operation does what it would have done, or faults at the copy.\<close>

lemma rbind_or: "(\<And>x. g x = h x \<or> g x = Inl z) \<Longrightarrow> rbind m g = rbind m h \<or> rbind m g = Inl z"
  by (cases m) auto

lemma if_or:
  "a = a' \<or> a = z \<Longrightarrow> b = b' \<or> b = z \<Longrightarrow> (if c then a else b) = (if c then a' else b') \<or> (if c then a else b) = z"
  by auto

lemma Restore_or: "Restore False p e = Restore True p e \<or> Restore False p e = Inl OutOfBounds"
  by (cases "get_ctx e p") (simp_all add: Restore_def)

lemma yield_or: "yield False pt e = yield True pt e \<or> yield False pt e = Inl OutOfBounds"
  unfolding yield_def by (rule rbind_or if_or Restore_or disjI1 [OF refl])+

lemma sched_or: "sched False p pt e = sched True p pt e \<or> sched False p pt e = Inl OutOfBounds"
  unfolding sched_def by (rule rbind_or if_or Restore_or yield_or disjI1 [OF refl])+

lemma finish_or: "finish False pc e = finish True pc e \<or> finish False pc e = Inl OutOfBounds"
  unfolding finish_def by (rule rbind_or Restore_or)+

lemma rbind_fails: "m = m' \<or> m = Inl z \<Longrightarrow> rbind m g = rbind m' g \<or> rbind m g = Inl z"
  by auto

lemma step_or: "engine_step body False (e, ctl) = engine_step body True (e, ctl) \<or> engine_step body False (e, ctl) = Inl OutOfBounds"
proof (cases ctl)
  case (Running pc l)
  then show ?thesis
    using rbind_fails [OF yield_or] rbind_fails [OF sched_or] rbind_fails [OF finish_or] by (cases "body l") (simp_all only: engine_step.simps act.simps simp_thms)
next
  case At_idle
  then show ?thesis using rbind_fails [OF yield_or] by (simp only: engine_step.simps)
qed simp

lemma engine_run_inv: "engine_inv c \<Longrightarrow> engine_run body clears c = Inr c' \<Longrightarrow> engine_inv c'"
proof (induction clears arbitrary: c)
  case (Cons clear clears)
  from Cons.prems obtain c1 where c1: "engine_step body clear c = Inr c1" "engine_run body clears c1 = Inr c'"
    by (cases "engine_step body clear c") auto
  then have "engine_step body True c = Inr c1" using step_or [of body "fst c" "snd c"] by (cases clear) auto
  with engine_step_inv [of "fst c" "snd c" body] Cons.prems(1) have "engine_inv c1" by auto
  with c1(2) show ?case by (rule Cons.IH [rotated])
qed simp

definition engine_reaches :: "('l \<Rightarrow> 'l act) \<Rightarrow> 'l \<Rightarrow> bool list \<Rightarrow> 'l engine \<times> 'l control \<Rightarrow> bool" where
  "engine_reaches body main clears c \<longleftrightarrow> rbind (start True main Engine) (engine_run body clears) = Inr c"

lemma reaches_inv: "engine_reaches body main clears c \<Longrightarrow> engine_inv c"
proof -
  assume r: "engine_reaches body main clears c"
  obtain e where e: "start True main Engine = Inr (e, Running 0 main)" "running_inv e 0 [0] 1" using start_inv [of main] by metis
  with r have "engine_run body clears (e, Running 0 main) = Inr c" by (simp add: engine_reaches_def)
  then show ?thesis using engine_run_inv [of "(e, Running 0 main)" body clears c] e(2) by blast
qed

text \<open>A step that hands over: the one that had the control is stored, the other goes on where it was.\<close>

definition handed_over :: "('l \<Rightarrow> 'l act) \<Rightarrow> 'l engine \<times> 'l control \<Rightarrow> 'l engine \<times> 'l control \<Rightarrow> bool" where
  "handed_over body c c' \<longleftrightarrow> (\<forall>pc l b k. snd c = Running pc l \<longrightarrow> snd c' = Running b k \<longrightarrow> b \<noteq> pc \<longrightarrow>
     env_at (en_heap (fst c)) b \<in> {Some (Some (Enter k)), Some (Some (Resume k))} \<and>
     (\<exists>l'. (body l = AYield l' \<or> (\<exists>v. body l = ASched v l')) \<and>
       env_at (en_heap (fst c')) = (env_at (en_heap (fst c)))(pc := Some (Some (Resume l')))))"

lemma arrive_after_switch:
  assumes inv: "running_inv e pc ns i" and b: "b \<in> set ns" "b \<noteq> pc"
    and r: "arrive (Running pc l') r = c'" "rbind (Store (Resume l') (Some pc) e) (Restore True (Some b)) = Inr r"
    and body: "body l = AYield l' \<or> (\<exists>v. body l = ASched v l')"
  shows "handed_over body (e, Running pc l) c'"
proof -
  from switch [OF inv b, of l'] obtain e' pt where sw:
    "rbind (Store (Resume l') (Some pc) e) (Restore True (Some b)) = Inr (e', Jumps b pt)" "running_inv e' b ns i"
    "env_at (en_heap e) b = Some (Some pt)" "pt \<noteq> Idle_point" "env_at (en_heap e') pc = Some (Some (Resume l'))"
    "\<And>a. a \<noteq> pc \<Longrightarrow> env_at (en_heap e') a = env_at (en_heap e) a" by metis
  from arrive_Jumps [OF sw(4), of "Running pc l'" e' b] obtain k where
    k: "arrive (Running pc l') (e', Jumps b pt) = (e', Running b k)" "pt = Enter k \<or> pt = Resume k" by blast
  have "c' = (e', Running b k)" using r sw(1) k(1) by simp
  moreover have "env_at (en_heap e') = (env_at (en_heap e))(pc := Some (Some (Resume l')))" using sw(5,6) by auto
  ultimately show ?thesis using sw(3) k(2) body unfolding handed_over_def by auto
qed

lemma yield_hands:
  assumes inv: "running_inv e pc ns i" and y: "yield True (Resume l') e = Inr r" and body: "body l = AYield l' \<or> (\<exists>v. body l = ASched v l')"
  shows "handed_over body (e, Running pc l) (arrive (Running pc l') r)"
proof (cases "next_of ns pc")
  case None
  then show ?thesis using y yield_next [OF inv] by (auto simp: handed_over_def)
next
  case (Some b)
  with inv have b: "b \<in> set ns" "b \<noteq> pc" using next_of_other by (auto simp: running_inv_def)
  have "rbind (Store (Resume l') (Some pc) e) (Restore True (Some b)) = Inr r" using y yield_next [OF inv] Some by simp
  from arrive_after_switch [where l = l and body = body, OF inv b refl this body] show ?thesis .
qed

lemma sched_hands:
  assumes inv: "running_inv e pc ns i" and y: "sched True (en_handles e v) (Resume l') e = Inr r" and body: "body l = ASched v l'"
  shows "handed_over body (e, Running pc l) (arrive (Running pc l') r)"
proof (cases "en_handles e v")
  case None
  then show ?thesis using yield_hands [OF inv, of l' r body l] y body by (simp add: sched_def)
next
  case (Some b)
  have cur: "en_cur_routine e = Some pc" using inv by (simp add: running_inv_def)
  have bn: "b \<in> set ns" using inv Some by (auto simp: running_inv_def ran_def)
  show ?thesis
  proof (cases "b = pc")
    case True
    then show ?thesis using y Some cur by (auto simp: sched_def handed_over_def)
  next
    case False
    then show ?thesis using arrive_after_switch [OF inv bn False refl, of l' r body l] y Some cur body by (simp add: sched_def)
  qed
qed

lemma step_hands:
  assumes "engine_inv (e, ctl)" "engine_step body True (e, ctl) = Inr c'"
  shows "handed_over body (e, ctl) c'"
proof (cases ctl)
  case (Running pc l)
  with assms(1) obtain ns i where inv: "running_inv e pc ns i" by (auto simp: engine_inv_def)
  show ?thesis
  proof (cases "body l")
    case (AYield l')
    then show ?thesis using yield_hands [OF inv, of l'] assms(2) Running by (auto simp: rbind_Inr_iff)
  next
    case (ASched v l')
    then show ?thesis using sched_hands [OF inv, of v l'] assms(2) Running by (auto simp: rbind_Inr_iff)
  next
    case ADone
    from finish_inv [OF inv] obtain e' where "finish True pc e = Inr (e', Jumps i Idle_point)" by metis
    then show ?thesis using ADone assms(2) Running by (auto simp: handed_over_def)
  qed (use assms(2) Running in \<open>auto simp: handed_over_def rbind_Inr_iff\<close>)
qed (simp_all add: handed_over_def)

text \<open>
  C26. Whatever the routines do and wherever the compiler puts the frames, as long as a routine or \<open>start\<close> has the control the engine keeps a
  well-formed list of different contexts, in which the running routine and every routine the client has a handle of can be
  found. A step that hands over stores the one that had the control at its next action and leaves what is stored of all others; the other one
  goes on where it was stored, at the entry of its function only if it never ran. A step faults only when the copy back of a
  stack does not succeed, or with a null pointer in \<open>start\<close> when that gets the control back while a routine is still
  alive; in particular no context is used that was deleted or never stored.
\<close>

theorem engine_safe:
  assumes "engine_reaches body main clears (e, ctl)"
  shows "(ctl \<noteq> Returned \<longrightarrow> (\<exists>ns. distinct ns \<and> chain (links (en_heap e)) None (en_alive e) ns \<and>
      (\<forall>pc l. ctl = Running pc l \<longrightarrow> pc \<in> set ns \<and> ran (en_handles e) \<subseteq> set ns))) \<and>
    (case engine_step body clear (e, ctl) of
       Inl f \<Rightarrow> f = NullDeref \<and> ctl = At_idle \<and> en_alive e \<noteq> None \<or> f = OutOfBounds \<and> \<not> clear
     | Inr (e', ctl') \<Rightarrow> \<forall>pc l b k. ctl = Running pc l \<longrightarrow> ctl' = Running b k \<longrightarrow> b \<noteq> pc \<longrightarrow>
         env_at (en_heap e) b \<in> {Some (Some (Enter k)), Some (Some (Resume k))} \<and>
         (\<exists>l'. (body l = AYield l' \<or> (\<exists>v. body l = ASched v l')) \<and>
           env_at (en_heap e') = (env_at (en_heap e))(pc := Some (Some (Resume l')))))"
proof -
  note inv = reaches_inv [OF assms]
  have "\<exists>ns. distinct ns \<and> chain (links (en_heap e)) None (en_alive e) ns \<and>
      (\<forall>pc l. ctl = Running pc l \<longrightarrow> pc \<in> set ns \<and> ran (en_handles e) \<subseteq> set ns)" if "ctl \<noteq> Returned"
    using inv that by (cases ctl) (force simp: engine_inv_def running_inv_def idle_inv_def)+
  moreover have "engine_step body clear (e, ctl) = engine_step body True (e, ctl) \<or> engine_step body clear (e, ctl) = Inl OutOfBounds \<and> \<not> clear"
    using step_or by (cases clear) auto
  ultimately show ?thesis
    using engine_step_inv [OF inv, of body] step_hands [OF inv, of body] unfolding handed_over_def by (auto split: sum.split)
qed

text \<open>A small client: the main routine registers one other, gives it the control and is done; the other one prints.\<close>

fun demo_body :: "nat \<Rightarrow> nat act" where
  "demo_body n = (if n = 0 then ARun 0 10 1 else if n = 1 then ASched 0 2 else if n = 10 then AOut ''B'' 11 else ADone)"

lemmas engine_eval = engine_reaches_def Engine_def start_def run_def Store_def upd_ctx_def get_ctx_def sched_def Restore_def
  finish_def yield_def Let_def eval_nat_numeral

theorem engine_safe_witness:
  "\<exists>e. engine_reaches demo_body 0 [True, True, True, True] (e, At_idle) \<and> engine_step demo_body True (e, At_idle) = Inl NullDeref \<and>
    en_alive e = Some 0"
proof -
  obtain e where e: "engine_reaches demo_body 0 [True, True, True, True] (e, At_idle)" "en_alive e = Some 0"
    "\<exists>f. engine_step demo_body True (e, At_idle) = Inl f"
    by (simp add: engine_eval)
  then obtain f where f: "engine_step demo_body True (e, At_idle) = Inl f" by blast
  with engine_safe [OF e(1), of True] have "f = NullDeref" by simp
  with f e show ?thesis by auto
qed

text \<open>
  When a routine is done, \<open>start\<close> returns if no other routine was ever registered; otherwise the program crashes, whichever
  routine it is and whatever the others still have to do. The main routine can therefore not use the engine for
  anything that ends.
\<close>

theorem engine_finish_crashes:
  assumes "engine_reaches body main clears (e, Running pc l)" "body l = ADone"
  shows "if length (en_heap e) > 2 then engine_run body [True, True] (e, Running pc l) = Inl NullDeref
    else \<exists>e'. engine_run body [True, True] (e, Running pc l) = Inr (e', Returned) \<and> en_out e' = en_out e"
proof -
  from reaches_inv [OF assms(1)] obtain ns i where inv: "running_inv e pc ns i" by (auto simp: engine_inv_def)
  from finish_inv [OF inv] obtain e' where f: "finish True pc e = Inr (e', Jumps i Idle_point)" "idle_inv e'"
    "en_alive e' = None \<longleftrightarrow> ns = [pc]" "en_out e' = en_out e" by metis
  have "card (insert i (set ns)) = length (en_heap e)" "distinct ns" "i \<notin> set ns" "pc \<in> set ns"
    using inv by (auto simp: running_inv_def)
  then have "length (en_heap e) > 2 \<longleftrightarrow> ns \<noteq> [pc]" by (cases ns; cases "tl ns") (auto simp: distinct_card)
  moreover have "engine_run body [True, True] (e, Running pc l) =
      (if ns = [pc] then Inr (shutdown e', Returned) else Inl NullDeref)"
    using f idle_step(1) [OF f(2), of body] assms(2) by simp
  ultimately show ?thesis using f(4) by (simp add: shutdown_def)
qed

theorem engine_finish_crashes_witness:
  "\<exists>e. engine_reaches demo_body 0 [True, True, True] (e, Running 2 11) \<and> engine_run demo_body [True, True] (e, Running 2 11) = Inl NullDeref"
proof -
  obtain e where e: "engine_reaches demo_body 0 [True, True, True] (e, Running 2 11)" "length (en_heap e) > 2" by (simp add: engine_eval)
  with engine_finish_crashes [OF e(1)] show ?thesis by auto
qed

text \<open>
  \<open>yield\<close> hands over to the first routine of the list, or to the second one if the first is the one that yields. The routine
  that gets the control goes on where it was stored; the one that yields is stored where it is; nothing else
  changes. The remaining routines of the list are never chosen.
\<close>

theorem yield_hands_over:
  assumes "engine_reaches body main clears (e, Running pc l)" "body l = AYield l'"
  shows "\<exists>ns. chain (links (en_heap e)) None (en_alive e) ns \<and>
    (case next_of ns pc of
       None \<Rightarrow> engine_step body True (e, Running pc l) = Inr (e, Running pc l')
     | Some b \<Rightarrow> \<exists>e' k. engine_step body True (e, Running pc l) = Inr (e', Running b k) \<and>
         env_at (en_heap e) b \<in> {Some (Some (Enter k)), Some (Some (Resume k))} \<and>
         env_at (en_heap e') = (env_at (en_heap e))(pc := Some (Some (Resume l'))) \<and>
         chain (links (en_heap e')) None (en_alive e') ns)"
proof -
  from reaches_inv [OF assms(1)] obtain ns i where inv: "running_inv e pc ns i" by (auto simp: engine_inv_def)
  show ?thesis
  proof (intro exI [of _ ns] conjI)
    show "chain (links (en_heap e)) None (en_alive e) ns" using inv by (simp add: running_inv_def)
    show "case next_of ns pc of
       None \<Rightarrow> engine_step body True (e, Running pc l) = Inr (e, Running pc l')
     | Some b \<Rightarrow> \<exists>e' k. engine_step body True (e, Running pc l) = Inr (e', Running b k) \<and>
         env_at (en_heap e) b \<in> {Some (Some (Enter k)), Some (Some (Resume k))} \<and>
         env_at (en_heap e') = (env_at (en_heap e))(pc := Some (Some (Resume l'))) \<and>
         chain (links (en_heap e')) None (en_alive e') ns"
    proof (cases "next_of ns pc")
      case None
      then show ?thesis using yield_next [OF inv] assms(2) by simp
    next
      case (Some b)
      with inv have b: "b \<in> set ns" "b \<noteq> pc" using next_of_other by (auto simp: running_inv_def)
      from switch [OF inv this, of l'] obtain e' pt where sw:
        "rbind (Store (Resume l') (Some pc) e) (Restore True (Some b)) = Inr (e', Jumps b pt)" "running_inv e' b ns i"
        "env_at (en_heap e) b = Some (Some pt)" "pt \<noteq> Idle_point" "env_at (en_heap e') pc = Some (Some (Resume l'))"
        "\<And>a. a \<noteq> pc \<Longrightarrow> env_at (en_heap e') a = env_at (en_heap e) a" by metis
      from arrive_Jumps [OF sw(4), of "Running pc l'" e' b] obtain k where
        k: "arrive (Running pc l') (e', Jumps b pt) = (e', Running b k)" "pt = Enter k \<or> pt = Resume k" by blast
      have "env_at (en_heap e') = (env_at (en_heap e))(pc := Some (Some (Resume l')))" using sw(5,6) by auto
      moreover have "engine_step body True (e, Running pc l) = Inr (e', Running b k)"
        using assms(2) yield_next [OF inv, of "Resume l'"] Some sw(1) k(1) by simp
      moreover have "chain (links (en_heap e')) None (en_alive e') ns" using sw(2) by (simp add: running_inv_def)
      ultimately show ?thesis using Some sw(3) k(2) by auto
    qed
  qed
qed

text \<open>A client whose main routine registers two others and yields: the one registered last gets the control.\<close>

fun yielding_body :: "nat \<Rightarrow> nat act" where
  "yielding_body n = (if n = 0 then ARun 0 10 1 else if n = 1 then ARun 1 20 2 else if n = 2 then AYield 3 else AYield n)"

theorem yield_hands_over_witness:
  "\<exists>e e'. engine_reaches yielding_body 0 [True, True] (e, Running 0 2) \<and> engine_step yielding_body True (e, Running 0 2) = Inr (e', Running 3 20)"
proof -
  obtain e where e: "engine_reaches yielding_body 0 [True, True] (e, Running 0 2)" "en_alive e = Some 3" "env_at (en_heap e) 3 = Some (Some (Enter 20))"
    by (simp add: engine_eval env_at_def)
  from yield_hands_over [OF e(1), of 3] obtain ns where ns: "chain (links (en_heap e)) None (en_alive e) ns"
    "case next_of ns 0 of
       None \<Rightarrow> engine_step yielding_body True (e, Running 0 2) = Inr (e, Running 0 3)
     | Some b \<Rightarrow> \<exists>e' k. engine_step yielding_body True (e, Running 0 2) = Inr (e', Running b k) \<and>
         env_at (en_heap e) b \<in> {Some (Some (Enter k)), Some (Some (Resume k))}" by (auto split: option.splits)
  then have "next_of ns 0 = Some 3" using e(2) by (cases ns) (auto simp: next_of_def)
  with ns e show ?thesis by auto
qed

text \<open>
  A main routine that registers no other one runs as an ordinary function: \<open>yield\<close> and \<open>sched\<close> do nothing, and \<open>start\<close>
  returns when it returns.
\<close>

fun solo :: "('l \<Rightarrow> 'l act) \<Rightarrow> nat \<Rightarrow> 'l \<Rightarrow> string list option" where
  "solo body 0 l = None"
| "solo body (Suc n) l = (case body l of
     AOut s l' \<Rightarrow> map_option (\<lambda>out. s # out) (solo body n l') | AYield l' \<Rightarrow> solo body n l' | ASched v l' \<Rightarrow> solo body n l'
   | ARun v f l' \<Rightarrow> None | ADone \<Rightarrow> Some [])"

lemma solo_yield: "running_inv e 0 [0] i \<Longrightarrow> yield True pt e = Inr (e, Returns)"
  by (drule yield_next) (simp add: next_of_def)

lemma solo_run:
  "running_inv e 0 [0] i \<Longrightarrow> en_handles e = Map.empty \<Longrightarrow> solo body n l = Some out \<Longrightarrow>
   \<exists>m e'. engine_run body (replicate m True) (e, Running 0 l) = Inr (e', Returned) \<and> en_out e' = en_out e @ out"
proof (induction n arbitrary: e l out)
  case (Suc n)
  note go = exI [of "\<lambda>m. \<exists>e'. engine_run body (replicate m True) (e, Running 0 l) = Inr (e', Returned) \<and> en_out e' = en_out e @ out"]
  show ?case
  proof (cases "body l")
    case (AOut s l')
    with Suc.prems obtain out' where o: "solo body n l' = Some out'" "out = s # out'" by auto
    have "running_inv (e\<lparr>en_out := en_out e @ [s]\<rparr>) 0 [0] i" using Suc.prems(1) by (simp add: running_inv_def)
    from Suc.IH [OF this _ o(1)] Suc.prems obtain m e' where
      "engine_run body (replicate m True) (e\<lparr>en_out := en_out e @ [s]\<rparr>, Running 0 l') = Inr (e', Returned)" "en_out e' = en_out e @ out" using o by auto
    then show ?thesis using AOut by (intro go [of "Suc m"]) simp
  next
    case (AYield l')
    with Suc.prems Suc.IH [OF Suc.prems(1,2), of l' out] obtain m e' where
      "engine_run body (replicate m True) (e, Running 0 l') = Inr (e', Returned)" "en_out e' = en_out e @ out" by auto
    then show ?thesis using AYield solo_yield [OF Suc.prems(1)] by (intro go [of "Suc m"]) simp
  next
    case (ASched v l')
    with Suc.prems Suc.IH [OF Suc.prems(1,2), of l' out] obtain m e' where
      "engine_run body (replicate m True) (e, Running 0 l') = Inr (e', Returned)" "en_out e' = en_out e @ out" by auto
    then show ?thesis using ASched solo_yield [OF Suc.prems(1)] Suc.prems(2) by (intro go [of "Suc m"]) (simp add: sched_def)
  next
    case ADone
    from finish_inv [OF Suc.prems(1)] obtain e' where f: "finish True 0 e = Inr (e', Jumps i Idle_point)" "idle_inv e'"
      "en_alive e' = None" "en_out e' = en_out e" by metis
    show ?thesis using f idle_step(1) [OF f(2), of body] ADone Suc.prems
      by (intro go [of 2]) (simp add: numeral_2_eq_2 shutdown_def)
  qed (use Suc.prems in auto)
qed simp

theorem engine_alone:
  assumes "solo body n main = Some out"
  shows "\<exists>m e. engine_reaches body main (replicate m True) (e, Returned) \<and> en_out e = out"
proof -
  obtain e where e: "start True main Engine = Inr (e, Running 0 main)" "running_inv e 0 [0] 1" "en_handles e = Map.empty" "en_out e = []"
    using start_inv [of main] by metis
  from solo_run [OF e(2,3) assms] e(1,4) show ?thesis by (auto simp: engine_reaches_def)
qed

theorem engine_alone_witness:
  "\<exists>m e. engine_reaches (\<lambda>n. if n = 0 then AOut ''a'' 1 else if n = (1::nat) then AYield 2 else ADone) 0 (replicate m True) (e, Returned) \<and> en_out e = [''a'']"
  by (rule engine_alone [of _ 3]) (simp add: eval_nat_numeral)

end
