(* ===== verification/Ipc_Sort.thy ===== *)
theory Ipc_Sort
  imports Int_Bytes
begin

text \<open>
  The presorting programs of \<^verbatim>\<open>src/sysprog/lecture_examples/7_ipc\<close>: \<^verbatim>\<open>1_simple_sort.c\<close> sorts each file in turn, \<^verbatim>\<open>2_parallel_sort.c\<close> has a
  process per file that sends its numbers through a pipe. What they do with a file is a locale, interpreted for each.
  A file is the list of numbers in it, or none if it cannot be opened; an \<^verbatim>\<open>int\<close> is a word that is read with sign.
\<close>

section \<open>Sorting one file\<close>

text \<open>The comparison is a difference, which may overflow.\<close>

definition cmp :: "u32 \<Rightarrow> u32 \<Rightarrow> fault + int" where
  "cmp a b = (let d = sint a - sint b in if - (2 ^ 31) \<le> d \<and> d < 2 ^ 31 then Inr d else Inl SignedOverflow)"

text \<open>
  \<open>qsort\<close> of the library returns the numbers in ascending order when the comparison is sound; which pairs it compares is not
  specified, so that the model faults if any pair overflows.
\<close>

definition comparable :: "u32 list \<Rightarrow> bool" where
  "comparable xs \<longleftrightarrow> list_all (\<lambda>a. list_all (\<lambda>b. cmp a b \<noteq> Inl SignedOverflow) xs) xs"

definition qsort_ints :: "u32 list \<Rightarrow> fault + u32 list" where
  "qsort_ints xs = (if comparable xs then Inr (sort_key sint xs) else Inl SignedOverflow)"

text \<open>Reading the numbers into an array that is doubled when it is full; the capacity is an \<^verbatim>\<open>int\<close>.\<close>

fun read_numbers :: "u32 list \<Rightarrow> u32 list \<Rightarrow> nat \<Rightarrow> fault + u32 list" where
  "read_numbers [] array capacity = Inr array"
| "read_numbers (x # xs) array capacity =
     (if length array < capacity then
        let array' = array @ [x] in
        if length array' = capacity then
          if capacity * 2 < 2 ^ 31 then read_numbers xs array' (capacity * 2) else Inl SignedOverflow
        else read_numbers xs array' capacity
      else Inl OutOfBounds)"

definition sorter :: "u32 list option \<Rightarrow> fault + u32 list" where
  "sorter f = (case f of None \<Rightarrow> Inl NullDeref | Some nums \<Rightarrow> rbind (read_numbers nums [] 1024) qsort_ints)"

text \<open>The loop of \<^verbatim>\<open>main\<close> over the files, with a function that gets the sorted array of one; the total is an \<^verbatim>\<open>int\<close>.\<close>

fun collect :: "('f \<Rightarrow> fault + u32 list) \<Rightarrow> 'f list \<Rightarrow> nat \<Rightarrow> fault + u32 list list" where
  "collect fetch [] total_size = Inr []"
| "collect fetch (f # fs) total_size =
     rbind (fetch f) (\<lambda>array.
     if total_size + length array < 2 ^ 31 then
       rbind (collect fetch fs (total_size + length array)) (\<lambda>arrays. Inr (array # arrays))
     else Inl SignedOverflow)"

definition presort_main :: "('f \<Rightarrow> fault + u32 list) \<Rightarrow> 'f list \<Rightarrow> fault + u32 list" where
  "presort_main fetch fs = rbind (collect fetch fs 0) (\<lambda>arrays. Inr (concat arrays))"

definition simple_sort_main :: "u32 list option list \<Rightarrow> fault + u32 list" where
  "simple_sort_main = presort_main sorter"

section \<open>Pipes\<close>

text \<open>
  A \<^verbatim>\<open>read\<close> of \<open>sz\<close> bytes from a pipe returns at least one byte of what will be written to it, unless it is at the end. How many it is
  up to the kernel, \<open>wish\<close> here.
\<close>

definition pipe_read :: "nat \<Rightarrow> nat \<Rightarrow> octet list \<Rightarrow> octet list \<times> octet list" where
  "pipe_read wish sz stream = (let k = min sz (max 1 wish) in (take k stream, drop k stream))"

text \<open>The wishes of the kernel run out at some time; from then on a read gets all it asks for.\<close>

fun read_from_pipe :: "nat list \<Rightarrow> octet list \<Rightarrow> nat \<Rightarrow> octet list \<times> octet list" where
  "read_from_pipe [] stream sz = pipe_read sz sz stream"
| "read_from_pipe (w # ws) stream sz =
     (case pipe_read w sz stream of (bs, rest) \<Rightarrow>
        if bs = [] then ([], rest)
        else case read_from_pipe ws rest (sz - length bs) of (bs', rest') \<Rightarrow> (bs @ bs', rest'))"

text \<open>What a child writes before it closes the pipe; a child that crashes has written nothing.\<close>

definition child_stream :: "u32 list option \<Rightarrow> octet list" where
  "child_stream f = (case sorter f of Inl e \<Rightarrow> [] | Inr array \<Rightarrow> le_bytes (of_nat (length array)) @ array_bytes array)"

text \<open>What \<^verbatim>\<open>main\<close> gets from a child. Bytes it does not get stay uninitialised.\<close>

definition fetch_pipe :: "nat list \<times> nat list \<times> u32 list option \<Rightarrow> fault + u32 list" where
  "fetch_pipe c =
     (case c of (ws1, ws2, f) \<Rightarrow>
      case read_from_pipe ws1 (child_stream f) 4 of (hdr, rest) \<Rightarrow>
        if length hdr < 4 then Inl UninitRead
        else let sz = unat (le_word hdr) in
          case read_from_pipe ws2 rest (sz * 4) of (body, rest') \<Rightarrow>
            if length body < sz * 4 then Inl UninitRead else Inr (bytes_array sz body))"

definition parallel_sort_main :: "(nat list \<times> nat list \<times> u32 list option) list \<Rightarrow> fault + u32 list" where
  "parallel_sort_main = presort_main fetch_pipe"

section \<open>Sorting\<close>

definition small_file :: "u32 list \<Rightarrow> bool" where
  "small_file nums \<longleftrightarrow> length nums < 2 ^ 29 \<and> comparable nums"

lemma read_numbers_ok:
  "length array < capacity \<Longrightarrow> length array + length xs < 2 ^ 30 \<Longrightarrow> read_numbers xs array capacity = Inr (array @ xs)"
  by (induction xs array capacity rule: read_numbers.induct) (auto simp: Let_def)

lemma sorter_sorts: "small_file nums \<Longrightarrow> sorter (Some nums) = Inr (sort_key sint nums)"
  by (simp add: sorter_def small_file_def read_numbers_ok qsort_ints_def)

text \<open>Numbers below \<open>2\<^sup>30\<close> in magnitude can always be compared.\<close>

lemma cmp_small: "- (2 ^ 30) \<le> sint a \<Longrightarrow> sint a < 2 ^ 30 \<Longrightarrow> - (2 ^ 30) \<le> sint b \<Longrightarrow> sint b < 2 ^ 30 \<Longrightarrow> cmp a b \<noteq> Inl SignedOverflow"
  by (simp add: cmp_def Let_def)

lemma comparable_small: "list_all (\<lambda>x. - (2 ^ 30) \<le> sint x \<and> sint x < 2 ^ 30) xs \<Longrightarrow> comparable xs"
  using cmp_small by (simp add: comparable_def list_all_iff)

lemma qsort_unique: "mset ys = mset (xs :: u32 list) \<Longrightarrow> sorted (map sint ys) \<Longrightarrow> ys = sort_key sint xs"
proof -
  assume "mset ys = mset xs" "sorted (map sint ys)"
  moreover have "inj_on (sint :: u32 \<Rightarrow> int) (set xs)" by (rule inj_onI) (simp add: signed_word_eqI)
  ultimately show ?thesis using sort_key_inj_key_eq [of xs ys sint] by simp
qed

section \<open>Reading from a pipe\<close>

lemma read_from_pipe_exact: "sz \<le> length stream \<Longrightarrow> read_from_pipe ws stream sz = (take sz stream, drop sz stream)"
proof (induction ws stream sz rule: read_from_pipe.induct)
  case (1 stream sz)
  then show ?case by (cases "sz = 0") (simp_all add: pipe_read_def)
next
  case (2 w ws stream sz)
  let ?k = "min sz (max 1 w)"
  have p: "pipe_read w sz stream = (take ?k stream, drop ?k stream)" by (simp add: pipe_read_def Let_def)
  show ?case
  proof (cases "take ?k stream = []")
    case True
    then have "sz = 0 \<or> stream = []" by auto
    with 2 p True show ?thesis by auto
  next
    case False
    have len: "length (take ?k stream) = ?k" using "2.prems" by auto
    have le: "sz - ?k \<le> length (drop ?k stream)" using "2.prems" by auto
    have "read_from_pipe ws (drop ?k stream) (sz - ?k) = (take (sz - ?k) (drop ?k stream), drop (sz - ?k) (drop ?k stream))"
      using "2.IH" [OF p [symmetric] False] le unfolding len by blast
    moreover have "take ?k stream @ take (sz - ?k) (drop ?k stream) = take sz stream"
      by (metis le_add_diff_inverse min.cobounded1 take_add)
    moreover have "drop (sz - ?k) (drop ?k stream) = drop sz stream" by simp
    ultimately show ?thesis using p False len by simp
  qed
qed

text \<open>Whatever pieces the pipe delivers, the parent gets the array that the child sorted.\<close>

lemma fetch_pipe_sorts:
  assumes "small_file nums"
  shows "fetch_pipe (ws1, ws2, Some nums) = Inr (sort_key sint nums)"
proof -
  let ?a = "sort_key sint nums :: u32 list"
  have len: "length ?a < 2 ^ 32" using assms by (simp add: small_file_def)
  have c: "child_stream (Some nums) = le_bytes (of_nat (length ?a)) @ array_bytes ?a"
    using sorter_sorts [OF assms] by (simp add: child_stream_def)
  have n: "unat (of_nat (length nums) :: u32) = length nums" using len by (simp add: unat_of_nat)
  show ?thesis
    using c n read_from_pipe_exact [of 4 "child_stream (Some nums)" ws1] read_from_pipe_exact [of "length nums * 4" "array_bytes ?a" ws2]
      bytes_array_roundtrip [of ?a]
    by (simp add: fetch_pipe_def le_word_bytes Let_def)
qed

section \<open>The programs\<close>

text \<open>A way to get the sorted numbers of a file: \<open>file\<close> tells which numbers are behind a request.\<close>

locale presort =
  fixes fetch :: "'f \<Rightarrow> fault + u32 list" and file_of :: "'f \<Rightarrow> u32 list"
    and ready :: "'f \<Rightarrow> bool"
  assumes fetch_sorts: "ready f \<Longrightarrow> fetch f = Inr (sort_key sint (file_of f))"
begin

lemma collect_sorts:
  "list_all ready fs \<Longrightarrow> n + sum_list (map (length \<circ> file_of) fs) < 2 ^ 31 \<Longrightarrow>
   collect fetch fs n = Inr (map (sort_key sint \<circ> file_of) fs)"
  by (induction fs arbitrary: n) (auto simp: fetch_sorts)

lemma main_sorts:
  "list_all ready fs \<Longrightarrow> sum_list (map (length \<circ> file_of) fs) < 2 ^ 31 \<Longrightarrow>
   presort_main fetch fs = Inr (concat (map (sort_key sint \<circ> file_of) fs))"
  using collect_sorts [of fs 0] by (simp add: presort_main_def)

end

interpretation simple: presort sorter the "\<lambda>f. f \<noteq> None \<and> small_file (the f)"
  by unfold_locales (auto simp: sorter_sorts)

interpretation pipe: presort fetch_pipe "\<lambda>c. the (snd (snd c))" "\<lambda>c. snd (snd c) \<noteq> None \<and> small_file (the (snd (snd c)))"
  by unfold_locales (auto simp: fetch_pipe_sorts)

text \<open>
  C38. The parallel sort computes what the simple one computes: for files of fewer than \<open>2\<^sup>29\<close> numbers whose differences fit in an \<^verbatim>\<open>int\<close>, the parent
  ends up with the sorted numbers of each file in the order of the files, however the kernel cuts the data of the
  pipes into pieces.
\<close>

theorem parallel_sort_correct:
  assumes "list_all small_file files" "sum_list (map length files) < 2 ^ 31" "length wishes = length files"
  shows "parallel_sort_main (map2 (\<lambda>(ws1, ws2) nums. (ws1, ws2, Some nums)) wishes files) = Inr (concat (map (sort_key sint) files)) \<and>
    simple_sort_main (map Some files) = Inr (concat (map (sort_key sint) files))"
proof
  have f: "map (\<lambda>c. the (snd (snd c))) (map2 (\<lambda>(ws1, ws2) nums. (ws1, ws2, Some nums)) wishes files) = files"
    using assms(3) by (induction wishes files rule: list_induct2) auto
  let ?cs = "map2 (\<lambda>(ws1, ws2) nums. (ws1, ws2, Some nums)) wishes files"
  have "list_all (\<lambda>c. snd (snd c) \<noteq> None \<and> small_file (the (snd (snd c)))) ?cs"
    using assms(3,1) by (induction wishes files rule: list_induct2) auto
  moreover have "sum_list (map (length \<circ> (\<lambda>c. the (snd (snd c)))) ?cs) < 2 ^ 31" using assms(2) f by (simp only: flip: map_map)
  ultimately show "parallel_sort_main ?cs = Inr (concat (map (sort_key sint) files))"
    using pipe.main_sorts [of ?cs] f unfolding parallel_sort_main_def by (simp only: flip: map_map)
  show "simple_sort_main (map Some files) = Inr (concat (map (sort_key sint) files))"
    using simple.main_sorts [of "map Some files"] assms(1,2) by (simp add: simple_sort_main_def list_all_iff comp_def)
qed

theorem parallel_sort_correct_witness:
  "parallel_sort_main [([1, 1], [3], Some [5, 2]), ([], [], Some [7])] = Inr [2, 5, 7]"
proof -
  have "list_all small_file [[5, 2], [7]]" by (simp add: small_file_def comparable_def cmp_def)
  then have "parallel_sort_main [([1, 1], [3], Some [5, 2]), ([], [], Some [7])] = Inr (concat (map (sort_key sint) [[5, 2], [7]]))"
    using parallel_sort_correct [of "[[5, 2], [7]]" "[([1, 1], [3]), ([], [])]"] by simp
  then show ?thesis by simp
qed

text \<open>A child that cannot open its file leaves the parent with a size that was never written.\<close>

lemma missing_file_uninitialised: "fetch_pipe (ws1, ws2, None) = Inl UninitRead"
  by (cases ws1) (simp_all add: fetch_pipe_def child_stream_def sorter_def pipe_read_def Let_def)

text \<open>The comparison of numbers that are far apart overflows.\<close>

lemma cmp_overflows: "cmp 2147483647 (- 1) = Inl SignedOverflow"
  by (simp add: cmp_def)

end
