(* ===== verification/Shared_Mem_Sort.thy ===== *)
theory Shared_Mem_Sort
  imports Ipc_Sort
begin

text \<open>
  \<^verbatim>\<open>src/sysprog/lecture_examples/7_ipc/3_mem_sort.c\<close>: parent and child share a page with two flags and a buffer of 65534 bytes. The child copies a
  message into the buffer piece by piece (\<open>write_to_shared_mem\<close>), the parent out of it (\<open>read_from_shared_mem\<close>); each waits in a loop
  for its flag. The two processes are a step relation with a step for every access to the shared page. The messages are
  the size and the array; what the parent asks for next depends on what it has received.
\<close>

section \<open>The processes\<close>

record chan =
  is_readable :: bool
  is_writable :: bool
  ch_mem :: "octet list"

text \<open>
  The writer waits for its flag with the rest of the current message, has copied a piece, or has cleared its flag; the messages after
  the current one follow.
\<close>

datatype writer = WPoll "octet list" "octet list list" | WCopied "octet list" "octet list list" | WCleared "octet list" "octet list list" | WDone

datatype reader = RPoll "octet list list" "octet list" nat | RCopied "octet list list" "octet list" nat | RCleared "octet list list" "octet list" nat
  | RDone "octet list list"

fun next_write :: "octet list list \<Rightarrow> writer" where
  "next_write [] = WDone"
| "next_write (x # ms) = WPoll x ms"

definition next_read :: "(octet list list \<Rightarrow> nat option) \<Rightarrow> octet list list \<Rightarrow> reader" where
  "next_read ask got = (case ask got of None \<Rightarrow> RDone got | Some n \<Rightarrow> RPoll got [] n)"

definition overwrite :: "octet list \<Rightarrow> octet list \<Rightarrow> octet list" where
  "overwrite xs mem = xs @ drop (length xs) mem"

type_synonym shm_conf = "writer \<times> reader \<times> chan"

inductive shm_step :: "nat \<Rightarrow> (octet list list \<Rightarrow> nat option) \<Rightarrow> shm_conf \<Rightarrow> shm_conf \<Rightarrow> bool" for m ask where
  w_copy: "is_writable c \<Longrightarrow>
     shm_step m ask (WPoll src ms, r, c) (WCopied (drop m src) ms, r, c\<lparr>ch_mem := overwrite (take m src) (ch_mem c)\<rparr>)"
| w_clear: "shm_step m ask (WCopied src ms, r, c) (WCleared src ms, r, c\<lparr>is_writable := False\<rparr>)"
| w_signal: "shm_step m ask (WCleared src ms, r, c) (if src = [] then next_write ms else WPoll src ms, r, c\<lparr>is_readable := True\<rparr>)"
| r_copy: "is_readable c \<Longrightarrow>
     shm_step m ask (w, RPoll got dst n, c) (w, RCopied got (dst @ take (min m n) (ch_mem c)) (n - min m n), c)"
| r_clear: "shm_step m ask (w, RCopied got dst n, c) (w, RCleared got dst n, c\<lparr>is_readable := False\<rparr>)"
| r_signal: "shm_step m ask (w, RCleared got dst n, c)
     (w, if n = 0 then next_read ask (got @ [dst]) else RPoll got dst n, c\<lparr>is_writable := True\<rparr>)"

definition MEM_SIZE :: nat where "MEM_SIZE = 65536"
definition MEM_META_SIZE :: nat where "MEM_META_SIZE = 2"

definition shm_init :: "nat \<Rightarrow> (octet list list \<Rightarrow> nat option) \<Rightarrow> octet list list \<Rightarrow> shm_conf" where
  "shm_init m ask ms = (next_write ms, next_read ask [], \<lparr>is_readable = False, is_writable = True, ch_mem = replicate m 0\<rparr>)"

section \<open>The invariant\<close>

text \<open>The messages the writer has not copied yet, the first of them from where it is.\<close>

fun pending :: "writer \<Rightarrow> octet list list" where
  "pending (WPoll src ms) = src # ms"
| "pending (WCopied src ms) = (if src = [] then ms else src # ms)"
| "pending (WCleared src ms) = (if src = [] then ms else src # ms)"
| "pending WDone = []"

text \<open>Nothing is in the buffer; a piece is in the buffer; the piece was taken but the message is not closed.\<close>

fun ready :: "octet list list \<Rightarrow> octet list list \<Rightarrow> reader \<Rightarrow> bool" where
  "ready ms pend (RPoll got dst n) \<longleftrightarrow> (\<exists>x rest. ms = got @ (dst @ x) # rest \<and> pend = x # rest \<and> n = length x)"
| "ready ms pend (RDone got) \<longleftrightarrow> got = ms \<and> pend = []"
| "ready ms pend _ \<longleftrightarrow> False"

fun inflight :: "nat \<Rightarrow> octet list list \<Rightarrow> octet list list \<Rightarrow> reader \<Rightarrow> octet list \<Rightarrow> bool" where
  "inflight m ms pend (RPoll got dst n) mem \<longleftrightarrow> (\<exists>c x rest. ms = got @ (dst @ c @ x) # rest \<and> pend = (if x = [] then rest else x # rest) \<and>
     n = length c + length x \<and> c = take (min m n) mem \<and> length c = min m n)"
| "inflight m ms pend _ mem \<longleftrightarrow> False"

definition taken :: "octet list list \<Rightarrow> octet list list \<Rightarrow> octet list list \<Rightarrow> octet list \<Rightarrow> nat \<Rightarrow> bool" where
  "taken ms pend got dst n \<longleftrightarrow> (\<exists>x rest. ms = got @ (dst @ x) # rest \<and> pend = (if x = [] then rest else x # rest) \<and> n = length x)"

fun waiting :: "writer \<Rightarrow> bool" where
  "waiting (WPoll src ms) = True"
| "waiting WDone = True"
| "waiting _ = False"

definition shm_inv :: "nat \<Rightarrow> octet list list \<Rightarrow> shm_conf \<Rightarrow> bool" where
  "shm_inv m ms conf = (case conf of (w, r, c) \<Rightarrow> length (ch_mem c) = m \<and>
     ((waiting w \<and> ready ms (pending w) r \<and> \<not> is_readable c \<and> is_writable c) \<or>
      ((\<exists>src rs. w = WCopied src rs) \<and> inflight m ms (pending w) r (ch_mem c) \<and> \<not> is_readable c \<and> is_writable c) \<or>
      ((\<exists>src rs. w = WCleared src rs) \<and> inflight m ms (pending w) r (ch_mem c) \<and> \<not> is_readable c \<and> \<not> is_writable c) \<or>
      (waiting w \<and> inflight m ms (pending w) r (ch_mem c) \<and> is_readable c \<and> \<not> is_writable c) \<or>
      (waiting w \<and> (\<exists>got dst n. r = RCopied got dst n \<and> taken ms (pending w) got dst n) \<and> is_readable c \<and> \<not> is_writable c) \<or>
      (waiting w \<and> (\<exists>got dst n. r = RCleared got dst n \<and> taken ms (pending w) got dst n) \<and> \<not> is_readable c \<and> \<not> is_writable c)))"

text \<open>The reader asks for the messages that are sent.\<close>

definition asks_for :: "(octet list list \<Rightarrow> nat option) \<Rightarrow> octet list list \<Rightarrow> bool" where
  "asks_for ask ms \<longleftrightarrow> (\<forall>k < length ms. ask (take k ms) = Some (length (ms ! k))) \<and> ask ms = None"

lemma next_read_ready: "asks_for ask ms \<Longrightarrow> ms = got @ rest \<Longrightarrow> ready ms rest (next_read ask got)"
proof (cases rest)
  case Nil
  assume "asks_for ask ms" "ms = got @ rest"
  with Nil show ?thesis by (simp add: next_read_def asks_for_def)
next
  case (Cons x xs)
  assume a: "asks_for ask ms" "ms = got @ rest"
  then have "length got < length ms" using Cons by simp
  then have "ask (take (length got) ms) = Some (length (ms ! length got))" using a unfolding asks_for_def by blast
  then show ?thesis using a Cons by (simp add: next_read_def)
qed

lemma pending_next [simp]: "pending (next_write ms) = ms" "waiting (next_write ms)"
  by (cases ms; simp)+

lemma shm_init_inv: "asks_for ask ms \<Longrightarrow> shm_inv m ms (shm_init m ask ms)"
  using next_read_ready [of ask ms "[]" ms] by (simp add: shm_inv_def shm_init_def)

lemma copy_inflight:
  assumes "ready ms (src # rs) r" "length mem = m"
  shows "inflight m ms (if drop m src = [] then rs else drop m src # rs) r (overwrite (take m src) mem)"
proof (cases r)
  case (RPoll got dst n)
  with assms have ms: "ms = got @ (dst @ src) # rs" "n = length src" by auto
  let ?c = "take m src" and ?x = "drop m src"
  have "?c = take (min m n) (overwrite ?c mem)" "length ?c = min m n" using ms(2) by (auto simp: overwrite_def min_def)
  then show ?thesis using RPoll ms by (auto intro!: exI [of _ ?c] exI [of _ ?x] exI [of _ rs])
qed (use assms in auto)

lemma shm_step_inv:
  assumes "shm_step m ask conf conf'" "asks_for ask ms" "shm_inv m ms conf"
  shows "shm_inv m ms conf'"
  using assms
proof cases
  case (w_copy c src rs r)
  with assms(3) have "ready ms (src # rs) r" "length (ch_mem c) = m" "\<not> is_readable c" by (auto simp: shm_inv_def)
  moreover from this have "length (overwrite (take m src) (ch_mem c)) = m" by (simp add: overwrite_def)
  ultimately show ?thesis using w_copy copy_inflight [of ms src rs r "ch_mem c" m] by (simp add: shm_inv_def)
next
  case (r_copy c w got dst n)
  with assms(3) have inv: "waiting w" "inflight m ms (pending w) (RPoll got dst n) (ch_mem c)" "\<not> is_writable c" "length (ch_mem c) = m"
    by (simp_all add: shm_inv_def del: inflight.simps)
  obtain d x rest where d: "ms = got @ (dst @ d @ x) # rest" "pending w = (if x = [] then rest else x # rest)"
    "n = length d + length x" "d = take (min m n) (ch_mem c)" "length d = min m n"
    using inv(2) unfolding inflight.simps by (elim exE conjE)
  have nx: "n - min m n = length x" using d(3,5) by linarith
  have "taken ms (pending w) got (dst @ d) (length x)" using d(1,2) unfolding taken_def by (intro exI [of _ x] exI [of _ rest]) simp
  then have "taken ms (pending w) got (dst @ take (min m n) (ch_mem c)) (n - min m n)" unfolding nx d(4) [symmetric] .
  then show ?thesis using inv r_copy by (simp add: shm_inv_def)
next
  case (r_signal w got dst n c)
  with assms(3) have inv: "waiting w" "taken ms (pending w) got dst n" "\<not> is_readable c" "length (ch_mem c) = m"
    by (auto simp: shm_inv_def)
  then obtain x rest where x: "ms = got @ (dst @ x) # rest" "pending w = (if x = [] then rest else x # rest)" "n = length x"
    unfolding taken_def by blast
  have "ready ms (pending w) (if n = 0 then next_read ask (got @ [dst]) else RPoll got dst n)"
    using x next_read_ready [OF assms(2), of "got @ [dst]" rest] by auto
  then show ?thesis using inv r_signal by (simp add: shm_inv_def)
qed (auto simp: shm_inv_def)

section \<open>Progress and termination\<close>

lemma shm_progress:
  assumes "shm_inv m ms (w, r, c)"
  shows "(\<exists>conf'. shm_step m ask (w, r, c) conf') \<or> w = WDone \<and> r = RDone ms"
proof -
  consider "waiting w" "ready ms (pending w) r" "is_writable c"
    | src rs where "w = WCopied src rs" | src rs where "w = WCleared src rs"
    | "inflight m ms (pending w) r (ch_mem c)" "is_readable c"
    | got dst n where "r = RCopied got dst n" | got dst n where "r = RCleared got dst n"
    using assms by (auto simp: shm_inv_def)
  then show ?thesis
  proof cases
    case 1
    then show ?thesis
    proof (cases w)
      case WDone
      with 1 show ?thesis by (cases r) auto
    qed (use 1 in \<open>auto intro: w_copy\<close>)
  next
    case 4
    then show ?thesis by (cases r) (auto intro: r_copy)
  qed (auto intro: w_clear w_signal r_clear r_signal)
qed

definition msum :: "octet list list \<Rightarrow> nat" where
  "msum xs = sum_list (map (\<lambda>x. length x + 1) xs)"

lemma msum_simps [simp]: "msum [] = 0" "msum (x # xs) = length x + 1 + msum xs"
  by (simp_all add: msum_def)

fun w_meas :: "writer \<Rightarrow> nat" where
  "w_meas (WPoll src rs) = 3 * msum (src # rs)"
| "w_meas (WCopied src rs) = 3 * msum (if src = [] then rs else src # rs) + 2"
| "w_meas (WCleared src rs) = 3 * msum (if src = [] then rs else src # rs) + 1"
| "w_meas WDone = 0"

fun r_meas :: "octet list list \<Rightarrow> reader \<Rightarrow> nat" where
  "r_meas ms (RPoll got dst n) = 3 * (n + 1 + msum (drop (Suc (length got)) ms))"
| "r_meas ms (RCopied got dst n) = 3 * ((if n = 0 then 0 else n + 1) + msum (drop (Suc (length got)) ms)) + 2"
| "r_meas ms (RCleared got dst n) = 3 * ((if n = 0 then 0 else n + 1) + msum (drop (Suc (length got)) ms)) + 1"
| "r_meas ms (RDone got) = 0"

definition shm_meas :: "octet list list \<Rightarrow> shm_conf \<Rightarrow> nat" where
  "shm_meas ms conf = (case conf of (w, r, c) \<Rightarrow> w_meas w + r_meas ms r)"

lemma next_write_meas [simp]: "w_meas (next_write ms) = 3 * msum ms"
  by (cases ms) auto

lemma next_read_meas:
  assumes "asks_for ask ms" "ms = got @ rest"
  shows "r_meas ms (next_read ask got) \<le> 3 * msum rest"
proof -
  have "ready ms rest (next_read ask got)" by (rule next_read_ready [OF assms])
  moreover have "next_read ask got = RDone got \<or> (\<exists>n. next_read ask got = RPoll got [] n)"
    by (auto simp: next_read_def split: option.splits)
  ultimately show ?thesis using assms(2) by auto
qed

lemma shm_step_meas:
  assumes "shm_step m ask conf conf'" "asks_for ask ms" "shm_inv m ms conf" "0 < m"
  shows "shm_meas ms conf' < shm_meas ms conf"
  using assms(1)
proof cases
  case (w_copy c src rs r)
  then show ?thesis using assms(4) by (auto simp: shm_meas_def)
next
  case (r_copy c w got dst n)
  then show ?thesis using assms(4) by (auto simp: shm_meas_def)
next
  case (r_signal w got dst n c)
  with assms(3) have "taken ms (pending w) got dst n" by (auto simp: shm_inv_def)
  then obtain x rest where x: "ms = got @ (dst @ x) # rest" "n = length x" unfolding taken_def by blast
  show ?thesis
  proof (cases "n = 0")
    case True
    then show ?thesis using r_signal x next_read_meas [OF assms(2), of "got @ [dst]" rest] by (simp add: shm_meas_def)
  next
    case False
    then show ?thesis using r_signal by (simp add: shm_meas_def)
  qed
qed (auto simp: shm_meas_def)

lemma shm_run:
  assumes "asks_for ask ms" "0 < m" "(shm_step m ask ^^ n) (shm_init m ask ms) conf"
  shows "shm_inv m ms conf \<and> n + shm_meas ms conf \<le> shm_meas ms (shm_init m ask ms)"
  using assms(3)
proof (induction n arbitrary: conf)
  case 0
  then show ?case using shm_init_inv [OF assms(1)] by auto
next
  case (Suc n)
  then obtain c1 where c1: "(shm_step m ask ^^ n) (shm_init m ask ms) c1" "shm_step m ask c1 conf" by auto
  from Suc.IH [OF c1(1)] shm_step_inv [OF c1(2) assms(1)] shm_step_meas [OF c1(2) assms(1) _ assms(2)] show ?case by fastforce
qed

lemma shm_init_meas: "asks_for ask ms \<Longrightarrow> shm_meas ms (shm_init m ask ms) \<le> 6 * msum ms"
  using next_read_meas [of ask ms "[]" ms] by (simp add: shm_init_def shm_meas_def)

text \<open>
  C15. The channel over shared memory is reliable: whatever messages the child writes, as long as the parent asks for them by their
  lengths, and however the two processes are scheduled, no more than a bounded number of steps is possible; as long as not both are
  done one of them can go on; and when nothing can go on the parent has received exactly the messages written, in order,
  also when a message has to be cut into pieces or is empty.
\<close>

theorem shared_mem_reliable:
  assumes "asks_for ask ms" "0 < m" "(shm_step m ask ^^ n) (shm_init m ask ms) (w, r, c)"
  shows "n \<le> 6 * msum ms \<and> ((\<exists>conf'. shm_step m ask (w, r, c) conf') \<or> w = WDone \<and> r = RDone ms)"
proof -
  note run = shm_run [OF assms]
  then have "n \<le> 6 * msum ms" using shm_init_meas [OF assms(1), of m] by linarith
  then show ?thesis using shm_progress run by blast
qed

lemma shm_completes:
  assumes "asks_for ask ms" "0 < m"
  shows "\<exists>n c. (shm_step m ask ^^ n) (shm_init m ask ms) (WDone, RDone ms, c)"
proof -
  have "\<exists>n c. (shm_step m ask ^^ n) conf (WDone, RDone ms, c)" if "shm_inv m ms conf" for conf
    using that
  proof (induction "shm_meas ms conf" arbitrary: conf rule: less_induct)
    case less
    obtain w r c where conf: "conf = (w, r, c)" by (cases conf) auto
    show ?case
    proof (cases "w = WDone \<and> r = RDone ms")
      case True
      then show ?thesis using conf by (auto intro: exI [of _ 0])
    next
      case False
      then obtain conf' where st: "shm_step m ask conf conf'" using shm_progress less.prems conf by blast
      from less.hyps [OF shm_step_meas [OF st assms(1) less.prems assms(2)] shm_step_inv [OF st assms(1) less.prems]]
      obtain n c' where "(shm_step m ask ^^ n) conf' (WDone, RDone ms, c')" by blast
      with st have "(shm_step m ask ^^ Suc n) conf (WDone, RDone ms, c')" by (rule relpowp_Suc_I2)
      then show ?thesis by blast
    qed
  qed
  then show ?thesis using shm_init_inv [OF assms(1)] by blast
qed

section \<open>Sorting\<close>

text \<open>The parent asks for a size, and then for as many numbers.\<close>

definition sort_ask :: "octet list list \<Rightarrow> nat option" where
  "sort_ask got = (case got of [] \<Rightarrow> Some 4 | [h] \<Rightarrow> Some (unat (le_word h) * 4) | _ \<Rightarrow> None)"

definition child_messages :: "u32 list option \<Rightarrow> octet list list" where
  "child_messages f = (case sorter f of Inl e \<Rightarrow> [] | Inr array \<Rightarrow> [le_bytes (of_nat (length array)), array_bytes array])"

definition buffer_size :: nat where
  "buffer_size = MEM_SIZE - MEM_META_SIZE"

definition mem_worker_done :: "u32 list option \<Rightarrow> octet list list \<Rightarrow> bool" where
  "mem_worker_done f got \<longleftrightarrow>
     (\<exists>n c. (shm_step buffer_size sort_ask ^^ n) (shm_init buffer_size sort_ask (child_messages f)) (WDone, RDone got, c))"

text \<open>What \<^verbatim>\<open>main\<close> does with the messages it has received from a worker.\<close>

definition fetch_mem :: "u32 list option \<times> octet list list \<Rightarrow> fault + u32 list" where
  "fetch_mem c = (case snd c of [h, b] \<Rightarrow> Inr (bytes_array (unat (le_word h)) b) | _ \<Rightarrow> Inl UninitRead)"

definition mem_sort_main :: "(u32 list option \<times> octet list list) list \<Rightarrow> fault + u32 list" where
  "mem_sort_main = presort_main fetch_mem"

lemma buffer_size_pos [simp]: "0 < buffer_size"
  by (simp add: buffer_size_def MEM_SIZE_def MEM_META_SIZE_def)

lemma child_messages_sorted:
  assumes "small_file nums"
  shows "child_messages (Some nums) = [le_bytes (of_nat (length nums)), array_bytes (sort_key sint nums)]"
    and "asks_for sort_ask (child_messages (Some nums))"
proof -
  show c: "child_messages (Some nums) = [le_bytes (of_nat (length nums)), array_bytes (sort_key sint nums)]"
    using sorter_sorts [OF assms] by (simp add: child_messages_def)
  have "unat (of_nat (length nums) :: u32) = length nums" using assms by (simp add: small_file_def unat_of_nat)
  then show "asks_for sort_ask (child_messages (Some nums))"
    unfolding c by (auto simp: asks_for_def sort_ask_def less_Suc_eq le_word_bytes)
qed

lemma fetch_mem_sorts:
  assumes "small_file nums" "mem_worker_done (Some nums) got"
  shows "fetch_mem (Some nums, got) = Inr (sort_key sint nums)"
proof -
  from assms(2) obtain n c where run: "(shm_step buffer_size sort_ask ^^ n) (shm_init buffer_size sort_ask (child_messages (Some nums))) (WDone, RDone got, c)"
    by (auto simp: mem_worker_done_def)
  have "shm_inv buffer_size (child_messages (Some nums)) (WDone, RDone got, c)"
    using shm_run [OF child_messages_sorted(2) [OF assms(1)] buffer_size_pos run] by blast
  then have "got = child_messages (Some nums)" by (auto simp: shm_inv_def)
  moreover have "unat (of_nat (length nums) :: u32) = length nums" using assms(1) by (simp add: small_file_def unat_of_nat)
  moreover have "bytes_array (length nums) (array_bytes (sort_key sint nums)) = sort_key sint nums"
    using bytes_array_roundtrip [of "sort_key sint nums"] by simp
  ultimately show ?thesis using child_messages_sorted(1) [OF assms(1)] by (simp add: fetch_mem_def le_word_bytes)
qed

interpretation mem: presort fetch_mem "\<lambda>c. the (fst c)" "\<lambda>c. fst c \<noteq> None \<and> small_file (the (fst c)) \<and> mem_worker_done (fst c) (snd c)"
  by unfold_locales (auto simp: fetch_mem_sorts)

text \<open>
  The sort over shared memory: once every worker is done, the parent has the sorted numbers of each file in the order of the
  files, whatever the schedule was.
\<close>

theorem mem_sort_correct:
  assumes "list_all (\<lambda>(nums, got). small_file nums \<and> mem_worker_done (Some nums) got) ws" "sum_list (map (length \<circ> fst) ws) < 2 ^ 31"
  shows "mem_sort_main (map (apfst Some) ws) = Inr (concat (map (sort_key sint \<circ> fst) ws))"
  using mem.main_sorts [of "map (apfst Some) ws"] assms by (simp add: mem_sort_main_def list_all_iff comp_def case_prod_beta)

theorem mem_sort_correct_witness:
  "\<exists>got. mem_worker_done (Some [3, 1, 2]) got \<and> mem_sort_main [(Some [3, 1, 2], got)] = Inr [1, 2, 3]"
proof -
  have f: "small_file [3, 1, 2]" by (simp add: small_file_def comparable_def cmp_def)
  obtain got where g: "mem_worker_done (Some [3, 1, 2]) got"
    using shm_completes [OF child_messages_sorted(2) [OF f] buffer_size_pos] unfolding mem_worker_done_def by blast
  then show ?thesis using mem_sort_correct [of "[([3, 1, 2], got)]"] f by auto
qed

text \<open>A worker that crashes before it has written anything leaves the parent waiting for ever.\<close>

lemma missing_file_hangs:
  "\<not> shm_step buffer_size sort_ask (shm_init buffer_size sort_ask (child_messages None)) conf'"
  by (auto simp: shm_init_def child_messages_def sorter_def next_read_def sort_ask_def elim: shm_step.cases)

theorem shared_mem_reliable_witness:
  "\<exists>conf'. shm_step 2 sort_ask (shm_init 2 sort_ask [le_bytes 0, []]) conf'"
proof -
  obtain w r c where i: "shm_init 2 sort_ask [le_bytes 0, []] = (w, r, c)" "w \<noteq> WDone" by (auto simp: shm_init_def)
  have a: "asks_for sort_ask [le_bytes 0, []]" by (auto simp: asks_for_def sort_ask_def less_Suc_eq le_word_bytes)
  have "(shm_step 2 sort_ask ^^ 0) (shm_init 2 sort_ask [le_bytes 0, []]) (w, r, c)" using i by simp
  from shared_mem_reliable [OF a _ this] i show ?thesis by auto
qed

end
