(* ===== verification/Shared_Mutex.thy ===== *)
theory Shared_Mutex
  imports Prelude
begin

text \<open>
  The shared mutex of the lecture on synchronization (\<^verbatim>\<open>materials/09-advanced-synchronization/code/shared_mutex.{h,cpp}\<close>): many readers or one
  writer, with their number and the writer's bit in one word. Every operation works under an internal mutex, so that what it
  does between two waits is one step; the two condition variables are the sets of threads that sleep on them, and a sleeper may
  also wake up for no reason.
\<close>

unbundle bit_operations_syntax

section \<open>The state word\<close>

definition write_entered :: u32 where
  "write_entered = push_bit 31 1"

definition n_readers :: u32 where
  "n_readers = NOT write_entered"

text \<open>Setting the number of readers, as the code does it.\<close>

definition set_readers :: "u32 \<Rightarrow> u32 \<Rightarrow> u32" where
  "set_readers num s = (s AND NOT n_readers) OR num"

section \<open>Threads\<close>

datatype phase =
    Out
  | Lock1 | Sleep1 | Entered | Sleep2 | Writing | Unlocking
  | LockS | SleepS | Reading

record rw_conf =
  rw_state :: u32
  rw_phase :: "nat \<Rightarrow> phase"

definition become :: "nat \<Rightarrow> phase \<Rightarrow> rw_conf \<Rightarrow> rw_conf" where
  "become t p c = c\<lparr>rw_phase := (rw_phase c)(t := p)\<rparr>"

text \<open>The end of \<open>lock\<close>: the writer's bit is set, and the readers have to leave.\<close>

definition wait_readers :: "nat \<Rightarrow> rw_conf \<Rightarrow> rw_conf" where
  "wait_readers t c = become t (if rw_state c AND n_readers \<noteq> 0 then Sleep2 else Writing) c"

definition lock_section :: "nat \<Rightarrow> rw_conf \<Rightarrow> rw_conf" where
  "lock_section t c =
     (if rw_state c AND write_entered \<noteq> 0 then become t Sleep1 c
      else wait_readers t (c\<lparr>rw_state := rw_state c OR write_entered\<rparr>))"

definition lock_shared_section :: "nat \<Rightarrow> rw_conf \<Rightarrow> rw_conf" where
  "lock_shared_section t c =
     (if rw_state c AND write_entered \<noteq> 0 \<or> rw_state c AND n_readers = n_readers then become t SleepS c
      else become t Reading (c\<lparr>rw_state := set_readers ((rw_state c AND n_readers) + 1) (rw_state c)\<rparr>))"

text \<open>A \<open>notify_one\<close> wakes one of the sleepers, if there is any; \<open>u\<close> is the one.\<close>

definition woken :: "phase \<Rightarrow> phase" where
  "woken p = (case p of Sleep1 \<Rightarrow> Lock1 | SleepS \<Rightarrow> LockS | Sleep2 \<Rightarrow> Entered | _ \<Rightarrow> p)"

definition notify_one :: "phase set \<Rightarrow> nat \<Rightarrow> rw_conf \<Rightarrow> rw_conf" where
  "notify_one gate u c = (if rw_phase c u \<in> gate then become u (woken (rw_phase c u)) c else c)"

definition notify_all :: "phase set \<Rightarrow> rw_conf \<Rightarrow> rw_conf" where
  "notify_all gate c = c\<lparr>rw_phase := (\<lambda>t. if rw_phase c t \<in> gate then woken (rw_phase c t) else rw_phase c t)\<rparr>"

definition gate1 :: "phase set" where "gate1 = {Sleep1, SleepS}"
definition gate2 :: "phase set" where "gate2 = {Sleep2}"

definition unlock_section :: "nat \<Rightarrow> rw_conf \<Rightarrow> rw_conf" where
  "unlock_section t c = become t Unlocking (c\<lparr>rw_state := 0\<rparr>)"

definition unlock_shared_section :: "nat \<Rightarrow> nat \<Rightarrow> nat \<Rightarrow> rw_conf \<Rightarrow> rw_conf" where
  "unlock_shared_section t u1 u2 c =
     (let num = (rw_state c AND n_readers) - 1;
          c1 = become t Out (c\<lparr>rw_state := set_readers num (rw_state c)\<rparr>) in
      if rw_state c1 AND write_entered \<noteq> 0 then if num = 0 then notify_one gate2 u2 c1 else c1
      else if num = n_readers - 1 then notify_one gate1 u1 c1 else c1)"

text \<open>
  The steps of threads with numbers below \<open>N\<close>. A notification reaches one of the sleepers if there is any; the \<open>try\<close> operations
  return at once when they fail.
\<close>

inductive rw_step :: "nat \<Rightarrow> rw_conf \<Rightarrow> rw_conf \<Rightarrow> bool" for N where
  lock: "rw_phase c t = Out \<Longrightarrow> t < N \<Longrightarrow> rw_step N c (become t Lock1 c)"
| lock_run: "rw_phase c t = Lock1 \<Longrightarrow> rw_step N c (lock_section t c)"
| lock_rerun: "rw_phase c t = Entered \<Longrightarrow> rw_step N c (wait_readers t c)"
| try_lock: "rw_phase c t = Out \<Longrightarrow> t < N \<Longrightarrow> rw_state c = 0 \<Longrightarrow> rw_step N c (become t Writing (c\<lparr>rw_state := write_entered\<rparr>))"
| unlock: "rw_phase c t = Writing \<Longrightarrow> rw_step N c (unlock_section t c)"
| unlock_notify: "rw_phase c t = Unlocking \<Longrightarrow> rw_step N c (become t Out (notify_all gate1 c))"
| lock_shared: "rw_phase c t = Out \<Longrightarrow> t < N \<Longrightarrow> rw_step N c (become t LockS c)"
| lock_shared_run: "rw_phase c t = LockS \<Longrightarrow> rw_step N c (lock_shared_section t c)"
| try_lock_shared: "rw_phase c t = Out \<Longrightarrow> t < N \<Longrightarrow> rw_state c AND write_entered = 0 \<Longrightarrow> rw_state c AND n_readers \<noteq> n_readers \<Longrightarrow>
    rw_step N c (become t Reading (c\<lparr>rw_state := set_readers ((rw_state c AND n_readers) + 1) (rw_state c)\<rparr>))"
| unlock_shared: "rw_phase c t = Reading \<Longrightarrow> (\<exists>v. rw_phase c v \<in> gate1) \<longrightarrow> rw_phase c u1 \<in> gate1 \<Longrightarrow>
    (\<exists>v. rw_phase c v \<in> gate2) \<longrightarrow> rw_phase c u2 \<in> gate2 \<Longrightarrow> rw_step N c (unlock_shared_section t u1 u2 c)"

text \<open>A condition variable may also let a sleeper go without a notification.\<close>

inductive spurious :: "rw_conf \<Rightarrow> rw_conf \<Rightarrow> bool" where
  wake: "rw_phase c t \<in> gate1 \<union> gate2 \<Longrightarrow> spurious c (become t (woken (rw_phase c t)) c)"

definition rw_init :: rw_conf where
  "rw_init = \<lparr>rw_state = 0, rw_phase = (\<lambda>t. Out)\<rparr>"

definition rw_reach :: "nat \<Rightarrow> rw_conf \<Rightarrow> bool" where
  "rw_reach N c \<longleftrightarrow> (sup (rw_step N) spurious)\<^sup>*\<^sup>* rw_init c"

section \<open>Arithmetic of the state word\<close>

definition st_of :: "bool \<Rightarrow> nat \<Rightarrow> u32" where
  "st_of w n = (if w then write_entered else 0) OR of_nat n"

lemma bit_write_entered [simp]: "bit write_entered i \<longleftrightarrow> i = 31"
proof -
  have "bit (push_bit 31 1 :: u32) i \<longleftrightarrow> i = 31" by (subst bit_push_bit_iff) (auto simp: bit_1_iff)
  then show ?thesis unfolding write_entered_def .
qed

lemma bit_n_readers [simp]: "bit n_readers i \<longleftrightarrow> i < 31"
proof -
  have "bit n_readers i \<longleftrightarrow> i < 32 \<and> i \<noteq> 31" by (simp add: n_readers_def bit_not_iff)
  then show ?thesis by arith
qed

lemma bit_of_nat_small: "n < 2147483648 \<Longrightarrow> bit (of_nat n :: u32) i \<Longrightarrow> i < 31"
proof -
  assume n: "n < 2147483648" and b: "bit (of_nat n :: u32) i"
  have "take_bit 31 (of_nat n :: u32) = of_nat n" using n by (simp add: take_bit_of_nat take_bit_nat_eq_self)
  then show ?thesis using b by (metis bit_take_bit_iff)
qed

lemma st_writer [simp]: "n < 2147483648 \<Longrightarrow> st_of w n AND write_entered = 0 \<longleftrightarrow> \<not> w"
proof -
  assume n: "n < 2147483648"
  have b: "bit (st_of w n AND write_entered) i \<longleftrightarrow> w \<and> i = 31" for i
    using bit_of_nat_small [OF n, of i] by (auto simp: st_of_def bit_and_iff bit_or_iff)
  show ?thesis
  proof (cases w)
    case True
    then have "bit (st_of w n AND write_entered) 31" using b by simp
    then show ?thesis using True by auto
  next
    case False
    then have "st_of w n AND write_entered = 0" using b by (intro bit_word_eqI) auto
    then show ?thesis using False by simp
  qed
qed

lemma st_readers [simp]: "n < 2147483648 \<Longrightarrow> st_of w n AND n_readers = of_nat n"
proof (rule bit_word_eqI)
  fix i
  assume n: "n < 2147483648"
  show "bit (st_of w n AND n_readers) i = bit (of_nat n :: u32) i"
    using bit_of_nat_small [OF n, of i] by (auto simp: st_of_def bit_and_iff bit_or_iff)
qed

lemma st_enter [simp]: "st_of w n OR write_entered = st_of True n"
  by (rule bit_word_eqI) (auto simp: st_of_def bit_or_iff)

lemma st_set_readers: "n < 2147483648 \<Longrightarrow> set_readers (of_nat k) (st_of w n) = st_of w k"
proof (rule bit_word_eqI)
  fix i
  assume n: "n < 2147483648" "i < LENGTH(32)"
  show "bit (set_readers (of_nat k) (st_of w n)) i = bit (st_of w k) i"
    using bit_of_nat_small [OF n(1), of i] by (auto simp: set_readers_def st_of_def bit_and_iff bit_or_iff bit_not_iff)
qed

lemma st_zero [simp]: "st_of False 0 = 0" "st_of True 0 = write_entered"
  by (simp_all add: st_of_def)

lemma unat_small: "n < 2147483648 \<Longrightarrow> unat (of_nat n :: u32) = n"
  by (simp add: unat_of_nat)

lemma small_of_nat: "n < 2147483648 \<Longrightarrow> m < 2147483648 \<Longrightarrow> (of_nat n :: u32) = of_nat m \<longleftrightarrow> n = m"
  using unat_small by metis

lemma n_readers_nat: "n_readers = of_nat 2147483647"
  by (simp add: n_readers_def write_entered_def)

lemma readers_full: "n < 2147483648 \<Longrightarrow> (of_nat n :: u32) = n_readers \<longleftrightarrow> n = 2147483647"
  unfolding n_readers_nat by (rule small_of_nat) auto

lemma readers_zero: "n < 2147483648 \<Longrightarrow> (of_nat n :: u32) = 0 \<longleftrightarrow> n = 0"
  using small_of_nat [of n 0] by simp

lemma st_eq_0: "n < 2147483648 \<Longrightarrow> st_of w n = 0 \<longleftrightarrow> \<not> w \<and> n = 0"
proof -
  assume n: "n < 2147483648"
  have "w = False \<and> n = 0" if "st_of w n = 0"
    using st_writer [OF n, of w] st_readers [OF n, of w] readers_zero [OF n] that by simp
  then show ?thesis by auto
qed

section \<open>The invariant\<close>

definition holders :: "phase set" where
  "holders = {Entered, Sleep2, Writing}"

definition readers :: "rw_conf \<Rightarrow> nat set" where
  "readers c = {t. rw_phase c t = Reading}"

text \<open>
  The state word tells whether a writer has entered and how many readers there are. A thread sleeps for the readers only while there
  are some. A thread sleeps at the first gate only while a writer has entered or one is about to notify, if there are not
  as many threads as the counter can count.
\<close>

definition rw_ok :: "nat \<Rightarrow> bool \<Rightarrow> nat \<Rightarrow> rw_conf \<Rightarrow> bool" where
  "rw_ok N w n c \<longleftrightarrow> rw_state c = st_of w n \<and> n < 2147483648 \<and> card (readers c) = n \<and> (\<forall>t. rw_phase c t \<noteq> Out \<longrightarrow> t < N) \<and>
     (w \<longleftrightarrow> (\<exists>t. rw_phase c t \<in> holders)) \<and>
     (\<forall>t t'. rw_phase c t \<in> holders \<longrightarrow> rw_phase c t' \<in> holders \<longrightarrow> t = t') \<and>
     (\<forall>t. rw_phase c t = Writing \<longrightarrow> n = 0) \<and> (\<forall>t. rw_phase c t = Sleep2 \<longrightarrow> 0 < n) \<and>
     (N < 2147483647 \<longrightarrow> (\<exists>t. rw_phase c t \<in> gate1) \<longrightarrow> w \<or> (\<exists>t. rw_phase c t = Unlocking))"

lemma finite_readers: "rw_ok N w n c \<Longrightarrow> finite (readers c)"
  by (rule finite_subset [of _ "{..<N}"]) (auto simp: rw_ok_def readers_def)

lemma readers_le: "rw_ok N w n c \<Longrightarrow> n \<le> N"
proof -
  assume ok: "rw_ok N w n c"
  then have "readers c \<subseteq> {..<N}" by (auto simp: rw_ok_def readers_def)
  then have "card (readers c) \<le> N" using card_mono [of "{..<N}"] by simp
  then show ?thesis using ok by (simp add: rw_ok_def)
qed

lemma rw_become [simp]: "rw_state (become t p c) = rw_state c" "rw_phase (become t p c) = (rw_phase c)(t := p)"
  by (simp_all add: become_def)

lemma readers_become:
  "readers (become t p c) = (if p = Reading then insert t (readers c) else readers c - {t})"
  by (auto simp: readers_def)

lemma readers_state [simp]: "readers (c\<lparr>rw_state := s\<rparr>) = readers c"
  by (simp add: readers_def)

lemma not_reader: "rw_phase c t \<noteq> Reading \<Longrightarrow> readers c - {t} = readers c"
  by (auto simp: readers_def)

lemmas phase_sets = holders_def gate1_def gate2_def

text \<open>A thread moves between phases in which it neither reads nor has entered as a writer.\<close>

lemma neutral_step:
  assumes ok: "rw_ok N w n c" and old: "rw_phase c t \<notin> insert Reading holders" and p: "p \<notin> insert Reading holders" "p = Out \<or> t < N"
    and g: "p \<in> gate1 \<longrightarrow> w" "rw_phase c t \<noteq> Unlocking \<or> (\<forall>u. rw_phase c u \<notin> gate1)"
  shows "rw_ok N w n (become t p c)"
proof -
  let ?c = "become t p c"
  have h: "rw_phase ?c u \<in> holders \<longleftrightarrow> rw_phase c u \<in> holders" "rw_phase ?c u = Writing \<longleftrightarrow> rw_phase c u = Writing"
    "rw_phase ?c u = Sleep2 \<longleftrightarrow> rw_phase c u = Sleep2" for u
    using old p(1) by (auto simp: holders_def)
  have r: "readers ?c = readers c" using old p(1) by (simp add: readers_become not_reader)
  have lt: "rw_phase ?c u \<noteq> Out \<Longrightarrow> u < N" for u using ok p(2) by (auto simp: rw_ok_def split: if_splits)
  have gate: "w \<or> (\<exists>u. rw_phase ?c u = Unlocking)" if N: "N < 2147483647" and u: "rw_phase ?c u \<in> gate1" for u
  proof (cases "u = t")
    case True
    then show ?thesis using u g(1) by simp
  next
    case False
    then have u': "rw_phase c u \<in> gate1" using u by simp
    then have "w \<or> (\<exists>v. rw_phase c v = Unlocking)" using ok N unfolding rw_ok_def by blast
    moreover have "rw_phase c t \<noteq> Unlocking" using g(2) u' by blast
    ultimately show ?thesis using rw_become(2) [of t p c] by (metis fun_upd_other)
  qed
  show ?thesis using ok gate lt unfolding rw_ok_def h r rw_become(1) by (elim conjE, intro conjI; (assumption | blast))
qed

text \<open>The thread that has entered as a writer moves on.\<close>

lemma holder_step:
  assumes ok: "rw_ok N w n c" and t: "rw_phase c t \<in> holders" and p: "p \<in> holders" "p = Writing \<longrightarrow> n = 0" "p = Sleep2 \<longrightarrow> 0 < n"
  shows "rw_ok N w n (become t p c)"
proof -
  let ?c = "become t p c"
  have h: "rw_phase ?c u \<in> holders \<longleftrightarrow> rw_phase c u \<in> holders" for u using t p(1) by simp
  have w: "w" using ok t unfolding rw_ok_def by blast
  have "rw_phase c t \<noteq> Reading" "p \<noteq> Reading" using t p(1) by (auto simp: holders_def)
  then have r: "readers ?c = readers c" by (simp add: readers_become not_reader)
  have lt: "rw_phase ?c u \<noteq> Out \<Longrightarrow> u < N" for u using ok t by (auto simp: rw_ok_def holders_def split: if_splits)
  have ws: "rw_phase ?c u = Writing \<Longrightarrow> n = 0" "rw_phase ?c u = Sleep2 \<Longrightarrow> 0 < n" for u
    using ok p(2,3) by (auto simp: rw_ok_def split: if_splits)
  show ?thesis using ok w lt ws unfolding rw_ok_def h r rw_become(1) by simp
qed

lemma enter_step:
  assumes ok: "rw_ok N False n c" and t: "rw_phase c t \<notin> insert Reading (insert Unlocking holders)" "t < N"
    and p: "p = Writing \<and> n = 0 \<or> p = Sleep2 \<and> 0 < n" and s: "s = st_of True n"
  shows "rw_ok N True n (become t p (c\<lparr>rw_state := s\<rparr>))"
proof -
  let ?c = "become t p (c\<lparr>rw_state := s\<rparr>)"
  have none: "rw_phase c u \<notin> holders" for u using ok unfolding rw_ok_def by blast
  then have h: "rw_phase ?c u \<in> holders \<longleftrightarrow> u = t" for u using p by (auto simp: holders_def)
  have r: "readers ?c = readers c" using t p by (auto simp: readers_become not_reader)
  have lt: "rw_phase ?c u \<noteq> Out \<Longrightarrow> u < N" for u using ok t by (auto simp: rw_ok_def split: if_splits)
  have ws: "rw_phase ?c u = Writing \<Longrightarrow> n = 0" "rw_phase ?c u = Sleep2 \<Longrightarrow> 0 < n" for u
    using none [of u] p by (auto simp: holders_def split: if_splits)
  show ?thesis using ok lt ws s unfolding rw_ok_def h r rw_become(1) by simp
qed

lemma read_step:
  assumes "rw_ok N False n c" "rw_phase c t \<notin> insert Reading (insert Unlocking holders)" "t < N" "n \<noteq> 2147483647"
    and s: "s = st_of False (n + 1)"
  shows "rw_ok N False (n + 1) (become t Reading (c\<lparr>rw_state := s\<rparr>))"
proof -
  have "t \<notin> readers c" using assms(2) by (auto simp: readers_def)
  then have "card (readers (become t Reading (c\<lparr>rw_state := s\<rparr>))) = n + 1"
    using finite_readers [OF assms(1)] assms(1) by (simp add: readers_become rw_ok_def)
  then show ?thesis using assms unfolding rw_ok_def by (auto simp: phase_sets)
qed

lemma unread_step:
  assumes ok: "rw_ok N w n c" and t: "rw_phase c t = Reading" and s: "s = st_of w (n - 1)"
    and sleep: "\<And>u. n = 1 \<Longrightarrow> rw_phase c u \<noteq> Sleep2"
  shows "rw_ok N w (n - 1) (become t Out (c\<lparr>rw_state := s\<rparr>))"
proof -
  let ?c = "become t Out (c\<lparr>rw_state := s\<rparr>)"
  have h: "rw_phase ?c u \<in> holders \<longleftrightarrow> rw_phase c u \<in> holders" for u using t by (auto simp: holders_def)
  have "t \<in> readers c" using t by (simp add: readers_def)
  then have r: "card (readers ?c) = n - 1" using ok finite_readers [OF ok] by (simp add: readers_become rw_ok_def)
  have lt: "rw_phase ?c u \<noteq> Out \<Longrightarrow> u < N" for u using ok by (auto simp: rw_ok_def split: if_splits)
  have ws: "rw_phase ?c u = Writing \<Longrightarrow> n - 1 = 0" for u using ok by (auto simp: rw_ok_def split: if_splits)
  have sl: "rw_phase ?c u = Sleep2 \<Longrightarrow> 0 < n - 1" for u
    using ok sleep [of u] by (cases "n = 1") (auto simp: rw_ok_def split: if_splits)
  have g: "rw_phase ?c u \<in> gate1 \<longleftrightarrow> rw_phase c u \<in> gate1" "rw_phase ?c u = Unlocking \<longleftrightarrow> rw_phase c u = Unlocking" for u
    using t by (auto simp: gate1_def)
  have "n - 1 < 2147483648" using ok by (auto simp: rw_ok_def)
  moreover have "rw_state ?c = st_of w (n - 1)" using s by simp
  ultimately show ?thesis using ok r lt ws sl unfolding rw_ok_def h g by (elim conjE, intro conjI; (assumption | blast))
qed

text \<open>Whatever wakes a sleeper, it only has its turn again.\<close>

lemma woken_step:
  assumes ok: "rw_ok N w n c" and t: "rw_phase c t \<in> gate1 \<union> gate2"
  shows "rw_ok N w n (become t (woken (rw_phase c t)) c)"
proof (cases "rw_phase c t = Sleep2")
  case True
  show ?thesis by (rule holder_step [OF ok]) (use True in \<open>auto simp: holders_def woken_def\<close>)
next
  case False
  then have t': "rw_phase c t \<in> {Sleep1, SleepS}" using t by (auto simp: phase_sets)
  have "rw_phase c t \<noteq> Out" using t' by auto
  then have "t < N" using ok unfolding rw_ok_def by blast
  then show ?thesis by (intro neutral_step [OF ok]) (use t' in \<open>auto simp: phase_sets woken_def\<close>)
qed

lemma notify_one_inv: "rw_ok N w n c \<Longrightarrow> gate \<subseteq> gate1 \<union> gate2 \<Longrightarrow> rw_ok N w n (notify_one gate u c)"
  using woken_step [of N w n c u] by (auto simp: notify_one_def)

lemma unlock_shared_inv:
  assumes ok: "rw_ok N w n c" and t: "rw_phase c t = Reading"
    and u: "(\<exists>v. rw_phase c v \<in> gate1) \<longrightarrow> rw_phase c u1 \<in> gate1" "(\<exists>v. rw_phase c v \<in> gate2) \<longrightarrow> rw_phase c u2 \<in> gate2"
  shows "rw_ok N w (n - 1) (unlock_shared_section t u1 u2 c)"
proof -
  have n: "n < 2147483648" "rw_state c = st_of w n" using ok by (auto simp: rw_ok_def)
  have "t \<in> readers c" using t by (simp add: readers_def)
  then have "0 < n" using ok finite_readers [OF ok] by (auto simp: rw_ok_def card_gt_0_iff)
  then have num: "(of_nat n :: u32) - 1 = of_nat (n - 1)" by simp
  have n': "n - 1 < 2147483648" using n by simp
  let ?s = "st_of w (n - 1)"
  have s: "set_readers (of_nat n - 1) (st_of w n) = ?s" unfolding num by (rule st_set_readers [OF n(1)])
  let ?c = "become t Out (c\<lparr>rw_state := ?s\<rparr>)"
  have def: "unlock_shared_section t u1 u2 c =
      (if w then if n = 1 then notify_one gate2 u2 ?c else ?c else if (of_nat (n - 1) :: u32) = n_readers - 1 then notify_one gate1 u1 ?c else ?c)"
  proof -
    have z: "n - 1 = 0 \<longleftrightarrow> n = 1" using \<open>0 < n\<close> by auto
    have c: "rw_state ?c = ?s" by simp
    show ?thesis unfolding unlock_shared_section_def Let_def n(2) st_readers [OF n(1)] s c st_writer [OF n'] unfolding num readers_zero [OF n'] z not_not ..
  qed
  show ?thesis
  proof (cases "\<exists>v. rw_phase c v = Sleep2")
    case True
    then have u2: "rw_phase c u2 = Sleep2" using u(2) by (auto simp: gate2_def)
    then have w: "w" using ok unfolding rw_ok_def holders_def by blast
    show ?thesis
    proof (cases "n = 1")
      case n1: True
      let ?d = "become u2 Entered c"
      have ok0: "rw_ok N w n ?d" by (rule holder_step [OF ok]) (use u2 in \<open>auto simp: holders_def\<close>)
      have "u2 \<noteq> t" using u2 t by auto
      moreover have "rw_phase ?d v \<noteq> Sleep2" for v using ok u2 unfolding rw_ok_def holders_def by (auto split: if_splits)
      ultimately have "rw_ok N w (n - 1) (become t Out (?d\<lparr>rw_state := ?s\<rparr>))" using unread_step [OF ok0 _ refl, of t] t by simp
      moreover have "notify_one gate2 u2 ?c = become t Out (?d\<lparr>rw_state := ?s\<rparr>)"
        using u2 \<open>u2 \<noteq> t\<close> by (intro rw_conf.equality) (auto simp: notify_one_def gate2_def woken_def fun_eq_iff)
      ultimately show ?thesis using def w n1 by simp
    next
      case False
      then show ?thesis using def w unread_step [OF ok t refl] by simp
    qed
  next
    case False
    then have ok1: "rw_ok N w (n - 1) ?c" using unread_step [OF ok t refl] by blast
    have "rw_ok N w (n - 1) (notify_one gate1 u1 ?c)" "rw_ok N w (n - 1) (notify_one gate2 u2 ?c)"
      by (rule notify_one_inv [OF ok1]; simp)+
    then show ?thesis using ok1 unfolding def by (simp only: if_distrib [of "rw_ok N w (n - 1)"] if_cancel)
  qed
qed

lemma lock_section_inv:
  assumes ok: "rw_ok N w n c" and t: "rw_phase c t = Lock1"
  shows "\<exists>w. rw_ok N w n (lock_section t c)"
proof -
  have n: "n < 2147483648" "rw_state c = st_of w n" and lt: "t < N" using ok t by (auto simp: rw_ok_def)
  show ?thesis
  proof (cases w)
    case True
    have "rw_ok N w n (become t Sleep1 c)" by (rule neutral_step [OF ok]) (use True t lt in \<open>auto simp: phase_sets\<close>)
    then show ?thesis using n True by (auto simp: lock_section_def)
  next
    case False
    let ?p = "if n = 0 then Writing else Sleep2"
    have "rw_ok N True n (become t ?p (c\<lparr>rw_state := st_of True n\<rparr>))"
      by (rule enter_step) (use ok False t lt in \<open>auto simp: phase_sets\<close>)
    then show ?thesis using n False by (auto simp: lock_section_def wait_readers_def readers_zero)
  qed
qed

lemma read_count: "n < 2147483648 \<Longrightarrow> set_readers ((st_of w n AND n_readers) + 1) (st_of w n) = st_of w (n + 1)"
  using st_set_readers [of n "n + 1" w] by (simp add: add.commute)

lemma start_reading:
  assumes ok: "rw_ok N w n c" and t: "rw_phase c t \<in> {Out, LockS}" "t < N" and f: "rw_state c AND write_entered = 0" "rw_state c AND n_readers \<noteq> n_readers"
  shows "rw_ok N False (n + 1) (become t Reading (c\<lparr>rw_state := set_readers ((rw_state c AND n_readers) + 1) (rw_state c)\<rparr>))"
proof -
  have n: "n < 2147483648" "rw_state c = st_of w n" using ok by (auto simp: rw_ok_def)
  have w: "\<not> w" and full: "n \<noteq> 2147483647" using f n by (auto simp: readers_full)
  show ?thesis unfolding n(2) read_count [OF n(1)]
    by (rule read_step) (use ok w full t in \<open>auto simp: phase_sets\<close>)
qed

lemma lock_shared_section_inv:
  assumes ok: "rw_ok N w n c" and t: "rw_phase c t = LockS"
  shows "\<exists>w n. rw_ok N w n (lock_shared_section t c)"
proof -
  have n: "n < 2147483648" "rw_state c = st_of w n" and lt: "t < N" using ok t by (auto simp: rw_ok_def)
  consider "w \<or> n = 2147483647" | "\<not> w" "n \<noteq> 2147483647" by blast
  then show ?thesis
  proof cases
    case 1
    have "n \<le> N" by (rule readers_le [OF ok])
    have sleep: "lock_shared_section t c = become t SleepS c" using 1 n by (auto simp: lock_shared_section_def readers_full)
    show ?thesis
    proof (cases w)
      case True
      have "rw_ok N w n (become t SleepS c)" by (rule neutral_step [OF ok]) (use True t lt in \<open>auto simp: phase_sets\<close>)
      then show ?thesis unfolding sleep by blast
    next
      case False
      then have "\<not> N < 2147483647" using 1 \<open>n \<le> N\<close> by auto
      moreover have "readers (become t SleepS c) = readers c" using t by (simp add: readers_become not_reader)
      ultimately have "rw_ok N w n (become t SleepS c)" using ok t lt False unfolding rw_ok_def by (auto simp: phase_sets)
      then show ?thesis unfolding sleep by blast
    qed
  next
    case 2
    then have f: "rw_state c AND write_entered = 0" "rw_state c AND n_readers \<noteq> n_readers" using n by (auto simp: readers_full)
    then show ?thesis using start_reading [OF ok _ lt f] t unfolding lock_shared_section_def by auto
  qed
qed

lemma unlock_section_inv:
  assumes ok: "rw_ok N w n c" and t: "rw_phase c t = Writing"
  shows "rw_ok N False 0 (unlock_section t c)"
proof -
  let ?c = "unlock_section t c"
  have n: "n = 0" and lt: "t < N" using ok t unfolding rw_ok_def by auto
  have ph: "rw_phase ?c = (rw_phase c)(t := Unlocking)" and st: "rw_state ?c = 0" by (simp_all add: unlock_section_def)
  have r: "readers ?c = readers c" using t by (simp add: unlock_section_def readers_become not_reader)
  have "rw_phase c u \<in> holders \<Longrightarrow> u = t" for u using ok t unfolding rw_ok_def holders_def by blast
  then have h: "rw_phase ?c u \<notin> holders" for u using ph by (auto simp: holders_def)
  then have "rw_phase ?c u \<noteq> Writing" "rw_phase ?c u \<noteq> Sleep2" for u by (auto simp: holders_def)
  moreover have "rw_phase ?c u \<noteq> Out \<longrightarrow> u < N" for u using ok lt ph by (auto simp: rw_ok_def)
  moreover have "rw_phase ?c t = Unlocking" using ph by simp
  ultimately show ?thesis using ok n r st h unfolding rw_ok_def by auto
qed

lemma unlock_notify_inv:
  assumes ok: "rw_ok N w n c" and t: "rw_phase c t = Unlocking"
  shows "rw_ok N w n (become t Out (notify_all gate1 c))"
proof -
  let ?c = "notify_all gate1 c"
  have ph: "rw_phase ?c = (\<lambda>u. if rw_phase c u \<in> gate1 then woken (rw_phase c u) else rw_phase c u)" and st: "rw_state ?c = rw_state c"
    by (simp_all add: notify_all_def)
  have g: "rw_phase ?c u \<notin> gate1" for u unfolding ph by (auto simp: gate1_def woken_def)
  have h: "rw_phase ?c u \<in> holders \<longleftrightarrow> rw_phase c u \<in> holders" "rw_phase ?c u = Writing \<longleftrightarrow> rw_phase c u = Writing"
    "rw_phase ?c u = Sleep2 \<longleftrightarrow> rw_phase c u = Sleep2" "rw_phase ?c u = Reading \<longleftrightarrow> rw_phase c u = Reading"
    "rw_phase ?c u = Out \<longleftrightarrow> rw_phase c u = Out" for u
    unfolding ph by (auto simp: phase_sets woken_def)
  have "rw_ok N w n ?c" using ok unfolding rw_ok_def h readers_def st by (simp add: g)
  moreover have "rw_phase ?c t = Unlocking" unfolding ph using t by (simp add: gate1_def)
  ultimately show ?thesis using g by (intro neutral_step) (auto simp: phase_sets)
qed

lemma rw_step_inv: "rw_step N c c' \<Longrightarrow> rw_ok N w n c \<Longrightarrow> \<exists>w n. rw_ok N w n c'"
proof (induction rule: rw_step.induct)
  case (lock c t)
  then show ?case using neutral_step [OF lock.prems, of t Lock1] by (auto simp: phase_sets)
next
  case (lock_run c t)
  then show ?case using lock_section_inv by blast
next
  case (lock_rerun c t)
  then have n: "n < 2147483648" "rw_state c = st_of w n" by (auto simp: rw_ok_def)
  have "rw_ok N w n (wait_readers t c)" unfolding wait_readers_def n(2) st_readers [OF n(1)] readers_zero [OF n(1)]
    by (rule holder_step [OF lock_rerun.prems]) (use lock_rerun.hyps in \<open>auto simp: holders_def\<close>)
  then show ?case by blast
next
  case (try_lock c t)
  then have n: "n < 2147483648" "rw_state c = st_of w n" by (auto simp: rw_ok_def)
  then have "\<not> w" "n = 0" using try_lock.hyps(3) st_eq_0 by auto
  then show ?case using enter_step [of N n c t Writing write_entered] try_lock by (auto simp: phase_sets)
next
  case (unlock c t)
  then show ?case using unlock_section_inv by blast
next
  case (unlock_notify c t)
  then show ?case using unlock_notify_inv by blast
next
  case (lock_shared c t)
  then show ?case using neutral_step [OF lock_shared.prems, of t LockS] by (auto simp: phase_sets)
next
  case (lock_shared_run c t)
  then show ?case using lock_shared_section_inv by blast
next
  case (try_lock_shared c t)
  then show ?case using start_reading by blast
next
  case (unlock_shared c t u1 u2)
  then show ?case using unlock_shared_inv by blast
qed

lemma rw_reach_inv: "rw_reach N c \<Longrightarrow> \<exists>w n. rw_ok N w n c"
  unfolding rw_reach_def
proof (induction rule: rtranclp_induct)
  case base
  have "rw_ok N False 0 rw_init" by (simp add: rw_ok_def rw_init_def readers_def phase_sets)
  then show ?case by blast
next
  case (step c c')
  then obtain w n where ok: "rw_ok N w n c" by blast
  from step.hyps(2) consider "rw_step N c c'" | "spurious c c'" by auto
  then show ?case
  proof cases
    case 1
    then show ?thesis using rw_step_inv ok by blast
  next
    case 2
    then show ?thesis using woken_step [OF ok] by (auto elim!: spurious.cases)
  qed
qed

section \<open>Everybody can get in\<close>

text \<open>
  How far a thread is from having locked and unlocked. The steps below are chosen so that no thread loses ground: who notifies goes
  first, then the readers, then the writer, and only then those who come in.
\<close>

definition weight :: "phase \<Rightarrow> nat" where
  "weight p = (case p of Out \<Rightarrow> 0 | Reading \<Rightarrow> 1 | Unlocking \<Rightarrow> 1 | Writing \<Rightarrow> 2 | Entered \<Rightarrow> 3 | Sleep2 \<Rightarrow> 4 | Lock1 \<Rightarrow> 5 | LockS \<Rightarrow> 5
     | Sleep1 \<Rightarrow> 6 | SleepS \<Rightarrow> 6)"

definition load :: "nat \<Rightarrow> rw_conf \<Rightarrow> nat" where
  "load N c = (\<Sum>t<N. weight (rw_phase c t))"

lemma load_less:
  assumes "t < N" "weight (rw_phase c' t) < weight (rw_phase c t)" "\<And>u. weight (rw_phase c' u) \<le> weight (rw_phase c u)"
  shows "load N c' < load N c"
  unfolding load_def using assms by (intro sum_strict_mono_ex1) auto

lemma weight_woken: "weight (woken p) \<le> weight p"
  by (cases p) (simp_all add: woken_def weight_def)

lemma load_become: "t < N \<Longrightarrow> weight p < weight (rw_phase c t) \<Longrightarrow> rw_phase c' = (rw_phase c)(t := p) \<Longrightarrow> load N c' < load N c"
  by (rule load_less [of t]) auto

lemma notify_one_weight: "weight (rw_phase (notify_one g v c) u) \<le> weight (rw_phase c u)"
  by (simp add: notify_one_def weight_woken)

lemma unlock_shared_load:
  assumes "t < N" "rw_phase c t = Reading"
  shows "load N (unlock_shared_section t u1 u2 c) < load N c"
proof -
  let ?c = "\<lambda>s. become t Out (c\<lparr>rw_state := s\<rparr>)"
  have le: "weight (rw_phase (?c s) u) \<le> weight (rw_phase c u)" for u s by (simp add: weight_def)
  have le': "weight (rw_phase (notify_one g v (?c s)) u) \<le> weight (rw_phase (?c s) u)" for g v u s by (rule notify_one_weight)
  have out: "weight (rw_phase (notify_one g v (?c s)) t) = 0" "weight (rw_phase (?c s) t) = 0" for g v s
    using le' [of g v s t] by (simp_all add: weight_def)
  obtain s g v where "unlock_shared_section t u1 u2 c = ?c s \<or> unlock_shared_section t u1 u2 c = notify_one g v (?c s)"
    unfolding unlock_shared_section_def Let_def by metis
  then show ?thesis
  proof
    assume eq: "unlock_shared_section t u1 u2 c = ?c s"
    show ?thesis unfolding eq by (rule load_less [of t, OF assms(1) _ le]) (simp add: assms(2) weight_def)
  next
    assume eq: "unlock_shared_section t u1 u2 c = notify_one g v (?c s)"
    show ?thesis unfolding eq
      by (rule load_less [of t, OF assms(1) _ order_trans [OF le' le]]) (simp only: out, simp add: assms(2) weight_def)
  qed
qed

lemma unlock_notify_load:
  assumes "t < N" "rw_phase c t = Unlocking"
  shows "load N (become t Out (notify_all gate1 c)) < load N c"
  by (rule load_less [of t]) (auto simp: assms notify_all_def weight_woken, auto simp: weight_def)

text \<open>Unless every thread is outside, one can go on.\<close>

lemma rw_progress:
  assumes ok: "rw_ok N w n c" and N: "N < 2147483647" and t: "rw_phase c t \<noteq> Out"
  shows "\<exists>c'. rw_step N c c' \<and> load N c' < load N c"
proof -
  have n: "n < 2147483648" "rw_state c = st_of w n" and lt: "\<And>u. rw_phase c u \<noteq> Out \<Longrightarrow> u < N" using ok by (auto simp: rw_ok_def)
  consider u where "rw_phase c u = Unlocking" | u where "rw_phase c u = Reading"
    | u where "rw_phase c u \<in> holders" "\<And>v. rw_phase c v \<noteq> Reading"
    | "\<And>v. rw_phase c v \<notin> insert Unlocking (insert Reading holders)" by blast
  then show ?thesis
  proof cases
    case (1 u)
    have "u < N" using lt [of u] 1 by simp
    then show ?thesis using unlock_notify [OF 1] unlock_notify_load [OF _ 1] by blast
  next
    case (2 u)
    obtain u1 u2 where "(\<exists>v. rw_phase c v \<in> gate1) \<longrightarrow> rw_phase c u1 \<in> gate1" "(\<exists>v. rw_phase c v \<in> gate2) \<longrightarrow> rw_phase c u2 \<in> gate2" by blast
    moreover have "u < N" using lt [of u] 2 by simp
    ultimately show ?thesis using unlock_shared [OF 2] unlock_shared_load [OF _ 2] by blast
  next
    case (3 u)
    then have "n = 0" using ok unfolding rw_ok_def readers_def by auto
    then have "rw_phase c u \<noteq> Sleep2" using ok unfolding rw_ok_def by auto
    then consider "rw_phase c u = Writing" | "rw_phase c u = Entered" using 3(1) by (auto simp: holders_def)
    then show ?thesis
    proof cases
      case 1
      show ?thesis using unlock [OF 1] load_become [of u N Unlocking c "unlock_section u c"] 1 lt [of u]
        by (auto simp: unlock_section_def weight_def)
    next
      case 2
      have "wait_readers u c = become u Writing c" using n \<open>n = 0\<close> by (simp add: wait_readers_def)
      then show ?thesis using lock_rerun [OF 2] load_become [of u N Writing c "become u Writing c"] 2 lt [of u]
        by (auto simp: weight_def)
    qed
  next
    case 4
    then have "n = 0" "\<not> w" using ok unfolding rw_ok_def readers_def by auto
    then have idle: "rw_state c = 0" using n by simp
    have "rw_phase c t \<notin> gate1" using ok N 4 \<open>\<not> w\<close> unfolding rw_ok_def by blast
    moreover have "rw_phase c t \<notin> insert Unlocking (insert Reading holders)" by (rule 4)
    ultimately consider "rw_phase c t = Lock1" | "rw_phase c t = LockS" using t by (cases "rw_phase c t") (auto simp: phase_sets)
    then show ?thesis
    proof cases
      case 1
      have "lock_section t c = become t Writing (c\<lparr>rw_state := write_entered\<rparr>)"
        using st_readers [of 0 True] by (simp add: lock_section_def wait_readers_def idle)
      then show ?thesis using lock_run [OF 1] load_become [of t N Writing c "lock_section t c"] 1 lt [OF t] by (auto simp: weight_def)
    next
      case 2
      obtain s where eq: "lock_shared_section t c = become t Reading (c\<lparr>rw_state := s\<rparr>)"
        using readers_full [of 0] by (auto simp: lock_shared_section_def idle)
      have "load N (lock_shared_section t c) < load N c"
        by (rule load_become [of t N Reading]) (use 2 lt [OF t] in \<open>auto simp: weight_def eq\<close>)
      then show ?thesis using lock_shared_run [OF 2] by blast
    qed
  qed
qed

lemma rw_drain: "rw_ok N w n c \<Longrightarrow> N < 2147483647 \<Longrightarrow> \<exists>c'. (rw_step N)\<^sup>*\<^sup>* c c' \<and> (\<forall>t. rw_phase c' t = Out)"
proof (induction "load N c" arbitrary: c w n rule: less_induct)
  case less
  show ?case
  proof (cases "\<forall>t. rw_phase c t = Out")
    case False
    then obtain t where "rw_phase c t \<noteq> Out" by blast
    from rw_progress [OF less.prems this] obtain d where d: "rw_step N c d" "load N d < load N c" by blast
    from rw_step_inv [OF d(1) less.prems(1)] obtain w' n' where "rw_ok N w' n' d" by blast
    from less.hyps [OF d(2) this less.prems(2)] show ?thesis using d(1) by (meson converse_rtranclp_into_rtranclp)
  qed auto
qed

section \<open>What the mutex promises\<close>

text \<open>
  C16. Whatever the threads do and whatever sleepers wake up for no reason: a writer is alone, the word counts the readers exactly and
  never overflows into the writer's bit, and the bit is set exactly while one thread, and only one, holds the place of the writer.
\<close>

theorem shared_mutex_excludes:
  assumes "rw_reach N c"
  shows "(rw_phase c t = Writing \<longrightarrow> rw_phase c u \<noteq> Reading \<and> (rw_phase c u = Writing \<longrightarrow> u = t)) \<and>
    unat (rw_state c AND n_readers) = card {t. rw_phase c t = Reading} \<and>
    (rw_state c AND write_entered \<noteq> 0 \<longleftrightarrow> (\<exists>!t. rw_phase c t \<in> {Entered, Sleep2, Writing}))"
proof -
  from rw_reach_inv [OF assms] obtain w n where ok: "rw_ok N w n c" by blast
  have n: "n < 2147483648" "rw_state c = st_of w n" "card (readers c) = n" using ok by (auto simp: rw_ok_def)
  have one: "rw_phase c u \<in> holders \<Longrightarrow> rw_phase c t \<in> holders \<Longrightarrow> u = t" for t u using ok unfolding rw_ok_def by blast
  have alone: "rw_phase c t = Writing \<longrightarrow> rw_phase c u \<noteq> Reading \<and> (rw_phase c u = Writing \<longrightarrow> u = t)"
  proof
    assume t: "rw_phase c t = Writing"
    then have "n = 0" using ok by (auto simp: rw_ok_def)
    then have "readers c = {}" using n(3) finite_readers [OF ok] by simp
    then show "rw_phase c u \<noteq> Reading \<and> (rw_phase c u = Writing \<longrightarrow> u = t)" using one [of u t] t by (auto simp: readers_def holders_def)
  qed
  have count: "unat (rw_state c AND n_readers) = card {t. rw_phase c t = Reading}" using n by (simp add: unat_small readers_def)
  have "rw_state c AND write_entered \<noteq> 0 \<longleftrightarrow> w" using n by simp
  also have "w \<longleftrightarrow> (\<exists>!t. rw_phase c t \<in> holders)" using ok one unfolding rw_ok_def by blast
  finally show ?thesis using alone count unfolding holders_def by blast
qed

lemma reach_reading: "rw_reach 3 (become 0 Reading (rw_init\<lparr>rw_state := 1\<rparr>))"
proof -
  have "rw_step 3 rw_init (become 0 Reading (rw_init\<lparr>rw_state := 1\<rparr>))"
    using try_lock_shared [of rw_init 0 3] readers_full [of 0] by (simp add: rw_init_def set_readers_def)
  then show ?thesis unfolding rw_reach_def by (simp add: r_into_rtranclp)
qed

theorem shared_mutex_excludes_witness:
  "card {t. rw_phase (become 0 Reading (rw_init\<lparr>rw_state := 1\<rparr>)) t = Reading} = unat (1 AND n_readers)"
  using shared_mutex_excludes [OF reach_reading, of 0 1] by simp

text \<open>
  C17. No wakeup is lost. With fewer threads than the counter can count, from every state that the threads can reach, however
  they got there, they can all finish: every thread that waits gets its lock and unlocks it, without any wakeup that is not a
  notification.
\<close>

theorem shared_mutex_drains:
  assumes "rw_reach N c" "N < 2147483647"
  shows "\<exists>c'. (rw_step N)\<^sup>*\<^sup>* c c' \<and> (\<forall>t. rw_phase c' t = Out)"
  using rw_reach_inv [OF assms(1)] rw_drain [OF _ assms(2)] by blast

theorem shared_mutex_drains_witness:
  "\<exists>c'. (rw_step 3)\<^sup>*\<^sup>* (become 0 Reading (rw_init\<lparr>rw_state := 1\<rparr>)) c' \<and> (\<forall>t. rw_phase c' t = Out)"
  by (rule shared_mutex_drains [OF reach_reading]) simp

end
