(* ===== verification/Shared_Lock.thy ===== *)
theory Shared_Lock
  imports Shared_Mutex
begin

text \<open>
  The wrapper \<open>shared_lock\<close> of \<^verbatim>\<open>shared_mutex.h\<close>: an object that holds a shared lock of a mutex and gives it back when it is destroyed. The
  locks of a mutex are counted by its state word, the objects are slots of a table, and the ghost count \<open>sl_loose\<close> says how many shared
  locks of a mutex nobody's wrapper holds: those that \<open>release\<close> let go and that \<open>adopt_lock\<close> takes over.
\<close>

unbundle bit_operations_syntax

section \<open>The mutex as the wrapper calls it\<close>

text \<open>What the operations do to the state word; \<open>None\<close> when \<open>lock_shared\<close> has to wait.\<close>

definition lock_shared_word :: "u32 \<Rightarrow> u32 option" where
  "lock_shared_word s =
     (if s AND write_entered \<noteq> 0 \<or> s AND n_readers = n_readers then None
      else Some (set_readers ((s AND n_readers) + 1) s))"

definition unlock_shared_word :: "u32 \<Rightarrow> u32" where
  "unlock_shared_word s = set_readers ((s AND n_readers) - 1) s"

definition try_lock_shared_word :: "bool \<Rightarrow> u32 \<Rightarrow> bool \<times> u32" where
  "try_lock_shared_word owns s =
     (let num_readers = s AND n_readers in
      if owns \<and> s AND write_entered = 0 \<and> num_readers \<noteq> n_readers then (True, set_readers (num_readers + 1) s) else (False, s))"

lemma lock_shared_section_word:
  "lock_shared_section t c = (case lock_shared_word (rw_state c) of None \<Rightarrow> become t SleepS c | Some s \<Rightarrow> become t Reading (c\<lparr>rw_state := s\<rparr>))"
  by (simp add: lock_shared_section_def lock_shared_word_def)

lemma unlock_shared_section_word: "rw_state (unlock_shared_section t u1 u2 c) = unlock_shared_word (rw_state c)"
  by (simp add: unlock_shared_section_def unlock_shared_word_def Let_def notify_one_def)

section \<open>The wrapper\<close>

record shared_lock =
  M_pm :: "nat option"
  M_owns :: bool

datatype lock_error = No_lock | Deadlock_error | Not_owned

record sl_world =
  sl_objs :: "nat \<Rightarrow> shared_lock option"
  sl_mutex :: "nat \<Rightarrow> u32"
  sl_loose :: "nat \<Rightarrow> nat"

text \<open>An operation ends with a result, throws, or waits for the mutex.\<close>

datatype 'a sl_result = Done 'a sl_world | Throws lock_error sl_world | Waits

definition empty_lock :: shared_lock where
  "empty_lock = \<lparr>M_pm = None, M_owns = False\<rparr>"

definition put_obj :: "nat \<Rightarrow> shared_lock \<Rightarrow> sl_world \<Rightarrow> sl_world" where
  "put_obj i l w = w\<lparr>sl_objs := (sl_objs w)(i \<mapsto> l)\<rparr>"

definition obj :: "sl_world \<Rightarrow> nat \<Rightarrow> shared_lock" where
  "obj w i = (case sl_objs w i of None \<Rightarrow> empty_lock | Some l \<Rightarrow> l)"

definition give_back :: "shared_lock \<Rightarrow> sl_world \<Rightarrow> sl_world" where
  "give_back l w =
     (if M_owns l then case M_pm l of None \<Rightarrow> w
        | Some m \<Rightarrow> w\<lparr>sl_mutex := (sl_mutex w)(m := unlock_shared_word (sl_mutex w m))\<rparr>
      else w)"

subsection \<open>Constructors and the destructor\<close>

definition sl_default :: "nat \<Rightarrow> sl_world \<Rightarrow> unit sl_result" where
  "sl_default i w = Done () (put_obj i empty_lock w)"

definition sl_construct :: "nat \<Rightarrow> nat \<Rightarrow> sl_world \<Rightarrow> unit sl_result" where
  "sl_construct i m w =
     (case lock_shared_word (sl_mutex w m) of None \<Rightarrow> Waits
      | Some s \<Rightarrow> Done () (put_obj i \<lparr>M_pm = Some m, M_owns = True\<rparr> (w\<lparr>sl_mutex := (sl_mutex w)(m := s)\<rparr>)))"

definition sl_defer :: "nat \<Rightarrow> nat \<Rightarrow> sl_world \<Rightarrow> unit sl_result" where
  "sl_defer i m w = Done () (put_obj i \<lparr>M_pm = Some m, M_owns = False\<rparr> w)"

definition sl_try :: "bool \<Rightarrow> nat \<Rightarrow> nat \<Rightarrow> sl_world \<Rightarrow> unit sl_result" where
  "sl_try owns i m w =
     (let (b, s) = try_lock_shared_word owns (sl_mutex w m) in
      Done () (put_obj i \<lparr>M_pm = Some m, M_owns = b\<rparr> (w\<lparr>sl_mutex := (sl_mutex w)(m := s)\<rparr>)))"

definition sl_adopt :: "nat \<Rightarrow> nat \<Rightarrow> sl_world \<Rightarrow> unit sl_result" where
  "sl_adopt i m w = Done () (put_obj i \<lparr>M_pm = Some m, M_owns = True\<rparr> (w\<lparr>sl_loose := (sl_loose w)(m := sl_loose w m - 1)\<rparr>))"

definition sl_destroy :: "nat \<Rightarrow> sl_world \<Rightarrow> unit sl_result" where
  "sl_destroy i w = (let w' = give_back (obj w i) w in Done () (w'\<lparr>sl_objs := (sl_objs w')(i := None)\<rparr>))"

definition sl_swap :: "nat \<Rightarrow> nat \<Rightarrow> sl_world \<Rightarrow> unit sl_result" where
  "sl_swap i j w = Done () (put_obj j (obj w i) (put_obj i (obj w j) w))"

text \<open>The moving constructor starts empty and swaps.\<close>

definition sl_move :: "nat \<Rightarrow> nat \<Rightarrow> sl_world \<Rightarrow> unit sl_result" where
  "sl_move i j w = sl_swap i j (put_obj i empty_lock w)"

text \<open>
  The moving assignment \<open>*i = move(*j)\<close>: a temporary takes over the other object, is swapped with the target and destroyed with what the
  target held before.
\<close>

definition sl_assign :: "nat \<Rightarrow> nat \<Rightarrow> sl_world \<Rightarrow> unit sl_result" where
  "sl_assign i j w =
     (let tmp = obj w j;
          w1 = put_obj j empty_lock w;
          old = obj w1 i;
          w2 = put_obj i tmp w1 in
      Done () (give_back old w2))"

subsection \<open>Locking\<close>

definition M_lockable :: "shared_lock \<Rightarrow> lock_error option" where
  "M_lockable l = (if M_pm l = None then Some No_lock else if M_owns l then Some Deadlock_error else None)"

definition sl_lock :: "nat \<Rightarrow> sl_world \<Rightarrow> unit sl_result" where
  "sl_lock i w =
     (let l = obj w i in
      case M_lockable l of Some e \<Rightarrow> Throws e w
      | None \<Rightarrow> (case lock_shared_word (sl_mutex w (the (M_pm l))) of None \<Rightarrow> Waits
          | Some s \<Rightarrow> Done () (put_obj i (l\<lparr>M_owns := True\<rparr>) (w\<lparr>sl_mutex := (sl_mutex w)(the (M_pm l) := s)\<rparr>))))"

definition sl_try_lock :: "bool \<Rightarrow> nat \<Rightarrow> sl_world \<Rightarrow> bool sl_result" where
  "sl_try_lock owns i w =
     (let l = obj w i in
      case M_lockable l of Some e \<Rightarrow> Throws e w
      | None \<Rightarrow> (let (b, s) = try_lock_shared_word owns (sl_mutex w (the (M_pm l))) in
          Done b (put_obj i (l\<lparr>M_owns := b\<rparr>) (w\<lparr>sl_mutex := (sl_mutex w)(the (M_pm l) := s)\<rparr>))))"

definition sl_unlock :: "nat \<Rightarrow> sl_world \<Rightarrow> unit sl_result" where
  "sl_unlock i w =
     (let l = obj w i in
      if \<not> M_owns l then Throws Not_owned w
      else Done () (put_obj i (l\<lparr>M_owns := False\<rparr>) (give_back l w)))"

definition sl_release :: "nat \<Rightarrow> sl_world \<Rightarrow> nat option sl_result" where
  "sl_release i w =
     (let l = obj w i;
          w' = (if M_owns l then case M_pm l of None \<Rightarrow> w | Some m \<Rightarrow> w\<lparr>sl_loose := (sl_loose w)(m := sl_loose w m + 1)\<rparr> else w) in
      Done (M_pm l) (put_obj i empty_lock w'))"

subsection \<open>Programs\<close>

datatype sl_op =
    Default nat | Construct nat nat | Defer nat nat | Try bool nat nat | Adopt nat nat | Destroy nat
  | Move nat nat | Assign nat nat | Swap nat nat | Lock nat | Try_lock bool nat | Unlock nat | Release nat

fun world_of :: "'a sl_result \<Rightarrow> sl_world \<Rightarrow> sl_world" where
  "world_of (Done r w) w0 = w"
| "world_of (Throws e w) w0 = w"
| "world_of Waits w0 = w0"

fun sl_exec :: "sl_op \<Rightarrow> sl_world \<Rightarrow> sl_world" where
  "sl_exec (Default i) w = world_of (sl_default i w) w"
| "sl_exec (Construct i m) w = world_of (sl_construct i m w) w"
| "sl_exec (Defer i m) w = world_of (sl_defer i m w) w"
| "sl_exec (Try b i m) w = world_of (sl_try b i m w) w"
| "sl_exec (Adopt i m) w = world_of (sl_adopt i m w) w"
| "sl_exec (Destroy i) w = world_of (sl_destroy i w) w"
| "sl_exec (Move i j) w = world_of (sl_move i j w) w"
| "sl_exec (Assign i j) w = world_of (sl_assign i j w) w"
| "sl_exec (Swap i j) w = world_of (sl_swap i j w) w"
| "sl_exec (Lock i) w = world_of (sl_lock i w) w"
| "sl_exec (Try_lock b i) w = world_of (sl_try_lock b i w) w"
| "sl_exec (Unlock i) w = world_of (sl_unlock i w) w"
| "sl_exec (Release i) w = world_of (sl_release i w) w"

text \<open>Objects are constructed where there is none, and only a lock that is held can be adopted.\<close>

fun legal :: "sl_op \<Rightarrow> sl_world \<Rightarrow> bool" where
  "legal (Default i) w = (sl_objs w i = None)"
| "legal (Construct i m) w = (sl_objs w i = None)"
| "legal (Defer i m) w = (sl_objs w i = None)"
| "legal (Try b i m) w = (sl_objs w i = None)"
| "legal (Adopt i m) w = (sl_objs w i = None \<and> 0 < sl_loose w m)"
| "legal (Destroy i) w = (sl_objs w i \<noteq> None)"
| "legal (Move i j) w = (sl_objs w i = None \<and> sl_objs w j \<noteq> None)"
| "legal (Assign i j) w = (sl_objs w i \<noteq> None \<and> sl_objs w j \<noteq> None)"
| "legal (Swap i j) w = (sl_objs w i \<noteq> None \<and> sl_objs w j \<noteq> None)"
| "legal (Lock i) w = (sl_objs w i \<noteq> None)"
| "legal (Try_lock b i) w = (sl_objs w i \<noteq> None)"
| "legal (Unlock i) w = (sl_objs w i \<noteq> None)"
| "legal (Release i) w = (sl_objs w i \<noteq> None)"

fun sl_run :: "sl_op list \<Rightarrow> sl_world \<Rightarrow> sl_world option" where
  "sl_run [] w = Some w"
| "sl_run (a # as) w = (if legal a w then sl_run as (sl_exec a w) else None)"

section \<open>What the wrapper relies on\<close>

text \<open>The contract of a mutex with shared ownership: a successful lock adds a holder and an unlock takes one away.\<close>

locale shared_lockable =
  fixes lock_shared :: "'m \<Rightarrow> 'm option"
    and unlock_shared :: "'m \<Rightarrow> 'm"
    and try_lock_shared :: "bool \<Rightarrow> 'm \<Rightarrow> bool \<times> 'm"
    and holds :: "'m \<Rightarrow> nat"
  assumes lock_holds: "lock_shared s = Some s' \<Longrightarrow> holds s' = holds s + 1"
    and unlock_holds: "0 < holds s \<Longrightarrow> holds (unlock_shared s) = holds s - 1"
    and try_lock: "try_lock_shared owns s = (b, s') \<Longrightarrow> if b then lock_shared s = Some s' else s' = s"
begin

lemma try_holds: "try_lock_shared owns s = (b, s') \<Longrightarrow> holds s' = holds s + of_bool b"
  using try_lock [of owns s b s'] lock_holds [of s s'] by (cases b) auto

lemma unlock_lock: "lock_shared s = Some s' \<Longrightarrow> holds (unlock_shared s') = holds s"
  using lock_holds [of s s'] unlock_holds [of s'] by simp

end

definition shared_holds :: "u32 \<Rightarrow> nat" where
  "shared_holds s = unat (s AND n_readers)"

lemma word_st_of: "\<exists>w n. (s :: u32) = st_of w n \<and> n < 2147483648"
proof (intro exI conjI)
  let ?n = "unat (s AND n_readers)"
  have "s AND n_readers = take_bit 31 s" by (rule bit_word_eqI) (auto simp: bit_and_iff bit_take_bit_iff)
  then show "?n < 2147483648" by (simp only: unsigned_take_bit_eq) (simp add: take_bit_eq_mod)
  show "s = st_of (bit s 31) ?n"
  proof (rule bit_word_eqI)
    fix i :: nat
    assume "i < LENGTH(32)"
    then have "i = 31 \<or> i < 31" by auto
    then show "bit s i = bit (st_of (bit s 31) ?n) i" by (auto simp: st_of_def bit_or_iff bit_and_iff)
  qed
qed

lemma shared_holds_st [simp]: "n < 2147483648 \<Longrightarrow> shared_holds (st_of w n) = n"
  by (simp add: shared_holds_def unat_small)

interpretation mutex: shared_lockable lock_shared_word unlock_shared_word try_lock_shared_word shared_holds
proof
  fix s s' :: u32 and b owns :: bool
  obtain w n where st: "s = st_of w n" and n: "n < 2147483648" using word_st_of by blast
  show "lock_shared_word s = Some s' \<Longrightarrow> shared_holds s' = shared_holds s + 1"
    using n read_count [OF n, of w] by (auto simp: lock_shared_word_def st readers_full split: if_splits)
  show "0 < shared_holds s \<Longrightarrow> shared_holds (unlock_shared_word s) = shared_holds s - 1"
    using n st_set_readers [OF n, of "n - 1" w] by (auto simp: unlock_shared_word_def st)
  show "try_lock_shared_word owns s = (b, s') \<Longrightarrow> if b then lock_shared_word s = Some s' else s' = s"
    by (auto simp: try_lock_shared_word_def lock_shared_word_def Let_def split: if_splits)
qed

section \<open>Counting\<close>

definition owned :: "shared_lock \<Rightarrow> nat \<Rightarrow> bool" where
  "owned l m \<longleftrightarrow> M_owns l \<and> M_pm l = Some m"

definition owners :: "sl_world \<Rightarrow> nat \<Rightarrow> nat set" where
  "owners w m = {i. owned (obj w i) m}"

text \<open>The shared locks of each mutex are those that objects own and the loose ones, but for a difference \<open>x\<close> in the middle of an operation.\<close>

definition sl_bal :: "(nat \<Rightarrow> int) \<Rightarrow> sl_world \<Rightarrow> bool" where
  "sl_bal x w \<longleftrightarrow> (\<forall>m. finite (owners w m)) \<and> (\<forall>i. M_owns (obj w i) \<longrightarrow> M_pm (obj w i) \<noteq> None) \<and>
     (\<forall>m. int (shared_holds (sl_mutex w m)) = int (card (owners w m)) + int (sl_loose w m) + x m)"

lemma sl_bal_put:
  assumes bal: "sl_bal x w" and objs: "obj w' = (obj w)(i := l)" and l: "M_owns l \<Longrightarrow> M_pm l \<noteq> None"
    and diff: "\<And>m. int (shared_holds (sl_mutex w' m)) + of_bool (owned (obj w i) m) + int (sl_loose w m) + x m
      = int (shared_holds (sl_mutex w m)) + of_bool (owned l m) + int (sl_loose w' m) + y m"
  shows "sl_bal y w'"
proof -
  have "finite (owners w' m) \<and> int (card (owners w' m)) = int (card (owners w m)) + of_bool (owned l m) - of_bool (owned (obj w i) m)" for m
    using card_fun_upd [of "\<lambda>l. owned l m" "obj w" i l] bal unfolding owners_def sl_bal_def objs by blast
  then have o: "finite (owners w' m)" "int (card (owners w' m)) = int (card (owners w m)) + of_bool (owned l m) - of_bool (owned (obj w i) m)" for m
    by blast+
  have "int (shared_holds (sl_mutex w' m)) = int (card (owners w' m)) + int (sl_loose w' m) + y m" for m
    using bal diff [of m] o(2) [of m] unfolding sl_bal_def by auto
  then show ?thesis using bal l o(1) unfolding sl_bal_def objs by auto
qed

lemma obj_put [simp]: "obj (put_obj i l w) = (obj w)(i := l)"
  by (auto simp: obj_def put_obj_def)

lemma put_fields [simp]: "sl_mutex (put_obj i l w) = sl_mutex w" "sl_loose (put_obj i l w) = sl_loose w"
  by (simp_all add: put_obj_def)

lemma obj_cong [simp]: "obj (w\<lparr>sl_mutex := f\<rparr>) = obj w" "obj (w\<lparr>sl_loose := g\<rparr>) = obj w"
  by (auto simp: obj_def)

lemma not_owned_empty [simp]: "\<not> owned empty_lock m" "\<not> M_owns empty_lock" "\<not> owned \<lparr>M_pm = p, M_owns = False\<rparr> m"
  by (simp_all add: owned_def empty_lock_def)

lemma obj_None [simp]: "sl_objs w i = None \<Longrightarrow> obj w i = empty_lock"
  by (simp add: obj_def)

text \<open>An object that is no longer in the table gives back what it owned.\<close>

lemma sl_bal_give_back:
  assumes bal: "sl_bal (\<lambda>m. of_bool (owned l m)) w" and l: "M_owns l \<Longrightarrow> M_pm l \<noteq> None"
  shows "sl_bal (\<lambda>m. 0) (give_back l w)"
proof (cases "M_owns l")
  case True
  then obtain p where p: "M_pm l = Some p" using l by auto
  then have o: "owned l m \<longleftrightarrow> m = p" for m using True by (auto simp: owned_def)
  have "int (shared_holds (sl_mutex w p)) = int (card (owners w p)) + int (sl_loose w p) + 1"
    using bal o unfolding sl_bal_def by simp
  then have "0 < shared_holds (sl_mutex w p)" by linarith
  from mutex.unlock_holds [OF this]
  have "int (shared_holds (unlock_shared_word (sl_mutex w p))) = int (shared_holds (sl_mutex w p)) - 1" using \<open>0 < _\<close> by simp
  then show ?thesis using bal True p o unfolding sl_bal_def give_back_def by (auto simp: owners_def)
next
  case False
  then show ?thesis using bal by (simp add: give_back_def owned_def)
qed

lemma give_back_objs [simp]: "obj (give_back l w) = obj w" "sl_objs (give_back l w) = sl_objs w"
  by (simp_all add: give_back_def split: option.splits)

lemma sl_bal_owns: "sl_bal x w \<Longrightarrow> M_owns (obj w i) \<Longrightarrow> M_pm (obj w i) \<noteq> None"
  by (simp add: sl_bal_def)

text \<open>Taking an object out of the table, and putting one there.\<close>

lemma sl_bal_take: "sl_bal x w \<Longrightarrow> sl_bal (\<lambda>m. x m + of_bool (owned (obj w i) m)) (put_obj i empty_lock w)"
  by (erule sl_bal_put [where i = i and l = empty_lock]) auto

lemma sl_bal_place:
  "sl_bal x w \<Longrightarrow> (M_owns l \<Longrightarrow> M_pm l \<noteq> None) \<Longrightarrow>
   sl_bal (\<lambda>m. x m - of_bool (owned l m) + of_bool (owned (obj w i) m)) (put_obj i l w)"
  by (erule sl_bal_put [where i = i and l = l]) auto

lemma sl_bal_objs: "sl_bal x w \<Longrightarrow> obj w' = obj w \<Longrightarrow> sl_mutex w' = sl_mutex w \<Longrightarrow> sl_loose w' = sl_loose w \<Longrightarrow> sl_bal x w'"
  by (simp add: sl_bal_def owners_def)

abbreviation balanced :: "sl_world \<Rightarrow> bool" where
  "balanced \<equiv> sl_bal (\<lambda>m. 0)"

lemma balanced_lock:
  assumes "balanced w" "\<not> M_owns (obj w i)" "M_pm l = Some m" "shared_holds s = shared_holds (sl_mutex w m) + of_bool (M_owns l)"
  shows "balanced (put_obj i l (w\<lparr>sl_mutex := (sl_mutex w)(m := s)\<rparr>))"
  by (rule sl_bal_put [OF assms(1), where i = i and l = l]) (use assms in \<open>auto simp: owned_def\<close>)

lemma give_back_put: "sl_mutex (give_back l (put_obj i l' w)) = sl_mutex (give_back l w)" "sl_loose (give_back l (put_obj i l' w)) = sl_loose (give_back l w)"
  by (simp_all add: give_back_def split: option.splits)

lemma balanced_destroy: "balanced w \<Longrightarrow> balanced (world_of (sl_destroy i w) w)"
proof -
  assume bal: "balanced w"
  let ?l = "obj w i"
  have "balanced (give_back ?l (put_obj i empty_lock w))"
    using sl_bal_take [OF bal, of i] sl_bal_owns [OF bal] by (intro sl_bal_give_back) auto
  then show ?thesis by (rule sl_bal_objs) (auto simp: sl_destroy_def Let_def obj_def give_back_put give_back_objs)
qed

lemma balanced_unlock: "balanced w \<Longrightarrow> balanced (world_of (sl_unlock i w) w)"
proof -
  assume bal: "balanced w"
  let ?l = "obj w i" and ?l' = "(obj w i)\<lparr>M_owns := False\<rparr>"
  have "sl_bal (\<lambda>m. of_bool (owned ?l m)) (put_obj i ?l' w)" using sl_bal_place [OF bal, of ?l' i] by (simp add: owned_def)
  then have "balanced (give_back ?l (put_obj i ?l' w))" using sl_bal_owns [OF bal] by (intro sl_bal_give_back) auto
  then have "balanced (put_obj i ?l' (give_back ?l w))" by (rule sl_bal_objs) (auto simp: give_back_put)
  then show ?thesis using bal by (auto simp: sl_unlock_def Let_def)
qed

lemma balanced_swap: "balanced w \<Longrightarrow> balanced (world_of (sl_swap i j w) w)"
proof -
  assume bal: "balanced w"
  have 1: "sl_bal (\<lambda>m. of_bool (owned (obj w i) m) - of_bool (owned (obj w j) m)) (put_obj i (obj w j) w)"
    using sl_bal_place [OF bal, of "obj w j" i] sl_bal_owns [OF bal, of j] by simp
  show ?thesis using sl_bal_place [OF 1, of "obj w i" j] sl_bal_owns [OF bal, of i] by (auto simp: sl_swap_def split: if_splits)
qed

lemma balanced_assign: "balanced w \<Longrightarrow> balanced (world_of (sl_assign i j w) w)"
proof -
  assume bal: "balanced w"
  let ?w = "put_obj j empty_lock w" and ?l = "obj w j"
  have 1: "sl_bal (\<lambda>m. of_bool (owned ?l m)) ?w" using sl_bal_take [OF bal, of j] by simp
  have "sl_bal (\<lambda>m. of_bool (owned (obj ?w i) m)) (put_obj i ?l ?w)"
    using sl_bal_place [OF 1, of ?l i] sl_bal_owns [OF bal, of j] by simp
  then have "balanced (give_back (obj ?w i) (put_obj i ?l ?w))" by (rule sl_bal_give_back) (use sl_bal_owns [OF 1, of i] in simp)
  then show ?thesis by (simp add: sl_assign_def Let_def)
qed

lemma balanced_release: "balanced w \<Longrightarrow> balanced (world_of (sl_release i w) w)"
proof -
  assume bal: "balanced w"
  let ?w = "world_of (sl_release i w) w"
  show ?thesis
  proof (rule sl_bal_put [OF bal, where i = i and l = empty_lock])
    show "obj ?w = (obj w)(i := empty_lock)" by (auto simp: sl_release_def Let_def split: option.split)
    show "M_pm empty_lock \<noteq> None" if "M_owns empty_lock" using that by simp
    fix m
    show "int (shared_holds (sl_mutex ?w m)) + of_bool (owned (obj w i) m) + int (sl_loose w m) + 0 =
        int (shared_holds (sl_mutex w m)) + of_bool (owned empty_lock m) + int (sl_loose ?w m) + 0"
      using sl_bal_owns [OF bal, of i] by (auto simp: sl_release_def Let_def owned_def)
  qed
qed

lemma lockable: "M_lockable l = None \<Longrightarrow> \<exists>m. M_pm l = Some m \<and> \<not> M_owns l"
  by (auto simp: M_lockable_def split: if_splits)

lemma balanced_exec: "balanced w \<Longrightarrow> legal a w \<Longrightarrow> balanced (sl_exec a w)"
proof (cases a)
  case (Default i)
  assume "balanced w" "legal a w"
  then show ?thesis using sl_bal_place [of "\<lambda>m. 0" w empty_lock i] Default by (simp add: sl_default_def)
next
  case (Construct i m)
  assume "balanced w" "legal a w"
  then show ?thesis using Construct balanced_lock [of w i "\<lparr>M_pm = Some m, M_owns = True\<rparr>" m] mutex.lock_holds
    by (auto simp: sl_construct_def split: option.split)
next
  case (Defer i m)
  assume "balanced w" "legal a w"
  then show ?thesis using Defer sl_bal_place [of "\<lambda>m. 0" w "\<lparr>M_pm = Some m, M_owns = False\<rparr>" i] by (simp add: sl_defer_def)
next
  case (Try b i m)
  assume "balanced w" "legal a w"
  then show ?thesis using Try mutex.try_holds [of b "sl_mutex w m"]
    by (auto simp: sl_try_def intro!: balanced_lock split: prod.split)
next
  case (Adopt i m)
  assume "balanced w" "legal a w"
  then show ?thesis using Adopt
    by (auto simp: sl_adopt_def owned_def intro!: sl_bal_put [of "\<lambda>m. 0" w _ i "\<lparr>M_pm = Some m, M_owns = True\<rparr>"])
next
  case (Move i j)
  assume bal: "balanced w" "legal a w"
  then have "balanced (put_obj i empty_lock w)" using sl_bal_place [of "\<lambda>m. 0" w empty_lock i] Move by simp
  then show ?thesis using balanced_swap [of "put_obj i empty_lock w" i j] Move by (simp add: sl_move_def sl_swap_def)
next
  case (Lock i)
  assume "balanced w" "legal a w"
  then show ?thesis using Lock mutex.lock_holds
    by (auto simp: sl_lock_def Let_def dest!: lockable intro!: balanced_lock split: option.split)
next
  case (Try_lock b i)
  assume "balanced w" "legal a w"
  then show ?thesis using Try_lock mutex.try_holds
    by (auto simp: sl_try_lock_def Let_def dest!: lockable intro!: balanced_lock split: option.split prod.split)
qed (simp_all add: balanced_destroy balanced_unlock balanced_swap balanced_assign balanced_release)

lemma balanced_run: "balanced w \<Longrightarrow> sl_run as w = Some w' \<Longrightarrow> balanced w'"
proof (induction as arbitrary: w)
  case (Cons a as)
  then show ?case using Cons.IH [of "sl_exec a w"] balanced_exec [of w a] by (simp split: if_splits)
qed simp

text \<open>
  C19. However shared locks are constructed, moved, assigned, swapped, locked, unlocked, released, adopted and destroyed: the number of
  readers in the word of a mutex is the number of objects that own it, and of the locks that were released and not adopted again. So
  when the last object is destroyed no reader is left.
\<close>

theorem shared_lock_counts:
  assumes "sl_run as w = Some w'" "\<And>i. sl_objs w i = None" "\<And>m. sl_loose w m = 0" "\<And>m. sl_mutex w m AND n_readers = 0"
  shows "unat (sl_mutex w' m AND n_readers) = card {i. \<exists>l. sl_objs w' i = Some l \<and> M_owns l \<and> M_pm l = Some m} + sl_loose w' m"
proof -
  have "owners w m = {}" for m using assms(2) by (simp add: owners_def)
  then have "balanced w" using assms(2-4) by (simp add: sl_bal_def shared_holds_def)
  from balanced_run [OF this assms(1)]
  have "int (shared_holds (sl_mutex w' m)) = int (card (owners w' m)) + int (sl_loose w' m)" unfolding sl_bal_def by simp
  then have "shared_holds (sl_mutex w' m) = card (owners w' m) + sl_loose w' m" by linarith
  moreover have "owners w' m = {i. \<exists>l. sl_objs w' i = Some l \<and> M_owns l \<and> M_pm l = Some m}"
    by (auto simp: owners_def obj_def owned_def empty_lock_def split: option.splits)
  ultimately show ?thesis by (simp add: shared_holds_def)
qed

definition sl_start :: sl_world where
  "sl_start = \<lparr>sl_objs = (\<lambda>i. None), sl_mutex = (\<lambda>m. 0), sl_loose = (\<lambda>m. 0)\<rparr>"

theorem shared_lock_counts_witness:
  "\<exists>w'. sl_run [Construct 0 7, Defer 1 7, Assign 1 0, Release 1, Default 2, Adopt 3 7, Swap 2 3, Destroy 3] sl_start = Some w' \<and>
     unat (sl_mutex w' 7 AND n_readers) = card {i. \<exists>l. sl_objs w' i = Some l \<and> M_owns l \<and> M_pm l = Some 7} + sl_loose w' 7"
proof -
  let ?as = "[Construct 0 7, Defer 1 7, Assign 1 0, Release 1, Default 2, Adopt 3 7, Swap 2 3, Destroy 3]"
  have l: "lock_shared_word 0 = Some 1" using readers_full [of 0] by (simp add: lock_shared_word_def set_readers_def)
  have "\<exists>w'. sl_run ?as sl_start = Some w'"
    by (simp add: sl_start_def sl_construct_def l sl_defer_def sl_assign_def sl_release_def sl_default_def sl_adopt_def sl_swap_def sl_destroy_def
        Let_def put_obj_def obj_def empty_lock_def give_back_def)
  then obtain w' where w: "sl_run ?as sl_start = Some w'" ..
  show ?thesis using w shared_lock_counts [OF w, of 7] by (auto simp: sl_start_def)
qed

end
