(* ===== verification/Cthreads.thy ===== *)
theory Cthreads
  imports Prelude
begin

text \<open>
  The threads that the lecture builds from \<^verbatim>\<open>clone\<close> (\<^verbatim>\<open>6_threads/12_cthread_detach.c\<close>, with \<^verbatim>\<open>clone.h\<close>): a thread and the one that started it agree
  under a spin lock on who puts the stack of the thread on a list, and the stacks on the list are freed when the
  kernel has cleared the thread's number. The numbers of steps below are those at which another thread can see a difference; the list is
  only touched under its own lock.
\<close>

section \<open>The list of stacks\<close>

record cthread_stack =
  cs_tid :: nat
  cs_next :: "nat option"

type_synonym cs_heap = "cthread_stack option list"

definition cs_cell :: "cs_heap \<Rightarrow> nat \<Rightarrow> cthread_stack option" where
  "cs_cell h a = (if a < length h then h ! a else None)"

definition cs_live :: "cs_heap \<Rightarrow> nat" where
  "cs_live h = length (filter (\<lambda>c. c \<noteq> None) h)"

lemma live_free: "cs_cell h a = Some n \<Longrightarrow> cs_live (h[a := None]) < cs_live h"
proof (induction h arbitrary: a)
  case (Cons c h)
  then show ?case by (cases a) (auto simp: cs_live_def cs_cell_def split: if_splits)
qed (simp add: cs_cell_def)

text \<open>The loop that frees the stacks at the front of the list whose threads are gone.\<close>

function free_front :: "cs_heap \<Rightarrow> nat option \<Rightarrow> fault + cs_heap \<times> nat option" where
  "free_front h None = Inr (h, None)"
| "free_front h (Some a) =
     (case cs_cell h a of None \<Rightarrow> Inl UseAfterFree
      | Some n \<Rightarrow> if cs_tid n \<noteq> 0 then Inr (h, Some a) else free_front (h[a := None]) (cs_next n))"
  by pat_completeness auto
termination by (relation "measure (\<lambda>(h, it). cs_live h)") (auto simp: live_free)

definition cthread_destroy :: "nat \<Rightarrow> cs_heap \<times> nat option \<Rightarrow> fault + cs_heap \<times> nat option" where
  "cthread_destroy st sl =
     rbind (free_front (fst sl) (snd sl)) (\<lambda>(h, it).
       case cs_cell h st of None \<Rightarrow> Inl UseAfterFree
       | Some n \<Rightarrow> Inr (h[st := Some (n\<lparr>cs_next := it\<rparr>)], Some st))"

section \<open>Threads\<close>

record cthread =
  returned_code :: int
  ct_stack :: nat
  ct_lock :: bool
  is_finished :: bool
  is_detached :: bool

text \<open>
  Where the runner of a thread is: not yet started by the kernel, in its function, past it, inside the section under the lock
  before and after the test of \<open>is_detached\<close> and after setting \<open>is_finished\<close>, returning, and gone. Where its creator is with it.
\<close>

datatype runner = R_None | R_Start | R_Run | R_Ended | R_Locked | R_Checked | R_Finished | R_Unlocked | R_Gone

datatype owner = O_None | O_Created | O_Locked | O_Checked | O_Flagged | O_Detached | O_Joined int

record ct_conf =
  ct_threads :: "nat \<Rightarrow> cthread"
  ct_runner :: "nat \<Rightarrow> runner"
  ct_owner :: "nat \<Rightarrow> owner"
  ct_heap :: cs_heap
  stack_list :: "nat option"
  ct_fault :: "fault option"

definition set_thread :: "nat \<Rightarrow> cthread \<Rightarrow> ct_conf \<Rightarrow> ct_conf" where
  "set_thread t th c = c\<lparr>ct_threads := (ct_threads c)(t := th)\<rparr>"

definition to_runner :: "nat \<Rightarrow> runner \<Rightarrow> ct_conf \<Rightarrow> ct_conf" where
  "to_runner t r c = c\<lparr>ct_runner := (ct_runner c)(t := r)\<rparr>"

definition to_owner :: "nat \<Rightarrow> owner \<Rightarrow> ct_conf \<Rightarrow> ct_conf" where
  "to_owner t r c = c\<lparr>ct_owner := (ct_owner c)(t := r)\<rparr>"

definition ct_destroy :: "nat \<Rightarrow> ct_conf \<Rightarrow> ct_conf" where
  "ct_destroy t c =
     (case cthread_destroy (ct_stack (ct_threads c t)) (ct_heap c, stack_list c) of
        Inl e \<Rightarrow> c\<lparr>ct_fault := Some e\<rparr>
      | Inr (h, it) \<Rightarrow> c\<lparr>ct_heap := h, stack_list := it\<rparr>)"

text \<open>The kernel writes the number of the thread when it starts and clears it when it is gone. A thread that runs needs its stack.\<close>

definition set_tid :: "nat \<Rightarrow> nat \<Rightarrow> ct_conf \<Rightarrow> ct_conf" where
  "set_tid t v c =
     (let st = ct_stack (ct_threads c t) in
      case cs_cell (ct_heap c) st of None \<Rightarrow> c\<lparr>ct_fault := Some UseAfterFree\<rparr>
      | Some n \<Rightarrow> c\<lparr>ct_heap := (ct_heap c)[st := Some (n\<lparr>cs_tid := v\<rparr>)]\<rparr>)"

definition on_stack :: "nat \<Rightarrow> ct_conf \<Rightarrow> ct_conf \<Rightarrow> ct_conf" where
  "on_stack t c c' = (if cs_cell (ct_heap c) (ct_stack (ct_threads c t)) = None then c\<lparr>ct_fault := Some UseAfterFree\<rparr> else c')"

definition cthread_create :: "nat \<Rightarrow> nat \<Rightarrow> ct_conf \<Rightarrow> ct_conf" where
  "cthread_create t garbage c =
     (let st = length (ct_heap c) in
      to_owner t O_Created (to_runner t R_Start
        (set_thread t \<lparr>returned_code = 0, ct_stack = st, ct_lock = False, is_finished = False, is_detached = False\<rparr>
          (c\<lparr>ct_heap := ct_heap c @ [Some \<lparr>cs_tid = garbage, cs_next = None\<rparr>]\<rparr>))))"

inductive ct_step :: "ct_conf \<Rightarrow> ct_conf \<Rightarrow> bool" where
  create: "ct_owner c t = O_None \<Longrightarrow> ct_step c (cthread_create t garbage c)"
| start: "ct_runner c t = R_Start \<Longrightarrow> ct_step c (to_runner t R_Run (set_tid t (Suc t) c))"
| ends: "ct_runner c t = R_Run \<Longrightarrow>
    ct_step c (on_stack t c (to_runner t R_Ended (set_thread t ((ct_threads c t)\<lparr>returned_code := code\<rparr>) c)))"
| r_lock: "ct_runner c t = R_Ended \<Longrightarrow> \<not> ct_lock (ct_threads c t) \<Longrightarrow>
    ct_step c (on_stack t c (to_runner t R_Locked (set_thread t ((ct_threads c t)\<lparr>ct_lock := True\<rparr>) c)))"
| r_check: "ct_runner c t = R_Locked \<Longrightarrow>
    ct_step c (on_stack t c (to_runner t R_Checked (if is_detached (ct_threads c t) then ct_destroy t c else c)))"
| r_finish: "ct_runner c t = R_Checked \<Longrightarrow>
    ct_step c (on_stack t c (to_runner t R_Finished (set_thread t ((ct_threads c t)\<lparr>is_finished := True\<rparr>) c)))"
| r_unlock: "ct_runner c t = R_Finished \<Longrightarrow>
    ct_step c (on_stack t c (to_runner t R_Unlocked (set_thread t ((ct_threads c t)\<lparr>ct_lock := False\<rparr>) c)))"
| gone: "ct_runner c t = R_Unlocked \<Longrightarrow> ct_step c (on_stack t c (to_runner t R_Gone (set_tid t 0 c)))"
| d_lock: "ct_owner c t = O_Created \<Longrightarrow> \<not> ct_lock (ct_threads c t) \<Longrightarrow>
    ct_step c (to_owner t O_Locked (set_thread t ((ct_threads c t)\<lparr>ct_lock := True\<rparr>) c))"
| d_check: "ct_owner c t = O_Locked \<Longrightarrow>
    ct_step c (to_owner t O_Checked (if is_finished (ct_threads c t) then ct_destroy t c else c))"
| d_flag: "ct_owner c t = O_Checked \<Longrightarrow>
    ct_step c (to_owner t O_Flagged (set_thread t ((ct_threads c t)\<lparr>is_detached := True\<rparr>) c))"
| d_unlock: "ct_owner c t = O_Flagged \<Longrightarrow>
    ct_step c (to_owner t O_Detached (set_thread t ((ct_threads c t)\<lparr>ct_lock := False\<rparr>) c))"
| joins: "ct_owner c t = O_Created \<Longrightarrow> is_finished (ct_threads c t) \<Longrightarrow>
    ct_step c (to_owner t (O_Joined (returned_code (ct_threads c t))) (ct_destroy t c))"

definition ct_init :: "ct_conf \<Rightarrow> bool" where
  "ct_init c \<longleftrightarrow> (\<forall>t. ct_runner c t = R_None \<and> ct_owner c t = O_None) \<and> ct_heap c = [] \<and> stack_list c = None \<and> ct_fault c = None"

section \<open>The list in memory\<close>

fun cs_links :: "cs_heap \<Rightarrow> nat option \<Rightarrow> nat list \<Rightarrow> bool" where
  "cs_links h it [] \<longleftrightarrow> it = None"
| "cs_links h it (a # as) \<longleftrightarrow> it = Some a \<and> (\<exists>n. cs_cell h a = Some n \<and> cs_links h (cs_next n) as)"

lemma cs_cell_update: "cs_cell (h[a := x]) b = (if a = b \<and> a < length h then x else cs_cell h b)"
  by (auto simp: cs_cell_def)

lemma cs_cell_Some: "cs_cell h a = Some n \<Longrightarrow> a < length h"
  by (simp add: cs_cell_def split: if_splits)

lemma cs_links_cong: "cs_links h it as \<Longrightarrow> (\<And>a n. a \<in> set as \<Longrightarrow> cs_cell h a = Some n \<Longrightarrow> \<exists>m. cs_cell h' a = Some m \<and> cs_next m = cs_next n) \<Longrightarrow> cs_links h' it as"
proof (induction as arbitrary: it)
  case (Cons a as)
  then obtain n where n: "it = Some a" "cs_cell h a = Some n" "cs_links h (cs_next n) as" by auto
  with Cons.prems(2) [of a n] obtain m where m: "cs_cell h' a = Some m" "cs_next m = cs_next n" by auto
  from Cons.IH [OF n(3)] Cons.prems(2) have "cs_links h' (cs_next n) as" by simp
  then show ?case using n(1) m by auto
qed simp

lemma free_front_links:
  "cs_links h it as \<Longrightarrow> distinct as \<Longrightarrow>
   \<exists>k h' it'. free_front h it = Inr (h', it') \<and> cs_links h' it' (drop k as) \<and> length h' = length h \<and>
     (\<forall>b. cs_cell h' b = (if b \<in> set (take k as) then None else cs_cell h b)) \<and>
     (\<forall>a\<in>set (take k as). \<exists>n. cs_cell h a = Some n \<and> cs_tid n = 0)"
proof (induction as arbitrary: h it)
  case (Cons a as)
  then obtain n where n: "it = Some a" "cs_cell h a = Some n" "cs_links h (cs_next n) as" "a \<notin> set as" "distinct as" by auto
  show ?case
  proof (cases "cs_tid n = 0")
    case True
    have "cs_links (h[a := None]) (cs_next n) as" by (rule cs_links_cong [OF n(3)]) (use n(4) in \<open>auto simp: cs_cell_update\<close>)
    from Cons.IH [OF this n(5)] obtain k h' it' where *:
      "free_front (h[a := None]) (cs_next n) = Inr (h', it')" "cs_links h' it' (drop k as)" "length h' = length (h[a := None])"
      "\<And>b. cs_cell h' b = (if b \<in> set (take k as) then None else cs_cell (h[a := None]) b)"
      "\<And>b. b \<in> set (take k as) \<Longrightarrow> \<exists>n. cs_cell (h[a := None]) b = Some n \<and> cs_tid n = 0" by blast
    have "free_front h it = Inr (h', it')" using True n * by simp
    moreover have "cs_cell h' b = (if b \<in> set (take (Suc k) (a # as)) then None else cs_cell h b)" for b
      using *(4) [of b] cs_cell_Some [OF n(2)] by (auto simp: cs_cell_update)
    moreover have "\<exists>n. cs_cell h b = Some n \<and> cs_tid n = 0" if "b \<in> set (take (Suc k) (a # as))" for b
      using that n(2) True *(5) [of b] by (auto simp: cs_cell_update split: if_splits)
    ultimately show ?thesis using *(2,3) by (intro exI [of _ "Suc k"] exI [of _ h'] exI [of _ it']) auto
  next
    case False
    then show ?thesis using Cons.prems n by (intro exI [of _ 0] exI [of _ h] exI [of _ it]) auto
  qed
qed (auto intro!: exI [of _ 0])

lemma cthread_destroy_links:
  assumes l: "cs_links h it as" "distinct as" and n: "cs_cell h st = Some n" "st \<notin> set as"
  shows "\<exists>k h' m. cthread_destroy st (h, it) = Inr (h', Some st) \<and> cs_links h' (Some st) (st # drop k as) \<and> length h' = length h \<and>
    (\<forall>b. b \<noteq> st \<longrightarrow> cs_cell h' b = (if b \<in> set (take k as) then None else cs_cell h b)) \<and>
    cs_cell h' st = Some m \<and> cs_tid m = cs_tid n \<and> (\<forall>a\<in>set (take k as). \<exists>n. cs_cell h a = Some n \<and> cs_tid n = 0)"
proof -
  from free_front_links [OF l] obtain k h' it' where *:
    "free_front h it = Inr (h', it')" "cs_links h' it' (drop k as)" "length h' = length h"
    "\<And>b. cs_cell h' b = (if b \<in> set (take k as) then None else cs_cell h b)"
    "\<And>a. a \<in> set (take k as) \<Longrightarrow> \<exists>n. cs_cell h a = Some n \<and> cs_tid n = 0" by blast
  have st: "cs_cell h' st = Some n" using *(4) [of st] n by (auto dest: in_set_takeD)
  let ?h = "h'[st := Some (n\<lparr>cs_next := it'\<rparr>)]"
  have "cs_links ?h it' (drop k as)" by (rule cs_links_cong [OF *(2)]) (use n(2) in \<open>auto simp: cs_cell_update dest: in_set_dropD\<close>)
  then have "cs_links ?h (Some st) (st # drop k as)" using cs_cell_Some [OF st] by (simp add: cs_cell_update)
  moreover have "cthread_destroy st (h, it) = Inr (?h, Some st)" using *(1) st by (simp add: cthread_destroy_def)
  moreover have "cs_cell ?h st = Some (n\<lparr>cs_next := it'\<rparr>)" using cs_cell_Some [OF st] by (simp add: cs_cell_update)
  moreover have "cs_cell ?h b = (if b \<in> set (take k as) then None else cs_cell h b)" if "b \<noteq> st" for b
    using *(4) [of b] that by (auto simp: cs_cell_update)
  ultimately show ?thesis using *(3,5) by (intro exI [of _ k] exI [of _ ?h] exI [of _ "n\<lparr>cs_next := it'\<rparr>"]) auto
qed

section \<open>The invariant\<close>

text \<open>The flags of a thread follow from where its runner and its creator are, who are never both under its lock.\<close>

definition r_in :: "runner \<Rightarrow> bool" where "r_in r \<longleftrightarrow> r \<in> {R_Locked, R_Checked, R_Finished}"
definition o_in :: "owner \<Rightarrow> bool" where "o_in w \<longleftrightarrow> w \<in> {O_Locked, O_Checked, O_Flagged}"
definition r_past :: "runner \<Rightarrow> bool" where "r_past r \<longleftrightarrow> r \<in> {R_Checked, R_Finished, R_Unlocked, R_Gone}"
definition o_past :: "owner \<Rightarrow> bool" where "o_past w \<longleftrightarrow> w \<in> {O_Checked, O_Flagged, O_Detached}"

definition joined :: "owner \<Rightarrow> bool" where
  "joined w \<longleftrightarrow> (case w of O_Joined x \<Rightarrow> True | _ \<Rightarrow> False)"

definition flags_ok :: "cthread \<Rightarrow> runner \<Rightarrow> owner \<Rightarrow> bool" where
  "flags_ok th r w \<longleftrightarrow> (r = R_None \<longleftrightarrow> w = O_None) \<and>
     (w \<noteq> O_None \<longrightarrow> (is_finished th \<longleftrightarrow> r \<in> {R_Finished, R_Unlocked, R_Gone}) \<and> (is_detached th \<longleftrightarrow> w \<in> {O_Flagged, O_Detached}) \<and>
       (ct_lock th \<longleftrightarrow> r_in r \<or> o_in w) \<and> \<not> (r_in r \<and> o_in w) \<and> (joined w \<longrightarrow> r \<in> {R_Finished, R_Unlocked, R_Gone}) \<and>
       (\<forall>x. w = O_Joined x \<longrightarrow> x = returned_code th))"

text \<open>The stack of a thread is on the list, or was, when both have looked, or the creator has joined.\<close>

definition dead :: "runner \<Rightarrow> owner \<Rightarrow> bool" where
  "dead r w \<longleftrightarrow> joined w \<or> o_past w \<and> r_past r"

abbreviation stack_of :: "ct_conf \<Rightarrow> nat \<Rightarrow> nat" where
  "stack_of c t \<equiv> ct_stack (ct_threads c t)"

abbreviation stack_cell :: "ct_conf \<Rightarrow> nat \<Rightarrow> cthread_stack option" where
  "stack_cell c t \<equiv> cs_cell (ct_heap c) (stack_of c t)"

definition created :: "ct_conf \<Rightarrow> nat set" where
  "created c = {t. ct_owner c t \<noteq> O_None}"

definition ct_inv :: "nat list \<Rightarrow> ct_conf \<Rightarrow> bool" where
  "ct_inv as c \<longleftrightarrow> ct_fault c = None \<and> cs_links (ct_heap c) (stack_list c) as \<and> distinct as \<and>
     (\<forall>t. flags_ok (ct_threads c t) (ct_runner c t) (ct_owner c t)) \<and>
     (\<forall>t\<in>created c. stack_of c t < length (ct_heap c)) \<and> inj_on (stack_of c) (created c) \<and>
     (\<forall>t\<in>created c. stack_cell c t = None \<longrightarrow> dead (ct_runner c t) (ct_owner c t) \<and> ct_runner c t = R_Gone) \<and>
     set as = stack_of c ` {t \<in> created c. dead (ct_runner c t) (ct_owner c t) \<and> stack_cell c t \<noteq> None} \<and>
     (\<forall>t\<in>created c. \<forall>n. stack_cell c t = Some n \<longrightarrow> ct_runner c t \<notin> {R_Start, R_Gone} \<longrightarrow> cs_tid n \<noteq> 0)"

lemmas where_defs = r_in_def o_in_def r_past_def o_past_def

lemma ct_invD:
  assumes "ct_inv as c"
  shows "ct_fault c = None" "cs_links (ct_heap c) (stack_list c) as" "distinct as"
    "flags_ok (ct_threads c t) (ct_runner c t) (ct_owner c t)"
    "t \<in> created c \<Longrightarrow> stack_of c t < length (ct_heap c)" "inj_on (stack_of c) (created c)"
    "t \<in> created c \<Longrightarrow> stack_cell c t = None \<Longrightarrow> dead (ct_runner c t) (ct_owner c t) \<and> ct_runner c t = R_Gone"
    "set as = stack_of c ` {t \<in> created c. dead (ct_runner c t) (ct_owner c t) \<and> stack_cell c t \<noteq> None}"
    "t \<in> created c \<Longrightarrow> stack_cell c t = Some n \<Longrightarrow> ct_runner c t \<notin> {R_Start, R_Gone} \<Longrightarrow> cs_tid n \<noteq> 0"
  using assms unfolding ct_inv_def by blast+

lemma ct_invI:
  assumes "ct_fault c = None" "cs_links (ct_heap c) (stack_list c) as" "distinct as"
    "\<And>t. flags_ok (ct_threads c t) (ct_runner c t) (ct_owner c t)"
    "\<And>t. t \<in> created c \<Longrightarrow> stack_of c t < length (ct_heap c)" "inj_on (stack_of c) (created c)"
    "\<And>t. t \<in> created c \<Longrightarrow> stack_cell c t = None \<Longrightarrow> dead (ct_runner c t) (ct_owner c t) \<and> ct_runner c t = R_Gone"
    "set as = stack_of c ` {t \<in> created c. dead (ct_runner c t) (ct_owner c t) \<and> stack_cell c t \<noteq> None}"
    "\<And>t n. t \<in> created c \<Longrightarrow> stack_cell c t = Some n \<Longrightarrow> ct_runner c t \<notin> {R_Start, R_Gone} \<Longrightarrow> cs_tid n \<noteq> 0"
  shows "ct_inv as c"
  using assms unfolding ct_inv_def by blast

text \<open>The configuration with a thread's record and places replaced.\<close>

definition moved :: "nat \<Rightarrow> cthread \<Rightarrow> runner \<Rightarrow> owner \<Rightarrow> ct_conf \<Rightarrow> ct_conf" where
  "moved t th r w c = c\<lparr>ct_threads := (ct_threads c)(t := th), ct_runner := (ct_runner c)(t := r), ct_owner := (ct_owner c)(t := w)\<rparr>"

lemma moved_runner: "to_runner t r (set_thread t th c) = moved t th r (ct_owner c t) c" "to_runner t r c = moved t (ct_threads c t) r (ct_owner c t) c"
  by (simp_all add: moved_def to_runner_def set_thread_def)

lemma moved_owner: "to_owner t w (set_thread t th c) = moved t th (ct_runner c t) w c" "to_owner t w c = moved t (ct_threads c t) (ct_runner c t) w c"
  by (simp_all add: moved_def to_owner_def set_thread_def)

lemma quiet_step:
  assumes inv: "ct_inv as c" and t: "t \<in> created c" "w \<noteq> O_None" and f: "flags_ok th r w" "ct_stack th = stack_of c t"
    and d: "dead r w = dead (ct_runner c t) (ct_owner c t)" and g: "ct_runner c t = R_Gone \<Longrightarrow> r = R_Gone"
      "ct_runner c t \<in> {R_Start, R_Gone} \<Longrightarrow> r \<in> {R_Start, R_Gone}"
  shows "ct_inv as (moved t th r w c)"
proof -
  let ?c = "moved t th r w c"
  have eq: "ct_heap ?c = ct_heap c" "stack_list ?c = stack_list c" "ct_fault ?c = ct_fault c" by (simp_all add: moved_def)
  have st: "stack_of ?c = stack_of c" using f(2) by (auto simp: moved_def fun_eq_iff)
  have cr: "created ?c = created c" using t by (auto simp: created_def moved_def)
  have dd: "dead (ct_runner ?c u) (ct_owner ?c u) = dead (ct_runner c u) (ct_owner c u)" for u using d by (simp add: moved_def)
  have rr: "ct_runner c u = R_Gone \<Longrightarrow> ct_runner ?c u = R_Gone" "ct_runner c u \<in> {R_Start, R_Gone} \<Longrightarrow> ct_runner ?c u \<in> {R_Start, R_Gone}" for u
    using g by (auto simp: moved_def)
  have fl: "flags_ok (ct_threads ?c u) (ct_runner ?c u) (ct_owner ?c u)" for u using f(1) ct_invD(4) [OF inv, of u] by (simp add: moved_def)
  have st': "stack_of ?c u = stack_of c u" for u using fun_cong [OF st, of u] .
  show ?thesis
  proof (rule ct_invI)
    show "flags_ok (ct_threads ?c u) (ct_runner ?c u) (ct_owner ?c u)" for u by (rule fl)
    show "dead (ct_runner ?c u) (ct_owner ?c u) \<and> ct_runner ?c u = R_Gone" if "u \<in> created ?c" "stack_cell ?c u = None" for u
      using ct_invD(7) [OF inv, of u] that rr(1) [of u] unfolding cr st' eq dd by blast
    show "cs_tid n \<noteq> 0" if "u \<in> created ?c" "stack_cell ?c u = Some n" "ct_runner ?c u \<notin> {R_Start, R_Gone}" for u n
      using ct_invD(9) [OF inv, of u n] that rr(2) [of u] unfolding cr st' eq by blast
    show "set as = stack_of ?c ` {t \<in> created ?c. dead (ct_runner ?c t) (ct_owner ?c t) \<and> stack_cell ?c t \<noteq> None}"
      using ct_invD(8) [OF inv] unfolding cr st st' eq dd .
    show "inj_on (stack_of ?c) (created ?c)" using ct_invD(6) [OF inv] unfolding cr st .
    show "stack_of ?c u < length (ct_heap ?c)" if "u \<in> created ?c" for u using ct_invD(5) [OF inv, of u] that unfolding cr st' eq .
  qed (use ct_invD(1-3) [OF inv] in \<open>simp_all add: eq\<close>)
qed

lemma dead_past: "flags_ok th r w \<Longrightarrow> dead r w \<Longrightarrow> r_past r \<and> r \<noteq> R_Start"
  by (cases w; cases r) (auto simp: flags_ok_def dead_def where_defs joined_def)

lemma listed_stack:
  assumes "ct_inv as c" "t \<in> created c" "stack_of c t \<in> set as"
  shows "dead (ct_runner c t) (ct_owner c t)"
proof -
  obtain u where u: "u \<in> created c" "dead (ct_runner c u) (ct_owner c u)" "stack_of c u = stack_of c t"
    using assms(3) unfolding ct_invD(8) [OF assms(1)] by auto
  then have "u = t" using ct_invD(6) [OF assms(1)] assms(2) by (auto dest: inj_onD)
  then show ?thesis using u(2) by simp
qed

lemma other_stack: "ct_inv as c \<Longrightarrow> t \<in> created c \<Longrightarrow> u \<in> created c \<Longrightarrow> u \<noteq> t \<Longrightarrow> stack_of c u \<noteq> stack_of c t"
  using ct_invD(6) by (auto dest: inj_onD)

lemma listed_gone:
  assumes "ct_inv as c" "t \<in> created c" "stack_of c t \<in> set as" "stack_cell c t = Some n" "cs_tid n = 0"
  shows "dead (ct_runner c t) (ct_owner c t) \<and> ct_runner c t = R_Gone"
  using listed_stack [OF assms(1-3)] dead_past [OF ct_invD(4) [OF assms(1)], of t] ct_invD(9) [OF assms(1,2,4)] assms(5) by blast

text \<open>The stacks that are on the list after \<open>k\<close> of them have been freed and the one of \<open>t\<close> put in front.\<close>

lemma listed_stacks:
  assumes inv: "ct_inv as c" and t: "t \<in> created c" "\<not> dead (ct_runner c t) (ct_owner c t)" "dead r w"
    and cells: "cs_cell h (stack_of c t) \<noteq> None"
      "\<And>b. b \<noteq> stack_of c t \<Longrightarrow> cs_cell h b = (if b \<in> set (take k as) then None else cs_cell (ct_heap c) b)"
  shows "set (stack_of c t # drop k as) = stack_of c ` {u \<in> created c.
    dead (((ct_runner c)(t := r)) u) (((ct_owner c)(t := w)) u) \<and> cs_cell h (stack_of c u) \<noteq> None}" (is "_ = _ ` ?S")
proof -
  let ?O = "{u \<in> created c. dead (ct_runner c u) (ct_owner c u) \<and> stack_cell c u \<noteq> None}"
  have "cs_cell h (stack_of c u) \<noteq> None \<longleftrightarrow> stack_of c u \<notin> set (take k as) \<and> stack_cell c u \<noteq> None" if "u \<in> created c" "u \<noteq> t" for u
    using cells(2) [OF other_stack [OF inv t(1) that]] by auto
  then have "?S = insert t {u \<in> ?O. stack_of c u \<notin> set (take k as)}" using t cells(1) by auto
  then have "stack_of c ` ?S = insert (stack_of c t) (set as - set (take k as))" using ct_invD(8) [OF inv] by auto
  moreover have "set as - set (take k as) = set (drop k as)"
    using ct_invD(3) [OF inv] set_take_disj_set_drop_if_distinct [of as k k] set_append [of "take k as" "drop k as"] by auto
  ultimately show ?thesis by simp
qed

text \<open>One of the two puts the stack on the list.\<close>

lemma destroy_step:
  assumes inv: "ct_inv as c" and t: "t \<in> created c" "w \<noteq> O_None" "\<not> dead (ct_runner c t) (ct_owner c t)"
    and f: "flags_ok (ct_threads c t) r w" "dead r w" "ct_runner c t = R_Gone \<Longrightarrow> r = R_Gone" "ct_runner c t \<in> {R_Start, R_Gone} \<Longrightarrow> r \<in> {R_Start, R_Gone}"
  shows "\<exists>as'. ct_inv as' (moved t (ct_threads c t) r w (ct_destroy t c))"
proof -
  let ?st = "stack_of c t"
  have not_in: "?st \<notin> set as" using listed_stack [OF inv t(1)] t(3) by blast
  have "stack_cell c t \<noteq> None" using ct_invD(7) [OF inv t(1)] t(3) by blast
  then obtain n where n: "stack_cell c t = Some n" by blast
  from cthread_destroy_links [OF ct_invD(2,3) [OF inv] n not_in] obtain k h m where d:
    "cthread_destroy ?st (ct_heap c, stack_list c) = Inr (h, Some ?st)" "cs_links h (Some ?st) (?st # drop k as)" "length h = length (ct_heap c)"
    "\<And>b. b \<noteq> ?st \<Longrightarrow> cs_cell h b = (if b \<in> set (take k as) then None else cs_cell (ct_heap c) b)"
    "cs_cell h ?st = Some m" "cs_tid m = cs_tid n" "\<And>a. a \<in> set (take k as) \<Longrightarrow> \<exists>n. cs_cell (ct_heap c) a = Some n \<and> cs_tid n = 0" by blast
  let ?c = "moved t (ct_threads c t) r w (ct_destroy t c)"
  have eq: "ct_heap ?c = h" "stack_list ?c = Some ?st" "ct_fault ?c = None" "ct_threads ?c = ct_threads c"
    "ct_runner ?c = (ct_runner c)(t := r)" "ct_owner ?c = (ct_owner c)(t := w)"
    using d(1) ct_invD(1) [OF inv] by (simp_all add: moved_def ct_destroy_def)
  have cr: "created ?c = created c" using t by (auto simp: created_def eq)
  note other = other_stack [OF inv t(1)]
  have freed: "dead (ct_runner c u) (ct_owner c u) \<and> ct_runner c u = R_Gone" if u: "u \<in> created c" "stack_of c u \<in> set (take k as)" for u
    using d(7) [OF u(2)] listed_gone [OF inv u(1) in_set_takeD [OF u(2)]] by blast
  have "ct_inv (?st # drop k as) ?c"
  proof (rule ct_invI)
    show "distinct (?st # drop k as)" using ct_invD(3) [OF inv] not_in by (auto dest: in_set_dropD)
    show "flags_ok (ct_threads ?c u) (ct_runner ?c u) (ct_owner ?c u)" for u using f(1) ct_invD(4) [OF inv, of u] by (simp add: eq)
    show "stack_of ?c u < length (ct_heap ?c)" if "u \<in> created ?c" for u using ct_invD(5) [OF inv, of u] that d(3) unfolding cr eq by simp
    show "inj_on (stack_of ?c) (created ?c)" using ct_invD(6) [OF inv] unfolding cr eq .
    show "dead (ct_runner ?c u) (ct_owner ?c u) \<and> ct_runner ?c u = R_Gone" if "u \<in> created ?c" "stack_cell ?c u = None" for u
    proof (cases "u = t")
      case True
      then show ?thesis using that d(5) by (simp add: eq)
    next
      case False
      then have "dead (ct_runner c u) (ct_owner c u) \<and> ct_runner c u = R_Gone"
        using that d(4) [OF other] freed [of u] ct_invD(7) [OF inv, of u] unfolding cr eq by (auto split: if_splits)
      then show ?thesis using False by (auto simp: eq)
    qed
    show "cs_tid l \<noteq> 0" if "u \<in> created ?c" "stack_cell ?c u = Some l" "ct_runner ?c u \<notin> {R_Start, R_Gone}" for u l
    proof (cases "u = t")
      case True
      then have "ct_runner c t \<notin> {R_Start, R_Gone}" using that(3) f(4) by (auto simp: eq)
      then show ?thesis using True that(2) d(5,6) ct_invD(9) [OF inv t(1) n] by (simp add: eq)
    next
      case False
      then show ?thesis using that d(4) [OF other] ct_invD(9) [OF inv, of u l] unfolding cr eq by (auto split: if_splits)
    qed
    show "set (?st # drop k as) = stack_of ?c ` {u \<in> created ?c. dead (ct_runner ?c u) (ct_owner ?c u) \<and> stack_cell ?c u \<noteq> None}"
      unfolding cr eq by (rule listed_stacks [OF inv t(1,3) f(2)]) (use d(4,5) in auto)
  qed (use d eq in simp_all)
  then show ?thesis by blast
qed

text \<open>The kernel writes the number of a thread.\<close>

lemma tid_step:
  assumes inv: "ct_inv as c" and t: "t \<in> created c" "stack_cell c t \<noteq> None" and f: "flags_ok (ct_threads c t) r (ct_owner c t)"
    and d: "dead r (ct_owner c t) = dead (ct_runner c t) (ct_owner c t)" and v: "r \<notin> {R_Start, R_Gone} \<longrightarrow> v \<noteq> 0"
  shows "ct_inv as (to_runner t r (set_tid t v c))"
proof -
  let ?c = "to_runner t r (set_tid t v c)"
  obtain n where n: "stack_cell c t = Some n" using t(2) by blast
  note lt = cs_cell_Some [OF n]
  have eq: "ct_heap ?c = (ct_heap c)[stack_of c t := Some (n\<lparr>cs_tid := v\<rparr>)]" "ct_runner ?c = (ct_runner c)(t := r)"
    "stack_list ?c = stack_list c" "ct_fault ?c = ct_fault c" "ct_threads ?c = ct_threads c" "ct_owner ?c = ct_owner c"
    using n by (simp_all add: set_tid_def to_runner_def Let_def)
  have cr: "created ?c = created c" by (simp add: created_def eq)
  have dd: "dead (ct_runner ?c u) (ct_owner ?c u) = dead (ct_runner c u) (ct_owner c u)" for u using d by (simp add: eq)
  have other: "stack_of c u \<noteq> stack_of c t" if "u \<in> created c" "u \<noteq> t" for u using ct_invD(6) [OF inv] t(1) that by (auto dest: inj_onD)
  have none: "stack_cell ?c u = None \<longleftrightarrow> stack_cell c u = None" for u using n by (auto simp: eq cs_cell_update)
  show ?thesis
  proof (rule ct_invI)
    show "cs_links (ct_heap ?c) (stack_list ?c) as" unfolding eq
      by (rule cs_links_cong [OF ct_invD(2) [OF inv]]) (use n lt in \<open>auto simp: cs_cell_update\<close>)
    show "flags_ok (ct_threads ?c u) (ct_runner ?c u) (ct_owner ?c u)" for u using f ct_invD(4) [OF inv, of u] by (simp add: eq)
    show "stack_of ?c u < length (ct_heap ?c)" if "u \<in> created ?c" for u using ct_invD(5) [OF inv, of u] that unfolding cr by (simp add: eq)
    show "inj_on (stack_of ?c) (created ?c)" using ct_invD(6) [OF inv] unfolding cr eq .
    show "dead (ct_runner ?c u) (ct_owner ?c u) \<and> ct_runner ?c u = R_Gone" if "u \<in> created ?c" "stack_cell ?c u = None" for u
      using that t(2) ct_invD(7) [OF inv, of u] unfolding cr none dd by (cases "u = t") (auto simp: eq)
    show "set as = stack_of ?c ` {u \<in> created ?c. dead (ct_runner ?c u) (ct_owner ?c u) \<and> stack_cell ?c u \<noteq> None}"
      using ct_invD(8) [OF inv] unfolding cr none dd by (simp add: eq)
    show "cs_tid l \<noteq> 0" if "u \<in> created ?c" "stack_cell ?c u = Some l" "ct_runner ?c u \<notin> {R_Start, R_Gone}" for u l
    proof (cases "u = t")
      case True
      then show ?thesis using that v lt by (auto simp: eq cs_cell_update)
    next
      case False
      then show ?thesis using that ct_invD(9) [OF inv, of u l] other [of u] unfolding cr by (auto simp: eq cs_cell_update split: if_splits)
    qed
  qed (use ct_invD(1,3) [OF inv] in \<open>simp_all add: eq\<close>)
qed

lemma cs_cell_snoc: "cs_cell (h @ [x]) a = (if a = length h then x else cs_cell h a)"
  by (auto simp: cs_cell_def nth_append)

lemma create_step:
  assumes inv: "ct_inv as c" and t: "ct_owner c t = O_None"
  shows "ct_inv as (cthread_create t g c)"
proof -
  let ?c = "cthread_create t g c" and ?n = "\<lparr>cs_tid = g, cs_next = None\<rparr>"
  have eq: "ct_heap ?c = ct_heap c @ [Some ?n]" "ct_runner ?c = (ct_runner c)(t := R_Start)" "ct_owner ?c = (ct_owner c)(t := O_Created)"
    "ct_threads ?c = (ct_threads c)(t := \<lparr>returned_code = 0, ct_stack = length (ct_heap c), ct_lock = False, is_finished = False, is_detached = False\<rparr>)"
    "stack_list ?c = stack_list c" "ct_fault ?c = ct_fault c"
    by (simp_all add: cthread_create_def Let_def to_owner_def to_runner_def set_thread_def)
  have new: "t \<notin> created c" using t by (simp add: created_def)
  have cr: "created ?c = insert t (created c)" by (auto simp: created_def eq)
  have old: "stack_of ?c u = stack_of c u" "stack_of c u < length (ct_heap c)" "stack_cell ?c u = stack_cell c u" if "u \<in> created c" for u
    using that new ct_invD(5) [OF inv that] by (auto simp: eq cs_cell_snoc)
  have nt: "\<not> dead (ct_runner ?c t) (ct_owner ?c t)" "stack_cell ?c t = Some ?n" by (simp_all add: eq dead_def where_defs joined_def cs_cell_snoc)
  have same: "ct_runner ?c u = ct_runner c u" "ct_owner ?c u = ct_owner c u" if "u \<in> created c" for u using that new by (auto simp: eq)
  show ?thesis
  proof (rule ct_invI)
    show "cs_links (ct_heap ?c) (stack_list ?c) as" unfolding eq
      by (rule cs_links_cong [OF ct_invD(2) [OF inv]]) (auto simp: cs_cell_snoc dest: cs_cell_Some)
    show "flags_ok (ct_threads ?c u) (ct_runner ?c u) (ct_owner ?c u)" for u
      using ct_invD(4) [OF inv, of u] by (simp add: eq flags_ok_def where_defs joined_def)
    show "stack_of ?c u < length (ct_heap ?c)" if "u \<in> created ?c" for u using that old [of u] unfolding cr by (auto simp: eq)
    show "inj_on (stack_of ?c) (created ?c)"
    proof -
      have "inj_on (stack_of ?c) (created c)" using ct_invD(6) [OF inv] inj_on_cong [of "created c" "stack_of ?c" "stack_of c"] old(1) by blast
      moreover have "stack_of ?c t \<notin> stack_of ?c ` created c" 
      proof
        assume "stack_of ?c t \<in> stack_of ?c ` created c"
        then obtain u where "u \<in> created c" "stack_of ?c u = length (ct_heap c)" by (auto simp: eq)
        then show False using old(1,2) [of u] by simp
      qed
      ultimately show ?thesis unfolding cr using new by (simp only: inj_on_insert Diff_insert0) simp
    qed
    show "dead (ct_runner ?c u) (ct_owner ?c u) \<and> ct_runner ?c u = R_Gone" if "u \<in> created ?c" "stack_cell ?c u = None" for u
      using that nt(2) old(3) [of u] same [of u] ct_invD(7) [OF inv, of u] unfolding cr by auto
    show "set as = stack_of ?c ` {u \<in> created ?c. dead (ct_runner ?c u) (ct_owner ?c u) \<and> stack_cell ?c u \<noteq> None}"
    proof -
      have "{u \<in> created ?c. dead (ct_runner ?c u) (ct_owner ?c u) \<and> stack_cell ?c u \<noteq> None}
          = {u \<in> created c. dead (ct_runner c u) (ct_owner c u) \<and> stack_cell c u \<noteq> None}"
        (is "?A = ?B")
      proof (rule set_eqI)
        fix u
        show "u \<in> ?A \<longleftrightarrow> u \<in> ?B" using nt(1) same [of u] old(3) [of u] new unfolding cr by (cases "u = t") (simp_all cong: conj_cong)
      qed
      moreover have "stack_of ?c ` {u \<in> created c. P u} = stack_of c ` {u \<in> created c. P u}" for P by (rule image_cong) (simp_all add: old)
      ultimately show ?thesis using ct_invD(8) [OF inv] by simp
    qed
    show "cs_tid l \<noteq> 0" if "u \<in> created ?c" "stack_cell ?c u = Some l" "ct_runner ?c u \<notin> {R_Start, R_Gone}" for u l
      using that old(3) [of u] same(1) [of u] ct_invD(9) [OF inv, of u l] unfolding cr by (auto simp: eq)
  qed (use ct_invD(1,3) [OF inv] in \<open>simp_all add: eq\<close>)
qed

lemma on_stack_eq: "stack_cell c t \<noteq> None \<Longrightarrow> on_stack t c c' = c'"
  by (auto simp: on_stack_def)

lemma running: "ct_inv as c \<Longrightarrow> ct_runner c t \<notin> {R_None, R_Gone} \<Longrightarrow> t \<in> created c \<and> stack_cell c t \<noteq> None"
  using ct_invD(4,7) [of as c t] by (auto simp: created_def flags_ok_def)

lemma owner_created: "ct_owner c t \<noteq> O_None \<Longrightarrow> t \<in> created c"
  by (simp add: created_def)

lemmas place_simps = flags_ok_def dead_def where_defs joined_def

lemma moved_destroy:
  "to_runner t r (ct_destroy t c) = moved t (ct_threads c t) r (ct_owner c t) (ct_destroy t c)"
  "to_owner t w (ct_destroy t c) = moved t (ct_threads c t) (ct_runner c t) w (ct_destroy t c)"
  by (auto simp: moved_runner(2) moved_owner(2) ct_destroy_def split: sum.split)

lemma r_check_inv:
  assumes inv: "ct_inv as c" and r: "ct_runner c t = R_Locked"
  shows "\<exists>as'. ct_inv as' (to_runner t R_Checked (if is_detached (ct_threads c t) then ct_destroy t c else c))"
proof -
  have t: "t \<in> created c" "ct_owner c t \<noteq> O_None" using running [OF inv, of t] r by (auto simp: created_def)
  note f = ct_invD(4) [OF inv, of t, unfolded r]
  show ?thesis
  proof (cases "is_detached (ct_threads c t)")
    case True
    then have w: "ct_owner c t = O_Detached" using f t(2) by (auto simp: place_simps)
    have "\<exists>as'. ct_inv as' (moved t (ct_threads c t) R_Checked O_Detached (ct_destroy t c))"
      by (rule destroy_step [OF inv t(1)]) (use r w f in \<open>auto simp: place_simps\<close>)
    then show ?thesis using True by (simp add: moved_destroy w)
  next
    case False
    then have "ct_owner c t \<in> {O_Created} \<or> joined (ct_owner c t)" using f t(2) by (cases "ct_owner c t") (auto simp: place_simps)
    then have "ct_inv as (moved t (ct_threads c t) R_Checked (ct_owner c t) c)"
      by (intro quiet_step [OF inv t]) (use r f False in \<open>auto simp: place_simps split: owner.splits\<close>)
    then show ?thesis using False by (auto simp: moved_runner(2))
  qed
qed

lemma d_check_inv:
  assumes inv: "ct_inv as c" and w: "ct_owner c t = O_Locked"
  shows "\<exists>as'. ct_inv as' (to_owner t O_Checked (if is_finished (ct_threads c t) then ct_destroy t c else c))"
proof -
  have t: "t \<in> created c" using w by (simp add: created_def)
  note f = ct_invD(4) [OF inv, of t, unfolded w]
  show ?thesis
  proof (cases "is_finished (ct_threads c t)")
    case True
    then have r: "ct_runner c t \<in> {R_Unlocked, R_Gone}" using f by (auto simp: place_simps)
    have "\<exists>as'. ct_inv as' (moved t (ct_threads c t) (ct_runner c t) O_Checked (ct_destroy t c))"
      by (rule destroy_step [OF inv t]) (use r w f in \<open>auto simp: place_simps\<close>)
    then show ?thesis using True by (simp add: moved_destroy)
  next
    case False
    then have "ct_inv as (moved t (ct_threads c t) (ct_runner c t) O_Checked c)"
      by (intro quiet_step [OF inv t]) (use w f in \<open>auto simp: place_simps\<close>)
    then show ?thesis using False by (auto simp: moved_owner(2))
  qed
qed

lemma join_inv:
  assumes inv: "ct_inv as c" and w: "ct_owner c t = O_Created" and f: "is_finished (ct_threads c t)"
  shows "\<exists>as'. ct_inv as' (to_owner t (O_Joined (returned_code (ct_threads c t))) (ct_destroy t c))"
proof -
  let ?x = "returned_code (ct_threads c t)"
  have t: "t \<in> created c" using w by (simp add: created_def)
  have "\<exists>as'. ct_inv as' (moved t (ct_threads c t) (ct_runner c t) (O_Joined ?x) (ct_destroy t c))"
    by (rule destroy_step [OF inv t]) (use w f ct_invD(4) [OF inv, of t] in \<open>auto simp: place_simps\<close>)
  then show ?thesis by (simp add: moved_destroy)
qed

text \<open>A step of the runner that changes its record.\<close>

lemma runner_quiet:
  assumes inv: "ct_inv as c" and r: "ct_runner c t \<notin> {R_None, R_Start, R_Gone}"
    and f: "\<And>w. flags_ok (ct_threads c t) (ct_runner c t) w \<Longrightarrow> w = ct_owner c t \<Longrightarrow> flags_ok th r' w \<and> dead r' w = dead (ct_runner c t) w"
    and s: "ct_stack th = stack_of c t"
  shows "ct_inv as (on_stack t c (to_runner t r' (set_thread t th c)))"
proof -
  have t: "t \<in> created c" "stack_cell c t \<noteq> None" using running [OF inv] r by auto
  then have w: "ct_owner c t \<noteq> O_None" by (simp add: created_def)
  have "ct_inv as (moved t th r' (ct_owner c t) c)"
    by (rule quiet_step [OF inv t(1) w]) (use f [OF ct_invD(4) [OF inv] refl] s r in auto)
  then show ?thesis unfolding on_stack_eq [OF t(2)] moved_runner(1) .
qed

lemma owner_quiet:
  assumes inv: "ct_inv as c" and w: "ct_owner c t \<noteq> O_None" "w' \<noteq> O_None"
    and f: "\<And>r. flags_ok (ct_threads c t) r (ct_owner c t) \<Longrightarrow> r = ct_runner c t \<Longrightarrow> flags_ok th r w' \<and> dead r w' = dead r (ct_owner c t)"
    and s: "ct_stack th = stack_of c t"
  shows "ct_inv as (to_owner t w' (set_thread t th c))"
  unfolding moved_owner(1)
  by (rule quiet_step [OF inv owner_created [OF w(1)] w(2)]) (use f [OF ct_invD(4) [OF inv] refl] s in auto)

lemma ct_step_inv: "ct_step c c' \<Longrightarrow> ct_inv as c \<Longrightarrow> \<exists>as'. ct_inv as' c'"
proof (induction rule: ct_step.induct)
  case (create c t g)
  then show ?case using create_step by blast
next
  case (start c t)
  have t: "t \<in> created c" "stack_cell c t \<noteq> None" using running [OF start.prems, of t] start.hyps by auto
  have "ct_inv as (to_runner t R_Run (set_tid t (Suc t) c))"
    by (rule tid_step [OF start.prems t]) (use ct_invD(4) [OF start.prems, of t] start.hyps in \<open>auto simp: place_simps\<close>)
  then show ?case by blast
next
  case (ends c t code)
  have "ct_inv as (on_stack t c (to_runner t R_Ended (set_thread t ((ct_threads c t)\<lparr>returned_code := code\<rparr>) c)))"
    by (rule runner_quiet [OF ends.prems]) (use ends.hyps in \<open>auto simp: place_simps\<close>)
  then show ?case by blast
next
  case (r_lock c t)
  have "ct_inv as (on_stack t c (to_runner t R_Locked (set_thread t ((ct_threads c t)\<lparr>ct_lock := True\<rparr>) c)))"
    by (rule runner_quiet [OF r_lock.prems]) (use r_lock.hyps in \<open>auto simp: place_simps\<close>)
  then show ?case by blast
next
  case (r_check c t)
  then have "stack_cell c t \<noteq> None" using running [OF r_check.prems, of t] by auto
  then show ?case using r_check_inv [OF r_check.prems r_check.hyps] by (simp add: on_stack_eq)
next
  case (r_finish c t)
  have "ct_inv as (on_stack t c (to_runner t R_Finished (set_thread t ((ct_threads c t)\<lparr>is_finished := True\<rparr>) c)))"
    by (rule runner_quiet [OF r_finish.prems]) (use r_finish.hyps in \<open>auto simp: place_simps\<close>)
  then show ?case by blast
next
  case (r_unlock c t)
  have "ct_inv as (on_stack t c (to_runner t R_Unlocked (set_thread t ((ct_threads c t)\<lparr>ct_lock := False\<rparr>) c)))"
    by (rule runner_quiet [OF r_unlock.prems]) (use r_unlock.hyps in \<open>auto simp: place_simps\<close>)
  then show ?case by blast
next
  case (gone c t)
  have t: "t \<in> created c" "stack_cell c t \<noteq> None" using running [OF gone.prems, of t] gone.hyps by auto
  have "ct_inv as (to_runner t R_Gone (set_tid t 0 c))"
    by (rule tid_step [OF gone.prems t]) (use ct_invD(4) [OF gone.prems, of t] gone.hyps in \<open>auto simp: place_simps\<close>)
  then show ?case using on_stack_eq [OF t(2)] by auto
next
  case (d_lock c t)
  have "ct_inv as (to_owner t O_Locked (set_thread t ((ct_threads c t)\<lparr>ct_lock := True\<rparr>) c))"
    by (rule owner_quiet [OF d_lock.prems]) (use d_lock.hyps in \<open>auto simp: place_simps\<close>)
  then show ?case by blast
next
  case (d_check c t)
  then show ?case using d_check_inv by blast
next
  case (d_flag c t)
  have "ct_inv as (to_owner t O_Flagged (set_thread t ((ct_threads c t)\<lparr>is_detached := True\<rparr>) c))"
    by (rule owner_quiet [OF d_flag.prems]) (use d_flag.hyps in \<open>auto simp: place_simps\<close>)
  then show ?case by blast
next
  case (d_unlock c t)
  have "ct_inv as (to_owner t O_Detached (set_thread t ((ct_threads c t)\<lparr>ct_lock := False\<rparr>) c))"
    by (rule owner_quiet [OF d_unlock.prems]) (use d_unlock.hyps in \<open>auto simp: place_simps\<close>)
  then show ?case by blast
next
  case (joins c t)
  then show ?case using join_inv by blast
qed

section \<open>What the threads promise\<close>

text \<open>
  C20. However the threads and their creator interleave, no freed stack is ever used and none is freed twice: a stack is
  freed only after its thread is gone. Every thread that is gone and was detached or joined has its stack freed or on the list, and a join
  returns the code of the thread.
\<close>

theorem cthread_stacks_safe:
  assumes "ct_init c0" "ct_step\<^sup>*\<^sup>* c0 c"
  shows "ct_fault c = None \<and>
    (\<forall>t. ct_owner c t \<noteq> O_None \<longrightarrow> stack_cell c t = None \<longrightarrow> ct_runner c t = R_Gone) \<and>
    (\<forall>t x. ct_owner c t = O_Joined x \<longrightarrow> x = returned_code (ct_threads c t)) \<and>
    (\<exists>as. cs_links (ct_heap c) (stack_list c) as \<and> distinct as \<and>
       (\<forall>t. ct_runner c t = R_Gone \<longrightarrow> ct_owner c t = O_Detached \<or> joined (ct_owner c t) \<longrightarrow> stack_cell c t = None \<or> stack_of c t \<in> set as))"
proof -
  from assms(2) have "\<exists>as. ct_inv as c"
  proof (induction rule: rtranclp_induct)
    case base
    then show ?case using assms(1) by (intro exI [of _ "[]"]) (simp add: ct_init_def ct_inv_def flags_ok_def created_def)
  qed (use ct_step_inv in blast)
  then obtain as where inv: "ct_inv as c" ..
  have gone: "stack_cell c t = None \<or> stack_of c t \<in> set as"
    if "ct_runner c t = R_Gone" "ct_owner c t = O_Detached \<or> joined (ct_owner c t)" for t
  proof -
    have "t \<in> created c" using that by (auto simp: created_def joined_def)
    moreover have "dead (ct_runner c t) (ct_owner c t)" using that by (auto simp: place_simps)
    ultimately show ?thesis using ct_invD(8) [OF inv] by auto
  qed
  have "x = returned_code (ct_threads c t)" if "ct_owner c t = O_Joined x" for t x
    using ct_invD(4) [OF inv, of t] that by (simp add: flags_ok_def)
  moreover have "ct_runner c t = R_Gone" if "ct_owner c t \<noteq> O_None" "stack_cell c t = None" for t
    using ct_invD(7) [OF inv, of t] that by (simp add: created_def)
  ultimately show ?thesis using ct_invD(1-3) [OF inv] gone by blast
qed

theorem cthread_stacks_safe_witness:
  "\<exists>c :: ct_conf. ct_owner c 0 = O_Created \<and> ct_fault c = None"
proof -
  let ?th = "\<lparr>returned_code = 0, ct_stack = 0, ct_lock = False, is_finished = False, is_detached = False\<rparr>"
  let ?c = "\<lparr>ct_threads = (\<lambda>t. ?th), ct_runner = (\<lambda>t. R_None), ct_owner = (\<lambda>t. O_None), ct_heap = [], stack_list = None, ct_fault = None\<rparr>"
  have i: "ct_init ?c" by (simp add: ct_init_def)
  have "ct_step ?c (cthread_create 0 0 ?c)" by (rule create) simp
  then have "ct_step\<^sup>*\<^sup>* ?c (cthread_create 0 0 ?c)" by simp
  from cthread_stacks_safe [OF i this] have "ct_fault (cthread_create 0 0 ?c) = None" by blast
  moreover have "ct_owner (cthread_create 0 0 ?c) 0 = O_Created" by (simp add: cthread_create_def Let_def to_owner_def)
  ultimately show ?thesis by blast
qed

section \<open>Waiting for the threads\<close>

text \<open>
  The loop of \<open>main\<close> that waits for its ten threads: \<open>fin k i\<close> is what the \<open>k\<close>-th read of a flag, that of thread \<open>i\<close>, returns. The result is
  the number of reads.
\<close>

fun wait_threads :: "nat \<Rightarrow> (nat \<Rightarrow> nat \<Rightarrow> bool) \<Rightarrow> nat \<Rightarrow> nat \<Rightarrow> nat option" where
  "wait_threads 0 fin k i = None"
| "wait_threads (Suc fuel) fin k i =
     (if \<not> i < 10 then Some k
      else if \<not> fin k i then wait_threads fuel fin (Suc k) (0 + 1)
      else wait_threads fuel fin (Suc k) (i + 1))"

text \<open>After a thread was not ready the loop begins with the second thread again, and ends though the first has not finished.\<close>

lemma wait_skips_first: "wait_threads 12 (\<lambda>k i. i \<noteq> 0) 0 0 = Some 10"
  by (simp add: eval_nat_numeral)

section \<open>The first versions\<close>

text \<open>
  The threads of \<^verbatim>\<open>10_cthreads_1.c\<close>, \<^verbatim>\<open>10_cthreads_2.c\<close> and \<^verbatim>\<open>11_cthread_bad_detach.c\<close> have no lock and free the stack of a thread directly. One
  thread and its creator.
\<close>

datatype bt_runner = B_Run | B_Ended | B_Checked | B_Finished | B_Gone

record bad_thread =
  bt_code :: int
  bt_finished :: bool
  bt_detached :: bool
  bt_freed :: bool
  bt_runner :: bt_runner
  bt_owner :: owner
  bt_fault :: "fault option"

definition bt_init :: bad_thread where
  "bt_init = \<lparr>bt_code = 0, bt_finished = False, bt_detached = False, bt_freed = False, bt_runner = B_Run, bt_owner = O_Created, bt_fault = None\<rparr>"

definition bt_destroy :: "bad_thread \<Rightarrow> bad_thread" where
  "bt_destroy c = (if bt_freed c then c\<lparr>bt_fault := Some DoubleFree\<rparr> else c\<lparr>bt_freed := True\<rparr>)"

definition bt_on_stack :: "bad_thread \<Rightarrow> bad_thread \<Rightarrow> bad_thread" where
  "bt_on_stack c c' = (if bt_freed c then c\<lparr>bt_fault := Some UseAfterFree\<rparr> else c')"

inductive bt_step :: "bad_thread \<Rightarrow> bad_thread \<Rightarrow> bool" where
  b_ends: "bt_fault c = None \<Longrightarrow> bt_runner c = B_Run \<Longrightarrow> bt_step c (bt_on_stack c (c\<lparr>bt_code := code, bt_runner := B_Ended\<rparr>))"
| b_check: "bt_fault c = None \<Longrightarrow> bt_runner c = B_Ended \<Longrightarrow>
    bt_step c (bt_on_stack c ((if bt_detached c then bt_destroy c else c)\<lparr>bt_runner := B_Checked\<rparr>))"
| b_finish: "bt_fault c = None \<Longrightarrow> bt_runner c = B_Checked \<Longrightarrow> bt_step c (bt_on_stack c (c\<lparr>bt_finished := True, bt_runner := B_Finished\<rparr>))"
| b_return: "bt_fault c = None \<Longrightarrow> bt_runner c = B_Finished \<Longrightarrow> bt_step c (bt_on_stack c (c\<lparr>bt_runner := B_Gone\<rparr>))"
| b_detach: "bt_fault c = None \<Longrightarrow> bt_owner c = O_Created \<Longrightarrow> bt_step c ((if bt_finished c then bt_destroy c else c)\<lparr>bt_owner := O_Checked\<rparr>)"
| b_flag: "bt_fault c = None \<Longrightarrow> bt_owner c = O_Checked \<Longrightarrow> bt_step c (c\<lparr>bt_detached := True, bt_owner := O_Detached\<rparr>)"
| b_join: "bt_fault c = None \<Longrightarrow> bt_owner c = O_Created \<Longrightarrow> bt_finished c \<Longrightarrow> bt_step c ((bt_destroy c)\<lparr>bt_owner := O_Joined (bt_code c)\<rparr>)"

definition bt_ok :: "bad_thread \<Rightarrow> bool" where
  "bt_ok c \<longleftrightarrow> bt_fault c \<noteq> Some DoubleFree \<and> (bt_finished c \<longleftrightarrow> bt_runner c \<in> {B_Finished, B_Gone}) \<and>
     (bt_detached c \<longleftrightarrow> bt_owner c = O_Detached) \<and> (bt_freed c \<longrightarrow> bt_runner c \<in> {B_Checked, B_Finished, B_Gone} \<and> bt_owner c \<noteq> O_Created)"

lemma bt_step_ok: "bt_step c c' \<Longrightarrow> bt_ok c \<Longrightarrow> bt_ok c'"
  by (induction rule: bt_step.induct) (auto simp: bt_ok_def bt_on_stack_def bt_destroy_def)

text \<open>A thread that runs to its test of \<open>is_detached\<close> before the flag is set, and one that runs to it after.\<close>

lemma bt_reach_check: "bt_step\<^sup>*\<^sup>* bt_init (bt_init\<lparr>bt_runner := B_Ended\<rparr>)"
  using b_ends [of bt_init 0] by (simp add: bt_init_def bt_on_stack_def)

lemma bt_reach_late:
  "bt_step\<^sup>*\<^sup>* bt_init (bt_init\<lparr>bt_runner := B_Gone, bt_finished := True, bt_detached := True, bt_owner := O_Detached\<rparr>)"
proof -
  let ?a = "bt_init\<lparr>bt_runner := B_Ended\<rparr>"
  let ?b = "?a\<lparr>bt_runner := B_Checked\<rparr>" let ?d = "?b\<lparr>bt_owner := O_Checked\<rparr>" let ?e = "?d\<lparr>bt_detached := True, bt_owner := O_Detached\<rparr>"
  let ?f = "?e\<lparr>bt_finished := True, bt_runner := B_Finished\<rparr>"
  have "bt_step ?a ?b" using b_check [of ?a] by (simp add: bt_init_def bt_on_stack_def)
  moreover have "bt_step ?b ?d" using b_detach [of ?b] by (simp add: bt_init_def)
  moreover have "bt_step ?d ?e" using b_flag [of ?d] by (simp add: bt_init_def)
  moreover have "bt_step ?e ?f" using b_finish [of ?e] by (simp add: bt_init_def bt_on_stack_def)
  moreover have "bt_step ?f (?f\<lparr>bt_runner := B_Gone\<rparr>)" using b_return [of ?f] by (simp add: bt_init_def bt_on_stack_def)
  ultimately have "bt_step\<^sup>*\<^sup>* bt_init (?f\<lparr>bt_runner := B_Gone\<rparr>)" using bt_reach_check by (meson rtranclp.rtrancl_into_rtrancl)
  then show ?thesis by (simp add: bt_init_def)
qed

lemma bt_reach_own_stack:
  "bt_step\<^sup>*\<^sup>* bt_init (bt_init\<lparr>bt_runner := B_Checked, bt_detached := True, bt_owner := O_Detached, bt_freed := True, bt_fault := Some UseAfterFree\<rparr>)"
proof -
  let ?a = "bt_init\<lparr>bt_runner := B_Ended\<rparr>"
  let ?b = "?a\<lparr>bt_owner := O_Checked\<rparr>" let ?d = "?b\<lparr>bt_detached := True, bt_owner := O_Detached\<rparr>" let ?e = "?d\<lparr>bt_freed := True, bt_runner := B_Checked\<rparr>"
  have "bt_step ?a ?b" using b_detach [of ?a] by (simp add: bt_init_def)
  moreover have "bt_step ?b ?d" using b_flag [of ?b] by (simp add: bt_init_def)
  moreover have "bt_step ?d ?e" using b_check [of ?d] by (simp add: bt_init_def bt_on_stack_def bt_destroy_def)
  moreover have "bt_step ?e (?e\<lparr>bt_fault := Some UseAfterFree\<rparr>)" using b_finish [of ?e] by (simp add: bt_init_def bt_on_stack_def)
  ultimately have "bt_step\<^sup>*\<^sup>* bt_init (?e\<lparr>bt_fault := Some UseAfterFree\<rparr>)" using bt_reach_check by (meson rtranclp.rtrancl_into_rtrancl)
  then show ?thesis by (simp add: bt_init_def)
qed

lemma bt_reach_join:
  "bt_step\<^sup>*\<^sup>* bt_init (bt_init\<lparr>bt_runner := B_Finished, bt_finished := True, bt_owner := O_Joined 0, bt_freed := True, bt_fault := Some UseAfterFree\<rparr>)"
proof -
  let ?a = "bt_init\<lparr>bt_runner := B_Ended\<rparr>"
  let ?b = "?a\<lparr>bt_runner := B_Checked\<rparr>" let ?d = "?b\<lparr>bt_finished := True, bt_runner := B_Finished\<rparr>" let ?e = "?d\<lparr>bt_freed := True, bt_owner := O_Joined 0\<rparr>"
  have "bt_step ?a ?b" using b_check [of ?a] by (simp add: bt_init_def bt_on_stack_def)
  moreover have "bt_step ?b ?d" using b_finish [of ?b] by (simp add: bt_init_def bt_on_stack_def)
  moreover have "bt_step ?d ?e" using b_join [of ?d] by (simp add: bt_init_def bt_destroy_def)
  moreover have "bt_step ?e (?e\<lparr>bt_fault := Some UseAfterFree\<rparr>)" using b_return [of ?e] by (simp add: bt_init_def bt_on_stack_def)
  ultimately have "bt_step\<^sup>*\<^sup>* bt_init (?e\<lparr>bt_fault := Some UseAfterFree\<rparr>)" using bt_reach_check by (meson rtranclp.rtrancl_into_rtrancl)
  then show ?thesis by (simp add: bt_init_def)
qed

text \<open>
  Without the lock the stack of a detached thread can be leaked, when the thread looks before the flag is set, or freed by the
  thread that runs on it; a join can free it before the thread has returned. It is never freed twice.
\<close>

theorem cthread_without_lock:
  "(\<exists>c. bt_step\<^sup>*\<^sup>* bt_init c \<and> bt_runner c = B_Gone \<and> bt_owner c = O_Detached \<and> \<not> bt_freed c) \<and>
   (\<exists>c. bt_step\<^sup>*\<^sup>* bt_init c \<and> bt_owner c = O_Detached \<and> bt_fault c = Some UseAfterFree) \<and>
   (\<exists>c. bt_step\<^sup>*\<^sup>* bt_init c \<and> joined (bt_owner c) \<and> bt_fault c = Some UseAfterFree) \<and>
   \<not> (\<exists>c. bt_step\<^sup>*\<^sup>* bt_init c \<and> bt_fault c = Some DoubleFree)"
proof -
  have "bt_ok c" if "bt_step\<^sup>*\<^sup>* bt_init c" for c
    using that by (induction rule: rtranclp_induct) (auto simp: bt_step_ok, simp add: bt_ok_def bt_init_def)
  then have "\<not> (\<exists>c. bt_step\<^sup>*\<^sup>* bt_init c \<and> bt_fault c = Some DoubleFree)" by (auto simp: bt_ok_def)
  moreover have "\<exists>c. bt_step\<^sup>*\<^sup>* bt_init c \<and> bt_runner c = B_Gone \<and> bt_owner c = O_Detached \<and> \<not> bt_freed c"
    by (rule exI, rule conjI, rule bt_reach_late) (simp add: bt_init_def)
  moreover have "\<exists>c. bt_step\<^sup>*\<^sup>* bt_init c \<and> bt_owner c = O_Detached \<and> bt_fault c = Some UseAfterFree"
    by (rule exI, rule conjI, rule bt_reach_own_stack) simp
  moreover have "\<exists>c. bt_step\<^sup>*\<^sup>* bt_init c \<and> joined (bt_owner c) \<and> bt_fault c = Some UseAfterFree"
    by (rule exI, rule conjI, rule bt_reach_join) (simp add: joined_def)
  ultimately show ?thesis by blast
qed

end
