(* ===== verification/Futex_Counter.thy ===== *)
theory Futex_Counter
  imports Prelude
begin

text \<open>
  Threads that increment one counter (\<^verbatim>\<open>6_threads/8_futex.c\<close>, \<^verbatim>\<open>4_not_atomic.c\<close>, \<^verbatim>\<open>5_atomic.c\<close>). The lock on the futex is modelled with the kernel's
  queue of sleepers: a thread that finds the lock taken asks the kernel to sleep while the word is 1, and the one that unlocks wakes
  one sleeper. Between the two the others may come in, and a sleeper may wake up for no reason.
\<close>

section \<open>The futex lock\<close>

text \<open>Where a thread is in its loop, with the iterations it has left, the current one included.\<close>

datatype fphase =
    F_Try nat | F_Wait nat | F_Sleep nat | F_Read nat | F_Write nat int | F_Unlock nat | F_Wake nat | F_Done

record fconf =
  f_word :: int
  f_counter :: int
  f_phase :: "nat \<Rightarrow> fphase"

definition f_go :: "nat \<Rightarrow> fphase \<Rightarrow> fconf \<Rightarrow> fconf" where
  "f_go t p c = c\<lparr>f_phase := (f_phase c)(t := p)\<rparr>"

text \<open>The compare-and-swap of \<open>futex_lock\<close>, and the check of the kernel in \<open>futex_wait\<close>.\<close>

definition futex_lock :: "nat \<Rightarrow> nat \<Rightarrow> fconf \<Rightarrow> fconf" where
  "futex_lock t k c = (if f_word c = 0 then f_go t (F_Read k) (c\<lparr>f_word := 1\<rparr>) else f_go t (F_Wait k) c)"

definition futex_wait :: "nat \<Rightarrow> nat \<Rightarrow> fconf \<Rightarrow> fconf" where
  "futex_wait t k c = f_go t (if f_word c = 1 then F_Sleep k else F_Try k) c"

definition next_turn :: "nat \<Rightarrow> fphase" where
  "next_turn k = (if k \<le> 1 then F_Done else F_Try (k - 1))"

definition asleep :: "fphase \<Rightarrow> bool" where
  "asleep p \<longleftrightarrow> (case p of F_Sleep k \<Rightarrow> True | _ \<Rightarrow> False)"

fun awake :: "fphase \<Rightarrow> fphase" where
  "awake (F_Sleep k) = F_Try k"
| "awake p = p"

definition futex_unlock :: "nat \<Rightarrow> nat \<Rightarrow> fconf \<Rightarrow> fconf" where
  "futex_unlock t k c = f_go t (F_Wake k) (c\<lparr>f_word := (if f_word c = 1 then 0 else f_word c)\<rparr>)"

text \<open>\<open>futex_wake\<close> lets one sleeper go, thread \<open>u\<close>, if there is any.\<close>

definition futex_wake :: "nat \<Rightarrow> nat \<Rightarrow> nat \<Rightarrow> fconf \<Rightarrow> fconf" where
  "futex_wake t u k c = f_go t (next_turn k) (f_go u (awake (f_phase c u)) c)"

inductive f_step :: "fconf \<Rightarrow> fconf \<Rightarrow> bool" where
  f_try: "f_phase c t = F_Try k \<Longrightarrow> f_step c (futex_lock t k c)"
| f_wait: "f_phase c t = F_Wait k \<Longrightarrow> f_step c (futex_wait t k c)"
| f_read: "f_phase c t = F_Read k \<Longrightarrow> f_step c (f_go t (F_Write k (f_counter c)) c)"
| f_write: "f_phase c t = F_Write k v \<Longrightarrow> f_step c (f_go t (F_Unlock k) (c\<lparr>f_counter := v + 1\<rparr>))"
| f_unlock: "f_phase c t = F_Unlock k \<Longrightarrow> f_step c (futex_unlock t k c)"
| f_wake: "f_phase c t = F_Wake k \<Longrightarrow> (\<exists>v. asleep (f_phase c v)) \<longrightarrow> asleep (f_phase c u) \<Longrightarrow> f_step c (futex_wake t u k c)"

inductive f_spurious :: "fconf \<Rightarrow> fconf \<Rightarrow> bool" where
  f_spur: "asleep (f_phase c t) \<Longrightarrow> f_spurious c (f_go t (awake (f_phase c t)) c)"

text \<open>
  The program with \<open>N\<close> threads of \<open>K\<close> iterations, six and a hundred thousand in the source. The counter is unbounded here; with the
  numbers of the source it never exceeds 600000, which an \<open>int\<close> holds.
\<close>

definition f_init :: "nat \<Rightarrow> nat \<Rightarrow> fconf" where
  "f_init N K = \<lparr>f_word = 0, f_counter = 0, f_phase = (\<lambda>t. if t < N \<and> 0 < K then F_Try K else F_Done)\<rparr>"

section \<open>The invariant\<close>

fun holds :: "fphase \<Rightarrow> bool" where
  "holds (F_Read k) = True"
| "holds (F_Write k v) = True"
| "holds (F_Unlock k) = True"
| "holds p = False"

text \<open>The increments a thread has still to do.\<close>

fun left :: "fphase \<Rightarrow> nat" where
  "left (F_Try k) = k" | "left (F_Wait k) = k" | "left (F_Sleep k) = k" | "left (F_Read k) = k" | "left (F_Write k v) = k"
| "left (F_Unlock k) = k - 1" | "left (F_Wake k) = k - 1" | "left F_Done = 0"

fun positive :: "fphase \<Rightarrow> bool" where
  "positive (F_Try k) = (0 < k)" | "positive (F_Wait k) = (0 < k)" | "positive (F_Sleep k) = (0 < k)" | "positive (F_Read k) = (0 < k)"
| "positive (F_Write k v) = (0 < k)" | "positive (F_Unlock k) = (0 < k)" | "positive (F_Wake k) = (0 < k)" | "positive F_Done = True"

definition f_inv :: "nat \<Rightarrow> nat \<Rightarrow> fconf \<Rightarrow> bool" where
  "f_inv N W c \<longleftrightarrow> f_word c \<in> {0, 1} \<and> (f_word c = 1 \<longleftrightarrow> (\<exists>t. holds (f_phase c t))) \<and>
     (\<forall>t u. holds (f_phase c t) \<longrightarrow> holds (f_phase c u) \<longrightarrow> t = u) \<and>
     (\<forall>t k v. f_phase c t = F_Write k v \<longrightarrow> v = f_counter c) \<and>
     (\<forall>t. \<not> t < N \<longrightarrow> f_phase c t = F_Done) \<and> (\<forall>t. positive (f_phase c t)) \<and>
     f_counter c + int (\<Sum>t<N. left (f_phase c t)) = int W \<and>
     ((\<exists>t. asleep (f_phase c t)) \<longrightarrow> (\<exists>t. f_phase c t \<noteq> F_Done \<and> \<not> asleep (f_phase c t)))"

lemma f_go_simps [simp]: "f_word (f_go t p c) = f_word c" "f_counter (f_go t p c) = f_counter c" "f_phase (f_go t p c) = (f_phase c)(t := p)"
  by (simp_all add: f_go_def)

lemma sum_go: "t < N \<Longrightarrow> (\<Sum>u<N. f (((g :: nat \<Rightarrow> 'a)(t := p)) u)) + f (g t) = (\<Sum>u<N. f (g u)) + (f p :: nat)"
proof -
  assume t: "t < N"
  have "(\<Sum>u<N. f ((g(t := p)) u)) = f p + (\<Sum>u\<in>{..<N} - {t}. f (g u))" using t by (simp add: sum.remove [of "{..<N}" t])
  moreover have "(\<Sum>u<N. f (g u)) = f (g t) + (\<Sum>u\<in>{..<N} - {t}. f (g u))" using t by (simp add: sum.remove [of "{..<N}" t])
  ultimately show ?thesis by simp
qed

lemma f_invD:
  assumes "f_inv N W c"
  shows "f_word c \<in> {0, 1}" "f_word c = 1 \<longleftrightarrow> (\<exists>t. holds (f_phase c t))" "holds (f_phase c t) \<Longrightarrow> holds (f_phase c u) \<Longrightarrow> t = u"
    "f_phase c t = F_Write k v \<Longrightarrow> v = f_counter c" "f_phase c t \<noteq> F_Done \<Longrightarrow> t < N" "positive (f_phase c t)"
    "f_counter c + int (\<Sum>t<N. left (f_phase c t)) = int W"
    "asleep (f_phase c t) \<Longrightarrow> \<exists>t. f_phase c t \<noteq> F_Done \<and> \<not> asleep (f_phase c t)"
  using assms unfolding f_inv_def by blast+

text \<open>One thread goes on, from phase \<open>f_phase c t\<close> to \<open>p\<close>.\<close>

lemma f_inv_go:
  assumes inv: "f_inv N W c" and q: "f_phase c t \<noteq> F_Done" and p: "positive p" and ph: "f_phase c' = (f_phase c)(t := p)"
    and word: "f_word c' = (if holds p then 1 else if holds (f_phase c t) then 0 else f_word c)" "holds p \<Longrightarrow> holds (f_phase c t) \<or> f_word c = 0"
    and cnt: "f_counter c' + int (left p) = f_counter c + int (left (f_phase c t))" "f_counter c' = f_counter c \<or> holds (f_phase c t)"
    and wr: "\<And>k v. p = F_Write k v \<Longrightarrow> v = f_counter c'"
    and act: "asleep p \<or> p = F_Done \<Longrightarrow> (\<exists>u. u \<noteq> t \<and> f_phase c u \<noteq> F_Done \<and> \<not> asleep (f_phase c u)) \<or> \<not> asleep p \<and> (\<forall>u. u \<noteq> t \<longrightarrow> \<not> asleep (f_phase c u))"
  shows "f_inv N W c'"
proof -
  have t: "t < N" using f_invD(5) [OF inv q] .
  have free: "\<not> holds (f_phase c u)" if "f_word c = 0" for u using f_invD(2) [OF inv] that by auto
  have alone: "u = t" if "holds (f_phase c t)" "holds (f_phase c u)" for u using f_invD(3) [OF inv that] by simp
  have one: "u = v" if "holds (f_phase c' u)" "holds (f_phase c' v)" for u v
    using that f_invD(3) [OF inv, of u v] free [of u] free [of v] alone [of u] alone [of v] word(2) unfolding ph by (auto split: if_splits)
  have w: "f_word c' = 1 \<longleftrightarrow> (\<exists>u. holds (f_phase c' u))"
  proof (cases "holds p")
    case False
    show ?thesis
    proof (cases "holds (f_phase c t)")
      case True
      then have "\<not> holds (f_phase c' u)" for u using alone [of u] False unfolding ph by auto
      then show ?thesis using True False word(1) by simp
    next
      case False
      then have "holds (f_phase c' u) \<longleftrightarrow> holds (f_phase c u)" for u using \<open>\<not> holds p\<close> unfolding ph by auto
      then show ?thesis using False \<open>\<not> holds p\<close> word(1) f_invD(2) [OF inv] by simp
    qed
  qed (use word(1) ph in auto)
  have "(\<Sum>u<N. left (f_phase c' u)) + left (f_phase c t) = (\<Sum>u<N. left (f_phase c u)) + left p"
    unfolding ph by (rule sum_go [OF t])
  then have sum: "f_counter c' + int (\<Sum>u<N. left (f_phase c' u)) = int W" using f_invD(7) [OF inv] cnt(1) by linarith
  have wrt: "v = f_counter c'" if u: "f_phase c' u = F_Write k v" for u k v
  proof (cases "u = t")
    case False
    then have u': "f_phase c u = F_Write k v" using u ph by simp
    then have "holds (f_phase c u)" by simp
    then have "f_counter c' = f_counter c" using cnt(2) alone [of u] False by blast
    then show ?thesis using f_invD(4) [OF inv u'] by simp
  qed (use u ph wr in auto)
  have active: "\<exists>v. f_phase c' v \<noteq> F_Done \<and> \<not> asleep (f_phase c' v)" if u: "asleep (f_phase c' u)" for u
  proof (cases "asleep p \<or> p = F_Done")
    case True
    from act [OF this] show ?thesis
    proof
      assume "\<exists>u. u \<noteq> t \<and> f_phase c u \<noteq> F_Done \<and> \<not> asleep (f_phase c u)"
      then obtain v where "v \<noteq> t" "f_phase c v \<noteq> F_Done" "\<not> asleep (f_phase c v)" by blast
      then show ?thesis unfolding ph by (intro exI [of _ v]) simp
    next
      assume "\<not> asleep p \<and> (\<forall>u. u \<noteq> t \<longrightarrow> \<not> asleep (f_phase c u))"
      then show ?thesis using u unfolding ph by (cases "u = t") auto
    qed
  next
    case False
    then show ?thesis unfolding ph by (intro exI [of _ t]) auto
  qed
  have "f_word c' \<in> {0, 1}" using f_invD(1) [OF inv] word(1) by simp
  moreover have "f_phase c' u = F_Done" if "\<not> u < N" for u using that t f_invD(5) [OF inv, of u] unfolding ph by auto
  moreover have "positive (f_phase c' u)" for u using p f_invD(6) [OF inv, of u] unfolding ph by simp
  ultimately show ?thesis unfolding f_inv_def using w one wrt sum active by blast
qed

lemma holder_active: "f_inv N W c \<Longrightarrow> f_word c = 1 \<Longrightarrow> \<not> holds (f_phase c t) \<Longrightarrow>
    \<exists>u. u \<noteq> t \<and> f_phase c u \<noteq> F_Done \<and> \<not> asleep (f_phase c u)"
proof -
  assume inv: "f_inv N W c" and w: "f_word c = 1" and t: "\<not> holds (f_phase c t)"
  from w f_invD(2) [OF inv] obtain u where u: "holds (f_phase c u)" by blast
  then have "f_phase c u \<noteq> F_Done" "\<not> asleep (f_phase c u)" by (cases "f_phase c u"; simp add: asleep_def)+
  then show ?thesis using u t by metis
qed

lemma f_wake_inv:
  assumes inv: "f_inv N W c" and t: "f_phase c t = F_Wake k" and u: "(\<exists>v. asleep (f_phase c v)) \<longrightarrow> asleep (f_phase c u)"
  shows "f_inv N W (futex_wake t u k c)"
proof -
  let ?c = "f_go u (awake (f_phase c u)) c"
  have k: "0 < k" using f_invD(6) [OF inv, of t] t by simp
  have nt: "positive (next_turn k)" "\<not> holds (next_turn k)" "left (next_turn k) = k - 1" "\<not> asleep (next_turn k)" "\<And>j v. next_turn k \<noteq> F_Write j v"
    using k by (auto simp: next_turn_def asleep_def)
  have mid: "f_inv N W ?c \<and> f_phase ?c t = F_Wake k \<and>
      ((\<exists>v. v \<noteq> t \<and> f_phase ?c v \<noteq> F_Done \<and> \<not> asleep (f_phase ?c v)) \<or> (\<forall>v. v \<noteq> t \<longrightarrow> \<not> asleep (f_phase ?c v)))"
  proof (cases "asleep (f_phase c u)")
    case True
    then obtain j where j: "f_phase c u = F_Sleep j" by (auto simp: asleep_def split: fphase.splits)
    have "f_inv N W ?c" by (rule f_inv_go [OF inv, of u "F_Try j"]) (use j f_invD(6) [OF inv, of u] in \<open>auto simp: asleep_def\<close>)
    moreover have "u \<noteq> t" "f_phase ?c u \<noteq> F_Done" "\<not> asleep (f_phase ?c u)" using j t by (auto simp: asleep_def)
    ultimately show ?thesis using t by auto
  next
    case False
    then have same: "?c = c" by (cases "f_phase c u") (auto simp: asleep_def f_go_def fun_upd_idem)
    have "\<not> asleep (f_phase c v)" for v using False u by blast
    then show ?thesis using inv t unfolding same by blast
  qed
  then have inv': "f_inv N W ?c" and t': "f_phase ?c t = F_Wake k" by blast+
  show ?thesis unfolding futex_wake_def
    by (rule f_inv_go [OF inv', of t "next_turn k"]) (use mid t' nt in \<open>auto simp del: f_go_simps(3)\<close>, simp_all)
qed

lemma f_step_inv: "f_step c c' \<Longrightarrow> f_inv N W c \<Longrightarrow> f_inv N W c'"
proof (induction rule: f_step.induct)
  case (f_try c t k)
  then have k: "0 < k" using f_invD(6) [OF f_try.prems, of t] by simp
  have w: "f_word c = 0 \<or> f_word c = 1" using f_invD(1) [OF f_try.prems] by simp
  show ?case
  proof (cases "f_word c = 0")
    case True
    show ?thesis by (rule f_inv_go [OF f_try.prems, of t "F_Read k"]) (use f_try k True in \<open>auto simp: futex_lock_def asleep_def\<close>)
  next
    case False
    show ?thesis by (rule f_inv_go [OF f_try.prems, of t "F_Wait k"]) (use f_try k False in \<open>auto simp: futex_lock_def asleep_def\<close>)
  qed
next
  case (f_wait c t k)
  then have k: "0 < k" using f_invD(6) [OF f_wait.prems, of t] by simp
  show ?case
  proof (cases "f_word c = 1")
    case True
    show ?thesis by (rule f_inv_go [OF f_wait.prems, of t "F_Sleep k"])
        (use f_wait k True holder_active [OF f_wait.prems, of t] in \<open>auto simp: futex_wait_def\<close>)
  next
    case False
    show ?thesis by (rule f_inv_go [OF f_wait.prems, of t "F_Try k"]) (use f_wait k False in \<open>auto simp: futex_wait_def asleep_def\<close>)
  qed
next
  case (f_read c t k)
  then have k: "0 < k" "f_word c = 1" using f_invD(2,6) [OF f_read.prems] by (metis positive.simps(4), metis holds.simps(1))
  show ?case by (rule f_inv_go [OF f_read.prems, of t "F_Write k (f_counter c)"]) (use f_read k in \<open>auto simp: asleep_def\<close>)
next
  case (f_write c t k v)
  then have k: "0 < k" "f_word c = 1" using f_invD(2,6) [OF f_write.prems] by (metis positive.simps(5), metis holds.simps(2))
  have v: "v = f_counter c" by (rule f_invD(4) [OF f_write.prems f_write.hyps])
  show ?case by (rule f_inv_go [OF f_write.prems, of t "F_Unlock k"]) (use f_write k v in \<open>auto simp: asleep_def\<close>)
next
  case (f_unlock c t k)
  then have k: "0 < k" "f_word c = 1" using f_invD(2,6) [OF f_unlock.prems] by (metis positive.simps(6), metis holds.simps(3))
  show ?case by (rule f_inv_go [OF f_unlock.prems, of t "F_Wake k"]) (use f_unlock k in \<open>auto simp: futex_unlock_def asleep_def\<close>)
next
  case (f_wake c t k u)
  then show ?case using f_wake_inv by blast
qed

lemma f_spurious_inv: "f_spurious c c' \<Longrightarrow> f_inv N W c \<Longrightarrow> f_inv N W c'"
proof (induction rule: f_spurious.induct)
  case (f_spur c t)
  then obtain k where k: "f_phase c t = F_Sleep k" by (auto simp: asleep_def split: fphase.splits)
  show ?case by (rule f_inv_go [OF f_spur.prems, of t "F_Try k"]) (use k f_invD(6) [OF f_spur.prems, of t] in \<open>auto simp: asleep_def\<close>)
qed

lemma f_init_inv: "f_inv N (N * K) (f_init N K)"
proof -
  have "(\<Sum>t<N. left (f_phase (f_init N K) t)) = N * K" by (auto simp: f_init_def)
  moreover have "\<not> holds (f_phase (f_init N K) t)" "\<not> asleep (f_phase (f_init N K) t)" "positive (f_phase (f_init N K) t)"
    "f_phase (f_init N K) t \<noteq> F_Write k v" "\<not> t < N \<Longrightarrow> f_phase (f_init N K) t = F_Done" for t k v
    by (auto simp: f_init_def asleep_def)
  moreover have "f_word (f_init N K) = 0" "f_counter (f_init N K) = 0" by (simp_all add: f_init_def)
  ultimately show ?thesis unfolding f_inv_def by simp
qed

section \<open>Every run ends\<close>

text \<open>
  How much a thread has left to do. An unlock sends the threads that are about to sleep back, which is paid by the section that ends;
  nothing else goes backwards.
\<close>

definition turn_cost :: "nat \<Rightarrow> nat" where
  "turn_cost N = 2 * N + 10"

fun cost :: "nat \<Rightarrow> bool \<Rightarrow> fphase \<Rightarrow> nat" where
  "cost N free (F_Try k) = k * turn_cost N + 3"
| "cost N free (F_Wait k) = k * turn_cost N + (if free then 4 else 2)"
| "cost N free (F_Sleep k) = k * turn_cost N + 1"
| "cost N free (F_Read k) = k * turn_cost N"
| "cost N free (F_Write k v) = (k - 1) * turn_cost N + 2 * N + 8"
| "cost N free (F_Unlock k) = (k - 1) * turn_cost N + 2 * N + 7"
| "cost N free (F_Wake k) = (k - 1) * turn_cost N + 6"
| "cost N free F_Done = 0"

definition work :: "nat \<Rightarrow> fconf \<Rightarrow> nat" where
  "work N c = (\<Sum>t<N. cost N (f_word c = 0) (f_phase c t))"

lemma work_go:
  "t < N \<Longrightarrow> work N (f_go t p c) + cost N (f_word c = 0) (f_phase c t) = work N c + cost N (f_word c = 0) p"
  unfolding work_def f_go_simps by (rule sum_go)

lemma cost_mono: "cost N False p \<le> cost N True p" "cost N True p \<le> cost N False p + 2"
  by (cases p; simp)+

lemma work_taken: "f_word c = 0 \<Longrightarrow> work N (c\<lparr>f_word := 1\<rparr>) \<le> work N c"
  unfolding work_def using cost_mono(1) by (intro sum_mono) simp

lemma work_freed: "f_word c = 1 \<Longrightarrow> work N (c\<lparr>f_word := 0\<rparr>) \<le> work N c + 2 * N"
proof -
  assume "f_word c = 1"
  then have "work N (c\<lparr>f_word := 0\<rparr>) \<le> (\<Sum>t<N. cost N (f_word c = 0) (f_phase c t) + 2)"
    unfolding work_def using cost_mono(2) by (intro sum_mono) simp
  also have "\<dots> = work N c + 2 * N" unfolding work_def by (simp only: sum.distrib) simp
  finally show ?thesis .
qed

lemma k_cost: "0 < k \<Longrightarrow> (k - 1) * turn_cost N + turn_cost N = k * turn_cost N"
  by (cases k) simp_all

lemma f_go_word: "f_go t p (c\<lparr>f_word := w\<rparr>) = (f_go t p c)\<lparr>f_word := w\<rparr>"
  by (simp add: f_go_def)

lemma work_counter [simp]: "work N (c\<lparr>f_counter := n\<rparr>) = work N c"
  by (simp add: work_def)

lemma f_go_counter: "f_go t p (c\<lparr>f_counter := n\<rparr>) = (f_go t p c)\<lparr>f_counter := n\<rparr>"
  by (simp add: f_go_def)

lemma awake_work: "t < N \<or> \<not> asleep (f_phase c t) \<Longrightarrow> work N (f_go t (awake (f_phase c t)) c) \<le> work N c + 2"
  using work_go [of t N "awake (f_phase c t)" c]
  by (cases "f_phase c t") (auto simp: asleep_def f_go_def fun_upd_idem)

lemma f_step_work: "f_step c c' \<Longrightarrow> f_inv N W c \<Longrightarrow> work N c' < work N c"
proof (induction rule: f_step.induct)
  case (f_try c t k)
  then have t: "t < N" using f_invD(5) [OF f_try.prems, of t] by simp
  show ?case
  proof (cases "f_word c = 0")
    case True
    then show ?thesis using work_go [OF t, of "F_Read k" c] work_taken [of "f_go t (F_Read k) c" N] f_try.hyps
      by (simp add: futex_lock_def f_go_word)
  next
    case False
    then show ?thesis using work_go [OF t, of "F_Wait k" c] f_try.hyps by (simp add: futex_lock_def)
  qed
next
  case (f_wait c t k)
  then have t: "t < N" using f_invD(5) [OF f_wait.prems, of t] by simp
  have "f_word c = 0 \<or> f_word c = 1" using f_invD(1) [OF f_wait.prems] by simp
  then show ?case using work_go [OF t, of "F_Sleep k" c] work_go [OF t, of "F_Try k" c] f_wait.hyps by (auto simp: futex_wait_def)
next
  case (f_read c t k)
  then have t: "t < N" "0 < k" using f_invD(5,6) [OF f_read.prems, of t] by simp_all
  show ?case using work_go [OF t(1), of "F_Write k (f_counter c)" c] f_read.hyps k_cost [OF t(2), of N] by (simp add: turn_cost_def)
next
  case (f_write c t k v)
  then have t: "t < N" using f_invD(5) [OF f_write.prems, of t] by simp
  show ?case using work_go [OF t, of "F_Unlock k" c] f_write.hyps by (simp add: f_go_counter)
next
  case (f_unlock c t k)
  then have t: "t < N" and w: "f_word c = 1" using f_invD(2,5) [OF f_unlock.prems] by (simp, metis holds.simps(3))
  then show ?case using work_go [OF t, of "F_Wake k" c] work_freed [of "f_go t (F_Wake k) c" N] f_unlock.hyps
    by (simp add: futex_unlock_def f_go_word)
next
  case (f_wake c t k u)
  then have t: "t < N" "0 < k" using f_invD(5,6) [OF f_wake.prems, of t] by simp_all
  let ?c = "f_go u (awake (f_phase c u)) c"
  have "f_phase ?c t = F_Wake k" using f_wake.hyps(1) by auto
  then have 1: "work N (f_go t (next_turn k) ?c) + ((k - 1) * turn_cost N + 6) = work N ?c + cost N (f_word c = 0) (next_turn k)"
    using work_go [OF t(1), of "next_turn k" ?c] by simp
  have "u < N \<or> \<not> asleep (f_phase c u)" using f_invD(5) [OF f_wake.prems, of u] by (cases "f_phase c u") (simp_all add: asleep_def)
  from awake_work [OF this] have 2: "work N ?c \<le> work N c + 2" .
  have "cost N (f_word c = 0) (next_turn k) \<le> (k - 1) * turn_cost N + 3" by (simp add: next_turn_def)
  then show ?case using 1 2 unfolding futex_wake_def by linarith
qed

lemma f_step_run: "(f_step ^^ n) c c' \<Longrightarrow> f_inv N W c \<Longrightarrow> n + work N c' \<le> work N c \<and> f_inv N W c'"
proof (induction n arbitrary: c')
  case (Suc n)
  then obtain d where d: "(f_step ^^ n) c d" "f_step d c'" by auto
  then show ?case using Suc.IH [OF d(1) Suc.prems(2)] f_step_work [OF d(2), of N W] f_step_inv [OF d(2), of N W] by simp
qed simp

text \<open>A thread that is neither done nor asleep can always go on.\<close>

lemma f_progress: "f_phase c t \<noteq> F_Done \<Longrightarrow> \<not> asleep (f_phase c t) \<Longrightarrow> \<exists>c'. f_step c c'"
proof (cases "f_phase c t")
  case (F_Wake k)
  have "\<exists>u. (\<exists>v. asleep (f_phase c v)) \<longrightarrow> asleep (f_phase c u)" by blast
  then show ?thesis using f_wake [OF F_Wake] by blast
qed (auto simp: asleep_def intro: f_try f_wait f_read f_write f_unlock)

lemma f_stuck: "f_inv N W c \<Longrightarrow> (\<And>c'. \<not> f_step c c') \<Longrightarrow> (\<forall>t. f_phase c t = F_Done) \<and> f_counter c = int W"
proof -
  assume inv: "f_inv N W c" and stuck: "\<And>c'. \<not> f_step c c'"
  then have "f_phase c t = F_Done" for t using f_invD(8) [OF inv, of t] f_progress by blast
  then show ?thesis using f_invD(7) [OF inv] by simp
qed

text \<open>
  C21. The lock of the futex excludes and loses no wakeup: in every state the threads reach, also with wakeups that nobody
  asked for, at most one thread is between lock and unlock, and when no thread can go on then all have finished and the counter is the
  number of increments.
\<close>

theorem futex_counts:
  assumes "(sup f_step f_spurious)\<^sup>*\<^sup>* (f_init N K) c"
  shows "(holds (f_phase c t) \<longrightarrow> holds (f_phase c u) \<longrightarrow> t = u) \<and>
    ((\<nexists>c'. f_step c c') \<longrightarrow> (\<forall>t. f_phase c t = F_Done) \<and> f_counter c = int (N * K))"
proof -
  have inv: "f_inv N (N * K) c" using assms
    by (induction rule: rtranclp_induct) (auto simp: f_init_inv dest: f_step_inv f_spurious_inv)
  then show ?thesis using f_invD(3) [OF inv] f_stuck [OF inv] by blast
qed

text \<open>A thread that increments the counter while another one sleeps, and a thread that is alone and finishes.\<close>

lemma two_meet:
  "\<exists>c. (sup f_step f_spurious)\<^sup>*\<^sup>* (f_init 2 3) c \<and> holds (f_phase c 0) \<and> f_phase c 1 = F_Sleep 3"
proof -
  let ?a = "futex_lock 0 3 (f_init 2 3)"
  let ?b = "futex_lock 1 3 ?a"
  let ?d = "futex_wait 1 3 ?b"
  note d = futex_lock_def futex_wait_def f_init_def
  have "sup f_step f_spurious (f_init 2 3) ?a" using f_try [of "f_init 2 3" 0 3] by (simp add: f_init_def)
  moreover have "sup f_step f_spurious ?a ?b" using f_try [of ?a 1 3] by (simp add: d f_go_def)
  moreover have "sup f_step f_spurious ?b ?d" using f_wait [of ?b 1 3] by (simp add: d f_go_def)
  ultimately have "(sup f_step f_spurious)\<^sup>*\<^sup>* (f_init 2 3) ?d" by (meson converse_rtranclp_into_rtranclp rtranclp.rtrancl_refl)
  then show ?thesis by (intro exI [of _ ?d]) (simp add: d f_go_def)
qed

lemma one_finishes:
  "\<exists>c. (sup f_step f_spurious)\<^sup>*\<^sup>* (f_init 1 1) c \<and> (\<nexists>c'. f_step c c')"
proof -
  let ?a = "futex_lock 0 1 (f_init 1 1)"
  let ?b = "f_go 0 (F_Write 1 0) ?a"
  let ?d = "f_go 0 (F_Unlock 1) (?b\<lparr>f_counter := 1\<rparr>)"
  let ?e = "futex_unlock 0 1 ?d"
  let ?f = "futex_wake 0 0 1 ?e"
  note d = futex_lock_def futex_unlock_def futex_wake_def next_turn_def f_init_def f_go_def
  have "sup f_step f_spurious (f_init 1 1) ?a" using f_try [of "f_init 1 1" 0 1] by (simp add: f_init_def)
  moreover have "sup f_step f_spurious ?a ?b" using f_read [of ?a 0 1] by (simp add: d)
  moreover have "sup f_step f_spurious ?b ?d" using f_write [of ?b 0 1 0] by (simp add: d)
  moreover have "sup f_step f_spurious ?d ?e" using f_unlock [of ?d 0 1] by (simp add: d)
  moreover have "sup f_step f_spurious ?e ?f" using f_wake [of ?e 0 1 0] by (simp add: d asleep_def)
  ultimately have "(sup f_step f_spurious)\<^sup>*\<^sup>* (f_init 1 1) ?f" by (meson converse_rtranclp_into_rtranclp rtranclp.rtrancl_refl)
  moreover have "\<nexists>c'. f_step ?f c'"
  proof
    have fin: "f_phase ?f t = F_Done" for t by (simp add: d)
    assume "\<exists>c'. f_step ?f c'"
    then show False using fin by (auto elim!: f_step.cases)
  qed
  ultimately show ?thesis by blast
qed

theorem futex_counts_witness:
  "(\<exists>c. (sup f_step f_spurious)\<^sup>*\<^sup>* (f_init 2 3) c \<and> holds (f_phase c 0) \<and> \<not> holds (f_phase c 1) \<and> f_phase c 1 = F_Sleep 3) \<and>
   (\<exists>c. (sup f_step f_spurious)\<^sup>*\<^sup>* (f_init 1 1) c \<and> f_counter c = 1)"
proof
  obtain c where c: "(sup f_step f_spurious)\<^sup>*\<^sup>* (f_init 2 3) c" "holds (f_phase c 0)" "f_phase c 1 = F_Sleep 3" using two_meet by blast
  then show "\<exists>c. (sup f_step f_spurious)\<^sup>*\<^sup>* (f_init 2 3) c \<and> holds (f_phase c 0) \<and> \<not> holds (f_phase c 1) \<and> f_phase c 1 = F_Sleep 3"
    using futex_counts [OF c(1), of 0 1] by auto
next
  obtain c where c: "(sup f_step f_spurious)\<^sup>*\<^sup>* (f_init 1 1) c" "\<nexists>c'. f_step c c'" using one_finishes by blast
  then show "\<exists>c. (sup f_step f_spurious)\<^sup>*\<^sup>* (f_init 1 1) c \<and> f_counter c = 1" using futex_counts [OF c(1)] by auto
qed

text \<open>
  C22. The program ends, however the threads are scheduled: no run has more steps than the bound. A run here has no wakeups of the
  futex that nobody asked for: those are \<open>f_spurious\<close>, which \<open>f_step\<close> does not contain, and each of them can cost a
  thread one more turn of its loop.
\<close>

theorem futex_terminates:
  assumes "(f_step ^^ n) (f_init N K) c"
  shows "n \<le> N * (K * (2 * N + 10) + 3)"
proof -
  have "work N (f_init N K) \<le> (\<Sum>t<N. K * (2 * N + 10) + 3)"
    unfolding work_def by (rule sum_mono) (simp add: f_init_def turn_cost_def)
  then show ?thesis using f_step_run [OF assms f_init_inv] by simp
qed

theorem futex_terminates_witness: "(1 :: nat) \<le> 6 * (100000 * (2 * 6 + 10) + 3)"
proof (rule futex_terminates)
  show "(f_step ^^ 1) (f_init 6 100000) (futex_lock 0 100000 (f_init 6 100000))"
    unfolding relpowp_1 by (rule f_try) (simp add: f_init_def)
qed

section \<open>Increments without a lock\<close>

text \<open>
  The programs \<^verbatim>\<open>4_not_atomic.c\<close>, where an increment reads and then writes, and \<^verbatim>\<open>5_atomic.c\<close>, where it is one operation. Both threads, the
  new one and \<open>main\<close>, do \<open>K\<close> increments.
\<close>

datatype nphase = N_Read nat | N_Write nat int

record nconf =
  n_counter :: int
  n_phase :: "nat \<Rightarrow> nphase"

definition n_go :: "nat \<Rightarrow> nphase \<Rightarrow> nconf \<Rightarrow> nconf" where
  "n_go t p c = c\<lparr>n_phase := (n_phase c)(t := p)\<rparr>"

inductive plain_step :: "nconf \<Rightarrow> nconf \<Rightarrow> bool" where
  p_read: "n_phase c t = N_Read (Suc k) \<Longrightarrow> plain_step c (n_go t (N_Write k (n_counter c)) c)"
| p_write: "n_phase c t = N_Write k v \<Longrightarrow> plain_step c (n_go t (N_Read k) (c\<lparr>n_counter := v + 1\<rparr>))"

inductive atomic_step :: "nconf \<Rightarrow> nconf \<Rightarrow> bool" where
  a_add: "n_phase c t = N_Read (Suc k) \<Longrightarrow> atomic_step c (n_go t (N_Read k) (c\<lparr>n_counter := n_counter c + 1\<rparr>))"

definition n_init :: "nat \<Rightarrow> nconf" where
  "n_init K = \<lparr>n_counter = 0, n_phase = (\<lambda>t. if t < 2 then N_Read K else N_Read 0)\<rparr>"

fun n_left :: "nphase \<Rightarrow> nat" where
  "n_left (N_Read k) = k" | "n_left (N_Write k v) = k"

definition n_inv :: "nat \<Rightarrow> nconf \<Rightarrow> bool" where
  "n_inv W c \<longleftrightarrow> n_counter c + int (\<Sum>t<2. n_left (n_phase c t)) = int W \<and> (\<forall>t. \<not> t < 2 \<longrightarrow> n_phase c t = N_Read 0)"

lemma atomic_inv: "atomic_step c c' \<Longrightarrow> n_inv W c \<Longrightarrow> n_inv W c'"
proof (induction rule: atomic_step.induct)
  case (a_add c t k)
  then have t: "t < 2" unfolding n_inv_def by (cases "t < 2") auto
  have "(\<Sum>u<2. n_left (((n_phase c)(t := N_Read k)) u)) + n_left (n_phase c t) = (\<Sum>u<2. n_left (n_phase c u)) + n_left (N_Read k)"
    by (rule sum_go [OF t])
  then have "int (\<Sum>u<2. n_left (((n_phase c)(t := N_Read k)) u)) + 1 = int (\<Sum>u<2. n_left (n_phase c u))"
    using a_add.hyps by (simp only: n_left.simps)
  moreover have "\<forall>u. \<not> u < 2 \<longrightarrow> ((n_phase c)(t := N_Read k)) u = N_Read 0" using a_add.prems t by (simp add: n_inv_def)
  ultimately show ?case using a_add.prems unfolding n_inv_def n_go_def by (simp del: of_nat_sum)
qed

text \<open>Both threads read the same value, and both write it back plus one.\<close>

definition both :: "nat \<Rightarrow> int \<Rightarrow> nconf" where
  "both k v = \<lparr>n_counter = v, n_phase = (\<lambda>t. if t < 2 then N_Read k else N_Read 0)\<rparr>"

lemma plain_pair: "plain_step\<^sup>*\<^sup>* (both (Suc k) v) (both k (v + 1))"
proof -
  let ?a = "n_go 0 (N_Write k v) (both (Suc k) v)"
  let ?b = "n_go 1 (N_Write k v) ?a"
  let ?d = "n_go 0 (N_Read k) (?b\<lparr>n_counter := v + 1\<rparr>)"
  have "plain_step (both (Suc k) v) ?a" using p_read [of "both (Suc k) v" 0 k] by (simp add: both_def n_go_def)
  moreover have "plain_step ?a ?b" using p_read [of ?a 1 k] by (simp add: both_def n_go_def)
  moreover have "plain_step ?b ?d" using p_write [of ?b 0 k v] by (simp add: both_def n_go_def)
  moreover have "plain_step ?d (n_go 1 (N_Read k) (?d\<lparr>n_counter := v + 1\<rparr>))" using p_write [of ?d 1 k v] by (simp add: both_def n_go_def)
  moreover have "n_go 1 (N_Read k) (?d\<lparr>n_counter := v + 1\<rparr>) = both k (v + 1)" by (auto simp: both_def n_go_def fun_eq_iff)
  ultimately show ?thesis by (metis converse_rtranclp_into_rtranclp rtranclp.rtrancl_refl)
qed

lemma plain_all: "plain_step\<^sup>*\<^sup>* (both k v) (both 0 (v + int k))"
proof (induction k arbitrary: v)
  case (Suc k)
  show ?case using rtranclp_trans [OF plain_pair Suc.IH] by (simp add: add.assoc)
qed simp

text \<open>The atomic increments are all counted; the plain ones may lose one of every pair, so that the counter ends at half of the sum.\<close>

theorem counter_atomicity:
  "(atomic_step\<^sup>*\<^sup>* (n_init K) c \<and> (\<forall>t. n_phase c t = N_Read 0) \<longrightarrow> n_counter c = int (2 * K)) \<and>
   (\<exists>c. plain_step\<^sup>*\<^sup>* (n_init K) c \<and> (\<forall>t. n_phase c t = N_Read 0) \<and> n_counter c = int K)"
proof (intro conjI impI)
  assume c: "atomic_step\<^sup>*\<^sup>* (n_init K) c \<and> (\<forall>t. n_phase c t = N_Read 0)"
  have i: "n_inv (2 * K) (n_init K)" by (simp add: n_inv_def n_init_def numeral_2_eq_2)
  have "atomic_step\<^sup>*\<^sup>* (n_init K) c" using c by blast
  then have "n_inv (2 * K) c" using i by (induction rule: rtranclp_induct) (auto dest: atomic_inv)
  then show "n_counter c = int (2 * K)" using c by (simp add: n_inv_def)
next
  have "plain_step\<^sup>*\<^sup>* (n_init K) (both 0 (int K))" using plain_all [of K 0] by (simp add: both_def n_init_def)
  moreover have "\<forall>t. n_phase (both 0 (int K)) t = N_Read 0" "n_counter (both 0 (int K)) = int K" by (simp_all add: both_def)
  ultimately show "\<exists>c. plain_step\<^sup>*\<^sup>* (n_init K) c \<and> (\<forall>t. n_phase c t = N_Read 0) \<and> n_counter c = int K" by blast
qed

theorem counter_atomicity_witness: "\<exists>c. plain_step\<^sup>*\<^sup>* (n_init 100000) c \<and> (\<forall>t. n_phase c t = N_Read 0) \<and> n_counter c = 100000"
  using counter_atomicity [of 100000 "n_init 100000"] by simp

end
