(* ===== verification/Condvar.thy ===== *)
theory Condvar
  imports Prelude
begin

text \<open>
  The condition variable that the lecture builds from a mutex (\<^verbatim>\<open>6_threads/14_condvar.c\<close>, and its first version \<^verbatim>\<open>13_simple_condvar.c\<close>): the thread
  that signals holds the mutex all the time but while an event is set, and the waiters poll. The parameter \<open>counted\<close> is true for
  the second program, which counts its waiters and waits until the event is taken.
\<close>

datatype main_phase = M_Idle | M_Set | M_Open | M_Relock

datatype wait_phase = W_Out | W_Poll | W_Locked | W_Taken | W_Counted

datatype holder = Main | Waiter nat

record condvar =
  event_lock :: "holder option"
  is_event_set :: bool
  wait_count :: int
  cv_main :: main_phase
  cv_wait :: "nat \<Rightarrow> wait_phase"
  cv_signals :: nat
  cv_processed :: nat

definition w_go :: "nat \<Rightarrow> wait_phase \<Rightarrow> condvar \<Rightarrow> condvar" where
  "w_go t p c = c\<lparr>cv_wait := (cv_wait c)(t := p)\<rparr>"

definition condvar_create :: condvar where
  "condvar_create = \<lparr>event_lock = Some Main, is_event_set = False, wait_count = 0, cv_main = M_Idle, cv_wait = (\<lambda>t. W_Out),
     cv_signals = 0, cv_processed = 0\<rparr>"

text \<open>The steps of \<open>condvar_signal\<close> and of \<open>condvar_wait\<close>, for \<open>N\<close> waiting threads that come back when they have processed an event.\<close>

inductive cv_step :: "bool \<Rightarrow> nat \<Rightarrow> condvar \<Rightarrow> condvar \<Rightarrow> bool" for counted N where
  signal: "cv_main c = M_Idle \<Longrightarrow> counted \<longrightarrow> wait_count c \<noteq> 0 \<Longrightarrow>
    cv_step counted N c (c\<lparr>is_event_set := True, cv_main := M_Set, cv_signals := cv_signals c + 1\<rparr>)"
| open_up: "cv_main c = M_Set \<Longrightarrow> cv_step counted N c (c\<lparr>event_lock := None, cv_main := M_Open\<rparr>)"
| taken: "cv_main c = M_Open \<Longrightarrow> counted \<longrightarrow> \<not> is_event_set c \<Longrightarrow> cv_step counted N c (c\<lparr>cv_main := M_Relock\<rparr>)"
| relock: "cv_main c = M_Relock \<Longrightarrow> event_lock c = None \<Longrightarrow>
    cv_step counted N c (c\<lparr>event_lock := Some Main, is_event_set := False, cv_main := M_Idle\<rparr>)"
| enter: "cv_wait c t = W_Out \<Longrightarrow> t < N \<Longrightarrow> cv_step counted N c (w_go t W_Poll (c\<lparr>wait_count := wait_count c + 1\<rparr>))"
| poll: "cv_wait c t = W_Poll \<Longrightarrow> event_lock c = None \<Longrightarrow> cv_step counted N c (w_go t W_Locked (c\<lparr>event_lock := Some (Waiter t)\<rparr>))"
| miss: "cv_wait c t = W_Locked \<Longrightarrow> \<not> is_event_set c \<Longrightarrow> cv_step counted N c (w_go t W_Poll (c\<lparr>event_lock := None\<rparr>))"
| take_it: "cv_wait c t = W_Locked \<Longrightarrow> is_event_set c \<Longrightarrow> cv_step counted N c (w_go t W_Taken (c\<lparr>is_event_set := False\<rparr>))"
| discount: "cv_wait c t = W_Taken \<Longrightarrow> cv_step counted N c (w_go t W_Counted (c\<lparr>wait_count := wait_count c - 1\<rparr>))"
| leave: "cv_wait c t = W_Counted \<Longrightarrow>
    cv_step counted N c (w_go t W_Out (c\<lparr>event_lock := None, cv_processed := cv_processed c + 1\<rparr>))"

section \<open>The invariant\<close>

definition in_lock :: "wait_phase \<Rightarrow> bool" where "in_lock p \<longleftrightarrow> p \<in> {W_Locked, W_Taken, W_Counted}"
definition waits :: "wait_phase \<Rightarrow> bool" where "waits p \<longleftrightarrow> p \<in> {W_Poll, W_Locked, W_Taken}"
definition took :: "wait_phase \<Rightarrow> bool" where "took p \<longleftrightarrow> p \<in> {W_Taken, W_Counted}"

definition cv_inv :: "nat \<Rightarrow> condvar \<Rightarrow> bool" where
  "cv_inv N c \<longleftrightarrow> (event_lock c = Some Main \<longleftrightarrow> cv_main c \<in> {M_Idle, M_Set}) \<and>
     (\<forall>t. event_lock c = Some (Waiter t) \<longleftrightarrow> in_lock (cv_wait c t)) \<and>
     (\<forall>t. cv_wait c t \<noteq> W_Out \<longrightarrow> t < N) \<and>
     (cv_main c = M_Set \<longrightarrow> is_event_set c) \<and> (is_event_set c \<longrightarrow> cv_main c \<in> {M_Set, M_Open}) \<and>
     (is_event_set c \<longrightarrow> (\<exists>t. waits (cv_wait c t)) \<and> (\<forall>t. \<not> took (cv_wait c t))) \<and>
     wait_count c = int (card {t. waits (cv_wait c t)}) \<and>
     cv_signals c = cv_processed c + card {t. took (cv_wait c t)} + of_bool (is_event_set c)"

lemma cv_invD:
  assumes "cv_inv N c"
  shows "event_lock c = Some Main \<longleftrightarrow> cv_main c \<in> {M_Idle, M_Set}" "event_lock c = Some (Waiter t) \<longleftrightarrow> in_lock (cv_wait c t)"
    "cv_wait c t \<noteq> W_Out \<Longrightarrow> t < N" "cv_main c = M_Set \<Longrightarrow> is_event_set c" "is_event_set c \<Longrightarrow> cv_main c \<in> {M_Set, M_Open}"
    "is_event_set c \<Longrightarrow> \<exists>t. waits (cv_wait c t)" "is_event_set c \<Longrightarrow> \<not> took (cv_wait c t)"
    "wait_count c = int (card {t. waits (cv_wait c t)})"
    "cv_signals c = cv_processed c + card {t. took (cv_wait c t)} + of_bool (is_event_set c)"
  using assms unfolding cv_inv_def by blast+

lemma cv_finite: "cv_inv N c \<Longrightarrow> \<not> P W_Out \<Longrightarrow> finite {t. P (cv_wait c t)}"
proof (rule finite_subset [of _ "{..<N}"])
  assume inv: "cv_inv N c" and P: "\<not> P W_Out"
  have "t < N" if "P (cv_wait c t)" for t using cv_invD(3) [OF inv, of t] that P by (cases "cv_wait c t = W_Out") auto
  then show "{t. P (cv_wait c t)} \<subseteq> {..<N}" by auto
qed simp

lemmas wait_sets = in_lock_def waits_def took_def

text \<open>A step of a waiter.\<close>

lemma waiter_step:
  assumes inv: "cv_inv N c" and t: "t < N" and c': "cv_wait c' = (cv_wait c)(t := p)" "cv_main c' = cv_main c" "cv_signals c' = cv_signals c"
    and lock: "event_lock c' = (if in_lock p then Some (Waiter t) else if in_lock (cv_wait c t) then None else event_lock c)"
      "in_lock p \<Longrightarrow> in_lock (cv_wait c t) \<or> event_lock c = None"
    and ev: "is_event_set c' = (is_event_set c \<and> p \<noteq> W_Taken)" "is_event_set c' \<Longrightarrow> waits (cv_wait c t) \<Longrightarrow> waits p" "is_event_set c' \<Longrightarrow> \<not> took p"
    and cnt: "wait_count c' + of_bool (waits (cv_wait c t)) = wait_count c + of_bool (waits p)"
      "cv_processed c' + of_bool (took p) + of_bool (is_event_set c') = cv_processed c + of_bool (took (cv_wait c t)) + of_bool (is_event_set c)"
  shows "cv_inv N c'"
proof -
  have f: "finite {u. waits (cv_wait c u)}" "finite {u. took (cv_wait c u)}" by (rule cv_finite [OF inv]; simp add: wait_sets)+
  have cw: "int (card {u. waits (cv_wait c' u)}) = int (card {u. waits (cv_wait c u)}) + of_bool (waits p) - of_bool (waits (cv_wait c t))"
    using card_fun_upd [of waits "cv_wait c" t p, OF f(1)] unfolding c' by blast
  have ct: "int (card {u. took (cv_wait c' u)}) = int (card {u. took (cv_wait c u)}) + of_bool (took p) - of_bool (took (cv_wait c t))"
    using card_fun_upd [of took "cv_wait c" t p, OF f(2)] unfolding c' by blast
  have wc: "wait_count c' = int (card {u. waits (cv_wait c' u)})" using cw cnt(1) cv_invD(8) [OF inv] by simp
  have "int (cv_processed c') + of_bool (took p) + of_bool (is_event_set c') = int (cv_processed c) + of_bool (took (cv_wait c t)) + of_bool (is_event_set c)"
    using arg_cong [OF cnt(2), of int] by simp
  then have "int (cv_signals c') = int (cv_processed c' + card {u. took (cv_wait c' u)} + of_bool (is_event_set c'))"
    using ct arg_cong [OF cv_invD(9) [OF inv], of int] unfolding c' by simp
  then have sg: "cv_signals c' = cv_processed c' + card {u. took (cv_wait c' u)} + of_bool (is_event_set c')" by (simp only: of_nat_eq_iff)
  have lk: "event_lock c' = Some (Waiter u) \<longleftrightarrow> in_lock (cv_wait c' u)" for u
    using lock cv_invD(2) [OF inv, of u] cv_invD(2) [OF inv, of t] unfolding c' by auto
  have lm: "event_lock c' = Some Main \<longleftrightarrow> cv_main c' \<in> {M_Idle, M_Set}"
    using lock cv_invD(1) [OF inv] cv_invD(2) [OF inv, of t] unfolding c' by auto
  have wt: "\<exists>u. waits (cv_wait c' u)" if e: "is_event_set c'"
  proof -
    from e ev(1) cv_invD(6) [OF inv] obtain u where "waits (cv_wait c u)" by blast
    then show ?thesis using ev(2) [OF e] unfolding c' by (cases "u = t") auto
  qed
  have nt: "\<not> took (cv_wait c' u)" if "is_event_set c'" for u using that ev cv_invD(7) [OF inv, of u] unfolding c' by auto
  have "cv_main c' = M_Set \<Longrightarrow> is_event_set c'"
    using ev(1) cv_invD(1,4) [OF inv] cv_invD(2) [OF inv, of t] lock c'(2) by (auto simp: in_lock_def)
  moreover have "is_event_set c' \<Longrightarrow> cv_main c' \<in> {M_Set, M_Open}" using ev(1) cv_invD(5) [OF inv] c'(2) by simp
  moreover have "u < N" if "cv_wait c' u \<noteq> W_Out" for u using that t cv_invD(3) [OF inv, of u] unfolding c' by (cases "u = t") auto
  ultimately show ?thesis unfolding cv_inv_def using wc sg lk lm wt nt by blast
qed

lemma cv_step_inv: "cv_step counted N c c' \<Longrightarrow> counted \<Longrightarrow> cv_inv N c \<Longrightarrow> cv_inv N c'"
proof (induction rule: cv_step.induct)
  case (signal c)
  note inv = signal.prems(2)
  have "event_lock c = Some Main" using signal.hyps cv_invD(1) [OF inv] by simp
  then have il: "\<not> in_lock (cv_wait c t)" for t using cv_invD(2) [OF inv, of t] by auto
  then have none: "\<not> took (cv_wait c t)" for t by (auto simp: wait_sets)
  have "card {t. waits (cv_wait c t)} \<noteq> 0" using signal cv_invD(8) [OF inv] by simp
  then have "\<exists>t. waits (cv_wait c t)" by (auto simp: card_eq_0_iff)
  moreover have "\<not> is_event_set c" using signal.hyps cv_invD(5) [OF inv] by auto
  ultimately show ?case using inv signal.hyps none il unfolding cv_inv_def by simp
next
  case (open_up c)
  note inv = open_up.prems(2)
  have "event_lock c = Some Main" using open_up.hyps cv_invD(1) [OF inv] by simp
  then have "\<not> in_lock (cv_wait c t)" for t using cv_invD(2) [OF inv, of t] by simp
  then show ?case using inv open_up.hyps unfolding cv_inv_def by simp
next
  case (taken c)
  then show ?case unfolding cv_inv_def by simp
next
  case (relock c)
  note inv = relock.prems(2)
  have "\<not> in_lock (cv_wait c t)" for t using cv_invD(2) [OF inv, of t] relock.hyps by simp
  moreover have "\<not> is_event_set c" using cv_invD(5) [OF inv] relock.hyps by auto
  ultimately show ?case using inv relock.hyps unfolding cv_inv_def by simp
next
  case (enter c t)
  show ?case by (rule waiter_step [OF enter.prems(2), of t _ W_Poll]) (use enter in \<open>auto simp: w_go_def wait_sets\<close>)
next
  case (poll c t)
  show ?case by (rule waiter_step [OF poll.prems(2), of t _ W_Locked])
      (use poll cv_invD(3) [OF poll.prems(2), of t] in \<open>auto simp: w_go_def wait_sets\<close>)
next
  case (miss c t)
  show ?case by (rule waiter_step [OF miss.prems(2), of t _ W_Poll])
      (use miss cv_invD(3) [OF miss.prems(2), of t] in \<open>auto simp: w_go_def wait_sets\<close>)
next
  case (take_it c t)
  show ?case by (rule waiter_step [OF take_it.prems(2), of t _ W_Taken])
      (use take_it cv_invD(3) [OF take_it.prems(2), of t] cv_invD(2) [OF take_it.prems(2), of t] in \<open>auto simp: w_go_def wait_sets\<close>)
next
  case (discount c t)
  have "\<not> is_event_set c" using cv_invD(7) [OF discount.prems(2), of t] discount.hyps by (auto simp: took_def)
  then show ?case by (intro waiter_step [OF discount.prems(2), of t _ W_Counted])
      (use discount cv_invD(3) [OF discount.prems(2), of t] cv_invD(2) [OF discount.prems(2), of t] in \<open>auto simp: w_go_def wait_sets\<close>)
next
  case (leave c t)
  have "\<not> is_event_set c" using cv_invD(7) [OF leave.prems(2), of t] leave.hyps by (auto simp: took_def)
  then show ?case by (intro waiter_step [OF leave.prems(2), of t _ W_Out])
      (use leave cv_invD(3) [OF leave.prems(2), of t] in \<open>auto simp: w_go_def wait_sets\<close>)
qed

lemma cv_reach_inv: "(cv_step True N)\<^sup>*\<^sup>* condvar_create c \<Longrightarrow> cv_inv N c"
proof (induction rule: rtranclp_induct)
  case base
  show ?case by (simp add: cv_inv_def condvar_create_def wait_sets)
qed (use cv_step_inv in blast)

section \<open>A signal comes back\<close>

text \<open>How far the signalling thread is from having the mutex again, and what has to happen next.\<close>

definition way_back :: "condvar \<Rightarrow> nat" where
  "way_back c = (case cv_main c of M_Idle \<Rightarrow> 0 | M_Set \<Rightarrow> 20 | M_Open \<Rightarrow> 10 | M_Relock \<Rightarrow> 8)
     + (if is_event_set c then 5 else 0)
     + (case event_lock c of None \<Rightarrow> if is_event_set c then 4 else 0 | Some Main \<Rightarrow> 0
        | Some (Waiter t) \<Rightarrow> (case cv_wait c t of W_Locked \<Rightarrow> 3 | W_Taken \<Rightarrow> 2 | W_Counted \<Rightarrow> 1 | _ \<Rightarrow> 0))"

lemma cv_progress:
  assumes inv: "cv_inv N c" and m: "cv_main c \<noteq> M_Idle"
  shows "\<exists>c'. cv_step True N c c' \<and> way_back c' < way_back c"
proof -
  consider "cv_main c = M_Set" | t where "event_lock c = Some (Waiter t)" | "event_lock c = None" "cv_main c \<in> {M_Open, M_Relock}"
  proof (cases "event_lock c")
    case (Some h)
    then show ?thesis using that m cv_invD(1) [OF inv] by (cases h) auto
  qed (use that m cv_invD(1) [OF inv] in \<open>cases "cv_main c"; auto\<close>)
  then show ?thesis
  proof cases
    case 1
    then have "event_lock c = Some Main" "is_event_set c" using cv_invD(1,4) [OF inv] by auto
    then show ?thesis using open_up [OF 1, of True N] 1 by (intro exI conjI) (assumption, simp add: way_back_def)
  next
    case (2 t)
    then have l: "in_lock (cv_wait c t)" using cv_invD(2) [OF inv] by simp
    then consider "cv_wait c t = W_Locked" "is_event_set c" | "cv_wait c t = W_Locked" "\<not> is_event_set c" | "cv_wait c t = W_Taken" | "cv_wait c t = W_Counted"
      by (auto simp: in_lock_def)
    then show ?thesis
    proof cases
      case 1
      then show ?thesis using take_it [OF 1, of True N] 2 by (intro exI conjI) (assumption, simp add: way_back_def w_go_def)
    next
      case a: 2
      then show ?thesis using miss [OF a, of True N] 2 by (intro exI conjI) (assumption, simp add: way_back_def w_go_def)
    next
      case 3
      then show ?thesis using discount [OF 3, of True N] 2 by (intro exI conjI) (assumption, simp add: way_back_def w_go_def)
    next
      case 4
      then have "\<not> is_event_set c" using cv_invD(7) [OF inv, of t] by (auto simp: took_def)
      then show ?thesis using leave [OF 4, of True N] 4 2 by (intro exI conjI) (assumption, simp add: way_back_def w_go_def)
    qed
  next
    case 3
    show ?thesis
    proof (cases "is_event_set c")
      case True
      then obtain t where t: "waits (cv_wait c t)" using cv_invD(6) [OF inv] by blast
      moreover have "\<not> in_lock (cv_wait c t)" using cv_invD(2) [OF inv, of t] 3 by simp
      ultimately have "cv_wait c t = W_Poll" by (auto simp: wait_sets)
      then show ?thesis using poll [of c t True N] 3 True by (intro exI conjI) (blast, simp add: way_back_def w_go_def)
    next
      case False
      from 3 consider "cv_main c = M_Open" | "cv_main c = M_Relock" by auto
      then show ?thesis
      proof cases
        case 1
        then show ?thesis using taken [of c True N] 3 False by (intro exI conjI) (blast, simp add: way_back_def)
      next
        case a: 2
        then show ?thesis using relock [of c True N] 3 False by (intro exI conjI) (blast, simp add: way_back_def)
      qed
    qed
  qed
qed

lemma cv_back: "cv_inv N c \<Longrightarrow> \<exists>c'. (cv_step True N)\<^sup>*\<^sup>* c c' \<and> cv_main c' = M_Idle"
proof (induction "way_back c" arbitrary: c rule: less_induct)
  case less
  show ?case
  proof (cases "cv_main c = M_Idle")
    case False
    from cv_progress [OF less.prems False] obtain d where d: "cv_step True N c d" "way_back d < way_back c" by blast
    from less.hyps [OF d(2) cv_step_inv [OF d(1) _ less.prems]] show ?thesis using d(1) by (meson TrueI converse_rtranclp_into_rtranclp)
  qed auto
qed

text \<open>
  C23. Every event of the second program is processed by exactly one waiter: whenever the signalling thread has the mutex and no signal is
  under way, as many events have been processed as signalled. A signal that is under way can always be completed.
\<close>

theorem condvar_exact:
  assumes "(cv_step True N)\<^sup>*\<^sup>* condvar_create c"
  shows "(cv_main c = M_Idle \<longrightarrow> cv_processed c = cv_signals c) \<and> (\<exists>c'. (cv_step True N)\<^sup>*\<^sup>* c c' \<and> cv_main c' = M_Idle)"
proof -
  have inv: "cv_inv N c" by (rule cv_reach_inv [OF assms])
  have "cv_processed c = cv_signals c" if "cv_main c = M_Idle"
  proof -
    have "event_lock c = Some Main" "\<not> is_event_set c" using that cv_invD(1,5) [OF inv] by auto
    then have "\<not> took (cv_wait c t)" for t using cv_invD(2) [OF inv, of t] by (auto simp: wait_sets)
    then show ?thesis using cv_invD(9) [OF inv] \<open>\<not> is_event_set c\<close> by simp
  qed
  then show ?thesis using cv_back [OF inv] by blast
qed

text \<open>One event, from the waiter that comes to poll to the signalling thread that has the mutex again.\<close>

lemma one_event:
  "\<exists>c. (cv_step True 10)\<^sup>*\<^sup>* condvar_create c \<and> cv_main c = M_Idle \<and> cv_signals c = 1"
proof -
  let ?a = "w_go 0 W_Poll (condvar_create\<lparr>wait_count := 1\<rparr>)"
  let ?b = "?a\<lparr>is_event_set := True, cv_main := M_Set, cv_signals := 1\<rparr>"
  let ?d = "?b\<lparr>event_lock := None, cv_main := M_Open\<rparr>"
  let ?e = "w_go 0 W_Locked (?d\<lparr>event_lock := Some (Waiter 0)\<rparr>)"
  let ?f = "w_go 0 W_Taken (?e\<lparr>is_event_set := False\<rparr>)"
  let ?g = "w_go 0 W_Counted (?f\<lparr>wait_count := 0\<rparr>)"
  let ?h = "w_go 0 W_Out (?g\<lparr>event_lock := None, cv_processed := 1\<rparr>)"
  let ?i = "?h\<lparr>cv_main := M_Relock\<rparr>"
  let ?j = "?i\<lparr>event_lock := Some Main, is_event_set := False, cv_main := M_Idle\<rparr>"
  note d = condvar_create_def w_go_def
  have "cv_step True 10 condvar_create ?a" using enter [of condvar_create 0 10 True] by (simp add: condvar_create_def)
  moreover have "cv_step True 10 ?a ?b" using signal [of ?a True 10] by (simp add: d)
  moreover have "cv_step True 10 ?b ?d" using open_up [of ?b True 10] by simp
  moreover have "cv_step True 10 ?d ?e" using poll [of ?d 0 True 10] by (simp add: d)
  moreover have "cv_step True 10 ?e ?f" using take_it [of ?e 0 True 10] by (simp add: d)
  moreover have "cv_step True 10 ?f ?g" using discount [of ?f 0 True 10] by (simp add: d)
  moreover have "cv_step True 10 ?g ?h" using leave [of ?g 0 True 10] by (simp add: d)
  moreover have "cv_step True 10 ?h ?i" using taken [of ?h True 10] by (simp add: d)
  moreover have "cv_step True 10 ?i ?j" using relock [of ?i True 10] by (simp add: d)
  ultimately have "(cv_step True 10)\<^sup>*\<^sup>* condvar_create ?j" by (meson converse_rtranclp_into_rtranclp rtranclp.rtrancl_refl)
  then show ?thesis by (intro exI [of _ ?j]) (simp add: d)
qed

theorem condvar_exact_witness: "\<exists>c. (cv_step True 10)\<^sup>*\<^sup>* condvar_create c \<and> cv_signals c = 1 \<and> cv_processed c = 1"
  using one_event by (elim exE conjE) (frule condvar_exact, auto)

text \<open>
  The first program does not wait for the event to be taken: the signal is gone when no waiter polls between the unlock and the lock.
\<close>

lemma simple_condvar_loses:
  "\<exists>c. (cv_step False 10)\<^sup>*\<^sup>* condvar_create c \<and> cv_main c = M_Idle \<and> cv_wait c 0 = W_Poll \<and> cv_signals c = 1 \<and> cv_processed c = 0 \<and> \<not> is_event_set c"
proof -
  let ?a = "w_go 0 W_Poll (condvar_create\<lparr>wait_count := 1\<rparr>)"
  let ?b = "?a\<lparr>is_event_set := True, cv_main := M_Set, cv_signals := 1\<rparr>"
  let ?d = "?b\<lparr>event_lock := None, cv_main := M_Open\<rparr>"
  let ?e = "?d\<lparr>cv_main := M_Relock\<rparr>"
  let ?f = "?e\<lparr>event_lock := Some Main, is_event_set := False, cv_main := M_Idle\<rparr>"
  have "cv_step False 10 condvar_create ?a" using enter [of condvar_create 0 10 False] by (simp add: condvar_create_def)
  moreover have "cv_step False 10 ?a ?b" using signal [of ?a False 10] by (simp add: condvar_create_def w_go_def)
  moreover have "cv_step False 10 ?b ?d" using open_up [of ?b False 10] by simp
  moreover have "cv_step False 10 ?d ?e" using taken [of ?d False 10] by simp
  moreover have "cv_step False 10 ?e ?f" using relock [of ?e False 10] by simp
  ultimately have "(cv_step False 10)\<^sup>*\<^sup>* condvar_create ?f" by (meson converse_rtranclp_into_rtranclp rtranclp.rtrancl_refl)
  moreover have "cv_main ?f = M_Idle \<and> cv_wait ?f 0 = W_Poll \<and> cv_signals ?f = 1 \<and> cv_processed ?f = 0 \<and> \<not> is_event_set ?f"
    by (simp add: w_go_def condvar_create_def)
  ultimately show ?thesis by blast
qed

end
