(* ===== verification/Echo_Server.thy ===== *)
theory Echo_Server
  imports Int_Bytes
begin

text \<open>
  The echo server over \<^verbatim>\<open>epoll\<close> of the lecture on nonblocking sockets (\<^verbatim>\<open>materials/05-non-blocking-network/code/echo.{h,c}\<close>). Every connection has a
  structure on the heap, which is registered for reading or for writing, taken off the context when the event comes, and put
  back by the handler. The bytes read from and written to each descriptor are kept as ghost logs.
\<close>

section \<open>State\<close>

definition MAXLEN :: nat where "MAXLEN = 255"

datatype epoll_mask = EPOLLIN | EPOLLOUT

record EchoEvent =
  ee_fd :: nat
  ee_event :: epoll_mask
  ee_data :: "octet list"
  ee_length :: nat
  ee_offset :: nat

record echo_server =
  es_heap :: "EchoEvent option list"
  es_epoll :: "nat \<Rightarrow> (epoll_mask \<times> nat) option"
  es_got :: "nat \<Rightarrow> octet list"
  es_sent :: "nat \<Rightarrow> octet list"
  es_stale :: "nat set"

text \<open>The process exits, or does something undefined.\<close>

datatype echo_stop = Exit | Fault fault

definition ee_cell :: "echo_server \<Rightarrow> nat \<Rightarrow> EchoEvent option" where
  "ee_cell s p = (if p < length (es_heap s) then es_heap s ! p else None)"

definition ee_load :: "echo_server \<Rightarrow> nat \<Rightarrow> echo_stop + EchoEvent" where
  "ee_load s p = (case ee_cell s p of None \<Rightarrow> Inl (Fault UseAfterFree) | Some e \<Rightarrow> Inr e)"

definition ee_store :: "nat \<Rightarrow> EchoEvent \<Rightarrow> echo_server \<Rightarrow> echo_server" where
  "ee_store p e s = s\<lparr>es_heap := (es_heap s)[p := Some e]\<rparr>"

text \<open>\<open>close(echoEvent->fd); free(echoEvent);\<close> where closing takes the descriptor off the context.\<close>

definition close_free :: "nat \<Rightarrow> EchoEvent \<Rightarrow> echo_server \<Rightarrow> echo_server" where
  "close_free p e s = s\<lparr>es_epoll := (es_epoll s)(ee_fd e := None), es_heap := (es_heap s)[p := None]\<rparr>"

section \<open>The handlers\<close>

text \<open>\<open>modifyEpollContext\<close> exits when the kernel refuses: adding what is there already, deleting what is not.\<close>

definition epoll_add :: "nat \<Rightarrow> epoll_mask \<Rightarrow> nat \<Rightarrow> echo_server \<Rightarrow> echo_stop + echo_server" where
  "epoll_add fd m p s = (if es_epoll s fd \<noteq> None then Inl Exit else Inr (s\<lparr>es_epoll := (es_epoll s)(fd \<mapsto> (m, p))\<rparr>))"

definition epoll_del :: "nat \<Rightarrow> echo_server \<Rightarrow> echo_stop + echo_server" where
  "epoll_del fd s = (if es_epoll s fd = None then Inl Exit else Inr (s\<lparr>es_epoll := (es_epoll s)(fd := None)\<rparr>))"

text \<open>What \<open>read\<close> and \<open>write\<close> return: an error, the end of the stream, bytes, or the number of bytes that were sent.\<close>

datatype read_result = Read_error | Read_bytes "octet list"
datatype write_result = Write_error | Written nat

definition handle_read :: "nat \<Rightarrow> read_result \<Rightarrow> echo_server \<Rightarrow> echo_stop + echo_server" where
  "handle_read p r s =
     rbind (ee_load s p) (\<lambda>e.
     case r of
       Read_error \<Rightarrow> Inr (close_free p e s)
     | Read_bytes bs \<Rightarrow>
         if bs = [] then Inr (close_free p e s)
         else
           let e' = e\<lparr>ee_data := bs @ drop (length bs) (ee_data e), ee_length := length bs\<rparr>;
               s' = (ee_store p e' s)\<lparr>es_got := (es_got s)(ee_fd e := es_got s (ee_fd e) @ bs),
                      es_stale := (if ee_offset e = 0 then es_stale s else insert (ee_fd e) (es_stale s))\<rparr> in
           epoll_add (ee_fd e) EPOLLOUT p s')"

text \<open>
  A failed \<open>write\<close> returns -1, which is less than the length: the branch for other errors is never taken. The bytes that are sent are
  those after the offset, which must be inside of the buffer.
\<close>

definition handle_write :: "nat \<Rightarrow> write_result \<Rightarrow> echo_server \<Rightarrow> echo_stop + echo_server" where
  "handle_write p r s =
     rbind (ee_load s p) (\<lambda>e.
     if \<not> ee_offset e + ee_length e \<le> MAXLEN then Inl (Fault OutOfBounds)
     else case r of
       Write_error \<Rightarrow> epoll_add (ee_fd e) EPOLLOUT p s
     | Written n \<Rightarrow>
         let s' = s\<lparr>es_sent := (es_sent s)(ee_fd e := es_sent s (ee_fd e) @ take n (drop (ee_offset e) (ee_data e)))\<rparr> in
         if n < ee_length e then
           rbind (epoll_add (ee_fd e) EPOLLOUT p s') (\<lambda>s''.
           Inr (ee_store p (e\<lparr>ee_length := ee_length e - n, ee_offset := ee_offset e + n\<rparr>) s''))
         else epoll_add (ee_fd e) EPOLLIN p s')"

section \<open>The event loop\<close>

text \<open>
  What the context reports: the listening socket with the result of \<open>accept\<close> or with an error, and for a connection a hangup or
  error, or that it is ready, with what the call of the handler will return, or a combination of events that the loop ignores. On
  some failures the process exits: of \<open>epoll_wait\<close>, of \<open>fcntl\<close> for the accepted socket, and of \<open>epoll_ctl\<close> when the kernel has no resources
  left, at whatever event. When there is no memory for a connection, the null pointer is written through.
\<close>

datatype echo_event =
    Wait_fails | Listen_error | Accept_fails | Nonblock_fails | Calloc_fails | Ctl_fails | Accepted nat
  | Hangup nat | Ready_in nat read_result | Ready_out nat write_result | Other nat

fun echo_turn :: "echo_event \<Rightarrow> echo_server \<Rightarrow> echo_stop + echo_server" where
  "echo_turn Wait_fails s = Inl Exit"
| "echo_turn Listen_error s = Inl Exit"
| "echo_turn Accept_fails s = Inl Exit"
| "echo_turn Nonblock_fails s = Inl Exit"
| "echo_turn Calloc_fails s = Inl (Fault NullDeref)"
| "echo_turn Ctl_fails s = Inl Exit"
| "echo_turn (Accepted fd) s =
     (let p = length (es_heap s);
          e = \<lparr>ee_fd = fd, ee_event = EPOLLIN, ee_data = replicate MAXLEN 0, ee_length = 0, ee_offset = 0\<rparr>;
          s' = s\<lparr>es_heap := es_heap s @ [Some e], es_got := (es_got s)(fd := []), es_sent := (es_sent s)(fd := []), es_stale := es_stale s - {fd}\<rparr> in
      epoll_add fd EPOLLIN p s')"
| "echo_turn (Hangup p) s = rbind (ee_load s p) (\<lambda>e. Inr (close_free p e s))"
| "echo_turn (Ready_in p r) s =
     rbind (ee_load s p) (\<lambda>e. rbind (epoll_del (ee_fd e) (ee_store p (e\<lparr>ee_event := EPOLLIN\<rparr>) s)) (handle_read p r))"
| "echo_turn (Ready_out p r) s =
     rbind (ee_load s p) (\<lambda>e. rbind (epoll_del (ee_fd e) (ee_store p (e\<lparr>ee_event := EPOLLOUT\<rparr>) s)) (handle_write p r))"
| "echo_turn (Other p) s = Inr s"

fun echo_run :: "echo_event list \<Rightarrow> echo_server \<Rightarrow> echo_stop + echo_server" where
  "echo_run [] s = Inr s"
| "echo_run (e # es) s = rbind (echo_turn e s) (echo_run es)"

definition echo_init :: echo_server where
  "echo_init = \<lparr>es_heap = [], es_epoll = (\<lambda>fd. None), es_got = (\<lambda>fd. []), es_sent = (\<lambda>fd. []), es_stale = {}\<rparr>"

text \<open>
  What the kernel can report: only what is registered, a descriptor that is new, at most as many bytes as asked for.
\<close>

definition registered :: "echo_server \<Rightarrow> nat \<Rightarrow> epoll_mask option" where
  "registered s p = (case ee_cell s p of None \<Rightarrow> None | Some e \<Rightarrow> (case es_epoll s (ee_fd e) of Some (m, q) \<Rightarrow> if q = p then Some m else None | None \<Rightarrow> None))"




section \<open>The invariant\<close>












lemma cell_epoll [simp]: "ee_cell (s\<lparr>es_epoll := f\<rparr>) p = ee_cell s p"
  by (simp add: ee_cell_def)

lemma store_fields [simp]: "es_epoll (ee_store p e s) = es_epoll s" "es_got (ee_store p e s) = es_got s" "es_sent (ee_store p e s) = es_sent s"
  "es_stale (ee_store p e s) = es_stale s" "es_heap (ee_store p e s) = (es_heap s)[p := Some e]"
  by (simp_all add: ee_store_def)

text \<open>The state in which a handler runs: the event is noted and the connection off the context.\<close>

definition at_handler :: "nat \<Rightarrow> EchoEvent \<Rightarrow> epoll_mask \<Rightarrow> echo_server \<Rightarrow> echo_server" where
  "at_handler p e m s = (ee_store p (e\<lparr>ee_event := m\<rparr>) s)\<lparr>es_epoll := (es_epoll s)(ee_fd e := None)\<rparr>"



lemma at_handler_fields [simp]: "es_got (at_handler p e m s) = es_got s" "es_sent (at_handler p e m s) = es_sent s" "es_stale (at_handler p e m s) = es_stale s"
  "es_heap (at_handler p e m s) = (es_heap s)[p := Some (e\<lparr>ee_event := m\<rparr>)]" "es_epoll (at_handler p e m s) = (es_epoll s)(ee_fd e := None)"
  by (simp_all add: at_handler_def)







section \<open>What the server does\<close>



lemmas echo_eval = echo_init_def ee_cell_def ee_load_def ee_store_def close_free_def epoll_add_def epoll_del_def handle_read_def handle_write_def
  registered_def MAXLEN_def Let_def



text \<open>
  The offset is never put back. After a write that was not complete, the next message is sent from the middle, and one that is long enough
  from behind the end of the buffer.
\<close>

lemma echo_stale_offset:
  "\<exists>s. echo_run [Accepted 5, Ready_in 0 (Read_bytes [1, 2, 3]), Ready_out 0 (Written 2), Ready_out 0 (Written 1),
       Ready_in 0 (Read_bytes [4, 5, 6]), Ready_out 0 (Written 3)] echo_init = Inr s \<and>
     es_got s 5 = [1, 2, 3, 4, 5, 6] \<and> es_sent s 5 = [1, 2, 3, 6, 0, 0]"
  by (simp add: echo_eval) (simp add: numeral_2_eq_2)

lemma echo_reads_outside:
  "echo_run [Accepted 5, Ready_in 0 (Read_bytes (replicate 200 1)), Ready_out 0 (Written 100), Ready_out 0 (Written 100),
       Ready_in 0 (Read_bytes (replicate 200 2)), Ready_out 0 (Written 200)] echo_init = Inl (Fault OutOfBounds)"
  by (simp add: echo_eval)

end
