(* ===== verification/Epoll_Reader.thy ===== *)
theory Epoll_Reader
  imports Int_Bytes
begin

text \<open>
  The example of an edge-triggered event loop (\<^verbatim>\<open>materials/05-non-blocking-network/code/epoll-example.c\<close>): it prints what its clients send. A descriptor
  is reported once for the data that arrived, so that the loop has to read until the kernel has nothing left.
\<close>

section \<open>Binding\<close>

text \<open>
  The loop over the addresses: for each the result of \<open>socket\<close> and whether \<open>bind\<close> succeeds. The result is the bound descriptor, with the
  descriptors that stay open and whether the list of addresses was released.
\<close>

fun bind_loop :: "(nat option \<times> bool) list \<Rightarrow> nat option" where
  "bind_loop [] = None"
| "bind_loop ((sock, bound) # as) = (case sock of None \<Rightarrow> bind_loop as | Some sfd \<Rightarrow> if bound then Some sfd else bind_loop as)"

fun bind_open :: "(nat option \<times> bool) list \<Rightarrow> nat list" where
  "bind_open [] = []"
| "bind_open ((sock, bound) # as) = (case sock of None \<Rightarrow> bind_open as | Some sfd \<Rightarrow> if bound then [sfd] else bind_open as)"

definition create_and_bind :: "(nat option \<times> bool) list option \<Rightarrow> nat option \<times> nat list \<times> bool" where
  "create_and_bind addrs =
     (case addrs of None \<Rightarrow> (None, [], True)
      | Some as \<Rightarrow> (case bind_loop as of None \<Rightarrow> (None, bind_open as, False) | Some sfd \<Rightarrow> (Some sfd, bind_open as, True)))"

section \<open>The event loop\<close>

text \<open>
  A connection in the kernel: the bytes that have arrived, how the stream stands behind them (open, at its end, broken), and how many
  bytes each \<open>read\<close> will return at most, which is never more than the buffer holds.
\<close>

datatype stream_end = Still_open | At_end | Broken

record reader_conn =
  rc_bytes :: "octet list"
  rc_end :: stream_end
  rc_sizes :: "nat list"

definition BUFSIZE :: nat where "BUFSIZE = 512"

definition read_size :: "nat list \<Rightarrow> nat" where
  "read_size ks = (case ks of [] \<Rightarrow> BUFSIZE | k # ks' \<Rightarrow> max 1 (min k BUFSIZE))"

lemma read_size_pos: "0 < read_size ks"
  by (cases ks) (simp_all add: read_size_def BUFSIZE_def max_def)

text \<open>The reading loop of an event: what it prints, and the flag \<open>done\<close>.\<close>

function drain :: "octet list \<Rightarrow> stream_end \<Rightarrow> nat list \<Rightarrow> octet list \<times> bool" where
  "drain bs e ks =
     (if bs = [] then (case e of Still_open \<Rightarrow> ([], False) | At_end \<Rightarrow> ([], True) | Broken \<Rightarrow> ([], True))
      else let (out, done) = drain (drop (read_size ks) bs) e (tl ks) in (take (read_size ks) bs @ out, done))"
  by pat_completeness auto
termination by (relation "measure (\<lambda>(bs, e, ks). length bs)") (use read_size_pos in auto)

declare drain.simps [simp del]

record epoll_reader =
  er_listen :: nat
  er_watched :: "nat set"
  er_open :: "nat set"
  er_out :: "octet list"

text \<open>What \<open>epoll_wait\<close> reports of a descriptor: the flags, and what is behind the socket; for the listening socket the descriptors that \<open>accept\<close> returns before it has no more.\<close>

record epoll_report =
  re_fd :: nat
  re_bad :: bool
  re_in :: bool
  re_accepts :: "nat list"
  re_conn :: reader_conn

definition close_fd :: "nat \<Rightarrow> epoll_reader \<Rightarrow> epoll_reader" where
  "close_fd fd s = s\<lparr>er_open := er_open s - {fd}, er_watched := er_watched s - {fd}\<rparr>"

definition accept_all :: "nat list \<Rightarrow> epoll_reader \<Rightarrow> epoll_reader" where
  "accept_all fds s = s\<lparr>er_open := er_open s \<union> set fds, er_watched := er_watched s \<union> set fds\<rparr>"

definition reader_event :: "epoll_report \<Rightarrow> epoll_reader \<Rightarrow> epoll_reader" where
  "reader_event r s =
     (if re_bad r \<or> \<not> re_in r then close_fd (re_fd r) s
      else if er_listen s = re_fd r then accept_all (re_accepts r) s
      else let (out, done) = drain (rc_bytes (re_conn r)) (rc_end (re_conn r)) (rc_sizes (re_conn r));
               s' = s\<lparr>er_out := er_out s @ out\<rparr> in
           if done then close_fd (re_fd r) s' else s')"

fun reader_run :: "epoll_report list \<Rightarrow> epoll_reader \<Rightarrow> epoll_reader" where
  "reader_run [] s = s"
| "reader_run (r # rs) s = reader_run rs (reader_event r s)"

definition reader_start :: "nat \<Rightarrow> epoll_reader" where
  "reader_start sfd = \<lparr>er_listen = sfd, er_watched = {sfd}, er_open = {sfd}, er_out = []\<rparr>"

section \<open>Properties\<close>

lemma bind_open_single: "bind_open as = (case bind_loop as of None \<Rightarrow> [] | Some sfd \<Rightarrow> [sfd])"
  by (induction as rule: bind_loop.induct) (auto split: option.splits)

lemma drain_all: "drain bs e ks = (bs, e \<noteq> Still_open)"
proof (induction bs e ks rule: drain.induct)
  case (1 bs e ks)
  show ?case
  proof (cases "bs = []")
    case True
    then show ?thesis by (subst drain.simps) (cases e; simp)
  next
    case False
    then show ?thesis using 1 by (subst drain.simps) simp
  qed
qed

text \<open>What the loop prints of a report.\<close>

definition printed :: "nat \<Rightarrow> epoll_report \<Rightarrow> octet list" where
  "printed sfd r = (if re_bad r \<or> \<not> re_in r \<or> re_fd r = sfd then [] else rc_bytes (re_conn r))"

lemma reader_event_out: "er_out (reader_event r s) = er_out s @ printed (er_listen s) r \<and> er_listen (reader_event r s) = er_listen s"
  by (auto simp: reader_event_def drain_all close_fd_def accept_all_def printed_def Let_def)

lemma reader_run_out: "er_out (reader_run rs s) = er_out s @ concat (map (printed (er_listen s)) rs) \<and> er_listen (reader_run rs s) = er_listen s"
  by (induction rs arbitrary: s) (auto simp: reader_event_out)

lemma reader_watch: "er_watched s = er_open s \<Longrightarrow> er_watched (reader_run rs s) = er_open (reader_run rs s)"
proof (induction rs arbitrary: s)
  case (Cons r rs)
  have "er_watched (reader_event r s) = er_open (reader_event r s)"
    using Cons.prems by (auto simp: reader_event_def close_fd_def accept_all_def Let_def split: prod.split)
  then show ?case using Cons.IH by simp
qed simp

text \<open>
  The loop prints everything that had arrived when a descriptor was reported, whatever sizes the reads return, in the order of the
  reports; every open descriptor stays watched, so that data that comes later is reported again. \<open>create_and_bind\<close> leaves just
  the bound descriptor open.
\<close>

theorem reader_prints_all:
  "er_out (reader_run rs (reader_start sfd)) = concat (map (printed sfd) rs) \<and>
   er_watched (reader_run rs (reader_start sfd)) = er_open (reader_run rs (reader_start sfd)) \<and>
   (case create_and_bind addrs of (sock, opened, freed) \<Rightarrow> opened = (case sock of None \<Rightarrow> [] | Some fd \<Rightarrow> [fd]))"
proof -
  have "er_out (reader_run rs (reader_start sfd)) = concat (map (printed sfd) rs)" using reader_run_out [of rs "reader_start sfd"] by (simp add: reader_start_def)
  moreover have "er_watched (reader_run rs (reader_start sfd)) = er_open (reader_run rs (reader_start sfd))" by (rule reader_watch) (simp add: reader_start_def)
  moreover have "case create_and_bind addrs of (sock, opened, freed) \<Rightarrow> opened = (case sock of None \<Rightarrow> [] | Some fd \<Rightarrow> [fd])"
    by (auto simp: create_and_bind_def bind_open_single split: option.split)
  ultimately show ?thesis by blast
qed

text \<open>When nothing could be bound the list of addresses is not released, and an error on the listening socket closes it for good.\<close>

lemma bind_fails_leaks: "bind_loop as = None \<Longrightarrow> snd (snd (create_and_bind (Some as))) = False"
  by (simp add: create_and_bind_def)

lemma listen_error_closes: "re_bad r \<Longrightarrow> re_fd r = sfd \<Longrightarrow> er_open (reader_event r (reader_start sfd)) = {}"
  by (simp add: reader_event_def close_fd_def reader_start_def)

end
