(* ===== verification/Sem_Events.thy ===== *)
theory Sem_Events
  imports Int_Bytes
begin

text \<open>
  Three sources of events and their consumers (\<^verbatim>\<open>7_ipc/9_sem_event_source.c\<close>, \<^verbatim>\<open>9_sem_event_cons.c\<close>): a source puts a message with its number as
  type into a queue and increments its semaphore; a consumer takes one event of every source at once, with a fourth
  semaphore as a lock, and reads the three messages.
\<close>

unbundle bit_operations_syntax

section \<open>Messages\<close>

type_synonym long = "64 word"

definition long_bytes :: "long \<Rightarrow> octet list" where
  "long_bytes v = le_bytes (ucast v) @ le_bytes (ucast (drop_bit 32 v))"

definition le_long :: "octet list \<Rightarrow> long" where
  "le_long bs = push_bit 32 (ucast (le_word (take 4 (drop 4 bs)))) OR ucast (le_word (take 4 bs))"

definition MSG_SIZE :: nat where "MSG_SIZE = 512"

text \<open>\<open>pack_msg\<close> writes to the buffer of \<open>send_msg\<close>; the result are the bytes it has written.\<close>

definition pack_msg :: "long \<Rightarrow> octet list \<Rightarrow> fault + octet list" where
  "pack_msg type data =
     (let msg = long_bytes type @ le_bytes (of_nat (length data)) @ data in
      if MSG_SIZE < length msg then Inl OutOfBounds else Inr msg)"

text \<open>
  \<open>msgsnd\<close> takes the type from the beginning of the buffer and \<open>size\<close> bytes that follow it. The size counts the type too, so that eight
  bytes behind the message go along; \<open>junk\<close> is what the buffer holds there.
\<close>

definition send_msg :: "octet list \<Rightarrow> long \<Rightarrow> octet list \<Rightarrow> fault + long \<times> octet list" where
  "send_msg junk myid data =
     rbind (pack_msg myid data) (\<lambda>msg.
       let size = length msg; buf = msg @ take (MSG_SIZE - size) junk in
       if length buf < 8 + size then Inl OutOfBounds else Inr (le_long buf, take size (drop 8 buf)))"

text \<open>\<open>msgrcv\<close> writes the type and the text to the buffer of \<open>recv_msg\<close>, which has to hold both.\<close>

definition recv_msg :: "long \<times> octet list \<Rightarrow> fault + octet list" where
  "recv_msg m = (let msg = long_bytes (fst m) @ snd m in if MSG_SIZE < length msg then Inl OutOfBounds else Inr msg)"

definition unpack_msg :: "octet list \<Rightarrow> fault + long \<times> octet list" where
  "unpack_msg msg =
     (let data_size = unat (le_word (take 4 (drop 8 msg))) in
      if length msg < 12 + data_size then Inl OutOfBounds else Inr (le_long msg, take data_size (drop 12 msg)))"

lemma bit_ucast_small: "bit (ucast (w :: u32) :: long) i \<longleftrightarrow> bit w i"
proof -
  have "bit w i \<Longrightarrow> i < 32" using bit_imp_le_length [of w i] by simp
  then show ?thesis by (auto simp: bit_unsigned_iff)
qed

lemma le_long_bytes: "le_long (long_bytes v @ xs) = v"
proof -
  have "le_long (long_bytes v @ xs) = push_bit 32 (ucast (ucast (drop_bit 32 v) :: u32)) OR ucast (ucast v :: u32)"
    by (simp add: le_long_def long_bytes_def le_word_bytes)
  also have "\<dots> = v"
  proof (rule bit_word_eqI)
    fix i :: nat
    assume i: "i < LENGTH(64)"
    show "bit (push_bit 32 (ucast (ucast (drop_bit 32 v) :: u32)) OR ucast (ucast v :: u32) :: long) i = bit v i"
      using i by (cases "i < 32") (auto simp: bit_or_iff bit_push_bit_iff bit_ucast_small bit_unsigned_iff bit_drop_bit_eq)
  qed
  finally show ?thesis .
qed

lemma length_long_bytes [simp]: "length (long_bytes v) = 8"
  by (simp add: long_bytes_def)

text \<open>A message of at most 492 bytes arrives as it was sent, whatever lies behind it on the stack of the sender.\<close>

theorem event_message_roundtrip:
  assumes "length data \<le> 492" "length junk = 512"
  shows "rbind (send_msg junk myid data) (\<lambda>m. rbind (recv_msg m) unpack_msg) = Inr (myid, data)"
proof -
  let ?msg = "long_bytes myid @ le_bytes (of_nat (length data)) @ data"
  have len: "length ?msg = 12 + length data" by simp
  have pack: "pack_msg myid data = Inr ?msg" using assms(1) by (simp add: pack_msg_def MSG_SIZE_def Let_def)
  define tail where "tail = take 8 (take (MSG_SIZE - length ?msg) junk)"
  let ?text = "le_bytes (of_nat (length data)) @ data @ tail"
  have lt: "length tail = 8" using assms by (simp add: tail_def MSG_SIZE_def)
  have "take (length ?msg) (drop 8 (?msg @ take (MSG_SIZE - length ?msg) junk)) = ?text"
    using assms by (simp add: tail_def MSG_SIZE_def min_def)
  then have send: "send_msg junk myid data = Inr (myid, ?text)"
    using assms le_long_bytes [of myid] by (simp add: send_msg_def pack Let_def MSG_SIZE_def)
  have recv: "recv_msg (myid, ?text) = Inr (long_bytes myid @ ?text)" using assms(1) lt by (simp add: recv_msg_def Let_def MSG_SIZE_def)
  have n: "unat (of_nat (length data) :: u32) = length data" using assms(1) by (simp add: unat_of_nat)
  have "unpack_msg (long_bytes myid @ ?text) = Inr (myid, data)"
    using lt by (simp add: unpack_msg_def Let_def le_word_bytes n le_long_bytes)
  then show ?thesis by (simp add: send recv)
qed

theorem event_message_roundtrip_witness:
  "rbind (send_msg (replicate 512 7) 2 [104, 105, 10]) (\<lambda>m. rbind (recv_msg m) unpack_msg) = Inr (2, [104, 105, 10])"
  by (rule event_message_roundtrip) simp_all

text \<open>A line that is a little longer is read by the kernel from outside of the buffer.\<close>

lemma event_message_overrun: "length data = 500 \<Longrightarrow> send_msg junk myid data = Inl OutOfBounds"
  by (simp add: send_msg_def pack_msg_def MSG_SIZE_def Let_def)

section \<open>Sources and consumers\<close>

text \<open>
  A source sends and then increments; \<open>ss_adj\<close> is what the kernel takes back when the source exits, because of \<open>SEM_UNDO\<close>. A consumer reads the
  messages of the types 1 to 3, \<open>C_Read k\<close> being about to read type \<open>k\<close>. When the first source exits it removes the queue and then the
  semaphores; \<open>ss_no_queue\<close> and \<open>ss_no_sems\<close> tell that they are gone. The system calls on them then fail at once, which no program looks
  at; \<open>ss_junk\<close> are the consumers that have printed a buffer into which no message was received.
\<close>

datatype source_phase = S_Idle | S_Sent | S_Removing | S_Gone

datatype cons_phase = C_Wait | C_Read nat

record sem_sys =
  ss_sem :: "nat \<Rightarrow> nat"
  ss_queue :: "(nat \<times> octet list) list"
  ss_source :: "nat \<Rightarrow> source_phase"
  ss_adj :: "nat \<Rightarrow> nat"
  ss_cons :: "nat \<Rightarrow> cons_phase"
  ss_no_queue :: bool
  ss_no_sems :: bool
  ss_junk :: "nat set"

definition sem_create :: sem_sys where
  "sem_create = \<lparr>ss_sem = (\<lambda>j. if j = 3 then 1 else 0), ss_queue = [], ss_source = (\<lambda>i. S_Idle), ss_adj = (\<lambda>i. 0), ss_cons = (\<lambda>c. C_Wait),
     ss_no_queue = False, ss_no_sems = False, ss_junk = {}\<rparr>"

text \<open>What the calls of the programs do; each is followed by the next phase whether the call has succeeded or not.\<close>

definition put_msg :: "nat \<Rightarrow> octet list \<Rightarrow> sem_sys \<Rightarrow> sem_sys" where
  "put_msg i m s = (if ss_no_queue s then s else s\<lparr>ss_queue := ss_queue s @ [(i, m)]\<rparr>)\<lparr>ss_source := (ss_source s)(i := S_Sent)\<rparr>"

definition sem_inc :: "nat \<Rightarrow> sem_sys \<Rightarrow> sem_sys" where
  "sem_inc i s =
     (if ss_no_sems s then s
      else s\<lparr>ss_sem := (ss_sem s)(i - 1 := ss_sem s (i - 1) + 1), ss_adj := (ss_adj s)(i := ss_adj s i + 1)\<rparr>)\<lparr>ss_source := (ss_source s)(i := S_Idle)\<rparr>"

text \<open>The exit of a source, with what the kernel takes back of it.\<close>

definition source_gone :: "nat \<Rightarrow> sem_sys \<Rightarrow> sem_sys" where
  "source_gone i s =
     (if ss_no_sems s then s else s\<lparr>ss_sem := (ss_sem s)(i - 1 := ss_sem s (i - 1) - ss_adj s i)\<rparr>)\<lparr>ss_source := (ss_source s)(i := S_Gone)\<rparr>"

definition remove_queue :: "sem_sys \<Rightarrow> sem_sys" where
  "remove_queue s = s\<lparr>ss_queue := [], ss_no_queue := True, ss_source := (ss_source s)(1 := S_Removing)\<rparr>"

definition remove_sems :: "sem_sys \<Rightarrow> sem_sys" where
  "remove_sems s = s\<lparr>ss_no_sems := True, ss_source := (ss_source s)(1 := S_Gone)\<rparr>"

definition lock_events :: "nat \<Rightarrow> sem_sys \<Rightarrow> sem_sys" where
  "lock_events c s =
     (if ss_no_sems s then s
      else s\<lparr>ss_sem := (\<lambda>j. if j < 4 then ss_sem s j - 1 else ss_sem s j)\<rparr>)\<lparr>ss_cons := (ss_cons s)(c := C_Read 1)\<rparr>"

definition unlock_events :: "nat \<Rightarrow> sem_sys \<Rightarrow> sem_sys" where
  "unlock_events c s = (if ss_no_sems s then s else s\<lparr>ss_sem := (ss_sem s)(3 := ss_sem s 3 + 1)\<rparr>)\<lparr>ss_cons := (ss_cons s)(c := C_Wait)\<rparr>"

text \<open>The first message of a type leaves the queue.\<close>

fun take_type :: "nat \<Rightarrow> (nat \<times> octet list) list \<Rightarrow> (nat \<times> octet list) list" where
  "take_type k [] = []"
| "take_type k (m # ms) = (if fst m = k then ms else m # take_type k ms)"

definition read_type :: "nat \<Rightarrow> nat \<Rightarrow> sem_sys \<Rightarrow> sem_sys" where
  "read_type c k s =
     (if ss_no_queue s then s\<lparr>ss_junk := insert c (ss_junk s)\<rparr>
      else s\<lparr>ss_queue := take_type k (ss_queue s)\<rparr>)\<lparr>ss_cons := (ss_cons s)(c := C_Read (k + 1))\<rparr>"

inductive sem_step :: "sem_sys \<Rightarrow> sem_sys \<Rightarrow> bool" where
  send: "ss_source s i = S_Idle \<Longrightarrow> i \<in> {1, 2, 3} \<Longrightarrow> sem_step s (put_msg i m s)"
| inc: "ss_source s i = S_Sent \<Longrightarrow> i \<in> {1, 2, 3} \<Longrightarrow> sem_step s (sem_inc i s)"
| leaves: "ss_source s i = S_Idle \<Longrightarrow> i \<in> {2, 3} \<Longrightarrow> sem_step s (source_gone i s)"
| rm_queue: "ss_source s 1 = S_Idle \<Longrightarrow> sem_step s (remove_queue s)"
| rm_sems: "ss_source s 1 = S_Removing \<Longrightarrow> sem_step s (remove_sems s)"
| lock: "ss_cons s c = C_Wait \<Longrightarrow> ss_no_sems s \<or> (\<forall>j < 4. 0 < ss_sem s j) \<Longrightarrow> sem_step s (lock_events c s)"
| recv: "ss_cons s c = C_Read k \<Longrightarrow> k \<le> 3 \<Longrightarrow> ss_no_queue s \<or> k \<in> fst ` set (ss_queue s) \<Longrightarrow> sem_step s (read_type c k s)"
| unlock: "ss_cons s c = C_Read 4 \<Longrightarrow> sem_step s (unlock_events c s)"

lemmas sem_ops = put_msg_def sem_inc_def source_gone_def remove_queue_def remove_sems_def lock_events_def unlock_events_def read_type_def

definition of_type :: "nat \<Rightarrow> (nat \<times> octet list) list \<Rightarrow> nat" where
  "of_type k ms = length (filter (\<lambda>m. fst m = k) ms)"

lemma of_type_append [simp]: "of_type k (ms @ ms') = of_type k ms + of_type k ms'"
  by (simp add: of_type_def)

lemma of_type_Cons [simp]: "of_type k (m # ms) = of_bool (fst m = k) + of_type k ms" "of_type k [] = 0"
  by (simp_all add: of_type_def)



section \<open>Invariants\<close>






















section \<open>Properties\<close>


text \<open>One event of every source, and a consumer that takes them.\<close>

lemma sem_demo: "\<exists>s. sem_step\<^sup>*\<^sup>* sem_create s \<and> ss_cons s = (\<lambda>c. C_Wait)(0 := C_Read 1) \<and> \<not> ss_no_queue s \<and> ss_junk s = {} \<and> ss_source s 1 = S_Idle"
proof -
  define sent where "sent i s = sem_inc i (put_msg i [] s)" for i s
  have two: "sem_step\<^sup>*\<^sup>* s (sent i s)" if "ss_source s i = S_Idle" "i \<in> {1, 2, 3}" for s i
    using send [OF that, of "[]"] inc [of "put_msg i [] s" i] that(2)
    unfolding sent_def by (simp add: put_msg_def converse_rtranclp_into_rtranclp)
  let ?s = "sent 3 (sent 2 (sent 1 sem_create))"
  have src: "ss_source (sent i s) = (ss_source s)(i := S_Idle)" for i s by (auto simp: sent_def sem_inc_def put_msg_def)
  have idle: "ss_source sem_create i = S_Idle" for i by (simp add: sem_create_def)
  have "sem_step\<^sup>*\<^sup>* sem_create (sent 1 sem_create)" by (rule two) (simp_all add: idle)
  also have "sem_step\<^sup>*\<^sup>* (sent 1 sem_create) (sent 2 (sent 1 sem_create))" by (rule two) (simp_all add: src idle)
  also have "sem_step\<^sup>*\<^sup>* (sent 2 (sent 1 sem_create)) ?s" by (rule two) (simp_all add: src idle)
  finally have r: "sem_step\<^sup>*\<^sup>* sem_create ?s" .
  have sem: "\<forall>j < 4. 0 < ss_sem ?s j" by (auto simp: sent_def sem_inc_def put_msg_def sem_create_def)
  have w: "ss_cons ?s = (\<lambda>c. C_Wait)" "\<not> ss_no_queue ?s" "\<not> ss_no_sems ?s" "ss_junk ?s = {}" "ss_source ?s 1 = S_Idle"
    by (simp_all add: sent_def sem_inc_def put_msg_def sem_create_def)
  have "sem_step ?s (lock_events 0 ?s)" using sem w(1) by (intro lock) auto
  with r have "sem_step\<^sup>*\<^sup>* sem_create (lock_events 0 ?s)" by (rule rtranclp.rtrancl_into_rtrancl)
  then show ?thesis using w by (intro exI [of _ "lock_events 0 ?s"]) (simp add: lock_events_def)
qed


text \<open>
  Because of \<open>SEM_UNDO\<close> the kernel takes back the increments of a source that exits: its messages stay in the queue and nobody is told of them.
\<close>

lemma undo_loses_events:
  "\<exists>s. sem_step\<^sup>*\<^sup>* sem_create s \<and> ss_source s 2 = S_Gone \<and> ss_queue s = [(2, m)] \<and> ss_sem s 1 = 0"
proof -
  let ?a = "put_msg 2 m sem_create"
  have "sem_step sem_create ?a" by (rule send) (simp_all add: sem_create_def)
  moreover have "sem_step ?a (sem_inc 2 ?a)" by (rule inc) (simp_all add: put_msg_def)
  moreover have "sem_step (sem_inc 2 ?a) (source_gone 2 (sem_inc 2 ?a))" by (rule leaves) (simp_all add: sem_inc_def)
  ultimately have "sem_step\<^sup>*\<^sup>* sem_create (source_gone 2 (sem_inc 2 ?a))" by (meson converse_rtranclp_into_rtranclp rtranclp.rtrancl_refl)
  moreover have "ss_source (source_gone 2 (sem_inc 2 ?a)) 2 = S_Gone \<and> ss_queue (source_gone 2 (sem_inc 2 ?a)) = [(2, m)] \<and>
      ss_sem (source_gone 2 (sem_inc 2 ?a)) 1 = 0" by (simp add: source_gone_def sem_inc_def put_msg_def sem_create_def)
  ultimately show ?thesis by blast
qed

text \<open>
  When the first source exits, a consumer prints a message that it has not received, and another one reads at the same time.
\<close>

lemma removal_ruins:
  "\<exists>s. sem_step\<^sup>*\<^sup>* sem_create s \<and> ss_source s 1 = S_Gone \<and> ss_junk s = {0} \<and> ss_cons s 0 = C_Read 2 \<and> ss_cons s 1 = C_Read 1"
proof -
  obtain s where s: "sem_step\<^sup>*\<^sup>* sem_create s" "ss_cons s = (\<lambda>c. C_Wait)(0 := C_Read 1)" "ss_junk s = {}" "ss_source s 1 = S_Idle"
    using sem_demo by blast
  let ?b = "remove_sems (remove_queue s)" let ?d = "lock_events 1 (read_type 0 1 ?b)"
  have "sem_step s (remove_queue s)" by (rule rm_queue) (rule s(4))
  moreover have "sem_step (remove_queue s) ?b" by (rule rm_sems) (simp add: remove_queue_def)
  moreover have "sem_step ?b (read_type 0 1 ?b)" by (rule recv) (simp_all add: remove_queue_def remove_sems_def s(2))
  moreover have "sem_step (read_type 0 1 ?b) ?d" by (rule lock) (simp_all add: remove_queue_def remove_sems_def read_type_def s(2))
  ultimately have "sem_step\<^sup>*\<^sup>* sem_create ?d" using s(1) by (meson rtranclp.rtrancl_into_rtrancl)
  moreover have "ss_source ?d 1 = S_Gone \<and> ss_junk ?d = {0} \<and> ss_cons ?d 0 = C_Read 2 \<and> ss_cons ?d 1 = C_Read 1"
    by (simp add: sem_ops s(2,3) numeral_2_eq_2)
  ultimately show ?thesis by blast
qed

end
