(* ===== verification/Flat_Combiner.thy ===== *)
theory Flat_Combiner
  imports Prelude
begin

text \<open>
  The flat combiner (\<^verbatim>\<open>src/fc/flatCombine.cpp\<close>), as far as its members are finished: the tagged pointers, the word that holds the lock
  and the generation, the list of slots under the lock (\<open>combining\<close>, \<open>dequeue_slot\<close>), the slot of a thread (\<open>get_slot\<close>,
  \<open>detach\<close>, \<open>orphan_slot\<close>) and the order of the steps of \<open>apply_slot\<close>. The template is a draft: \<open>make_publication\<close> breaks off inside a loop
  and is a parameter where it is called, and a few names are misspelled (\<open>getTag\<close> for \<open>get_Tag\<close>, \<open>new_gen_state\<close> for
  \<open>new_gen_unlocked_state\<close>) and are read as the member they mean.
\<close>

unbundle bit_operations_syntax

type_synonym u64 = "64 word"

section \<open>Tagged pointers\<close>

datatype tag_error = WrongTag

definition TAG_MASK :: u64 where
  "TAG_MASK = 1"

definition PTR_MASK :: u64 where
  "PTR_MASK = NOT 1"

definition TagedPointer :: "u64 \<Rightarrow> u64 \<Rightarrow> tag_error + u64" where
  "TagedPointer ptr tag =
     (if tag > 1 then Inl WrongTag
      else if ptr = 0 then Inr 1
      else if tag > 0 then Inr (ptr OR TAG_MASK)
      else Inr ptr)"

definition get_ptr :: "u64 \<Rightarrow> u64" where
  "get_ptr tp = (if tp = 1 \<or> tp = 0 then 0 else tp AND PTR_MASK)"

definition get_Tag :: "u64 \<Rightarrow> u64" where
  "get_Tag tp = tp AND TAG_MASK"

definition set_Tag :: "u64 \<Rightarrow> u64 \<Rightarrow> tag_error + u64" where
  "set_Tag tag tp = (if tag > 1 then Inl WrongTag else Inr ((tp AND PTR_MASK) OR tag))"

definition set_ptr :: "u64 \<Rightarrow> u64 \<Rightarrow> u64" where
  "set_ptr p tp = (if p = 0 then (if get_Tag tp = 1 then 1 else 0) else p OR get_Tag tp)"

text \<open>A pointer to a slot is even, so that its lowest bit is free for the tag.\<close>

definition aligned :: "u64 \<Rightarrow> bool" where
  "aligned p \<longleftrightarrow> \<not> bit p 0"

lemma tag_cases: "(t :: u64) \<le> 1 \<Longrightarrow> t = 0 \<or> t = 1"
proof -
  assume "t \<le> 1"
  then have "unat t \<le> 1" by (simp add: word_le_nat_alt)
  then have "unat t = unat (0 :: u64) \<or> unat t = unat (1 :: u64)" by auto
  then show ?thesis by (simp only: word_unat_eq_iff)
qed

lemma bit_one_u64 [simp]: "bit (1 :: u64) i \<longleftrightarrow> i = 0"
  by (simp add: bit_1_iff)

lemma get_Tag_bit: "get_Tag tp = of_bool (bit tp 0)"
  by (rule bit_word_eqI) (auto intro: gr0I simp: get_Tag_def TAG_MASK_def bit_and_iff)

lemma get_ptr_mask: "get_ptr tp = tp AND PTR_MASK"
proof -
  have "(1 :: u64) AND NOT 1 = 0" by (rule bit_word_eqI) (simp add: bit_and_iff bit_not_iff)
  then show ?thesis by (auto simp: get_ptr_def PTR_MASK_def)
qed

lemma bit_get_ptr: "i < 64 \<Longrightarrow> bit (get_ptr tp) i \<longleftrightarrow> bit tp i \<and> i \<noteq> 0"
  by (simp add: get_ptr_mask PTR_MASK_def bit_and_iff bit_not_iff)

lemma aligned_get_ptr [simp]: "aligned (get_ptr tp)"
  by (simp add: aligned_def bit_get_ptr)

lemma get_ptr_or: "aligned p \<Longrightarrow> t = 0 \<or> t = 1 \<Longrightarrow> get_ptr (p OR t) = p"
  by (rule bit_word_eqI) (auto intro: gr0I simp: bit_get_ptr bit_or_iff aligned_def)

lemma get_Tag_or: "aligned p \<Longrightarrow> t = 0 \<or> t = 1 \<Longrightarrow> get_Tag (p OR t) = t"
  by (auto simp: get_Tag_bit aligned_def bit_or_iff)

lemma split_tagged: "tp = get_ptr tp OR get_Tag tp"
  by (rule bit_word_eqI) (auto intro: gr0I simp: bit_or_iff bit_get_ptr get_Tag_bit)

lemma get_Tag_le: "get_Tag tp = 0 \<or> get_Tag tp = 1"
  by (simp add: get_Tag_bit)

lemma set_Tag_or: "t = 0 \<or> t = 1 \<Longrightarrow> set_Tag t tp = Inr (get_ptr tp OR t)"
  by (auto simp: set_Tag_def get_ptr_mask)

text \<open>
  Pointer and tag are independent in a tagged pointer: for a slot's address, which is even and not null, the constructor keeps both, each
  setter changes its own part and leaves the other, and a tag other than 0 and 1 is refused by constructor and setter alike.
\<close>

theorem taged_pointer_roundtrip:
  assumes "aligned p" "p \<noteq> 0" "aligned q" "tag \<le> 1" "tag' \<le> 1"
  shows "\<exists>tp. TagedPointer p tag = Inr tp \<and> get_ptr tp = p \<and> get_Tag tp = tag \<and>
     (\<exists>tp'. set_Tag tag' tp = Inr tp' \<and> get_ptr tp' = p \<and> get_Tag tp' = tag') \<and>
     get_ptr (set_ptr q tp) = q \<and> get_Tag (set_ptr q tp) = tag \<and>
     (\<forall>t > 1. TagedPointer p t = Inl WrongTag \<and> set_Tag t tp = Inl WrongTag)"
proof -
  have t: "tag = 0 \<or> tag = 1" "tag' = 0 \<or> tag' = 1" using assms(4,5) by (simp_all add: tag_cases)
  have "TagedPointer p tag = Inr (p OR tag)" using t(1) assms(2) by (auto simp: TagedPointer_def TAG_MASK_def)
  moreover note get_ptr_or [OF assms(1) t(1)] get_Tag_or [OF assms(1) t(1)]
  moreover have "set_Tag tag' (p OR tag) = Inr (p OR tag')" using set_Tag_or [OF t(2)] get_ptr_or [OF assms(1) t(1)] by simp
  moreover have "set_ptr q (p OR tag) = q OR tag"
    using t(1) get_Tag_or [OF assms(1) t(1)] by (auto simp: set_ptr_def)
  moreover have "TagedPointer p t = Inl WrongTag \<and> set_Tag t tp = Inl WrongTag" if "t > 1" for t tp
    using that by (simp add: TagedPointer_def set_Tag_def)
  ultimately show ?thesis
    using get_ptr_or [OF assms(1) t(2)] get_Tag_or [OF assms(1) t(2)] get_ptr_or [OF assms(3) t(1)] get_Tag_or [OF assms(3) t(1)]
    by auto
qed

theorem taged_pointer_roundtrip_witness:
  "\<exists>tp. TagedPointer 4096 1 = Inr tp \<and> get_ptr tp = 4096 \<and> get_Tag tp = 1"
proof -
  have "aligned 4096" "aligned 64" by (simp_all add: aligned_def)
  then show ?thesis using taged_pointer_roundtrip [of 4096 64 1 0] by auto
qed

section \<open>The lock and the generation\<close>

definition LCK_BIT_MASK :: u64 where
  "LCK_BIT_MASK = push_bit 63 1"

definition GEN_VAL_MASK :: u64 where
  "GEN_VAL_MASK = NOT LCK_BIT_MASK"

text \<open>
  Where a thread is in \<open>apply_slot\<close>. The flag tells the first \<open>try_lock\<close> from those of the loop; the words are the local variables of
  \<open>try_lock\<close> and \<open>unlock\<close>. The slot of a thread is marked by \<open>make_publication\<close>, and no code of the class takes the mark back.
\<close>

datatype fc_pc =
    A_Out
  | A_Load bool | A_Load2 bool u64 | A_Cas bool u64 u64 | A_Gen bool
  | A_Publish u64 | A_Combine u64 | A_Unlock | A_Unlock2 u64 | A_Unlock3 u64 u64
  | A_Wait

record fc_conf =
  fc_lock :: u64
  fc_need :: "nat \<Rightarrow> bool"
  fc_pc :: "nat \<Rightarrow> fc_pc"

definition fc_go :: "nat \<Rightarrow> fc_pc \<Rightarrow> fc_conf \<Rightarrow> fc_conf" where
  "fc_go t p c = c\<lparr>fc_pc := (fc_pc c)(t := p)\<rparr>"

text \<open>What \<open>apply_slot\<close> does with the result of \<open>try_lock\<close>.\<close>

definition after_try :: "bool \<Rightarrow> u64 \<Rightarrow> fc_pc" where
  "after_try first gen = (if first then A_Publish gen else if gen > 0 then A_Combine gen else A_Wait)"

definition try_lock :: "nat \<Rightarrow> fc_pc \<Rightarrow> fc_conf \<Rightarrow> fc_conf" where
  "try_lock t p c =
     (case p of
        A_Load f \<Rightarrow> fc_go t (A_Load2 f (fc_lock c AND GEN_VAL_MASK)) c
      | A_Load2 f unlocked_state \<Rightarrow> fc_go t (A_Cas f unlocked_state (fc_lock c OR LCK_BIT_MASK)) c
      | A_Cas f unlocked_state locked_state \<Rightarrow>
          if fc_lock c = unlocked_state then fc_go t (A_Gen f) (c\<lparr>fc_lock := locked_state\<rparr>)
          else fc_go t (after_try f 0) c
      | A_Gen f \<Rightarrow> fc_go t (after_try f (fc_lock c AND GEN_VAL_MASK)) c
      | _ \<Rightarrow> c)"

definition fc_unlock :: "nat \<Rightarrow> fc_pc \<Rightarrow> fc_conf \<Rightarrow> fc_conf" where
  "fc_unlock t p c =
     (case p of
        A_Unlock \<Rightarrow> fc_go t (A_Unlock2 ((fc_lock c AND GEN_VAL_MASK) + 1)) c
      | A_Unlock2 new_gen \<Rightarrow> fc_go t (A_Unlock3 new_gen (fc_lock c)) c
      | A_Unlock3 new_gen expected \<Rightarrow>
          fc_go t A_Out (if fc_lock c = expected then c\<lparr>fc_lock := new_gen\<rparr> else c)
      | _ \<Rightarrow> c)"

text \<open>The next step of thread \<open>t\<close>; a thread that is outside calls \<open>apply_slot\<close>.\<close>

definition apply_slot :: "nat \<Rightarrow> fc_conf \<Rightarrow> fc_conf" where
  "apply_slot t c =
     (case fc_pc c t of
        A_Out \<Rightarrow> fc_go t (A_Load True) c
      | A_Publish gen \<Rightarrow> fc_go t (if gen > 0 then A_Combine gen else A_Wait) (c\<lparr>fc_need := (fc_need c)(t := True)\<rparr>)
      | A_Combine gen \<Rightarrow> fc_go t A_Unlock c
      | A_Wait \<Rightarrow> fc_go t (if fc_need c t then A_Load False else A_Out) c
      | A_Unlock \<Rightarrow> fc_unlock t (fc_pc c t) c
      | A_Unlock2 n \<Rightarrow> fc_unlock t (fc_pc c t) c
      | A_Unlock3 n e \<Rightarrow> fc_unlock t (fc_pc c t) c
      | p \<Rightarrow> try_lock t p c)"

definition fc_init :: "u64 \<Rightarrow> fc_conf" where
  "fc_init w = \<lparr>fc_lock = w, fc_need = (\<lambda>t. False), fc_pc = (\<lambda>t. A_Out)\<rparr>"

text \<open>A run is given by the thread that moves in each step.\<close>

definition fc_run :: "nat list \<Rightarrow> fc_conf \<Rightarrow> fc_conf" where
  "fc_run ts c = fold apply_slot ts c"

fun holding :: "fc_pc \<Rightarrow> bool" where
  "holding (A_Gen f) = True"
| "holding (A_Publish g) = (g > 0)"
| "holding (A_Combine g) = True"
| "holding A_Unlock = True"
| "holding (A_Unlock2 n) = True"
| "holding (A_Unlock3 n e) = True"
| "holding p = False"

lemma bit_LCK [simp]: "bit LCK_BIT_MASK i \<longleftrightarrow> i = 63"
proof -
  have "bit (push_bit 63 1 :: u64) i \<longleftrightarrow> i = 63" by (subst bit_push_bit_iff) (auto simp: bit_1_iff)
  then show ?thesis by (simp only: LCK_BIT_MASK_def)
qed

lemma bit_GEN [simp]: "bit GEN_VAL_MASK i \<longleftrightarrow> i < 63"
proof -
  have "bit GEN_VAL_MASK i \<longleftrightarrow> i < 64 \<and> i \<noteq> 63" by (simp add: GEN_VAL_MASK_def bit_not_iff)
  then show ?thesis by arith
qed

lemma gen_of_locked [simp]: "(w OR LCK_BIT_MASK) AND GEN_VAL_MASK = w AND GEN_VAL_MASK"
  by (rule bit_word_eqI) (auto simp: bit_and_iff bit_or_iff)

lemma gen_of_unlocked: "\<not> bit w 63 \<Longrightarrow> w AND GEN_VAL_MASK = w"
  by (rule bit_word_eqI) (auto simp: bit_and_iff less_Suc_eq numeral_eq_Suc)

lemma bit_locked [simp]: "bit (w OR LCK_BIT_MASK) 63" "\<not> bit (w AND GEN_VAL_MASK) 63"
  by (simp_all add: bit_or_iff bit_and_iff)

lemma next_gen: "(w AND GEN_VAL_MASK) + 1 \<noteq> 0"
proof
  assume "(w AND GEN_VAL_MASK) + 1 = 0"
  then have "w AND GEN_VAL_MASK = - 1" by (simp only: add_eq_0_iff2)
  then have "bit (w AND GEN_VAL_MASK) 63" by simp
  then show False by simp
qed

text \<open>Either the word is locked for good, with generation 0, or its generation is not 0 and the thread that holds the lock is the only one.\<close>

definition pc_ok :: "u64 \<Rightarrow> fc_pc \<Rightarrow> bool" where
  "pc_ok w p \<longleftrightarrow> (case p of
      A_Load2 f u \<Rightarrow> \<not> bit u 63
    | A_Cas f u l \<Rightarrow> \<not> bit u 63 \<and> bit l 63 \<and> (l AND GEN_VAL_MASK = 0 \<longrightarrow> w AND GEN_VAL_MASK = 0)
    | A_Publish g \<Rightarrow> g > 0 \<longrightarrow> g = w AND GEN_VAL_MASK
    | A_Combine g \<Rightarrow> g > 0 \<and> g = w AND GEN_VAL_MASK
    | A_Unlock2 n \<Rightarrow> n = (w AND GEN_VAL_MASK) + 1
    | A_Unlock3 n e \<Rightarrow> n = (w AND GEN_VAL_MASK) + 1 \<and> e = w
    | _ \<Rightarrow> True)"

definition fc_inv :: "fc_conf \<Rightarrow> bool" where
  "fc_inv c \<longleftrightarrow> fc_lock c \<noteq> 0 \<and> (\<forall>t. pc_ok (fc_lock c) (fc_pc c t)) \<and>
     (\<forall>t. holding (fc_pc c t) \<longrightarrow> bit (fc_lock c) 63 \<and> fc_lock c AND GEN_VAL_MASK \<noteq> 0) \<and>
     (\<forall>t t'. holding (fc_pc c t) \<longrightarrow> holding (fc_pc c t') \<longrightarrow> t = t')"

lemma fc_inv_go:
  assumes "fc_inv c" "pc_ok (fc_lock c) p" "holding p \<Longrightarrow> holding (fc_pc c t)"
  shows "fc_inv (fc_go t p c)"
  using assms unfolding fc_inv_def fc_go_def by (auto split: if_splits)

lemma fc_inv_need [simp]: "fc_inv (c\<lparr>fc_need := n\<rparr>) = fc_inv c"
  by (simp add: fc_inv_def)

lemma fc_invD:
  assumes "fc_inv c"
  shows "pc_ok (fc_lock c) (fc_pc c t)" "holding (fc_pc c t) \<Longrightarrow> fc_lock c AND GEN_VAL_MASK \<noteq> 0"
  using assms by (auto simp: fc_inv_def)

text \<open>A word that is not locked is taken, and the word of the holder is released.\<close>

lemma pc_ok_other:
  assumes "pc_ok w p" "\<not> holding p" "w AND GEN_VAL_MASK \<noteq> 0"
  shows "pc_ok w' p"
  using assms by (auto simp: pc_ok_def split: fc_pc.splits)

lemma fc_inv_acquire:
  assumes inv: "fc_inv c" and p: "fc_pc c t = A_Cas f (fc_lock c) l"
  shows "fc_inv (fc_go t (A_Gen f) (c\<lparr>fc_lock := l\<rparr>))"
proof -
  have u: "\<not> bit (fc_lock c) 63" "bit l 63" "l AND GEN_VAL_MASK = 0 \<longrightarrow> fc_lock c AND GEN_VAL_MASK = 0"
    using fc_invD(1) [OF inv, of t] p by (auto simp: pc_ok_def)
  have g: "fc_lock c AND GEN_VAL_MASK \<noteq> 0" using gen_of_unlocked [OF u(1)] inv by (simp add: fc_inv_def)
  have n: "\<not> holding (fc_pc c t')" for t' using inv u(1) by (auto simp: fc_inv_def)
  have "pc_ok l (fc_pc c t')" for t' using pc_ok_other [OF fc_invD(1) [OF inv] n g] .
  then show ?thesis using n u g by (auto simp: fc_inv_def fc_go_def pc_ok_def)
qed

lemma fc_inv_release:
  assumes inv: "fc_inv c" and p: "fc_pc c t = A_Unlock3 n (fc_lock c)"
  shows "fc_inv (fc_go t A_Out (c\<lparr>fc_lock := n\<rparr>))"
proof -
  have n: "n = (fc_lock c AND GEN_VAL_MASK) + 1" using fc_invD(1) [OF inv, of t] p by (simp add: pc_ok_def)
  have g: "fc_lock c AND GEN_VAL_MASK \<noteq> 0" using fc_invD(2) [OF inv, of t] p by simp
  have others: "\<not> holding (fc_pc c t')" if "t' \<noteq> t" for t'
    using inv p that unfolding fc_inv_def by (metis holding.simps(6))
  have "pc_ok n (fc_pc c t')" if "t' \<noteq> t" for t'
    using pc_ok_other [OF fc_invD(1) [OF inv] others [OF that] g] .
  then show ?thesis using others n next_gen by (auto simp: fc_inv_def fc_go_def pc_ok_def)
qed

lemma try_lock_inv:
  assumes inv: "fc_inv c" and p: "fc_pc c t = p"
  shows "fc_inv (try_lock t p c)"
proof (cases p)
  case (A_Cas f u l)
  show ?thesis
  proof (cases "fc_lock c = u")
    case True
    then show ?thesis using fc_inv_acquire [OF inv, of t f l] p A_Cas by (simp add: try_lock_def)
  next
    case False
    then show ?thesis using A_Cas inv by (auto simp: try_lock_def after_try_def pc_ok_def intro: fc_inv_go)
  qed
next
  case (A_Gen f)
  then have "fc_lock c AND GEN_VAL_MASK \<noteq> 0" using fc_invD(2) [OF inv, of t] p by simp
  then show ?thesis using A_Gen p inv by (auto simp: try_lock_def after_try_def pc_ok_def word_gt_0 intro!: fc_inv_go)
qed (use inv p fc_invD(1) [OF inv, of t] in \<open>auto simp: try_lock_def pc_ok_def intro!: fc_inv_go\<close>)

lemma fc_unlock_inv:
  assumes inv: "fc_inv c" and p: "fc_pc c t = p"
  shows "fc_inv (fc_unlock t p c)"
proof (cases p)
  case (A_Unlock3 n e)
  then have "e = fc_lock c" using fc_invD(1) [OF inv, of t] p by (simp add: pc_ok_def)
  then show ?thesis using fc_inv_release [OF inv, of t n] p A_Unlock3 by (simp add: fc_unlock_def)
next
  case (A_Unlock2 n)
  then show ?thesis using fc_invD(1) [OF inv, of t] p inv by (auto simp: fc_unlock_def pc_ok_def intro!: fc_inv_go)
qed (use inv p in \<open>auto simp: fc_unlock_def pc_ok_def intro!: fc_inv_go\<close>)

lemma apply_slot_inv: "fc_inv c \<Longrightarrow> fc_inv (apply_slot t c)"
  using fc_invD(1) [of c t] try_lock_inv [of c t] fc_unlock_inv [of c t]
  by (auto simp: apply_slot_def pc_ok_def split: fc_pc.split intro!: fc_inv_go)

lemma fc_run_inv: "fc_inv c \<Longrightarrow> fc_inv (fc_run ts c)"
  unfolding fc_run_def by (induction ts arbitrary: c) (auto intro: apply_slot_inv)

lemma fc_inv_excludes:
  assumes "fc_inv c"
  shows "holding (fc_pc c t) \<Longrightarrow> bit (fc_lock c) 63" "holding (fc_pc c t) \<Longrightarrow> holding (fc_pc c t') \<Longrightarrow> t' = t"
    "fc_pc c t = A_Combine g \<Longrightarrow> g = fc_lock c AND GEN_VAL_MASK \<and> g \<noteq> 0"
  using assms fc_invD [OF assms, of t] by (auto simp: fc_inv_def pc_ok_def)

text \<open>
  C27. The lock of the flat combiner excludes, however the threads interleave, if its word starts unlocked with a generation that is not 0: at
  most one thread is between its successful exchange and its unlock, the word is locked all that time, and the generation it
  combines with is the one in the word and not 0.
\<close>

theorem fc_lock_excludes:
  assumes "\<not> bit w 63" "w \<noteq> 0"
  shows "(holding (fc_pc (fc_run ts (fc_init w)) t) \<longrightarrow>
       bit (fc_lock (fc_run ts (fc_init w))) 63 \<and> (holding (fc_pc (fc_run ts (fc_init w)) t') \<longrightarrow> t' = t)) \<and>
    (fc_pc (fc_run ts (fc_init w)) t = A_Combine g \<longrightarrow> g = fc_lock (fc_run ts (fc_init w)) AND GEN_VAL_MASK \<and> g \<noteq> 0)"
proof -
  have "fc_inv (fc_init w)" using assms by (simp add: fc_inv_def fc_init_def pc_ok_def)
  from fc_run_inv [OF this] have inv: "fc_inv (fc_run ts (fc_init w))" .
  then show ?thesis using fc_inv_excludes [OF inv] by blast
qed

theorem fc_lock_excludes_witness:
  "fc_pc (fc_run [0, 0, 1, 1, 0, 0, 0, 1] (fc_init 7)) 0 = A_Publish 7 \<and> bit (fc_lock (fc_run [0, 0, 1, 1, 0, 0, 0, 1] (fc_init 7))) 63"
proof -
  have "fc_pc (fc_run [0, 0, 1, 1, 0, 0, 0, 1] (fc_init 7)) 0 = A_Publish 7"
    by (simp add: fc_run_def apply_slot_def fc_init_def fc_go_def try_lock_def after_try_def GEN_VAL_MASK_def LCK_BIT_MASK_def)
  moreover have "\<not> bit (7 :: u64) 63" "(7 :: u64) \<noteq> 0" by simp_all
  note fc_lock_excludes [OF this, of "[0, 0, 1, 1, 0, 0, 0, 1]" 0 0 7]
  ultimately show ?thesis by simp
qed

text \<open>What the threads do when the word starts with generation 0: no one ever learns that it holds the lock.\<close>

definition zero_inv :: "fc_conf \<Rightarrow> bool" where
  "zero_inv c \<longleftrightarrow> (fc_lock c = 0 \<or> fc_lock c = LCK_BIT_MASK) \<and>
     (\<forall>t. (case fc_pc c t of A_Load2 f u \<Rightarrow> u = 0 | A_Cas f u l \<Rightarrow> u = 0 \<and> l = LCK_BIT_MASK | A_Publish g \<Rightarrow> g = 0
        | A_Combine g \<Rightarrow> False | A_Unlock \<Rightarrow> False | A_Unlock2 n \<Rightarrow> False | A_Unlock3 n e \<Rightarrow> False | _ \<Rightarrow> True) \<and>
        (fc_need c t \<longrightarrow> fc_pc c t \<noteq> A_Out))"

lemma zero_masks [simp]: "0 AND GEN_VAL_MASK = 0" "LCK_BIT_MASK AND GEN_VAL_MASK = 0" "0 OR LCK_BIT_MASK = LCK_BIT_MASK"
  "LCK_BIT_MASK OR LCK_BIT_MASK = LCK_BIT_MASK"
  using gen_of_locked [of 0] by simp_all

lemma zero_inv_step: "zero_inv c \<Longrightarrow> zero_inv (apply_slot t c)"
  unfolding zero_inv_def
  by (cases "fc_pc c t") (auto simp: apply_slot_def try_lock_def fc_unlock_def fc_go_def after_try_def split: if_splits dest: spec [of _ t])

text \<open>
  C30. If the word of the lock starts as 0, the first thread that takes the lock gets generation 0, which means failure: however the threads
  go on, none of them ever combines, and no call of \<open>apply_slot\<close> that has published its operation returns.
\<close>

theorem fc_zero_generation_stuck:
  "fc_pc (fc_run ts (fc_init 0)) t \<noteq> A_Combine g \<and>
   (fc_need (fc_run ts (fc_init 0)) t \<longrightarrow> fc_pc (fc_run ts (fc_init 0)) t \<noteq> A_Out)"
proof -
  have "zero_inv (fc_init 0)" by (simp add: zero_inv_def fc_init_def)
  moreover have "zero_inv c \<Longrightarrow> zero_inv (fc_run ts c)" for c
    unfolding fc_run_def by (induction ts arbitrary: c) (auto intro: zero_inv_step)
  ultimately have "zero_inv (fc_run ts (fc_init 0))" by blast
  then show ?thesis by (auto simp: zero_inv_def dest: spec [of _ t])
qed

theorem fc_zero_generation_stuck_witness:
  "fc_lock (fc_run [0, 0, 0, 0, 0, 0] (fc_init 0)) = LCK_BIT_MASK \<and> fc_pc (fc_run [0, 0, 0, 0, 0, 0] (fc_init 0)) 0 \<noteq> A_Out"
proof -
  have "fc_lock (fc_run [0, 0, 0, 0, 0, 0] (fc_init 0)) = LCK_BIT_MASK \<and> fc_need (fc_run [0, 0, 0, 0, 0, 0] (fc_init 0)) 0"
    by (simp add: fc_run_def apply_slot_def fc_init_def fc_go_def try_lock_def after_try_def)
  then show ?thesis using fc_zero_generation_stuck [of "[0, 0, 0, 0, 0, 0]" 0] by blast
qed

text \<open>No code of the class takes the mark of a slot back, so a thread that waits only leaves by combining itself.\<close>

lemma fc_need_stays: "fc_need c t \<Longrightarrow> fc_need (apply_slot u c) t"
  by (cases "fc_pc c u") (auto simp: apply_slot_def try_lock_def fc_unlock_def fc_go_def)

lemma fc_need_run: "fc_need c t \<Longrightarrow> fc_need (fc_run ts c) t"
  unfolding fc_run_def by (induction ts arbitrary: c) (auto intro: fc_need_stays)

lemma fc_leaves_by_unlock:
  "fc_need c t \<Longrightarrow> fc_pc c t \<noteq> A_Out \<Longrightarrow> fc_pc (apply_slot u c) t = A_Out \<Longrightarrow> \<exists>n e. fc_pc c t = A_Unlock3 n e"
  by (cases "fc_pc c t"; cases "u = t")
     (auto simp: apply_slot_def try_lock_def fc_unlock_def fc_go_def after_try_def split: fc_pc.splits if_splits)

section \<open>Slots\<close>

record 'op slot =
  user_op :: 'op
  generation :: u64
  need_to_process :: bool
  next_and_alive :: u64

type_synonym 'op slots = "u64 \<Rightarrow> 'op slot option"

datatype fc_error = Throw tag_error | Crash fault

definition slot_at :: "'op slots \<Rightarrow> u64 \<Rightarrow> fc_error + 'op slot" where
  "slot_at h a = (if a = 0 then Inl (Crash NullDeref) else case h a of None \<Rightarrow> Inl (Crash UseAfterFree) | Some s \<Rightarrow> Inr s)"

definition slot_next :: "'op slots \<Rightarrow> u64 \<Rightarrow> fc_error + u64" where
  "slot_next h a = rbind (slot_at h a) (\<lambda>s. Inr (get_ptr (next_and_alive s)))"

definition throwing :: "tag_error + 'a \<Rightarrow> fc_error + 'a" where
  "throwing = map_sum Throw id"

definition dequeue_slot :: "'op slots \<Rightarrow> u64 \<Rightarrow> u64 \<Rightarrow> fc_error + 'op slots" where
  "dequeue_slot h parent slot2remove =
     rbind (slot_at h slot2remove) (\<lambda>s. rbind (slot_at h parent) (\<lambda>p.
       let parent_tag = get_Tag (next_and_alive p); removed_slot_tag = get_Tag (next_and_alive s) in
       rbind (throwing (set_Tag parent_tag (next_and_alive s))) (\<lambda>tp_next.
         let h1 = h(parent \<mapsto> p\<lparr>next_and_alive := tp_next\<rparr>) in
         if removed_slot_tag = 0 then Inr (h1(slot2remove := None))
         else rbind (slot_at h1 slot2remove) (\<lambda>r.
           rbind (throwing (TagedPointer 0 0)) (\<lambda>tp. Inr (h1(slot2remove \<mapsto> r\<lparr>next_and_alive := tp\<rparr>)))))))"

definition generation_offset :: u64 where
  "generation_offset = 100"

text \<open>One pass of the loop: the slots, the slot the loop goes on from, and the entries of \<open>_combine_shot\<close> written so far.\<close>

definition combining_turn ::
  "nat \<Rightarrow> u64 \<Rightarrow> 'op slots \<Rightarrow> u64 \<Rightarrow> u64 \<Rightarrow> u64 list \<Rightarrow> fc_error + 'op slots \<times> u64 \<times> u64 list" where
  "combining_turn qms gen h parent cur_slot shot =
     rbind (slot_at h cur_slot) (\<lambda>s.
       if need_to_process s then
         if length shot < qms then Inr (h(cur_slot \<mapsto> s\<lparr>generation := gen\<rparr>), cur_slot, shot @ [cur_slot])
         else Inl (Crash OutOfBounds)
       else if generation s < gen - generation_offset then
         rbind (dequeue_slot h parent cur_slot) (\<lambda>h'. Inr (h', parent, shot))
       else Inr (h, cur_slot, shot))"

partial_function (option) combining_loop ::
  "nat \<Rightarrow> u64 \<Rightarrow> 'op slots \<Rightarrow> u64 \<Rightarrow> u64 \<Rightarrow> u64 list \<Rightarrow> (fc_error + 'op slots \<times> u64 list) option" where
  "combining_loop qms gen h parent cur_slot shot =
     (if cur_slot \<noteq> 0 \<or> length shot < qms then
        (case combining_turn qms gen h parent cur_slot shot of
           Inl e \<Rightarrow> Some (Inl e)
         | Inr t \<Rightarrow>
             (case slot_next (fst t) (fst (snd t)) of
                Inl e \<Rightarrow> Some (Inl e)
              | Inr next_slot \<Rightarrow> combining_loop qms gen (fst t) (fst (snd t)) next_slot (snd (snd t))))
      else Some (Inr (h, shot)))"

definition combining :: "nat \<Rightarrow> u64 \<Rightarrow> 'op slots \<Rightarrow> u64 \<Rightarrow> (fc_error + 'op slots \<times> u64 list) option" where
  "combining qms gen h queue =
     (case slot_next h queue of
        Inl e \<Rightarrow> Some (Inl e)
      | Inr cur_slot \<Rightarrow> combining_loop qms gen h queue cur_slot [])"

section \<open>The list of slots under the lock\<close>

text \<open>The slots \<open>as\<close> are those that a next pointer leads to, in this order, up to the null pointer.\<close>

fun slot_list :: "'op slots \<Rightarrow> u64 \<Rightarrow> u64 list \<Rightarrow> bool" where
  "slot_list h w [] \<longleftrightarrow> get_ptr w = 0"
| "slot_list h w (a # as) \<longleftrightarrow> get_ptr w = a \<and> a \<noteq> 0 \<and> (\<exists>s. h a = Some s \<and> slot_list h (next_and_alive s) as)"

definition pending :: "'op slots \<Rightarrow> u64 \<Rightarrow> bool" where
  "pending h a = (case h a of None \<Rightarrow> False | Some s \<Rightarrow> need_to_process s)"

definition stale :: "u64 \<Rightarrow> 'op slots \<Rightarrow> u64 \<Rightarrow> bool" where
  "stale gen h a = (case h a of None \<Rightarrow> False | Some s \<Rightarrow> \<not> need_to_process s \<and> generation s < gen - generation_offset)"

definition kept :: "u64 \<Rightarrow> 'op slots \<Rightarrow> u64 list \<Rightarrow> u64 list" where
  "kept gen h as = filter (\<lambda>a. \<not> stale gen h a) as"

lemma slot_list_cong: "get_ptr w = get_ptr w' \<Longrightarrow> (\<And>a. a \<in> set as \<Longrightarrow> h a = h' a) \<Longrightarrow> slot_list h w as = slot_list h' w' as"
  by (induction as arbitrary: w w') auto

lemma filter_slots_cong:
  assumes "\<And>a. a \<in> set as \<Longrightarrow> h a = h' a"
  shows "filter (pending h) as = filter (pending h') as" "kept gen h as = kept gen h' as"
  using assms by (auto simp: kept_def pending_def stale_def intro!: filter_cong)

text \<open>
  The list after the pass: the slots that are kept hang on the parent, the pending ones carry the generation, the others are out of the
  list, deleted if their tag was 0 and on their own if it was 1.
\<close>

definition swept :: "u64 \<Rightarrow> 'op slots \<Rightarrow> u64 \<Rightarrow> u64 list \<Rightarrow> 'op slots \<Rightarrow> bool" where
  "swept gen h parent as h' \<longleftrightarrow>
     (\<exists>p w. h parent = Some p \<and> h' parent = Some (p\<lparr>next_and_alive := w\<rparr>) \<and> slot_list h' w (kept gen h as)) \<and>
     (\<forall>a. a \<noteq> parent \<longrightarrow> a \<notin> set as \<longrightarrow> h' a = h a) \<and>
     (\<forall>a s. a \<in> set as \<longrightarrow> h a = Some s \<longrightarrow>
        (if need_to_process s then \<exists>w. h' a = Some (s\<lparr>generation := gen, next_and_alive := w\<rparr>)
         else if stale gen h a then h' a = (if get_Tag (next_and_alive s) = 0 then None else Some (s\<lparr>next_and_alive := 1\<rparr>))
         else \<exists>w. h' a = Some (s\<lparr>next_and_alive := w\<rparr>)))"

definition combined :: "nat \<Rightarrow> u64 \<Rightarrow> 'op slots \<Rightarrow> u64 \<Rightarrow> u64 list \<Rightarrow> u64 list \<Rightarrow> (fc_error + 'op slots \<times> u64 list) option \<Rightarrow> bool" where
  "combined qms gen h parent as shot r \<longleftrightarrow>
     (let ps = filter (pending h) as in
      if length shot + length ps < qms then r = Some (Inl (Crash NullDeref))
      else if qms < length shot + length ps then r = Some (Inl (Crash OutOfBounds))
      else \<exists>h'. r = Some (Inr (h', shot @ ps)) \<and> swept gen h parent as h')"

lemma sweptD:
  assumes "swept gen h parent as h'" "a \<in> set as" "h a = Some s"
  shows "if need_to_process s then \<exists>w. h' a = Some (s\<lparr>generation := gen, next_and_alive := w\<rparr>)
    else if stale gen h a then h' a = (if get_Tag (next_and_alive s) = 0 then None else Some (s\<lparr>next_and_alive := 1\<rparr>))
    else \<exists>w. h' a = Some (s\<lparr>next_and_alive := w\<rparr>)"
  using assms unfolding swept_def by blast

lemma slot_at_Some: "a \<noteq> 0 \<Longrightarrow> h a = Some s \<Longrightarrow> slot_at h a = Inr s"
  by (simp add: slot_at_def)

lemma combining_loop_end:
  assumes "length shot \<le> qms" "h parent = Some p" "get_ptr (next_and_alive p) = 0"
  shows "combined qms gen h parent [] shot (combining_loop qms gen h parent 0 shot)"
proof (cases "length shot < qms")
  case True
  then show ?thesis
    by (subst combining_loop.simps) (simp add: combined_def combining_turn_def slot_at_def)
next
  case False
  have "p = p\<lparr>next_and_alive := next_and_alive p\<rparr>" by simp
  with False assms have "swept gen h parent [] h" unfolding swept_def kept_def by (metis empty_iff empty_set filter.simps(1) slot_list.simps(1))
  then show ?thesis using False assms(1)
    by (subst combining_loop.simps) (auto simp: combined_def)
qed

lemma combining_loop_more:
  assumes "cur_slot \<noteq> 0" "combining_turn qms gen h parent cur_slot shot = Inr (h1, q, shot1)"
    and "q \<noteq> 0" "h1 q = Some sq"
  shows "combining_loop qms gen h parent cur_slot shot = combining_loop qms gen h1 q (get_ptr (next_and_alive sq)) shot1"
  using assms by (subst combining_loop.simps) (simp add: slot_next_def slot_at_Some)

text \<open>The loop goes on from the slot itself if it is kept, with the new generation if it is pending.\<close>

lemma swept_kept:
  assumes h: "h parent = Some p" "get_ptr (next_and_alive p) = a" "a \<noteq> 0" "h a = Some s" "\<not> stale gen h a"
    and s1: "s1 = (if need_to_process s then s\<lparr>generation := gen\<rparr> else s)"
    and new: "distinct (parent # a # as)" and sw: "swept gen (h(a \<mapsto> s1)) a as h'"
  shows "swept gen h parent (a # as) h'"
proof -
  have same: "(h(a \<mapsto> s1)) x = h x" if "x \<in> set as" for x using that new by auto
  have k: "kept gen h (a # as) = a # kept gen (h(a \<mapsto> s1)) as"
    using filter_slots_cong(2) [of as "h(a \<mapsto> s1)" h gen] same h(5) by (simp add: kept_def)
  have p: "h' parent = Some p" using sw h(1) new by (auto simp: swept_def)
  obtain w where a': "h' a = Some (s1\<lparr>next_and_alive := w\<rparr>)" "slot_list h' w (kept gen (h(a \<mapsto> s1)) as)"
    using sw by (auto simp: swept_def)
  have sl: "slot_list h' (next_and_alive p) (kept gen h (a # as))" using a' h(2,3) unfolding k by auto
  have "h' parent = Some (p\<lparr>next_and_alive := next_and_alive p\<rparr>)" using p by simp
  moreover have "h' x = h x" if "x \<noteq> parent" "x \<notin> set (a # as)" for x using sw that by (auto simp: swept_def)
  moreover have "if need_to_process s' then \<exists>w. h' x = Some (s'\<lparr>generation := gen, next_and_alive := w\<rparr>)
      else if stale gen h x then h' x = (if get_Tag (next_and_alive s') = 0 then None else Some (s'\<lparr>next_and_alive := 1\<rparr>))
      else \<exists>w. h' x = Some (s'\<lparr>next_and_alive := w\<rparr>)" if "x \<in> set (a # as)" "h x = Some s'" for x s'
  proof (cases "x = a")
    case True
    then show ?thesis using that h(4,5) a'(1) s1 by auto
  next
    case False
    then have "(h(a \<mapsto> s1)) x = Some s'" "x \<in> set as" "stale gen (h(a \<mapsto> s1)) x = stale gen h x"
      using that by (auto simp: stale_def)
    then show ?thesis using sweptD [OF sw] by metis
  qed
  ultimately show ?thesis using h(1) sl unfolding swept_def by blast
qed

text \<open>It goes on from the parent if the slot is taken out.\<close>

lemma dequeue_slot_run:
  assumes "parent \<noteq> 0" "h parent = Some p" "a \<noteq> 0" "h a = Some s" "a \<noteq> parent"
  shows "dequeue_slot h parent a = Inr (h(parent \<mapsto> p\<lparr>next_and_alive := get_ptr (next_and_alive s) OR get_Tag (next_and_alive p)\<rparr>,
    a := (if get_Tag (next_and_alive s) = 0 then None else Some (s\<lparr>next_and_alive := 1\<rparr>))))"
  using assms set_Tag_or [OF get_Tag_le, of "next_and_alive p" "next_and_alive s"]
  by (simp add: dequeue_slot_def slot_at_Some Let_def throwing_def TagedPointer_def)

lemma swept_stale:
  assumes h: "h parent = Some p" "h a = Some s" "stale gen h a"
    and h1: "h1 = h(parent \<mapsto> p\<lparr>next_and_alive := w1\<rparr>, a := (if get_Tag (next_and_alive s) = 0 then None else Some (s\<lparr>next_and_alive := 1\<rparr>)))"
    and new: "distinct (parent # a # as)" and sw: "swept gen h1 parent as h'"
  shows "swept gen h parent (a # as) h'"
proof -
  have same: "h1 x = h x" if "x \<noteq> parent" "x \<noteq> a" for x using that h1 by simp
  have "h1 x = h x" if "x \<in> set as" for x using that new by (intro same) auto
  then have "kept gen h1 as = kept gen h as" by (rule filter_slots_cong)
  then have k: "kept gen h (a # as) = kept gen h1 as" using h(3) by (simp add: kept_def)
  have "h1 parent = Some (p\<lparr>next_and_alive := w1\<rparr>)" using h1 new by auto
  then obtain w where "h' parent = Some (p\<lparr>next_and_alive := w\<rparr>)" "slot_list h' w (kept gen h (a # as))"
    using sw unfolding swept_def k by auto
  moreover have "h' x = h x" if "x \<noteq> parent" "x \<notin> set (a # as)" for x using sw that same [of x] by (auto simp: swept_def)
  moreover have "if need_to_process s' then \<exists>w. h' x = Some (s'\<lparr>generation := gen, next_and_alive := w\<rparr>)
      else if stale gen h x then h' x = (if get_Tag (next_and_alive s') = 0 then None else Some (s'\<lparr>next_and_alive := 1\<rparr>))
      else \<exists>w. h' x = Some (s'\<lparr>next_and_alive := w\<rparr>)" if "x \<in> set (a # as)" "h x = Some s'" for x s'
  proof (cases "x = a")
    case True
    then have "h' x = h1 x" using sw new by (auto simp: swept_def)
    then show ?thesis using True that h(2,3) h1 by (auto simp: stale_def)
  next
    case False
    then have x: "x \<in> set as" "x \<noteq> parent" using that(1) new by auto
    then have "h1 x = Some s'" "stale gen h1 x = stale gen h x"
      using that(2) same [OF x(2) False] by (simp_all add: stale_def)
    then show ?thesis using sweptD [OF sw x(1)] by metis
  qed
  ultimately show ?thesis using h(1) unfolding swept_def by blast
qed

lemma combined_step:
  assumes "\<And>x. x \<in> set as \<Longrightarrow> h1 x = h x" "combined qms gen h1 q as shot1 r"
    and "shot1 = (if pending h a then shot @ [a] else shot)" "\<And>h'. swept gen h1 q as h' \<Longrightarrow> swept gen h parent (a # as) h'"
  shows "combined qms gen h parent (a # as) shot r"
  using assms filter_slots_cong(1) [of as h1 h] by (auto simp: combined_def Let_def split: if_splits)

lemma combining_loop_exact:
  assumes "parent \<noteq> 0" "h parent = Some p" "slot_list h (next_and_alive p) as" "distinct (parent # as)" "length shot \<le> qms"
  shows "combined qms gen h parent as shot (combining_loop qms gen h parent (get_ptr (next_and_alive p)) shot)"
  using assms
proof (induction as arbitrary: h parent p shot)
  case Nil
  then show ?case using combining_loop_end by simp
next
  case (Cons a as)
  from Cons.prems(3) obtain s where a: "get_ptr (next_and_alive p) = a" "a \<noteq> 0" "h a = Some s" "slot_list h (next_and_alive s) as" by auto
  note d = Cons.prems(4)
  show ?case
  proof (cases "stale gen h a")
    case True
    define w1 where "w1 = get_ptr (next_and_alive s) OR get_Tag (next_and_alive p)"
    define h1 where "h1 = h(parent \<mapsto> p\<lparr>next_and_alive := w1\<rparr>, a := (if get_Tag (next_and_alive s) = 0 then None else Some (s\<lparr>next_and_alive := 1\<rparr>)))"
    have h1: "h1 parent = Some (p\<lparr>next_and_alive := w1\<rparr>)" "\<And>x. x \<in> set as \<Longrightarrow> h1 x = h x" using d by (auto simp: h1_def)
    have "combining_turn qms gen h parent a shot = Inr (h1, parent, shot)"
      using True a dequeue_slot_run [of parent h p a s] Cons.prems(1,2) d
      by (auto simp: combining_turn_def slot_at_Some stale_def h1_def w1_def)
    from combining_loop_more [OF a(2) this Cons.prems(1) h1(1)]
    have run: "combining_loop qms gen h parent a shot = combining_loop qms gen h1 parent (get_ptr w1) shot" by simp
    have "slot_list h1 w1 as"
      using slot_list_cong [of w1 "next_and_alive s" as h1 h] h1(2) a(4) get_ptr_or [OF aligned_get_ptr get_Tag_le] by (simp add: w1_def)
    then have "combined qms gen h1 parent as shot (combining_loop qms gen h1 parent (get_ptr w1) shot)"
      using Cons.IH [of parent h1 "p\<lparr>next_and_alive := w1\<rparr>" shot] Cons.prems h1 by simp
    then show ?thesis unfolding a(1) run
      by (rule combined_step [rotated]) (use True a h1 swept_stale [OF Cons.prems(2) a(3) True h1_def d] in \<open>auto simp: pending_def stale_def\<close>)
  next
    case False
    define s1 where "s1 = (if need_to_process s then s\<lparr>generation := gen\<rparr> else s)"
    define shot1 where "shot1 = (if pending h a then shot @ [a] else shot)"
    have h1: "(h(a \<mapsto> s1)) x = h x" if "x \<in> set as" for x using that d by auto
    have nx: "next_and_alive s1 = next_and_alive s" by (simp add: s1_def)
    show ?thesis
    proof (cases "need_to_process s \<and> length shot = qms")
      case True
      then show ?thesis unfolding a(1) using a
        by (subst combining_loop.simps) (auto simp: combining_turn_def slot_at_Some combined_def pending_def Let_def)
    next
      case fits: False
      then have "combining_turn qms gen h parent a shot = Inr (h(a \<mapsto> s1), a, shot1)"
        using False a Cons.prems(5) by (auto simp: combining_turn_def slot_at_Some stale_def s1_def shot1_def pending_def)
      from combining_loop_more [OF a(2) this a(2), of s1]
      have run: "combining_loop qms gen h parent a shot = combining_loop qms gen (h(a \<mapsto> s1)) a (get_ptr (next_and_alive s1)) shot1" by simp
      have "slot_list (h(a \<mapsto> s1)) (next_and_alive s1) as"
        using slot_list_cong [of "next_and_alive s1" "next_and_alive s" as "h(a \<mapsto> s1)" h] h1 a(4) nx by simp
      then have "combined qms gen (h(a \<mapsto> s1)) a as shot1 (combining_loop qms gen (h(a \<mapsto> s1)) a (get_ptr (next_and_alive s1)) shot1)"
        using Cons.IH [of a "h(a \<mapsto> s1)" s1 shot1, OF a(2) fun_upd_same] a(2,3) d Cons.prems(5) fits
        by (auto simp: shot1_def pending_def simp del: fun_upd_apply)
      then show ?thesis unfolding a(1) run
        by (rule combined_step [rotated]) (use h1 shot1_def swept_kept [OF Cons.prems(2) a(1,2,3) False s1_def d] in auto)
    qed
  qed
qed

text \<open>
  C29. \<open>combining\<close> on a list of slots behind the queue's head, for any generation and limit: it never runs on for ever, and it returns only if
  exactly as many slots are pending as \<open>_combine_shot\<close> has entries. It then hands them over in the order of the list, marks them
  with the generation, and takes every slot out that is idle and older than the offset, deleting those whose tag is 0. With
  fewer pending slots the loop runs through the end of the list and dereferences the null pointer; with more it
  writes behind the array. The pass is a sequential one: no other thread marks a slot as pending or pushes one while it runs.
\<close>

theorem combining_exact:
  assumes "queue \<noteq> 0" "h queue = Some q" "slot_list h (next_and_alive q) as" "distinct (queue # as)"
  shows "(length (filter (pending h) as) < qms \<longrightarrow> combining qms gen h queue = Some (Inl (Crash NullDeref))) \<and>
    (qms < length (filter (pending h) as) \<longrightarrow> combining qms gen h queue = Some (Inl (Crash OutOfBounds))) \<and>
    (length (filter (pending h) as) = qms \<longrightarrow>
      (\<exists>h'. combining qms gen h queue = Some (Inr (h', filter (pending h) as)) \<and> swept gen h queue as h'))"
  using combining_loop_exact [OF assms, of "[]" qms gen] assms(1,2)
  by (simp add: combined_def combining_def slot_next_def slot_at_Some Let_def split: if_splits)

text \<open>A head, a pending slot, an idle slot whose owner is gone and an idle slot that is still owned: the third is deleted, the last one is left.\<close>

definition demo_slots :: "nat slots" where
  "demo_slots = [64 \<mapsto> \<lparr>user_op = 0, generation = 0, need_to_process = False, next_and_alive = 128\<rparr>,
     128 \<mapsto> \<lparr>user_op = 1, generation = 0, need_to_process = True, next_and_alive = 193\<rparr>,
     192 \<mapsto> \<lparr>user_op = 2, generation = 9, need_to_process = False, next_and_alive = 256\<rparr>,
     256 \<mapsto> \<lparr>user_op = 3, generation = 99, need_to_process = False, next_and_alive = 1\<rparr>]"

theorem combining_exact_witness:
  "\<exists>h'. combining 1 199 demo_slots 64 = Some (Inr (h', [128])) \<and> h' 192 = None \<and> h' 256 \<noteq> None"
proof -
  have l: "slot_list demo_slots 128 [128, 192, 256]" "distinct [64, 128, 192, 256 :: u64]"
    "filter (pending demo_slots) [128, 192, 256] = [128]"
    by (simp_all add: demo_slots_def get_ptr_def PTR_MASK_def pending_def)
  let ?q = "\<lparr>user_op = 0, generation = 0, need_to_process = False, next_and_alive = 128\<rparr>"
  have q: "(64 :: u64) \<noteq> 0" "demo_slots 64 = Some ?q" "slot_list demo_slots (next_and_alive ?q) [128, 192, 256]"
    using l(1) by (simp_all add: demo_slots_def)
  from combining_exact [OF q l(2), of 1 199] l(3) obtain h' where
    h': "combining 1 199 demo_slots 64 = Some (Inr (h', [128]))" "swept 199 demo_slots 64 [128, 192, 256] h'" by auto
  have st: "stale 199 demo_slots 192" "\<not> stale 199 demo_slots 256"
    by (simp_all add: stale_def demo_slots_def generation_offset_def)
  have "demo_slots 192 = Some \<lparr>user_op = 2, generation = 9, need_to_process = False, next_and_alive = 256\<rparr>"
    "demo_slots 256 = Some \<lparr>user_op = 3, generation = 99, need_to_process = False, next_and_alive = 1\<rparr>" by (simp_all add: demo_slots_def)
  note sw = sweptD [OF h'(2) _ this(1)] sweptD [OF h'(2) _ this(2)]
  have "h' 192 = None" using sw(1) st(1) by (simp add: get_Tag_def TAG_MASK_def)
  moreover have "h' 256 \<noteq> None" using sw(2) st(2) by auto
  ultimately show ?thesis using h' by blast
qed

text \<open>In the first generations the difference wraps, so that every idle slot counts as older than the offset.\<close>

lemma young_generation_sweeps:
  assumes "gen < 100" "h a = Some s" "\<not> need_to_process s" "generation s \<le> gen"
  shows "stale gen h a"
proof -
  have "unat gen < 100" "unat (generation s) \<le> unat gen" using assms(1,4) by (simp_all add: word_less_nat_alt word_le_nat_alt)
  then have "generation s < gen - 100" by (simp add: word_less_nat_alt unat_sub_if_size word_size)
  then show ?thesis using assms(2,3) by (simp add: stale_def generation_offset_def)
qed

section \<open>The slot of a thread\<close>

text \<open>
  The address that \<open>new\<close> returns is a parameter, even and not in use. The destructor that the constructor of \<open>ThreadLocal\<close> is given is never
  registered, so that nothing happens to the slot when a thread ends without \<open>detach\<close>.
\<close>

record 'op fc_state =
  fc_slots :: "'op slots"
  fc_local :: "nat \<Rightarrow> u64"

definition local_get :: "nat \<Rightarrow> 'op fc_state \<Rightarrow> u64" where
  "local_get t st = fc_local st t"

definition local_set :: "nat \<Rightarrow> u64 \<Rightarrow> 'op fc_state \<Rightarrow> 'op fc_state" where
  "local_set t v st = st\<lparr>fc_local := (fc_local st)(t := v)\<rparr>"

definition get_slot :: "nat \<Rightarrow> u64 \<Rightarrow> 'op \<Rightarrow> 'op fc_state \<Rightarrow> fc_error + 'op \<times> 'op fc_state" where
  "get_slot t new op st =
     (let result = local_get t st in
      rbind (if result = 0 then
               rbind (throwing (TagedPointer 0 0)) (\<lambda>tmp.
                 Inr (new, local_set t new (st\<lparr>fc_slots := (fc_slots st)(new \<mapsto>
                   \<lparr>user_op = op, generation = 0, need_to_process = False, next_and_alive = tmp\<rparr>)\<rparr>)))
             else Inr (result, st))
        (\<lambda>(result, st'). rbind (slot_at (fc_slots st') result) (\<lambda>s. Inr (user_op s, st'))))"

definition orphan_slot :: "u64 \<Rightarrow> 'op slots \<Rightarrow> fc_error + 'op slots" where
  "orphan_slot a h =
     rbind (slot_next h a) (\<lambda>n.
       if n \<noteq> 0 then
         rbind (slot_at h a) (\<lambda>s. rbind (throwing (set_Tag 0 (next_and_alive s))) (\<lambda>tps.
           Inr (h(a \<mapsto> s\<lparr>next_and_alive := tps\<rparr>))))
       else Inr (h(a := None)))"

definition detach :: "nat \<Rightarrow> 'op fc_state \<Rightarrow> fc_error + 'op fc_state" where
  "detach t st =
     (let result = local_get t st;
          st1 = (if result \<noteq> 0 then local_set t 0 st else st) in
      rbind (orphan_slot result (fc_slots st1)) (\<lambda>h. Inr (st1\<lparr>fc_slots := h\<rparr>)))"

text \<open>The link that \<open>make_publication\<close> gives a slot before it breaks off: the tag is 0, as for a slot whose owner is gone.\<close>

definition publication_link :: "u64 \<Rightarrow> fc_error + u64" where
  "publication_link next_the_queue = throwing (TagedPointer next_the_queue 0)"

text \<open>A thread gives back a slot it has never published, a published one loses its tag, and without a slot the call crashes.\<close>

lemma detach_without_slot: "fc_local st t = 0 \<Longrightarrow> detach t st = Inl (Crash NullDeref)"
  by (simp add: detach_def local_get_def orphan_slot_def slot_next_def slot_at_def)

lemma detach_unpublished:
  assumes "fc_local st t = 0" "new \<noteq> 0" "fc_slots st new = None"
  shows "\<exists>st'. get_slot t new op st = Inr (op, st') \<and> detach t st' = Inr st"
proof -
  have "(fc_local st)(t := 0) = fc_local st" "(fc_slots st)(new := None) = fc_slots st" using assms by auto
  then show ?thesis using assms
    by (simp add: get_slot_def detach_def local_get_def local_set_def throwing_def TagedPointer_def slot_at_def orphan_slot_def
        slot_next_def get_ptr_def Let_def)
qed

lemma detach_published:
  assumes "fc_local st t = a" "a \<noteq> 0" "fc_slots st a = Some s" "get_ptr (next_and_alive s) \<noteq> 0"
  shows "\<exists>st'. detach t st = Inr st' \<and> fc_local st' t = 0 \<and>
    fc_slots st' = (fc_slots st)(a \<mapsto> s\<lparr>next_and_alive := get_ptr (next_and_alive s)\<rparr>)"
  using assms set_Tag_or [of 0 "next_and_alive s"]
  by (simp add: detach_def local_get_def local_set_def orphan_slot_def slot_next_def slot_at_Some throwing_def)

text \<open>
  A slot that was linked by \<open>make_publication\<close> is deleted once it is idle for long enough, though its owner still has it, and the next
  call of the owner reads freed memory.
\<close>

lemma live_slot_deleted:
  assumes "queue \<noteq> 0" "fc_slots st queue = Some q" "slot_list (fc_slots st) (next_and_alive q) as" "distinct (queue # as)"
    and "length (filter (pending (fc_slots st)) as) = qms"
    and "a \<in> set as" "a \<noteq> 0" "fc_slots st a = Some s" "stale gen (fc_slots st) a" "fc_local st t = a"
    and "publication_link n = Inr (next_and_alive s)" "aligned n" "n \<noteq> 0"
  shows "\<exists>h'. combining qms gen (fc_slots st) queue = Some (Inr (h', filter (pending (fc_slots st)) as)) \<and>
    get_slot t new op (st\<lparr>fc_slots := h'\<rparr>) = Inl (Crash UseAfterFree)"
proof -
  from combining_loop_exact [OF assms(1-4), of "[]" qms gen] obtain h' where
    h': "combining qms gen (fc_slots st) queue = Some (Inr (h', filter (pending (fc_slots st)) as))" "swept gen (fc_slots st) queue as h'"
    using assms(1,2,5) by (auto simp: combined_def combining_def slot_next_def slot_at_Some)
  have "next_and_alive s = n" using assms(11,13) by (auto simp: publication_link_def throwing_def TagedPointer_def)
  then have "get_Tag (next_and_alive s) = 0" using assms(12) by (simp add: get_Tag_bit aligned_def)
  then have "h' a = None" using h'(2) assms(6,8,9) by (auto simp: swept_def stale_def)
  then show ?thesis using h'(1) assms(7,10) by (auto simp: get_slot_def local_get_def slot_at_def Let_def)
qed

section \<open>Construction\<close>

text \<open>The two dummies the constructor allocates; the addresses are parameters. Conversion of the pointer to the tail gives tag 0.\<close>

definition FlatCombiner :: "u64 \<Rightarrow> u64 \<Rightarrow> 'op \<Rightarrow> fc_error + 'op slots \<times> u64" where
  "FlatCombiner dummy_head dummy_tail op =
     rbind (throwing (TagedPointer 0 0)) (\<lambda>tp. rbind (throwing (TagedPointer dummy_tail 1)) (\<lambda>tp_head.
     rbind (throwing (TagedPointer dummy_tail 0)) (\<lambda>conv.
       Inr ([dummy_head \<mapsto> \<lparr>user_op = op, generation = 0, need_to_process = False, next_and_alive = conv\<rparr>,
             dummy_tail \<mapsto> \<lparr>user_op = op, generation = 0, need_to_process = False, next_and_alive = tp\<rparr>], dummy_head))))"

text \<open>A batch on a new combiner runs off the end of the list.\<close>

lemma new_combiner_crashes:
  assumes "aligned dh" "aligned dt" "dh \<noteq> 0" "dt \<noteq> 0" "dh \<noteq> dt" "0 < qms"
  shows "\<exists>h. FlatCombiner dh dt op = Inr (h, dh) \<and> combining qms gen h dh = Some (Inl (Crash NullDeref))"
proof -
  let ?h = "[dh \<mapsto> \<lparr>user_op = op, generation = 0, need_to_process = False, next_and_alive = dt\<rparr>,
    dt \<mapsto> \<lparr>user_op = op, generation = 0, need_to_process = False, next_and_alive = 1\<rparr>]"
  have new: "FlatCombiner dh dt op = Inr (?h, dh)"
    using assms(4) by (simp add: FlatCombiner_def TagedPointer_def throwing_def)
  have "get_ptr dt = dt" using get_ptr_or [OF assms(2), of 0] by simp
  then have l: "slot_list ?h dt [dt]" using assms(4) by (simp add: get_ptr_def)
  have p: "filter (pending ?h) [dt] = []" by (simp add: pending_def)
  have "combined qms gen ?h dh [dt] [] (combining_loop qms gen ?h dh (get_ptr dt) [])"
    using combining_loop_exact [of dh ?h _ "[dt]" "[]" qms gen] assms(3,5) l by simp
  then have "combining_loop qms gen ?h dh (get_ptr dt) [] = Some (Inl (Crash NullDeref))"
    using p assms(6) by (simp add: combined_def)
  then have "combining qms gen ?h dh = Some (Inl (Crash NullDeref))"
    using assms(3,5) by (simp add: combining_def slot_next_def slot_at_def)
  with new show ?thesis by blast
qed

end
