(* ===== verification/Sem_Console.thy ===== *)
theory Sem_Console
  imports Prelude
begin

text \<open>
  The console over a set of semaphores (\<^verbatim>\<open>lecture_examples/7_ipc/8_sem.c\<close>): operations typed in one by one, or collected between \<open>begin\<close> and
  \<open>commit\<close> and given to the kernel at once. \<open>semop\<close> of the kernel applies all operations of its array or none. The inputs are the
  lines as \<open>getline\<close> delivers them; at the end of the input it fails and leaves the old line in the buffer.
\<close>

section \<open>Semaphores of the kernel\<close>

record sembuf =
  sem_num :: nat
  sem_op :: int

datatype semop_result = Done "nat list" | Sleeps | Fails

definition SEMVMX :: int where
  "SEMVMX = 32767"

fun semop_all :: "nat list \<Rightarrow> sembuf list \<Rightarrow> semop_result" where
  "semop_all vals [] = Done vals"
| "semop_all vals (op # ops) =
     (let v = int (vals ! sem_num op) + sem_op op in
      if v < 0 then Sleeps
      else if v > SEMVMX then Fails
      else semop_all (vals[sem_num op := nat v]) ops)"

definition semop :: "nat list \<Rightarrow> sembuf list \<Rightarrow> semop_result" where
  "semop vals ops =
     (if ops = [] \<or> (\<exists>op\<in>set ops. length vals \<le> sem_num op) then Fails else semop_all vals ops)"

section \<open>Reading a line\<close>

definition is_space :: "char \<Rightarrow> bool" where
  "is_space c \<longleftrightarrow> c = CHR '' '' \<or> (of_char c :: nat) \<in> {9, 10, 11, 12, 13}"

text \<open>What \<open>sscanf (line, "%d %c", \<dots>)\<close> converts; numbers that do not fit an \<open>int\<close> are outside the model.\<close>

definition scan_int :: "string \<Rightarrow> (int \<times> string) option" where
  "scan_int s =
     (let s1 = dropWhile is_space s;
          neg = (case s1 of c # _ \<Rightarrow> c = CHR ''-'' | [] \<Rightarrow> False);
          s2 = (case s1 of c # cs \<Rightarrow> if c = CHR ''-'' \<or> c = CHR ''+'' then cs else s1 | [] \<Rightarrow> []);
          ds = takeWhile is_digit s2 in
      if ds = [] then None
      else Some (if neg then - int (dec_val 0 ds) else int (dec_val 0 ds), dropWhile is_digit s2))"

definition sscanf_d_c :: "string \<Rightarrow> int option \<times> char option" where
  "sscanf_d_c s =
     (case scan_int s of
        None \<Rightarrow> (None, None)
      | Some (n, rest) \<Rightarrow> (Some n, case dropWhile is_space rest of [] \<Rightarrow> None | c # _ \<Rightarrow> Some c))"

section \<open>The console\<close>

datatype message = Values "nat list" | Error_message | Unknown_operation

record console =
  con_vals :: "nat list"
  con_ops :: "sembuf list"
  con_txn :: bool
  con_sem_num :: "int option"
  con_cmd :: "char option"
  con_out :: "message list"

definition init_sems :: "nat list" where
  "init_sems = [1, 2, 3]"

definition console_init :: console where
  "console_init = \<lparr>con_vals = init_sems, con_ops = [], con_txn = False, con_sem_num = None, con_cmd = None, con_out = []\<rparr>"

definition say :: "message \<Rightarrow> console \<Rightarrow> console" where
  "say m st = st\<lparr>con_out := con_out st @ [m]\<rparr>"

definition print_all_sems :: "console \<Rightarrow> console" where
  "print_all_sems st = say (Values (con_vals st)) st"

datatype turn = Goes_on console | Exits console | Asleep console

definition set_vars :: "int option \<times> char option \<Rightarrow> console \<Rightarrow> console" where
  "set_vars r st = st\<lparr>con_sem_num := (case fst r of None \<Rightarrow> con_sem_num st | n \<Rightarrow> n),
     con_cmd := (case snd r of None \<Rightarrow> con_cmd st | c \<Rightarrow> c)\<rparr>"

definition give_semop :: "sembuf list \<Rightarrow> (nat list \<Rightarrow> console) \<Rightarrow> console \<Rightarrow> turn" where
  "give_semop ops done st =
     (case semop (con_vals st) ops of
        Sleeps \<Rightarrow> Asleep st
      | Fails \<Rightarrow> Goes_on (say Error_message st)
      | Done vals \<Rightarrow> Goes_on (print_all_sems (done vals)))"

text \<open>
  The last branch: the variables keep their old values where the conversion fails, and the entry \<open>ops[ops_count]\<close> is written before the
  transaction is looked at.
\<close>

definition operation :: "string \<Rightarrow> console \<Rightarrow> fault + turn" where
  "operation line st0 =
     (let st = set_vars (sscanf_d_c line) st0 in
      case con_cmd st of
        None \<Rightarrow> Inl UninitRead
      | Some cmd \<Rightarrow>
          if cmd \<noteq> CHR ''-'' \<and> cmd \<noteq> CHR ''+'' then Inr (Goes_on (say Unknown_operation st))
          else if 100 \<le> length (con_ops st) then Inl OutOfBounds
          else (case con_sem_num st of
             None \<Rightarrow> Inl UninitRead
           | Some n \<Rightarrow>
               if n = -2147483648 then Inl SignedOverflow
               else
                 let op = \<lparr>sem_num = nat ((n - 1) mod 65536), sem_op = (if cmd = CHR ''-'' then -1 else 1)\<rparr> in
                 Inr (if \<not> con_txn st then give_semop [op] (\<lambda>vals. st\<lparr>con_vals := vals\<rparr>) st
                      else Goes_on (st\<lparr>con_ops := con_ops st @ [op]\<rparr>))))"

definition console_line :: "string \<Rightarrow> console \<Rightarrow> fault + turn" where
  "console_line line st =
     (if line = ''begin'' then Inr (Goes_on (st\<lparr>con_txn := True\<rparr>))
      else if line = ''commit'' then
        Inr (give_semop (con_ops st) (\<lambda>vals. st\<lparr>con_vals := vals, con_txn := False, con_ops := []\<rparr>) st)
      else if line = ''rollback'' then Inr (Goes_on (st\<lparr>con_txn := False, con_ops := []\<rparr>))
      else if line = ''delete'' \<or> line = ''quit'' then Inr (Exits st)
      else if line = ''show'' then Inr (Goes_on (print_all_sems st))
      else operation line st)"

text \<open>The loop of \<open>main\<close>: the last character of the line, its line end, is cut off. After the end of the input the same line is cut again.\<close>

definition trim :: "string \<Rightarrow> fault + string" where
  "trim line = (if line = '''' then Inl OutOfBounds else Inr (butlast line))"

function after_eof :: "string \<Rightarrow> console \<Rightarrow> fault + turn" where
  "after_eof line st =
     (case trim line of
        Inl e \<Rightarrow> Inl e
      | Inr line' \<Rightarrow>
          (case console_line line' st of
             Inr (Goes_on st') \<Rightarrow> after_eof line' st'
           | r \<Rightarrow> r))"
  by pat_completeness auto

termination
  by (relation "measure (\<lambda>(line, st). length line)") (auto simp: trim_def split: if_splits)

fun console_main :: "string list \<Rightarrow> string option \<Rightarrow> console \<Rightarrow> fault + turn" where
  "console_main [] None st = Inl UninitRead"
| "console_main [] (Some line) st = after_eof line st"
| "console_main (l # ls) _ st =
     (case trim l of
        Inl e \<Rightarrow> Inl e
      | Inr line \<Rightarrow>
          (case console_line line st of
             Inr (Goes_on st') \<Rightarrow> console_main ls (Some line) st'
           | r \<Rightarrow> r))"

declare after_eof.simps [simp del]

section \<open>Operations as they are typed\<close>

definition op_line :: "nat \<times> bool \<Rightarrow> string" where
  "op_line p = show_nat (fst p) @ (if snd p then '' +'' else '' -'')"

definition op_buf :: "nat \<times> bool \<Rightarrow> sembuf" where
  "op_buf p = \<lparr>sem_num = fst p - 1, sem_op = (if snd p then 1 else -1)\<rparr>"

definition op_vars :: "nat \<times> bool \<Rightarrow> int option \<times> char option" where
  "op_vars p = (Some (int (fst p)), Some (if snd p then CHR ''+'' else CHR ''-''))"

lemma digit_no_space: "is_digit c \<Longrightarrow> \<not> is_space c \<and> c \<noteq> CHR ''-'' \<and> c \<noteq> CHR ''+''"
  by (auto simp: is_digit_def is_space_def)

lemma show_nat_Cons: obtains c cs where "show_nat n = c # cs" "is_digit c" "list_all is_digit cs"
  using show_nat_digits [of n] show_nat_nonempty [of n] by (cases "show_nat n") auto

lemma scan_show_nat:
  assumes "\<not> is_digit c"
  shows "scan_int (show_nat n @ c # cs) = Some (int n, c # cs)"
proof -
  obtain d ds where d: "show_nat n = d # ds" "is_digit d" "list_all is_digit ds" by (rule show_nat_Cons)
  have all: "\<And>x. x \<in> set ds \<Longrightarrow> is_digit x" using d(3) by (simp add: list_all_iff)
  have "takeWhile is_digit (d # ds @ c # cs) = d # ds" "dropWhile is_digit (d # ds @ c # cs) = c # cs"
    using d(2) all assms by (simp_all add: takeWhile_append2 dropWhile_append2)
  moreover have "dec_val 0 (d # ds) = n" using dec_val_show_nat [of n] d(1) by (simp only:)
  ultimately show ?thesis using digit_no_space [OF d(2)] d(1) by (simp add: scan_int_def Let_def del: dec_val.simps)
qed

lemma scan_op_line: "sscanf_d_c (op_line p) = op_vars p"
proof -
  have "\<not> is_digit (CHR '' '')" "is_space (CHR '' '')" "\<not> is_space (CHR ''+'')" "\<not> is_space (CHR ''-'')"
    by (simp_all add: is_digit_def is_space_def)
  then show ?thesis by (simp add: op_line_def sscanf_d_c_def scan_show_nat op_vars_def)
qed

lemma op_line_command: "console_line (op_line p) = operation (op_line p)"
proof -
  obtain c cs where c: "show_nat (fst p) = c # cs" "is_digit c" by (rule show_nat_Cons)
  have "c \<noteq> CHR ''b'' \<and> c \<noteq> CHR ''c'' \<and> c \<noteq> CHR ''r'' \<and> c \<noteq> CHR ''d'' \<and> c \<noteq> CHR ''q'' \<and> c \<noteq> CHR ''s''"
    using c(2) by (auto simp: is_digit_def)
  then show ?thesis using c(1) by (auto simp: console_line_def op_line_def fun_eq_iff)
qed

definition valid_op :: "console \<Rightarrow> nat \<times> bool \<Rightarrow> bool" where
  "valid_op st p \<longleftrightarrow> 1 \<le> fst p \<and> fst p \<le> length (con_vals st) \<and> length (con_vals st) \<le> 65536"

lemma op_in_txn:
  assumes "valid_op st p" "con_txn st"
  shows "console_line (op_line p) st =
    (if 100 \<le> length (con_ops st) then Inl OutOfBounds
     else Inr (Goes_on ((set_vars (op_vars p) st)\<lparr>con_ops := con_ops st @ [op_buf p]\<rparr>)))"
proof -
  have "nat ((int (fst p) - 1) mod 65536) = fst p - 1" using assms(1) by (auto simp: valid_op_def)
  then show ?thesis using assms(2)
    by (auto simp: op_line_command operation_def scan_op_line set_vars_def op_vars_def op_buf_def Let_def)
qed

lemma op_alone:
  assumes "valid_op st p" "\<not> con_txn st" "con_ops st = []"
  shows "console_line (op_line p) st =
    Inr (give_semop [op_buf p] (\<lambda>vals. (set_vars (op_vars p) st)\<lparr>con_vals := vals\<rparr>) (set_vars (op_vars p) st))"
proof -
  have "nat ((int (fst p) - 1) mod 65536) = fst p - 1" using assms(1) by (auto simp: valid_op_def)
  then show ?thesis using assms(2,3)
    by (auto simp: op_line_command operation_def scan_op_line set_vars_def op_vars_def op_buf_def Let_def)
qed

text \<open>Lines typed one after the other; \<open>console_main\<close> does the same with the line ends.\<close>

fun typed :: "string list \<Rightarrow> console \<Rightarrow> fault + turn" where
  "typed [] st = Inr (Goes_on st)"
| "typed (l # ls) st = (case console_line l st of Inr (Goes_on st') \<Rightarrow> typed ls st' | r \<Rightarrow> r)"

lemma console_main_typed:
  "console_main (map (\<lambda>l. l @ [CHR 0x0A]) ls) prev st =
    (case typed ls st of Inr (Goes_on st') \<Rightarrow> console_main [] (if ls = [] then prev else Some (last ls)) st' | r \<Rightarrow> r)"
  by (induction ls arbitrary: prev st) (auto simp: trim_def split: sum.splits turn.splits)

lemma typed_append: "typed (ls @ ms) st = (case typed ls st of Inr (Goes_on st') \<Rightarrow> typed ms st' | r \<Rightarrow> r)"
  by (induction ls arbitrary: st) (auto split: sum.splits turn.splits)

section \<open>Transactions\<close>

lemma set_vars_fields [simp]:
  "con_vals (set_vars r st) = con_vals st" "con_ops (set_vars r st) = con_ops st" "con_txn (set_vars r st) = con_txn st"
  "con_out (set_vars r st) = con_out st"
  by (simp_all add: set_vars_def)

lemma print_fields [simp]:
  "con_vals (print_all_sems st) = con_vals st" "con_ops (print_all_sems st) = con_ops st" "con_txn (print_all_sems st) = con_txn st"
  "con_vals (say m st) = con_vals st" "con_ops (say m st) = con_ops st" "con_txn (say m st) = con_txn st"
  by (simp_all add: print_all_sems_def say_def)

lemma valid_op_cong: "length (con_vals st') = length (con_vals st) \<Longrightarrow> valid_op st' p = valid_op st p"
  by (simp add: valid_op_def)

lemma collect:
  assumes "\<forall>p\<in>set ps. valid_op st p" "con_txn st" "length (con_ops st) + length ps \<le> 100"
  shows "\<exists>st'. typed (map op_line ps) st = Inr (Goes_on st') \<and> con_ops st' = con_ops st @ map op_buf ps \<and> con_txn st' \<and>
    con_vals st' = con_vals st"
  using assms
proof (induction ps arbitrary: st)
  case (Cons p ps)
  let ?st = "(set_vars (op_vars p) st)\<lparr>con_ops := con_ops st @ [op_buf p]\<rparr>"
  have "\<forall>q\<in>set ps. valid_op ?st q" using Cons.prems(1) valid_op_cong [of ?st st] by simp
  then show ?case using Cons.IH [of ?st] Cons.prems op_in_txn [of st p] by simp
qed simp

lemma collect_overruns:
  assumes "\<forall>p\<in>set ps. valid_op st p" "con_txn st" "length (con_ops st) \<le> 100" "100 < length (con_ops st) + length ps"
  shows "typed (map op_line ps) st = Inl OutOfBounds"
  using assms
proof (induction ps arbitrary: st)
  case (Cons p ps)
  let ?st = "(set_vars (op_vars p) st)\<lparr>con_ops := con_ops st @ [op_buf p]\<rparr>"
  have "\<forall>q\<in>set ps. valid_op ?st q" using Cons.prems(1) valid_op_cong [of ?st st] by simp
  then show ?case using Cons.IH [of ?st] Cons.prems op_in_txn [of st p] by (cases "length (con_ops st) = 100") simp_all
qed simp

lemma one_by_one:
  assumes "\<forall>p\<in>set ps. valid_op st p" "\<not> con_txn st" "con_ops st = []" "semop_all (con_vals st) (map op_buf ps) = Done v"
  shows "\<exists>st'. typed (map op_line ps) st = Inr (Goes_on st') \<and> con_vals st' = v"
  using assms
proof (induction ps arbitrary: st)
  case (Cons p ps)
  let ?v = "int (con_vals st ! sem_num (op_buf p)) + sem_op (op_buf p)"
  let ?vals = "(con_vals st)[sem_num (op_buf p) := nat ?v]"
  let ?st = "print_all_sems ((set_vars (op_vars p) st)\<lparr>con_vals := ?vals\<rparr>)"
  have v: "0 \<le> ?v" "?v \<le> SEMVMX" and rest: "semop_all ?vals (map op_buf ps) = Done v"
    using Cons.prems(4) by (auto simp: Let_def split: if_splits)
  have "sem_num (op_buf p) < length (con_vals st)" using Cons.prems(1) by (auto simp: valid_op_def op_buf_def)
  then have "semop (con_vals st) [op_buf p] = Done ?vals" using v by (simp add: semop_def Let_def)
  then have step: "console_line (op_line p) st = Inr (Goes_on ?st)"
    using op_alone [of st p] Cons.prems by (simp add: give_semop_def)
  have "\<forall>q\<in>set ps. valid_op ?st q" using Cons.prems(1) valid_op_cong [of ?st st] by simp
  then show ?case using Cons.IH [of ?st] Cons.prems(2,3) rest step by simp
qed simp

text \<open>
  C32. A transaction is atomic: for up to 100 valid operations between \<open>begin\<close> and \<open>commit\<close>, if one after the other they can all be carried out, the
  transaction leaves the values that typing them one by one leaves; if not, no value has changed when the console waits or
  reports the error, the operations are still there, and \<open>rollback\<close> leads back to the start.
\<close>

theorem transaction_atomic:
  assumes "\<not> con_txn st" "con_ops st = []" "ps \<noteq> []" "length ps \<le> 100" "\<forall>p\<in>set ps. valid_op st p"
  shows "case semop_all (con_vals st) (map op_buf ps) of
      Done v \<Rightarrow> (\<exists>s1 s2. typed (''begin'' # map op_line ps @ [''commit'']) st = Inr (Goes_on s1) \<and>
        typed (map op_line ps) st = Inr (Goes_on s2) \<and> con_vals s1 = v \<and> con_vals s2 = v \<and> \<not> con_txn s1 \<and> con_ops s1 = [])
    | Sleeps \<Rightarrow> (\<exists>s1. typed (''begin'' # map op_line ps @ [''commit'']) st = Inr (Asleep s1) \<and> con_vals s1 = con_vals st)
    | Fails \<Rightarrow> (\<exists>s1 s2. typed (''begin'' # map op_line ps @ [''commit'']) st = Inr (Goes_on s1) \<and>
        con_vals s1 = con_vals st \<and> con_ops s1 = map op_buf ps \<and>
        typed [''rollback''] s1 = Inr (Goes_on s2) \<and> con_vals s2 = con_vals st \<and> \<not> con_txn s2 \<and> con_ops s2 = [])"
proof -
  let ?b = "st\<lparr>con_txn := True\<rparr>"
  have "\<forall>p\<in>set ps. valid_op ?b p" using assms(5) valid_op_cong [of ?b st] by simp
  then obtain s where s: "typed (map op_line ps) ?b = Inr (Goes_on s)" "con_ops s = map op_buf ps" "con_vals s = con_vals st"
    using collect [of ps ?b] assms(2,4) by auto
  have "console_line ''begin'' st = Inr (Goes_on ?b)" by (simp add: console_line_def)
  then have batch: "typed (''begin'' # map op_line ps @ [''commit'']) st = typed [''commit''] s"
    using s(1) by (simp add: typed_append)
  have "semop (con_vals st) (map op_buf ps) = semop_all (con_vals st) (map op_buf ps)"
    using assms(3,5) by (auto simp: semop_def valid_op_def op_buf_def)
  then have commit: "console_line ''commit'' s = (case semop_all (con_vals st) (map op_buf ps) of
      Sleeps \<Rightarrow> Inr (Asleep s) | Fails \<Rightarrow> Inr (Goes_on (say Error_message s))
    | Done vals \<Rightarrow> Inr (Goes_on (print_all_sems (s\<lparr>con_vals := vals, con_txn := False, con_ops := []\<rparr>))))"
    using s(2,3) by (simp add: console_line_def give_semop_def split: semop_result.split)
  show ?thesis
    using one_by_one [OF assms(5,1,2)] batch commit s(2,3)
    by (auto simp: console_line_def split: semop_result.split)
qed

theorem transaction_atomic_witness:
  "\<exists>s1. typed [''begin'', ''2 -'', ''3 +'', ''2 -'', ''commit''] console_init = Inr (Goes_on s1) \<and> con_vals s1 = [1, 0, 4]"
proof -
  let ?ps = "[(2, False), (3, True), (2, False)] :: (nat \<times> bool) list"
  have l: "map op_line ?ps = [''2 -'', ''3 +'', ''2 -'']"
    by (simp add: op_line_def show_nat.simps digit_char_def char_of_def bit_Suc_0_iff)
  have "semop_all (con_vals console_init) (map op_buf ?ps) = Done [1, 0, 4]"
    by (simp add: console_init_def init_sems_def op_buf_def SEMVMX_def Let_def)
  moreover have "\<forall>p\<in>set ?ps. valid_op console_init p" by (simp add: valid_op_def console_init_def init_sems_def)
  moreover have "\<not> con_txn console_init" "con_ops console_init = []" by (simp_all add: console_init_def)
  ultimately obtain s1 where
    "typed (''begin'' # map op_line ?ps @ [''commit'']) console_init = Inr (Goes_on s1)" "con_vals s1 = [1, 0, 4]"
    using transaction_atomic [of console_init ?ps] by (auto simp del: typed.simps list.map semop_all.simps)
  then show ?thesis unfolding l by (auto simp del: typed.simps)
qed

text \<open>The array of operations has no check.\<close>

lemma transaction_overruns:
  assumes "con_ops st = []" "100 < length ps" "\<forall>p\<in>set ps. valid_op st p"
  shows "typed (''begin'' # map op_line ps) st = Inl OutOfBounds"
proof -
  have "\<forall>p\<in>set ps. valid_op (st\<lparr>con_txn := True\<rparr>) p" using assms(3) valid_op_cong [of "st\<lparr>con_txn := True\<rparr>" st] by simp
  from collect_overruns [OF this] show ?thesis using assms(1,2) by (simp add: console_line_def)
qed

text \<open>
  At the end of the input the last line is taken again, one character shorter each time, and what its scan does not deliver is left from
  the operation before: \<open>1 -\<close> is carried out two more times, the fourth attempt waits for ever.
\<close>

lemma last_line_again:
  "\<exists>st. console_main [''1 -'' @ [CHR 0x0A]] None (console_init\<lparr>con_vals := [3, 2, 3]\<rparr>) = Inr (Asleep st) \<and> con_vals st = [0, 2, 3]"
proof -
  have scans: "sscanf_d_c ''1 -'' = (Some 1, Some (CHR ''-''))" "sscanf_d_c ''1 '' = (Some 1, None)" "sscanf_d_c ''1'' = (Some 1, None)"
    "sscanf_d_c '''' = (None, None)"
    by (simp_all add: sscanf_d_c_def scan_int_def is_space_def is_digit_def digit_val_def Let_def)
  show ?thesis
    by (simp add: after_eof.simps trim_def console_line_def operation_def scans set_vars_def give_semop_def semop_def SEMVMX_def
        print_all_sems_def say_def console_init_def Let_def)
qed

end
