(* ===== verification/Spin_Lock.thy ===== *)
theory Spin_Lock
  imports Prelude
begin

text \<open>
  The two attempts of the lecture to let only one of six threads fill a string (\<^verbatim>\<open>lecture_examples/6_threads/6_bad_lock.c\<close>, \<^verbatim>\<open>7_spin_lock.c\<close>).
  A schedule is the list of the threads that move; each access to the shared structure is one step. The flag \<open>start\<close> only
  delays the threads and is the choice of a schedule.
\<close>

section \<open>The shared structure\<close>

record complex_thing =
  thing_lock :: bool
  thing_string :: "char list"

text \<open>\<open>sizeof(thing.string) - 1\<close>, the characters that are written; the last one stays 0.\<close>

definition STRING :: nat where
  "STRING = 127"

definition letter :: "nat \<Rightarrow> char" where
  "letter k = char_of (97 + k)"

datatype spin_pc = S_Lock | S_Write nat | S_Unlock | S_Done

record spin_conf =
  thing :: complex_thing
  spin_pc :: "nat \<Rightarrow> spin_pc"

definition spin_init :: spin_conf where
  "spin_init = \<lparr>thing = \<lparr>thing_lock = False, thing_string = replicate 128 (CHR 0x00)\<rparr>, spin_pc = (\<lambda>t. S_Lock)\<rparr>"

definition spin_to :: "nat \<Rightarrow> spin_pc \<Rightarrow> spin_conf \<Rightarrow> spin_conf" where
  "spin_to t p c = c\<lparr>spin_pc := (spin_pc c)(t := p)\<rparr>"

text \<open>One turn of the writing loop.\<close>

definition write_char :: "nat \<Rightarrow> nat \<Rightarrow> complex_thing \<Rightarrow> complex_thing" where
  "write_char k i th = th\<lparr>thing_string := (thing_string th)[i := letter k]\<rparr>"

definition thread_f :: "nat \<Rightarrow> spin_conf \<Rightarrow> spin_conf" where
  "thread_f k c =
     (case spin_pc c k of
        S_Lock \<Rightarrow>
          if \<not> thing_lock (thing c) then spin_to k (S_Write 0) (c\<lparr>thing := (thing c)\<lparr>thing_lock := True\<rparr>\<rparr>)
          else spin_to k S_Done c
      | S_Write i \<Rightarrow>
          if i < STRING then spin_to k (S_Write (i + 1)) (c\<lparr>thing := write_char k i (thing c)\<rparr>)
          else spin_to k S_Unlock c
      | S_Unlock \<Rightarrow>
          spin_to k S_Done (if thing_lock (thing c) then c\<lparr>thing := (thing c)\<lparr>thing_lock := False\<rparr>\<rparr> else c)
      | S_Done \<Rightarrow> c)"

definition spin_run :: "nat list \<Rightarrow> spin_conf" where
  "spin_run ts = fold thread_f ts spin_init"

section \<open>One thread writes at a time\<close>

definition filled :: "nat \<Rightarrow> char list" where
  "filled k = replicate STRING (letter k) @ [CHR 0x00]"

definition busy :: "spin_conf \<Rightarrow> nat \<Rightarrow> bool" where
  "busy c t \<longleftrightarrow> spin_pc c t = S_Unlock \<or> (\<exists>i. spin_pc c t = S_Write i)"

text \<open>
  Either one thread is busy, has the lock and has written the beginning of the string, or no thread is busy and the string is as one of them
  has left it; it is empty only as long as no thread is done.
\<close>

definition writing :: "spin_conf \<Rightarrow> nat \<Rightarrow> bool" where
  "writing c t \<longleftrightarrow> thing_lock (thing c) \<and> (\<forall>u. busy c u \<longleftrightarrow> u = t) \<and>
     length (thing_string (thing c)) = 128 \<and> thing_string (thing c) ! 127 = CHR 0x00 \<and>
     (case spin_pc c t of S_Write i \<Rightarrow> i \<le> STRING \<and> take i (thing_string (thing c)) = replicate i (letter t)
      | _ \<Rightarrow> thing_string (thing c) = filled t)"

definition resting :: "nat set \<Rightarrow> spin_conf \<Rightarrow> bool" where
  "resting ids c \<longleftrightarrow> \<not> thing_lock (thing c) \<and> (\<forall>u. \<not> busy c u) \<and>
     ((\<exists>t\<in>ids. thing_string (thing c) = filled t) \<or>
      thing_string (thing c) = replicate 128 (CHR 0x00) \<and> (\<forall>u. spin_pc c u \<noteq> S_Done))"

definition spin_inv :: "nat set \<Rightarrow> spin_conf \<Rightarrow> bool" where
  "spin_inv ids c \<longleftrightarrow> resting ids c \<or> (\<exists>t\<in>ids. writing c t)"

lemma writing_busy: "writing c t \<Longrightarrow> busy c t"
  by (simp add: writing_def)

lemma filled_length: "length (filled t) = 128" "filled t ! 127 = CHR 0x00"
  by (simp_all add: filled_def STRING_def nth_append)

lemma written_all:
  assumes "length s = 128" "s ! 127 = CHR 0x00" "take STRING s = replicate STRING (letter t)"
  shows "s = filled t"
proof -
  have "drop STRING s = [s ! 127]" using assms(1) by (simp add: STRING_def Cons_nth_drop_Suc [symmetric])
  then show ?thesis using append_take_drop_id [of STRING s] assms(2,3) by (simp add: filled_def)
qed

lemma written_more:
  "i < length s \<Longrightarrow> take i s = replicate i x \<Longrightarrow> take (Suc i) (s[i := x]) = replicate (Suc i) x"
  by (simp add: take_Suc_conv_app_nth replicate_append_same)

lemma resting_step:
  assumes "resting ids c" "t \<in> ids"
  shows "spin_inv ids (thread_f t c)"
proof -
  have p: "spin_pc c t = S_Lock \<or> spin_pc c t = S_Done" using assms(1) by (cases "spin_pc c t") (auto simp: resting_def busy_def)
  show ?thesis
  proof (cases "spin_pc c t = S_Lock")
    case True
    have "length (thing_string (thing c)) = 128 \<and> thing_string (thing c) ! 127 = CHR 0x00"
      using assms(1) filled_length by (auto simp: resting_def)
    then have "writing (thread_f t c) t"
      using assms(1) True by (auto simp: resting_def writing_def thread_f_def spin_to_def busy_def)
    then show ?thesis using assms(2) by (auto simp: spin_inv_def)
  next
    case False
    then show ?thesis using p assms(1) by (simp add: thread_f_def spin_inv_def)
  qed
qed

lemma writing_other:
  assumes "writing c w" "t \<noteq> w"
  shows "writing (thread_f t c) w"
proof -
  have "\<not> busy c t" "thing_lock (thing c)" using assms by (auto simp: writing_def)
  then have "thread_f t c = spin_to t S_Done c"
    by (cases "spin_pc c t") (auto simp: busy_def thread_f_def spin_to_def fun_upd_idem)
  moreover have "busy (spin_to t S_Done c) u = busy c u" for u using \<open>\<not> busy c t\<close> by (auto simp: busy_def spin_to_def)
  ultimately show ?thesis using assms by (auto simp: writing_def spin_to_def split: spin_pc.splits)
qed

lemma writing_self:
  assumes "writing c t" "t \<in> ids"
  shows "spin_inv ids (thread_f t c)"
proof (cases "spin_pc c t")
  case (S_Write i)
  note w = assms(1) [unfolded writing_def]
  have others: "busy (thread_f t c) u \<longleftrightarrow> u = t" for u using w S_Write by (auto simp: thread_f_def spin_to_def busy_def)
  have "writing (thread_f t c) t"
  proof (cases "i < STRING")
    case True
    have "take (Suc i) ((thing_string (thing c))[i := letter t]) = replicate (Suc i) (letter t)"
      using w S_Write True by (intro written_more) (auto simp: STRING_def)
    then show ?thesis using w S_Write True others
      by (auto simp: writing_def thread_f_def spin_to_def write_char_def STRING_def)
  next
    case False
    then have "thing_string (thing c) = filled t" using w S_Write by (intro written_all) auto
    then show ?thesis using w S_Write False others by (simp add: writing_def thread_f_def spin_to_def)
  qed
  then show ?thesis using assms(2) by (auto simp: spin_inv_def)
next
  case S_Unlock
  then have "resting ids (thread_f t c)"
    using assms by (auto simp: writing_def resting_def thread_f_def spin_to_def busy_def)
  then show ?thesis by (simp add: spin_inv_def)
qed (use assms writing_busy [of c t] in \<open>auto simp: busy_def\<close>)

lemma thread_f_inv: "spin_inv ids c \<Longrightarrow> t \<in> ids \<Longrightarrow> spin_inv ids (thread_f t c)"
  using resting_step writing_self writing_other unfolding spin_inv_def by metis

lemma spin_run_inv: "set ts \<subseteq> ids \<Longrightarrow> spin_inv ids (spin_run ts)"
proof (induction ts rule: rev_induct)
  case Nil
  then show ?case by (simp add: spin_run_def spin_init_def spin_inv_def resting_def busy_def)
qed (auto simp: spin_run_def thread_f_inv)

text \<open>
  The spin lock works: whatever the schedule of the threads \<open>ids\<close>, at most one is between taking and giving back the lock, and
  when all of them are done the string that \<open>main\<close> prints is 127 times the letter of one of them.
\<close>

theorem spin_lock_uniform:
  assumes "set ts \<subseteq> ids"
  shows "(busy (spin_run ts) t \<longrightarrow> busy (spin_run ts) u \<longrightarrow> t = u) \<and>
    (ids \<noteq> {} \<and> (\<forall>t\<in>ids. spin_pc (spin_run ts) t = S_Done) \<longrightarrow> (\<exists>k\<in>ids. thing_string (thing (spin_run ts)) = filled k))"
proof -
  have inv: "spin_inv ids (spin_run ts)" by (rule spin_run_inv [OF assms])
  then have one: "busy (spin_run ts) t \<Longrightarrow> busy (spin_run ts) u \<Longrightarrow> t = u"
    by (auto simp: spin_inv_def resting_def writing_def)
  have "\<exists>k\<in>ids. thing_string (thing (spin_run ts)) = filled k" if "ids \<noteq> {}" "\<forall>t\<in>ids. spin_pc (spin_run ts) t = S_Done"
  proof -
    have "\<not> writing (spin_run ts) t" if "t \<in> ids" for t
      using that writing_busy [of "spin_run ts" t] \<open>\<forall>t\<in>ids. _\<close> by (auto simp: busy_def)
    then have "resting ids (spin_run ts)" using inv by (auto simp: spin_inv_def)
    then show ?thesis using that by (auto simp: resting_def)
  qed
  with one show ?thesis by blast
qed

theorem spin_lock_uniform_witness:
  "busy (spin_run [2, 5, 2]) 2 \<and> \<not> busy (spin_run [2, 5, 2]) 5 \<and> thing_string (thing (spin_run [2, 5, 2])) ! 0 = CHR ''c''"
proof -
  have s: "busy (spin_run [2, 5, 2]) 2" "thing_string (thing (spin_run [2, 5, 2])) ! 0 = CHR ''c''"
    by (simp_all add: spin_run_def spin_init_def thread_f_def spin_to_def busy_def write_char_def STRING_def letter_def char_of_def bit_simps)
  moreover have "\<not> busy (spin_run [2, 5, 2]) 5"
    using spin_lock_uniform [of "[2, 5, 2]" "{2, 5}" 2 5] s(1) by auto
  ultimately show ?thesis by simp
qed

section \<open>The lock that is not one\<close>

text \<open>The first attempt looks at the lock, takes it in a second step and never gives it back.\<close>

datatype bad_pc = T_Check | T_Set | T_Write nat | T_Done

record bad_conf =
  bad_thing :: complex_thing
  bad_pc :: "nat \<Rightarrow> bad_pc"

definition bad_init :: bad_conf where
  "bad_init = \<lparr>bad_thing = \<lparr>thing_lock = False, thing_string = replicate 128 (CHR 0x00)\<rparr>, bad_pc = (\<lambda>t. T_Check)\<rparr>"

definition bad_to :: "nat \<Rightarrow> bad_pc \<Rightarrow> bad_conf \<Rightarrow> bad_conf" where
  "bad_to t p c = c\<lparr>bad_pc := (bad_pc c)(t := p)\<rparr>"

definition bad_thread_f :: "nat \<Rightarrow> bad_conf \<Rightarrow> bad_conf" where
  "bad_thread_f k c =
     (case bad_pc c k of
        T_Check \<Rightarrow> bad_to k (if \<not> thing_lock (bad_thing c) then T_Set else T_Done) c
      | T_Set \<Rightarrow> bad_to k (T_Write 0) (c\<lparr>bad_thing := (bad_thing c)\<lparr>thing_lock := True\<rparr>\<rparr>)
      | T_Write i \<Rightarrow>
          if i < STRING then bad_to k (T_Write (i + 1)) (c\<lparr>bad_thing := write_char k i (bad_thing c)\<rparr>)
          else bad_to k T_Done c
      | T_Done \<Rightarrow> c)"

definition bad_run :: "nat list \<Rightarrow> bad_conf" where
  "bad_run ts = fold bad_thread_f ts bad_init"

lemma bad_writes:
  assumes "bad_pc c t = T_Write i" "i + n \<le> STRING" "length (thing_string (bad_thing c)) = 128"
  shows "bad_pc (fold bad_thread_f (replicate n t) c) = (bad_pc c)(t := T_Write (i + n)) \<and>
    length (thing_string (bad_thing (fold bad_thread_f (replicate n t) c))) = 128 \<and>
    (\<forall>j. thing_string (bad_thing (fold bad_thread_f (replicate n t) c)) ! j =
      (if i \<le> j \<and> j < i + n then letter t else thing_string (bad_thing c) ! j))"
  using assms
proof (induction n arbitrary: c i)
  case (Suc n)
  have step: "bad_thread_f t c = bad_to t (T_Write (Suc i)) (c\<lparr>bad_thing := write_char t i (bad_thing c)\<rparr>)" (is "_ = ?c")
    using Suc.prems by (simp add: bad_thread_f_def)
  have c: "bad_pc ?c t = T_Write (Suc i)" "Suc i + n \<le> STRING" "length (thing_string (bad_thing ?c)) = 128"
    "bad_pc ?c = (bad_pc c)(t := T_Write (Suc i))"
    "\<And>j. thing_string (bad_thing ?c) ! j = (if j = i then letter t else thing_string (bad_thing c) ! j)"
    using Suc.prems by (auto simp: bad_to_def write_char_def nth_list_update STRING_def)
  show ?case using Suc.IH [OF c(1-3)] c(4,5) step by auto
qed (auto simp: fun_upd_idem)

lemma bad_done: "bad_pc c t = T_Write STRING \<Longrightarrow> bad_thread_f t c = bad_to t T_Done c"
  by (simp add: bad_thread_f_def)

text \<open>With two threads that both find the lock free the string is mixed from both letters.\<close>

lemma bad_lock_mixes:
  "\<exists>ts. bad_pc (bad_run ts) 0 = T_Done \<and> bad_pc (bad_run ts) 1 = T_Done \<and>
     thing_string (bad_thing (bad_run ts)) ! 0 = letter 1 \<and> thing_string (bad_thing (bad_run ts)) ! 126 = letter 0"
proof -
  define c0 where "c0 = fold bad_thread_f [0, 1, 0, 1] bad_init"
  have c0: "bad_pc c0 0 = T_Write 0" "bad_pc c0 1 = T_Write 0" "length (thing_string (bad_thing c0)) = 128"
    by (simp_all add: c0_def bad_init_def bad_thread_f_def bad_to_def)
  define c1 where "c1 = fold bad_thread_f (replicate 1 0) c0"
  have c1: "bad_pc c1 0 = T_Write 1" "bad_pc c1 1 = T_Write 0" "length (thing_string (bad_thing c1)) = 128"
    using bad_writes [OF c0(1) _ c0(3), of 1] c0(2) by (simp_all only: c1_def) (simp_all add: STRING_def)
  define c2 where "c2 = fold bad_thread_f (replicate STRING 1) c1"
  have c2: "bad_pc c2 0 = T_Write 1" "bad_pc c2 1 = T_Write STRING" "length (thing_string (bad_thing c2)) = 128"
    "thing_string (bad_thing c2) ! 0 = letter 1"
    using bad_writes [OF c1(2) _ c1(3), of STRING] c1(1) by (simp_all add: c2_def STRING_def)
  define c3 where "c3 = bad_to 1 T_Done c2"
  have c3: "bad_pc c3 0 = T_Write 1" "bad_pc c3 1 = T_Done" "length (thing_string (bad_thing c3)) = 128"
    "thing_string (bad_thing c3) ! 0 = letter 1" using c2 by (simp_all add: c3_def bad_to_def)
  define c4 where "c4 = fold bad_thread_f (replicate 126 0) c3"
  have c4: "bad_pc c4 0 = T_Write STRING" "bad_pc c4 1 = T_Done"
    "thing_string (bad_thing c4) ! 0 = letter 1" "thing_string (bad_thing c4) ! 126 = letter 0"
    using bad_writes [OF c3(1) _ c3(3), of 126] c3(2,4) by (simp_all add: c4_def STRING_def)
  let ?ts = "[0, 1, 0, 1] @ replicate 1 0 @ replicate STRING 1 @ [1] @ replicate 126 0 @ [0]"
  have "bad_thread_f 1 c2 = c3" using bad_done [OF c2(2)] by (simp only: c3_def)
  moreover have "bad_thread_f 1 (bad_thread_f 0 (bad_thread_f 1 (bad_thread_f 0 bad_init))) = c0" by (simp only: c0_def fold_simps)
  ultimately have "bad_run ?ts = bad_to 0 T_Done c4"
    using bad_done [OF c4(1)]
    by (simp only: bad_run_def fold_append comp_apply fold_simps c1_def [symmetric] c2_def [symmetric] c4_def [symmetric])
  then show ?thesis using c4 by (intro exI [of _ ?ts]) (simp add: bad_to_def)
qed

end
