(* ===== verification/Message_Queue.thy ===== *)
theory Message_Queue
  imports Sem_Events
begin

text \<open>
  A client and a server over a message queue (\<^verbatim>\<open>lecture_examples/7_ipc/7_msgsend_client.c\<close>, \<^verbatim>\<open>7_msgsend_server.c\<close>, \<^verbatim>\<open>7_msgsend_server_flag.c\<close>): the
  server asks for the messages by type, not in the order they were sent. Packing and unpacking are the functions of the
  events, which the files share word for word.
\<close>

section \<open>Selection by type\<close>

type_synonym qmsg = "long \<times> octet list"

fun take_first :: "(qmsg \<Rightarrow> bool) \<Rightarrow> qmsg list \<Rightarrow> (qmsg \<times> qmsg list) option" where
  "take_first P [] = None"
| "take_first P (m # ms) =
     (if P m then Some (m, ms) else case take_first P ms of None \<Rightarrow> None | Some (x, rest) \<Rightarrow> Some (x, m # rest))"

text \<open>\<open>msgrcv\<close>: the first message, the first one of a type, or the first one of the lowest type up to a bound.\<close>

definition msgrcv :: "int \<Rightarrow> qmsg list \<Rightarrow> (qmsg \<times> qmsg list) option" where
  "msgrcv type q =
     (if type = 0 then take_first (\<lambda>m. True) q
      else if type > 0 then take_first (\<lambda>m. sint (fst m) = type) q
      else (case filter (\<lambda>t. t \<le> - type) (map (\<lambda>m. sint (fst m)) q) of
          [] \<Rightarrow> None
        | t # ts \<Rightarrow> take_first (\<lambda>m. sint (fst m) = fold min ts t) q))"

text \<open>\<open>recv_msg\<close> of the server: the type it unpacks from the buffer is the one of the message.\<close>

definition server_recv :: "int \<Rightarrow> qmsg list \<Rightarrow> (fault + (long \<times> octet list) \<times> qmsg list) option" where
  "server_recv type q =
     (case msgrcv type q of
        None \<Rightarrow> None
      | Some (m, rest) \<Rightarrow> Some (rbind (recv_msg m) (\<lambda>msg. rbind (unpack_msg msg) (\<lambda>r. Inr (r, rest)))))"

section \<open>Client and server\<close>

text \<open>The calls of the client's \<open>main\<close>; every text is sent with its final 0.\<close>

definition chars :: "string \<Rightarrow> octet list" where
  "chars s = map of_char s @ [0]"

definition client_calls :: "(long \<times> octet list) list" where
  "client_calls = [(100, chars ''hello, world''), (50, chars ''hello, world of type 50''), (60, chars ''hello, world of type 60'')]"

definition server_calls :: "int list" where
  "server_calls = [0, 60, -200]"

record mq_conf =
  mq_queue :: "qmsg list"
  mq_sent :: nat
  mq_received :: "(long \<times> octet list) list"
  mq_fault :: "fault option"

definition mq_init :: mq_conf where
  "mq_init = \<lparr>mq_queue = [], mq_sent = 0, mq_received = [], mq_fault = None\<rparr>"

text \<open>
  A step of the client is a \<open>send_msg\<close>, \<open>junk n\<close> being what its buffer holds in the \<open>n\<close>-th call; a step of the server is a \<open>recv_msg\<close>, which waits,
  or tries again in the version with \<open>IPC_NOWAIT\<close>, while there is no message of the type.
\<close>

definition client_step :: "(nat \<Rightarrow> octet list) \<Rightarrow> mq_conf \<Rightarrow> mq_conf" where
  "client_step junk c =
     (if mq_sent c < length client_calls then
        (let (type, data) = client_calls ! mq_sent c in
         case send_msg (junk (mq_sent c)) type data of
           Inl e \<Rightarrow> c\<lparr>mq_fault := Some e\<rparr>
         | Inr m \<Rightarrow> c\<lparr>mq_queue := mq_queue c @ [m], mq_sent := mq_sent c + 1\<rparr>)
      else c)"

definition server_step :: "mq_conf \<Rightarrow> mq_conf" where
  "server_step c =
     (if length (mq_received c) < length server_calls then
        (case server_recv (server_calls ! length (mq_received c)) (mq_queue c) of
           None \<Rightarrow> c
         | Some (Inl e) \<Rightarrow> c\<lparr>mq_fault := Some e\<rparr>
         | Some (Inr (r, rest)) \<Rightarrow> c\<lparr>mq_queue := rest, mq_received := mq_received c @ [r]\<rparr>)
      else c)"

text \<open>A schedule tells for every step whether the client moves.\<close>

definition mq_run :: "(nat \<Rightarrow> octet list) \<Rightarrow> bool list \<Rightarrow> mq_conf" where
  "mq_run junk sched = fold (\<lambda>b. if b then client_step junk else server_step) sched mq_init"

section \<open>The order does not depend on the schedule\<close>

lemma sent_message:
  assumes "length data \<le> 492" "length junk = 512"
  shows "\<exists>body. send_msg junk type data = Inr (type, body) \<and> rbind (recv_msg (type, body)) unpack_msg = Inr (type, data)"
proof -
  have rt: "rbind (send_msg junk type data) (\<lambda>m. rbind (recv_msg m) unpack_msg) = Inr (type, data)"
    by (rule event_message_roundtrip [OF assms])
  then obtain m where m: "send_msg junk type data = Inr m" by (cases "send_msg junk type data") auto
  then have "fst m = type"
    by (auto simp: send_msg_def pack_msg_def Let_def le_long_bytes rbind_Inr_iff split: if_splits)
  then show ?thesis using m rt by (cases m) auto
qed

definition call_msg :: "(nat \<Rightarrow> octet list) \<Rightarrow> nat \<Rightarrow> qmsg" where
  "call_msg junk n = projr (send_msg (junk n) (fst (client_calls ! n)) (snd (client_calls ! n)))"

lemma call_msg:
  assumes "n < 3" "length (junk n) = 512"
  shows "send_msg (junk n) (fst (client_calls ! n)) (snd (client_calls ! n)) = Inr (call_msg junk n)"
    and "fst (call_msg junk n) = fst (client_calls ! n)"
    and "rbind (recv_msg (call_msg junk n)) unpack_msg = Inr (client_calls ! n)"
proof -
  have "length (snd (client_calls ! n)) \<le> 492" using assms(1) by (auto simp: client_calls_def chars_def less_Suc_eq numeral_eq_Suc)
  from sent_message [OF this assms(2), of "fst (client_calls ! n)"] obtain body where
    t: "send_msg (junk n) (fst (client_calls ! n)) (snd (client_calls ! n)) = Inr (fst (client_calls ! n), body)"
      "rbind (recv_msg (fst (client_calls ! n), body)) unpack_msg = Inr (client_calls ! n)" by auto
  then have c: "call_msg junk n = (fst (client_calls ! n), body)" by (simp add: call_msg_def)
  show "send_msg (junk n) (fst (client_calls ! n)) (snd (client_calls ! n)) = Inr (call_msg junk n)"
    and "fst (call_msg junk n) = fst (client_calls ! n)"
    and "rbind (recv_msg (call_msg junk n)) unpack_msg = Inr (client_calls ! n)"
    using t by (simp_all add: c)
qed

text \<open>What is in the queue after \<open>n\<close> messages and \<open>k\<close> answers.\<close>

definition mq_inv :: "(nat \<Rightarrow> octet list) \<Rightarrow> mq_conf \<Rightarrow> bool" where
  "mq_inv junk c \<longleftrightarrow> mq_fault c = None \<and> mq_sent c \<le> 3 \<and>
     (let q = map (call_msg junk) [0..<mq_sent c]; r = client_calls in
      mq_received c = [] \<and> mq_queue c = q \<or>
      mq_received c = [r ! 0] \<and> 1 \<le> mq_sent c \<and> mq_queue c = tl q \<or>
      mq_received c = [r ! 0, r ! 2] \<and> mq_sent c = 3 \<and> mq_queue c = [call_msg junk 1] \<or>
      mq_received c = [r ! 0, r ! 2, r ! 1] \<and> mq_sent c = 3 \<and> mq_queue c = [])"

lemma three_msgs:
  assumes "\<forall>n<3. length (junk n) = 512"
  shows "fst (call_msg junk 0) = 100" "fst (call_msg junk 1) = 50" "fst (call_msg junk 2) = 60"
  using call_msg(2) [of 0 junk] call_msg(2) [of 1 junk] call_msg(2) [of 2 junk] assms by (simp_all add: client_calls_def)

lemma server_recv_call:
  assumes "\<forall>n<3. length (junk n) = 512" "n < 3" "msgrcv type q = Some (call_msg junk n, rest)"
  shows "server_recv type q = Some (Inr (client_calls ! n, rest))"
proof -
  have "rbind (recv_msg (call_msg junk n)) (\<lambda>msg. rbind (unpack_msg msg) f) = f (client_calls ! n)" for f :: "_ \<Rightarrow> fault + 'x"
    using call_msg(3) [of n junk] assms(1,2) by (metis rbind.simps(2) rbind_assoc)
  then show ?thesis using assms(3) by (simp add: server_recv_def)
qed

lemma client_inv:
  assumes "\<forall>n<3. length (junk n) = 512" "mq_inv junk c"
  shows "mq_inv junk (client_step junk c) \<and> mq_sent (client_step junk c) = min 3 (mq_sent c + 1)"
proof (cases "mq_sent c < 3")
  case True
  have l: "length client_calls = 3" by (simp add: client_calls_def)
  have "client_step junk c = c\<lparr>mq_queue := mq_queue c @ [call_msg junk (mq_sent c)], mq_sent := mq_sent c + 1\<rparr>"
    using call_msg(1) [of "mq_sent c" junk] True assms(1) l by (simp add: client_step_def case_prod_unfold)
  moreover have "tl (map (call_msg junk) [0..<mq_sent c]) @ [call_msg junk (mq_sent c)] = tl (map (call_msg junk) [0..<mq_sent c + 1])"
    if "1 \<le> mq_sent c" using that by (cases "map (call_msg junk) [0..<mq_sent c]") auto
  ultimately show ?thesis using assms(2) True by (auto simp: mq_inv_def Let_def)
qed (use assms in \<open>auto simp: client_step_def client_calls_def mq_inv_def\<close>)

definition server_moves :: "(nat \<Rightarrow> octet list) \<Rightarrow> mq_conf \<Rightarrow> bool" where
  "server_moves junk c \<longleftrightarrow> mq_inv junk (server_step c) \<and> mq_sent (server_step c) = mq_sent c \<and>
     (mq_sent c = 3 \<longrightarrow> length (mq_received (server_step c)) = min 3 (length (mq_received c) + 1))"

lemma upt_three: "[0..<3] = [0, 1, 2 :: nat]" "[0..<2] = [0, 1 :: nat]"
  by (simp_all add: upt_rec)

lemma server_first:
  assumes junk: "\<forall>n<3. length (junk n) = 512" and inv: "mq_inv junk c"
    and c: "mq_received c = []" "mq_queue c = map (call_msg junk) [0..<mq_sent c]"
  shows "server_moves junk c"
proof (cases "mq_sent c = 0")
  case True
  then show ?thesis using c inv by (simp add: server_moves_def server_step_def server_recv_def msgrcv_def server_calls_def)
next
  case False
  let ?q = "map (call_msg junk) [0..<mq_sent c]"
  have "msgrcv 0 ?q = Some (call_msg junk 0, tl ?q)" using False by (simp add: msgrcv_def upt_rec [of 0])
  from server_recv_call [OF junk _ this] have "server_step c = c\<lparr>mq_queue := tl ?q, mq_received := [client_calls ! 0]\<rparr>"
    using c by (simp add: server_step_def server_calls_def)
  then show ?thesis using inv False c by (simp add: server_moves_def mq_inv_def Let_def)
qed

lemma server_second:
  assumes junk: "\<forall>n<3. length (junk n) = 512" and inv: "mq_inv junk c"
    and c: "mq_received c = [client_calls ! 0]" "1 \<le> mq_sent c" "mq_queue c = tl (map (call_msg junk) [0..<mq_sent c])"
  shows "server_moves junk c"
proof (cases "mq_sent c = 3")
  case False
  have "mq_sent c = 1 \<or> mq_sent c = 2" using inv c(2) False by (auto simp: mq_inv_def)
  then have "msgrcv 60 (mq_queue c) = None" using c(3) three_msgs [OF junk] by (auto simp: msgrcv_def upt_three)
  then have "server_step c = c" using c by (simp add: server_step_def server_recv_def server_calls_def)
  then show ?thesis using inv False by (simp add: server_moves_def)
next
  case True
  then have "msgrcv 60 (mq_queue c) = Some (call_msg junk 2, [call_msg junk 1])"
    using c(3) three_msgs [OF junk] by (simp add: msgrcv_def upt_three)
  from server_recv_call [OF junk _ this] have
    "server_step c = c\<lparr>mq_queue := [call_msg junk 1], mq_received := [client_calls ! 0, client_calls ! 2]\<rparr>"
    using c by (simp add: server_step_def server_calls_def)
  then show ?thesis using inv True c by (simp add: server_moves_def mq_inv_def Let_def)
qed

lemma server_third:
  assumes junk: "\<forall>n<3. length (junk n) = 512" and inv: "mq_inv junk c"
    and c: "mq_received c = [client_calls ! 0, client_calls ! 2]" "mq_sent c = 3" "mq_queue c = [call_msg junk 1]"
  shows "server_moves junk c"
proof -
  have "msgrcv (-200) [call_msg junk 1] = Some (call_msg junk 1, [])" using three_msgs [OF junk] by (simp add: msgrcv_def)
  from server_recv_call [OF junk _ this] have
    "server_step c = c\<lparr>mq_queue := [], mq_received := [client_calls ! 0, client_calls ! 2, client_calls ! 1]\<rparr>"
    using c by (simp add: server_step_def server_calls_def)
  then show ?thesis using inv c by (simp add: server_moves_def mq_inv_def Let_def)
qed

lemma server_inv:
  assumes junk: "\<forall>n<3. length (junk n) = 512" and inv: "mq_inv junk c"
  shows "mq_inv junk (server_step c) \<and> mq_sent (server_step c) = mq_sent c \<and>
    (mq_sent c = 3 \<longrightarrow> length (mq_received (server_step c)) = min 3 (length (mq_received c) + 1))"
proof -
  have "server_moves junk c" if "mq_received c = [client_calls ! 0, client_calls ! 2, client_calls ! 1]"
    using inv that by (simp add: server_moves_def server_step_def server_calls_def)
  then have "server_moves junk c"
    using server_first [OF junk inv] server_second [OF junk inv] server_third [OF junk inv] inv
    unfolding mq_inv_def Let_def by blast
  then show ?thesis by (simp add: server_moves_def)
qed

lemma mq_run_inv:
  assumes "\<forall>n<3. length (junk n) = 512"
  shows "mq_inv junk (mq_run junk sched)"
  unfolding mq_run_def
proof (induction sched rule: rev_induct)
  case Nil
  then show ?case by (simp add: mq_inv_def mq_init_def)
qed (simp add: client_inv [OF assms] server_inv [OF assms])

text \<open>
  However client and server interleave, nothing is read or written outside of the buffers, and what the server has received is always a
  beginning of the same sequence: the message of type 100, then 60, then 50, each with its type and text. Once both
  have moved three more times, the sequence is complete.
\<close>

theorem message_order:
  assumes "\<forall>n<3. length (junk n) = 512"
  shows "mq_fault (mq_run junk sched) = None \<and>
    mq_received (mq_run junk sched) = take (length (mq_received (mq_run junk sched)))
      [(100, chars ''hello, world''), (60, chars ''hello, world of type 60''), (50, chars ''hello, world of type 50'')] \<and>
    length (mq_received (mq_run junk (sched @ [True, True, True, False, False, False]))) = 3"
proof -
  let ?c = "mq_run junk sched" and ?C = "client_step junk"
  note inv = mq_run_inv [OF assms, of sched]
  note c1 = client_inv [OF assms inv]
  note c2 = client_inv [OF assms conjunct1 [OF c1]]
  note c3 = client_inv [OF assms conjunct1 [OF c2]]
  have S: "mq_inv junk c \<and> mq_sent c = 3 \<Longrightarrow> mq_inv junk (server_step c) \<and> mq_sent (server_step c) = 3 \<and>
    length (mq_received (server_step c)) = min 3 (length (mq_received c) + 1)" for c
    using server_inv [OF assms, of c] by simp
  define d where "d = ?C (?C (?C ?c))"
  have d: "mq_inv junk d" "mq_sent d = 3" using c1 c2 c3 by (simp_all add: d_def)
  have "length (mq_received d) \<le> 3" using d(1) by (auto simp: mq_inv_def Let_def)
  note s1 = S [OF conjI [OF d]]
  note s2 = S [OF conjI [OF conjunct1 [OF s1] conjunct1 [OF conjunct2 [OF s1]]]]
  note s3 = S [OF conjI [OF conjunct1 [OF s2] conjunct1 [OF conjunct2 [OF s2]]]]
  have "length (mq_received (server_step (server_step (server_step d)))) = 3"
    using conjunct2 [OF conjunct2 [OF s1]] conjunct2 [OF conjunct2 [OF s2]] conjunct2 [OF conjunct2 [OF s3]]
      \<open>length (mq_received d) \<le> 3\<close> by linarith
  moreover have "mq_run junk (sched @ [True, True, True, False, False, False]) = server_step (server_step (server_step d))"
    by (simp add: mq_run_def d_def)
  moreover have "mq_fault ?c = None" using inv by (simp add: mq_inv_def)
  moreover have "mq_received ?c \<in> {[], [client_calls ! 0], [client_calls ! 0, client_calls ! 2],
      [client_calls ! 0, client_calls ! 2, client_calls ! 1]}" using inv by (auto simp: mq_inv_def Let_def)
  ultimately show ?thesis by (auto simp: client_calls_def)
qed

theorem message_order_witness:
  "mq_received (mq_run (\<lambda>n. replicate 512 0) ([False, True, False] @ [True, True, True, False, False, False])) =
    [(100, chars ''hello, world''), (60, chars ''hello, world of type 60''), (50, chars ''hello, world of type 50'')]"
proof -
  let ?j = "\<lambda>n :: nat. replicate 512 (0 :: octet)" and ?s = "[False, True, False]" and ?t = "[True, True, True, False, False, False]"
  have j: "\<forall>n<3. length (?j n) = 512" by simp
  have "length (mq_received (mq_run ?j (?s @ ?t))) = 3" using message_order [OF j, of ?s] by (elim conjE)
  then show ?thesis using message_order [OF j, of "?s @ ?t"] by (elim conjE) (simp only: take_Suc_Cons take_0 numeral_3_eq_3)
qed

end
