(* ===== verification/Latch.thy ===== *)
theory Latch
  imports Prelude
begin

text \<open>
  The latch of the materials (\<^verbatim>\<open>09-advanced-synchronization/code/count_down_latch.{h,cpp}\<close>). Every method holds the mutex except while it waits on the
  condition variable, so that a method, or its part up to the wait, is one event. Waiting once without a loop, \<open>await\<close> also
  returns when its time is up or the condition variable lets it go for no reason; these are the \<open>Early\<close> events.
\<close>

datatype waiter = Not_called | Waiting | Returned

record latch =
  latch_count :: u32
  latch_waiter :: "nat \<Rightarrow> waiter"

definition countdownlatch :: "u32 \<Rightarrow> latch" where
  "countdownlatch n = \<lparr>latch_count = n, latch_waiter = (\<lambda>t. Not_called)\<rparr>"

definition await :: "nat \<Rightarrow> latch \<Rightarrow> latch" where
  "await t l = l\<lparr>latch_waiter := (latch_waiter l)(t := (if 0 = latch_count l then Returned else Waiting))\<rparr>"

definition get_count :: "latch \<Rightarrow> u32" where
  "get_count l = latch_count l"

definition latch_notify_all :: "latch \<Rightarrow> latch" where
  "latch_notify_all l = l\<lparr>latch_waiter := (\<lambda>t. if latch_waiter l t = Waiting then Returned else latch_waiter l t)\<rparr>"

definition count_down :: "latch \<Rightarrow> latch" where
  "count_down l =
     (if 0 = latch_count l then l
      else let l' = l\<lparr>latch_count := latch_count l - 1\<rparr> in
        if 0 = latch_count l' then latch_notify_all l' else l')"

datatype event = Await nat | Count_down | Early nat

definition latch_event :: "event \<Rightarrow> latch \<Rightarrow> latch" where
  "latch_event e l =
     (case e of
        Await t \<Rightarrow> if latch_waiter l t = Waiting then l else await t l
      | Count_down \<Rightarrow> count_down l
      | Early t \<Rightarrow> if latch_waiter l t = Waiting then l\<lparr>latch_waiter := (latch_waiter l)(t := Returned)\<rparr> else l)"

definition latch_run :: "u32 \<Rightarrow> event list \<Rightarrow> latch" where
  "latch_run n es = fold latch_event es (countdownlatch n)"

definition downs :: "event list \<Rightarrow> nat" where
  "downs es = length (filter (\<lambda>e. e = Count_down) es)"

lemma downs_simps [simp]: "downs [] = 0" "downs (es @ [e]) = downs es + of_bool (e = Count_down)"
  by (simp_all add: downs_def)

lemma latch_run_snoc: "latch_run n (es @ [e]) = latch_event e (latch_run n es)"
  by (simp add: latch_run_def)

lemma unat_pred: "(w :: u32) \<noteq> 0 \<Longrightarrow> unat (w - 1) = unat w - 1"
  by (rule unat_minus_one)

text \<open>
  C33. The latch opens exactly when it has been counted down often enough, for any count and any order of calls by any number of threads: the
  count is what is left, never below 0; and a thread that was never let go early has returned from \<open>await\<close> if it has called it and the
  count is 0, and is waiting if it has called it and the count is not 0, whatever happens to the other threads. So only a thread whose time was
  up or whose wait ended for no reason passes a closed latch, and nobody sleeps before an open one.
\<close>

theorem latch_exact:
  "unat (get_count (latch_run n es)) = unat n - downs es \<and>
   (unat n \<le> downs es \<longrightarrow> latch_waiter (latch_run n es) t \<noteq> Waiting) \<and>
   (Early t \<notin> set es \<longrightarrow>
     latch_waiter (latch_run n es) t =
       (if Await t \<notin> set es then Not_called else if unat n \<le> downs es then Returned else Waiting))"
proof (induction es rule: rev_induct)
  case Nil
  then show ?case by (simp add: latch_run_def countdownlatch_def get_count_def)
next
  case (snoc e es)
  let ?l = "latch_run n es"
  have c: "unat (latch_count ?l) = unat n - downs es" using snoc by (simp add: get_count_def)
  then have z: "latch_count ?l = 0 \<longleftrightarrow> unat n \<le> downs es" by (metis diff_is_0_eq unat_eq_zero)
  have "latch_count ?l \<noteq> 0 \<Longrightarrow> latch_count ?l - 1 = 0 \<longleftrightarrow> unat n \<le> downs es + 1"
    using unat_pred [of "latch_count ?l"] c by (metis diff_diff_left diff_is_0_eq unat_eq_zero)
  then show ?case using snoc z c unat_pred [of "latch_count ?l"]
    by (cases e) (auto simp: latch_run_snoc latch_event_def await_def count_down_def latch_notify_all_def get_count_def Let_def split: if_splits)
qed

text \<open>The demonstration: two threads wait, ten times the main thread counts down; here another thread gives up in between.\<close>

theorem latch_exact_witness:
  "latch_waiter (latch_run 10 ([Await 1, Await 2, Early 1] @ replicate 10 Count_down)) 2 = Returned \<and>
   latch_waiter (latch_run 10 ([Await 1, Await 2, Early 1] @ replicate 9 Count_down)) 2 = Waiting"
proof -
  have "downs ([Await 1, Await 2, Early 1] @ replicate n Count_down) = n" for n by (simp add: downs_def)
  moreover have "Early 2 \<notin> set ([Await 1, Await 2, Early 1] @ replicate n Count_down)" for n by auto
  ultimately show ?thesis
    using latch_exact [of 10 "[Await 1, Await 2, Early 1] @ replicate 10 Count_down" 2]
      latch_exact [of 10 "[Await 1, Await 2, Early 1] @ replicate 9 Count_down" 2]
    by (auto simp del: append_Cons append_Nil)
qed

text \<open>A waiter that is let go early passes a latch that is closed.\<close>

lemma latch_early: "latch_waiter (latch_run 10 [Await 1, Early 1]) 1 = Returned \<and> get_count (latch_run 10 [Await 1, Early 1]) = 10"
  by (simp add: latch_run_def latch_event_def await_def countdownlatch_def get_count_def)

end
