(* ===== verification/Box_Transfer.thy ===== *)
theory Box_Transfer
  imports Prelude
begin

text \<open>
  Transfers between boxes (\<^verbatim>\<open>materials/07-synchronization-primitives/code/lock.cpp\<close>): \<open>std::lock\<close> takes both mutexes or none, so that transfers in
  opposite directions do not wait for each other. Each of the two assignments reads the number of a box and writes it back in two steps. Any
  number of threads and boxes; a schedule is the list of the threads that move.
\<close>

record job =
  job_from :: nat
  job_to :: nat
  job_num :: int

datatype transfer_pc = T_Start | T_Locked | T_Loaded_from int | T_Taken | T_Loaded_to int | T_Given | T_Done

record bank =
  num_things :: "nat \<Rightarrow> int"
  box_m :: "nat \<Rightarrow> nat option"
  transfer_pc :: "nat \<Rightarrow> transfer_pc"
  bank_fault :: "fault option"

definition fits_int :: "int \<Rightarrow> bool" where
  "fits_int n \<longleftrightarrow> -2147483648 \<le> n \<and> n \<le> 2147483647"

text \<open>An assignment to the number of a box, which must not overflow.\<close>

definition put_things :: "nat \<Rightarrow> int \<Rightarrow> bank \<Rightarrow> bank" where
  "put_things a n b = (if fits_int n then b\<lparr>num_things := (num_things b)(a := n)\<rparr> else b\<lparr>bank_fault := Some SignedOverflow\<rparr>)"

definition pc_to :: "nat \<Rightarrow> transfer_pc \<Rightarrow> bank \<Rightarrow> bank" where
  "pc_to t p b = b\<lparr>transfer_pc := (transfer_pc b)(t := p)\<rparr>"

text \<open>\<open>std::lock\<close> on one mutex twice would wait for ever.\<close>

definition transfer :: "(nat \<Rightarrow> job) \<Rightarrow> nat \<Rightarrow> bank \<Rightarrow> bank" where
  "transfer jobs t b =
     (let x = job_from (jobs t); y = job_to (jobs t); n = job_num (jobs t) in
      case transfer_pc b t of
        T_Start \<Rightarrow>
          if x \<noteq> y \<and> box_m b x = None \<and> box_m b y = None
          then pc_to t T_Locked (b\<lparr>box_m := (box_m b)(x \<mapsto> t, y \<mapsto> t)\<rparr>) else b
      | T_Locked \<Rightarrow> pc_to t (T_Loaded_from (num_things b x)) b
      | T_Loaded_from v \<Rightarrow> pc_to t T_Taken (put_things x (v - n) b)
      | T_Taken \<Rightarrow> pc_to t (T_Loaded_to (num_things b y)) b
      | T_Loaded_to v \<Rightarrow> pc_to t T_Given (put_things y (v + n) b)
      | T_Given \<Rightarrow> pc_to t T_Done (b\<lparr>box_m := (box_m b)(x := None, y := None)\<rparr>)
      | T_Done \<Rightarrow> b)"

definition bank_init :: "(nat \<Rightarrow> int) \<Rightarrow> bank" where
  "bank_init ns = \<lparr>num_things = ns, box_m = (\<lambda>a. None), transfer_pc = (\<lambda>t. T_Start), bank_fault = None\<rparr>"

definition bank_run :: "(nat \<Rightarrow> job) \<Rightarrow> (nat \<Rightarrow> int) \<Rightarrow> nat list \<Rightarrow> bank" where
  "bank_run jobs ns ts = fold (transfer jobs) ts (bank_init ns)"

section \<open>Balances\<close>

definition given :: "transfer_pc \<Rightarrow> bool" where
  "given p \<longleftrightarrow> p = T_Given \<or> p = T_Done"

definition taken :: "transfer_pc \<Rightarrow> bool" where
  "taken p \<longleftrightarrow> p = T_Taken \<or> (\<exists>v. p = T_Loaded_to v) \<or> given p"

definition moved :: "(nat \<Rightarrow> job) \<Rightarrow> nat \<Rightarrow> nat \<Rightarrow> transfer_pc \<Rightarrow> int" where
  "moved jobs a t p =
     (if job_to (jobs t) = a \<and> given p then job_num (jobs t) else 0) -
     (if job_from (jobs t) = a \<and> taken p then job_num (jobs t) else 0)"

lemma pc_simps [simp]:
  "\<not> given T_Start" "\<not> given T_Locked" "\<not> given (T_Loaded_from v)" "\<not> given T_Taken" "\<not> given (T_Loaded_to v)" "given T_Given" "given T_Done"
  "\<not> taken T_Start" "\<not> taken T_Locked" "\<not> taken (T_Loaded_from v)" "taken T_Taken" "taken (T_Loaded_to v)" "taken T_Given" "taken T_Done"
  by (simp_all add: taken_def given_def)

definition balance :: "(nat \<Rightarrow> job) \<Rightarrow> (nat \<Rightarrow> int) \<Rightarrow> nat \<Rightarrow> (nat \<Rightarrow> transfer_pc) \<Rightarrow> nat \<Rightarrow> int" where
  "balance jobs ns N pcs a = ns a + (\<Sum>t<N. moved jobs a t (pcs t))"

definition inside :: "transfer_pc \<Rightarrow> bool" where
  "inside p \<longleftrightarrow> p \<noteq> T_Start \<and> p \<noteq> T_Done"

text \<open>What a thread has read from a box is what is in it, because it has the mutex.\<close>

definition loads_inv :: "(nat \<Rightarrow> job) \<Rightarrow> bank \<Rightarrow> bool" where
  "loads_inv jobs b \<longleftrightarrow> (\<forall>t v. (transfer_pc b t = T_Loaded_from v \<longrightarrow> v = num_things b (job_from (jobs t))) \<and>
     (transfer_pc b t = T_Loaded_to v \<longrightarrow> v = num_things b (job_to (jobs t))))"

definition owners_inv :: "(nat \<Rightarrow> job) \<Rightarrow> nat \<Rightarrow> bank \<Rightarrow> bool" where
  "owners_inv jobs N b \<longleftrightarrow>
     (\<forall>a t. box_m b a = Some t \<longleftrightarrow> t < N \<and> inside (transfer_pc b t) \<and> (a = job_from (jobs t) \<or> a = job_to (jobs t))) \<and>
     (\<forall>t\<ge>N. transfer_pc b t = T_Start)"

definition bank_inv :: "(nat \<Rightarrow> job) \<Rightarrow> (nat \<Rightarrow> int) \<Rightarrow> nat \<Rightarrow> bank \<Rightarrow> bool" where
  "bank_inv jobs ns N b \<longleftrightarrow>
     (bank_fault b = None \<longrightarrow> num_things b = balance jobs ns N (transfer_pc b) \<and> loads_inv jobs b) \<and> owners_inv jobs N b"

lemma sum_one:
  fixes f :: "nat \<Rightarrow> 'p \<Rightarrow> int"
  assumes "t < N"
  shows "(\<Sum>u<N. f u ((g(t := p)) u)) = (\<Sum>u<N. f u (g u)) - f t (g t) + f t p"
proof -
  have "(\<Sum>u<N. f u ((g(t := p)) u)) = f t p + (\<Sum>u\<in>{..<N} - {t}. f u (g u))"
    using assms by (subst sum.remove [of _ t]) (auto intro!: sum.cong)
  moreover have "(\<Sum>u<N. f u (g u)) = f t (g t) + (\<Sum>u\<in>{..<N} - {t}. f u (g u))"
    using assms by (subst sum.remove [of _ t]) auto
  ultimately show ?thesis by simp
qed

lemma balance_upd:
  "t < N \<Longrightarrow> balance jobs ns N (pcs(t := p)) a = balance jobs ns N pcs a - moved jobs a t (pcs t) + moved jobs a t p"
  using sum_one [of t N "moved jobs a" pcs p] by (simp add: balance_def)

lemma transfer_balance:
  assumes "t < N" "bank_fault b = None \<longrightarrow> num_things b = balance jobs ns N (transfer_pc b) \<and> loads_inv jobs b"
  shows "bank_fault (transfer jobs t b) = None \<longrightarrow> num_things (transfer jobs t b) = balance jobs ns N (transfer_pc (transfer jobs t b))"
proof -
  note upd = ext [OF balance_upd [OF assms(1), of jobs ns "transfer_pc b"]]
  have l: "transfer_pc b t = T_Loaded_from v \<Longrightarrow> bank_fault b = None \<Longrightarrow> v = num_things b (job_from (jobs t))"
    "transfer_pc b t = T_Loaded_to v \<Longrightarrow> bank_fault b = None \<Longrightarrow> v = num_things b (job_to (jobs t))" for v
    using assms(2) by (auto simp: loads_inv_def)
  show ?thesis
  proof (cases "transfer_pc b t")
    case (T_Loaded_from v)
    then show ?thesis using assms(2) l(1) [of v]
      by (auto simp: transfer_def Let_def pc_to_def put_things_def upd moved_def fun_upd_def fun_eq_iff simp flip: fun_upd_def)
  next
    case (T_Loaded_to v)
    then show ?thesis using assms(2) l(2) [of v]
      by (auto simp: transfer_def Let_def pc_to_def put_things_def upd moved_def fun_upd_def fun_eq_iff simp flip: fun_upd_def)
  qed (use assms(2) in \<open>auto simp: transfer_def Let_def pc_to_def upd moved_def simp del: fun_upd_apply\<close>)
qed

lemma transfer_others: "t \<noteq> u \<Longrightarrow> transfer_pc (transfer jobs t b) u = transfer_pc b u"
  by (cases "transfer_pc b t") (auto simp: transfer_def Let_def pc_to_def put_things_def)

text \<open>Two threads that are inside have no box in common.\<close>

lemma apart:
  assumes "owners_inv jobs N b" "inside (transfer_pc b t)" "inside (transfer_pc b u)" "t \<noteq> u"
  shows "{job_from (jobs t), job_to (jobs t)} \<inter> {job_from (jobs u), job_to (jobs u)} = {}"
proof -
  have "box_m b a = Some t" if "a \<in> {job_from (jobs t), job_to (jobs t)}" for a
    using that assms(1,2) unfolding owners_inv_def inside_def by (metis insertE not_le_imp_less singletonD)
  moreover have "box_m b a = Some u" if "a \<in> {job_from (jobs u), job_to (jobs u)}" for a
    using that assms(1,3) unfolding owners_inv_def inside_def by (metis insertE not_le_imp_less singletonD)
  ultimately show ?thesis using assms(4) by force
qed

lemma transfer_things:
  "a \<notin> {job_from (jobs t), job_to (jobs t)} \<or> \<not> inside (transfer_pc b t) \<Longrightarrow> num_things (transfer jobs t b) a = num_things b a"
  by (cases "transfer_pc b t") (auto simp: transfer_def Let_def pc_to_def put_things_def inside_def)

lemma transfer_loads:
  assumes "owners_inv jobs N b" "loads_inv jobs b"
  shows "loads_inv jobs (transfer jobs t b)"
proof -
  have own: "(transfer_pc (transfer jobs t b) t = T_Loaded_from v \<longrightarrow> v = num_things (transfer jobs t b) (job_from (jobs t))) \<and>
     (transfer_pc (transfer jobs t b) t = T_Loaded_to v \<longrightarrow> v = num_things (transfer jobs t b) (job_to (jobs t)))" for v
    by (cases "transfer_pc b t") (auto simp: transfer_def Let_def pc_to_def put_things_def)
  have other: "(transfer_pc (transfer jobs t b) u = T_Loaded_from v \<longrightarrow> v = num_things (transfer jobs t b) (job_from (jobs u))) \<and>
     (transfer_pc (transfer jobs t b) u = T_Loaded_to v \<longrightarrow> v = num_things (transfer jobs t b) (job_to (jobs u)))" if "u \<noteq> t" for u v
  proof -
    have "num_things (transfer jobs t b) a = num_things b a" if "inside (transfer_pc b u)" "a \<in> {job_from (jobs u), job_to (jobs u)}" for a
      by (rule transfer_things) (use apart [OF assms(1) _ that(1), of t] that(2) \<open>u \<noteq> t\<close> in auto)
    then show ?thesis using assms(2) transfer_others [of t u jobs b] that by (auto simp: loads_inv_def inside_def)
  qed
  show ?thesis unfolding loads_inv_def
  proof (intro allI)
    fix u v
    show "(transfer_pc (transfer jobs t b) u = T_Loaded_from v \<longrightarrow> v = num_things (transfer jobs t b) (job_from (jobs u))) \<and>
     (transfer_pc (transfer jobs t b) u = T_Loaded_to v \<longrightarrow> v = num_things (transfer jobs t b) (job_to (jobs u)))"
      using own [of v] other [of u v] by (cases "u = t") simp_all
  qed
qed

lemma transfer_owners:
  assumes t: "t < N" and o: "owners_inv jobs N b"
  shows "owners_inv jobs N (transfer jobs t b)"
proof -
  have inv: "\<forall>a u. box_m b a = Some u \<longleftrightarrow> u < N \<and> inside (transfer_pc b u) \<and> (a = job_from (jobs u) \<or> a = job_to (jobs u))"
    using o by (simp add: owners_inv_def)
  have "box_m (transfer jobs t b) a = Some u \<longleftrightarrow>
    u < N \<and> inside (transfer_pc (transfer jobs t b) u) \<and> (a = job_from (jobs u) \<or> a = job_to (jobs u))" for a u
  proof (cases "transfer_pc b t")
    case T_Start
    have "box_m b a = None \<Longrightarrow> \<not> (u < N \<and> inside (transfer_pc b u) \<and> (a = job_from (jobs u) \<or> a = job_to (jobs u)))" for a u
      using inv by (metis option.discI)
    then show ?thesis using T_Start t inv by (auto simp: transfer_def Let_def pc_to_def inside_def)
  next
    case T_Given
    have "inside (transfer_pc b t)" using T_Given by (simp add: inside_def)
    then have "a = job_from (jobs t) \<or> a = job_to (jobs t) \<Longrightarrow> u \<noteq> t \<Longrightarrow> \<not> (u < N \<and> inside (transfer_pc b u) \<and> (a = job_from (jobs u) \<or> a = job_to (jobs u)))" for a u
      using inv t by (metis option.inject)
    then show ?thesis using T_Given t inv by (auto simp: transfer_def Let_def pc_to_def inside_def)
  qed (use t inv in \<open>auto simp: transfer_def Let_def pc_to_def put_things_def inside_def\<close>)
  moreover have "\<forall>u\<ge>N. transfer_pc (transfer jobs t b) u = T_Start" using o t transfer_others [of t _ jobs b] by (auto simp: owners_inv_def)
  ultimately show ?thesis unfolding owners_inv_def by blast
qed

lemma transfer_fault: "bank_fault (transfer jobs t b) = None \<Longrightarrow> bank_fault b = None"
  by (auto simp: transfer_def Let_def pc_to_def put_things_def split: transfer_pc.splits if_splits)

lemma bank_run_inv:
  assumes "set ts \<subseteq> {..<N}"
  shows "bank_inv jobs ns N (bank_run jobs ns ts)"
  using assms unfolding bank_run_def
proof (induction ts rule: rev_induct)
  case Nil
  then show ?case by (auto simp: bank_inv_def owners_inv_def loads_inv_def bank_init_def balance_def moved_def inside_def)
next
  case (snoc t ts)
  let ?b = "fold (transfer jobs) ts (bank_init ns)"
  have inv: "bank_inv jobs ns N ?b" and t: "t < N" using snoc by auto
  then show ?case
    using transfer_balance [OF t, of ?b jobs ns] transfer_owners [OF t, of jobs ?b] transfer_loads [of jobs N ?b t] transfer_fault [of jobs t ?b]
    by (auto simp: bank_inv_def)
qed

lemma transfer_moves:
  assumes "bank_inv jobs ns N b" "\<forall>t<N. job_from (jobs t) \<noteq> job_to (jobs t)" "t < N" "transfer_pc b t \<noteq> T_Done"
  shows "\<exists>u<N. transfer_pc (transfer jobs u b) u \<noteq> transfer_pc b u"
proof (cases "\<exists>u<N. inside (transfer_pc b u)")
  case True
  then obtain u where u: "u < N" "inside (transfer_pc b u)" by blast
  then have "transfer_pc (transfer jobs u b) u \<noteq> transfer_pc b u"
    by (cases "transfer_pc b u") (auto simp: inside_def transfer_def Let_def pc_to_def)
  then show ?thesis using u(1) by blast
next
  case False
  then have "box_m b a = None" for a using assms(1) unfolding bank_inv_def owners_inv_def by (metis not_None_eq)
  moreover have "transfer_pc b t = T_Start" using False assms(3,4) by (cases "transfer_pc b t") (auto simp: inside_def)
  ultimately have "transfer_pc (transfer jobs t b) t \<noteq> transfer_pc b t"
    using assms(2,3) by (simp add: transfer_def Let_def pc_to_def)
  then show ?thesis using assms(3) by blast
qed

text \<open>
  C34. Transfers between any boxes by any number of threads neither lose things nor get stuck, whatever the schedule, although each reads and
  writes the numbers in separate steps: as long as no number overflows, once all threads are done every box has what it had, plus what the transfers brought, minus what they took; and as
  long as a thread is not done, some thread can go on, if every transfer is between two different boxes.
\<close>

theorem transfers_exact:
  assumes "set ts \<subseteq> {..<N}"
  shows "(bank_fault (bank_run jobs ns ts) = None \<and> (\<forall>t<N. transfer_pc (bank_run jobs ns ts) t = T_Done) \<longrightarrow>
      num_things (bank_run jobs ns ts) a = ns a + (\<Sum>t<N. if job_to (jobs t) = a then job_num (jobs t) else 0)
        - (\<Sum>t<N. if job_from (jobs t) = a then job_num (jobs t) else 0)) \<and>
    ((\<forall>t<N. job_from (jobs t) \<noteq> job_to (jobs t)) \<and> (\<exists>t<N. transfer_pc (bank_run jobs ns ts) t \<noteq> T_Done) \<longrightarrow>
      (\<exists>u<N. transfer_pc (bank_run jobs ns (ts @ [u])) u \<noteq> transfer_pc (bank_run jobs ns ts) u))"
proof -
  note inv = bank_run_inv [OF assms, of jobs ns]
  have "(\<Sum>t<N. moved jobs a t T_Done) = (\<Sum>t<N. if job_to (jobs t) = a then job_num (jobs t) else 0)
        - (\<Sum>t<N. if job_from (jobs t) = a then job_num (jobs t) else 0)"
    by (simp add: moved_def sum_subtractf)
  moreover have "(\<Sum>t<N. moved jobs a t (transfer_pc (bank_run jobs ns ts) t)) = (\<Sum>t<N. moved jobs a t T_Done)"
    if "\<forall>t<N. transfer_pc (bank_run jobs ns ts) t = T_Done" using that by (intro sum.cong) auto
  ultimately show ?thesis
    using inv transfer_moves [OF inv] by (auto simp: bank_inv_def balance_def bank_run_def)
qed

text \<open>The program: 10 things from the first box to the second and 5 back.\<close>

definition main_jobs :: "nat \<Rightarrow> job" where
  "main_jobs t = (if t = 0 then \<lparr>job_from = 0, job_to = 1, job_num = 10\<rparr> else \<lparr>job_from = 1, job_to = 0, job_num = 5\<rparr>)"

theorem transfers_exact_witness:
  "num_things (bank_run main_jobs (\<lambda>a. if a = 0 then 100 else 50) [1, 0, 1, 1, 1, 1, 1, 0, 0, 0, 0, 0, 0]) 0 = 95"
proof -
  let ?ns = "\<lambda>a :: nat. if a = 0 then 100 else 50 :: int" and ?ts = "[1, 0, 1, 1, 1, 1, 1, 0, 0, 0, 0, 0, 0 :: nat]"
  have "bank_fault (bank_run main_jobs ?ns ?ts) = None" "transfer_pc (bank_run main_jobs ?ns ?ts) 0 = T_Done"
    "transfer_pc (bank_run main_jobs ?ns ?ts) 1 = T_Done"
    by (simp_all add: bank_run_def bank_init_def transfer_def main_jobs_def put_things_def fits_int_def pc_to_def)
  then have "bank_fault (bank_run main_jobs ?ns ?ts) = None \<and> (\<forall>t<2. transfer_pc (bank_run main_jobs ?ns ?ts) t = T_Done)"
    by (auto simp: less_2_cases_iff)
  moreover have "set ?ts \<subseteq> {..<2}" by auto
  moreover have "{..<2 :: nat} = {0, 1}" by auto
  ultimately show ?thesis
    using transfers_exact [of ?ts 2 main_jobs ?ns 0] by (simp add: main_jobs_def)
qed

end
