(* ===== verification/Handshake.thy ===== *)
theory Handshake
  imports Prelude
begin

text \<open>
  The condition variable of the materials (\<^verbatim>\<open>07-synchronization-primitives/code/cv.cpp\<close>): \<open>main\<close> hands a string to the worker and waits until it is
  processed. What a thread does from taking the mutex to giving it back, or to waiting, is one step. A sleeper may also wake up
  for no reason; it then looks at its condition again.
\<close>

datatype main_pc = M_Data | M_Ready | M_Notify | M_Wait | M_Sleep | M_Print | M_Join | M_End

datatype worker_pc = W_Wait | W_Sleep | W_Notify | W_End

record cv_prog =
  cv_data :: string
  cv_ready :: bool
  cv_processed :: bool
  cv_main_pc :: main_pc
  cv_worker_pc :: worker_pc
  cv_printed :: "string option"

definition cv_start :: cv_prog where
  "cv_start = \<lparr>cv_data = [], cv_ready = False, cv_processed = False, cv_main_pc = M_Data, cv_worker_pc = W_Wait, cv_printed = None\<rparr>"

text \<open>One of the sleepers wakes up; there is never more than one.\<close>

definition cv_notify_one :: "cv_prog \<Rightarrow> cv_prog" where
  "cv_notify_one s =
     (if cv_worker_pc s = W_Sleep then s\<lparr>cv_worker_pc := W_Wait\<rparr>
      else if cv_main_pc s = M_Sleep then s\<lparr>cv_main_pc := M_Wait\<rparr> else s)"

definition worker_thread :: "cv_prog \<Rightarrow> cv_prog" where
  "worker_thread s =
     (case cv_worker_pc s of
        W_Wait \<Rightarrow>
          if \<not> cv_ready s then s\<lparr>cv_worker_pc := W_Sleep\<rparr>
          else s\<lparr>cv_data := cv_data s @ '' after processing'', cv_processed := True, cv_worker_pc := W_Notify\<rparr>
      | W_Notify \<Rightarrow> (cv_notify_one s)\<lparr>cv_worker_pc := W_End\<rparr>
      | _ \<Rightarrow> s)"

definition main_thread :: "cv_prog \<Rightarrow> cv_prog" where
  "main_thread s =
     (case cv_main_pc s of
        M_Data \<Rightarrow> s\<lparr>cv_data := ''Example data'', cv_main_pc := M_Ready\<rparr>
      | M_Ready \<Rightarrow> s\<lparr>cv_ready := True, cv_main_pc := M_Notify\<rparr>
      | M_Notify \<Rightarrow> (cv_notify_one s)\<lparr>cv_main_pc := M_Wait\<rparr>
      | M_Wait \<Rightarrow> s\<lparr>cv_main_pc := (if cv_processed s then M_Print else M_Sleep)\<rparr>
      | M_Print \<Rightarrow> s\<lparr>cv_printed := Some (cv_data s), cv_main_pc := M_Join\<rparr>
      | M_Join \<Rightarrow> if cv_worker_pc s = W_End then s\<lparr>cv_main_pc := M_End\<rparr> else s
      | _ \<Rightarrow> s)"

datatype move = Main | Worker | Spurious

definition spurious_wakeup :: "cv_prog \<Rightarrow> cv_prog" where
  "spurious_wakeup s = cv_notify_one s"

definition cv_move :: "move \<Rightarrow> cv_prog \<Rightarrow> cv_prog" where
  "cv_move m s = (case m of Main \<Rightarrow> main_thread s | Worker \<Rightarrow> worker_thread s | Spurious \<Rightarrow> spurious_wakeup s)"

definition cv_run :: "move list \<Rightarrow> cv_prog" where
  "cv_run ms = fold cv_move ms cv_start"

definition result :: string where
  "result = ''Example data'' @ '' after processing''"

text \<open>Where the two threads can be together, and what they have written by then.\<close>

definition cv_inv :: "cv_prog \<Rightarrow> bool" where
  "cv_inv s \<longleftrightarrow>
     (let m = cv_main_pc s; w = cv_worker_pc s in
      (cv_ready s \<longleftrightarrow> m \<noteq> M_Data \<and> m \<noteq> M_Ready) \<and> (cv_processed s \<longleftrightarrow> w = W_Notify \<or> w = W_End) \<and>
      (cv_processed s \<longrightarrow> cv_ready s) \<and>
      (m \<noteq> M_Data \<longrightarrow> cv_data s = (if cv_processed s then result else ''Example data'')) \<and>
      (w = W_Sleep \<longrightarrow> m = M_Data \<or> m = M_Ready \<or> m = M_Notify) \<and> (m = M_Sleep \<longrightarrow> w = W_Wait \<or> w = W_Notify) \<and>
      (m = M_Print \<or> m = M_Join \<longrightarrow> cv_processed s) \<and> (m = M_End \<longrightarrow> w = W_End) \<and>
      cv_printed s = (if m = M_Join \<or> m = M_End then Some result else None))"

lemma main_inv: "cv_inv s \<Longrightarrow> cv_inv (main_thread s)"
  by (cases "cv_main_pc s"; cases "cv_worker_pc s") (auto simp: cv_inv_def main_thread_def cv_notify_one_def Let_def)

lemma worker_inv: "cv_inv s \<Longrightarrow> cv_inv (worker_thread s)"
  by (cases "cv_main_pc s"; cases "cv_worker_pc s") (auto simp: cv_inv_def worker_thread_def cv_notify_one_def result_def Let_def)

lemma spurious_inv: "cv_inv s \<Longrightarrow> cv_inv (spurious_wakeup s)"
  by (cases "cv_main_pc s"; cases "cv_worker_pc s") (auto simp: cv_inv_def spurious_wakeup_def cv_notify_one_def Let_def)

lemma cv_run_inv: "cv_inv (cv_run ms)"
  unfolding cv_run_def
proof (induction ms rule: rev_induct)
  case Nil
  then show ?case by (simp add: cv_inv_def cv_start_def Let_def)
next
  case (snoc m ms)
  then show ?case using main_inv worker_inv spurious_inv by (cases m) (simp_all add: cv_move_def)
qed

text \<open>How far a thread still has to go; a move of a thread that is not asleep or done comes closer to the end.\<close>

fun left_main :: "main_pc \<Rightarrow> nat" where
  "left_main M_Data = 8" | "left_main M_Ready = 7" | "left_main M_Notify = 6" | "left_main M_Wait = 4" | "left_main M_Sleep = 3"
| "left_main M_Print = 2" | "left_main M_Join = 1" | "left_main M_End = 0"

fun left_worker :: "worker_pc \<Rightarrow> nat" where
  "left_worker W_Wait = 4" | "left_worker W_Sleep = 3" | "left_worker W_Notify = 2" | "left_worker W_End = 0"

definition left_moves :: "cv_prog \<Rightarrow> nat" where
  "left_moves s = left_main (cv_main_pc s) + left_worker (cv_worker_pc s)"

lemma moves_decrease:
  assumes "cv_inv s"
  shows "left_moves (main_thread s) \<le> left_moves s" "left_moves (worker_thread s) \<le> left_moves s"
    "cv_main_pc s \<noteq> M_End \<Longrightarrow> left_moves (worker_thread (main_thread s)) < left_moves s"
  using assms
  by (cases "cv_main_pc s"; cases "cv_worker_pc s";
      simp add: left_moves_def main_thread_def worker_thread_def cv_notify_one_def cv_inv_def Let_def split: if_splits)+

lemma left_moves_le: "left_moves s \<le> 12"
  by (cases "cv_main_pc s"; cases "cv_worker_pc s") (simp_all add: left_moves_def)

lemma main_end_stays: "cv_main_pc s = M_End \<Longrightarrow> cv_main_pc (worker_thread (main_thread s)) = M_End"
  by (cases "cv_worker_pc s") (simp_all add: main_thread_def worker_thread_def cv_notify_one_def)

lemma rounds:
  assumes "cv_inv s" "left_moves s \<le> n \<or> cv_main_pc s = M_End"
  shows "cv_main_pc (fold cv_move (concat (replicate n [Main, Worker])) s) = M_End"
  using assms
proof (induction n arbitrary: s)
  case 0
  then show ?case by (cases "cv_main_pc s") (simp_all add: left_moves_def)
next
  case (Suc n)
  let ?s = "worker_thread (main_thread s)"
  have "left_moves ?s \<le> n \<or> cv_main_pc ?s = M_End"
    using Suc.prems moves_decrease(3) [of s] main_end_stays [of s] by fastforce
  then show ?case using Suc.IH [of ?s] Suc.prems(1) main_inv worker_inv by (simp add: cv_move_def)
qed

text \<open>
  C36. The hand-over works whatever the schedule and whoever wakes up for no reason: nothing but the processed string is ever printed, and the program
  does not get stuck: from whatever point it has come to, twelve rounds of both threads bring it to its end.
\<close>

theorem handshake_works:
  "cv_printed (cv_run ms) \<in> {None, Some ''Example data after processing''} \<and>
   cv_main_pc (cv_run (ms @ concat (replicate 12 [Main, Worker]))) = M_End \<and>
   cv_printed (cv_run (ms @ concat (replicate 12 [Main, Worker]))) = Some ''Example data after processing''"
proof -
  have p: "cv_printed s = (if cv_main_pc s = M_Join \<or> cv_main_pc s = M_End then Some ''Example data after processing'' else None)" if "cv_inv s" for s
    using that by (simp add: cv_inv_def result_def Let_def)
  have "cv_main_pc (cv_run (ms @ concat (replicate 12 [Main, Worker]))) = M_End"
    using rounds [OF cv_run_inv, of ms 12] left_moves_le by (simp only: cv_run_def fold_append comp_apply simp_thms)
  then show ?thesis using p [OF cv_run_inv] by auto
qed

text \<open>The worker may come first and sleep, or last.\<close>

lemma handshake_examples:
  "cv_printed (cv_run [Worker, Main, Main, Main, Worker, Main, Worker, Main]) = Some ''Example data after processing''"
  "cv_main_pc (cv_run [Main, Main, Main, Main]) = M_Sleep"
  by (simp_all add: cv_run_def cv_start_def cv_move_def main_thread_def worker_thread_def cv_notify_one_def)

end
