(* ===== verification/Swap_Context.thy ===== *)
theory Swap_Context
  imports Prelude
begin

text \<open>
  The introduction to contexts (\<^verbatim>\<open>src/sysprog/1/example_swap.c\<close>): two coroutines and \<open>main\<close> that change over with \<open>swapcontext\<close>, and the successor
  \<open>uc_link\<close> a coroutine goes to when its function returns. A context is where its owner goes on when it is changed to; the
  calls of \<open>getcontext\<close> and \<open>swapcontext\<close> may fail, by their number.
\<close>

datatype ctx = Uctx_main | Uctx_func nat

datatype resume = Main_start | Main_swapped | Co_start nat | Co_swapped nat

record uctx =
  uc_resume :: "resume option"
  uc_link :: "ctx option"

datatype line =
    Started nat | Swapping nat | Returning nat | Main_swapping | Main_exiting | Perror string

record swap_state =
  sw_ctx :: "ctx \<Rightarrow> uctx"
  sw_calls :: nat
  sw_out :: "line list"

datatype outcome =
    Runs resume swap_state
  | Exit bool swap_state
  | Thread_exit swap_state
  | Undefined fault

definition print :: "line \<Rightarrow> swap_state \<Rightarrow> swap_state" where
  "print l s = s\<lparr>sw_out := sw_out s @ [l]\<rparr>"

definition handle_error :: "string \<Rightarrow> swap_state \<Rightarrow> outcome" where
  "handle_error msg s = Exit False (print (Perror msg) s)"

text \<open>\<open>setcontext\<close>, and what happens when the function of a context returns.\<close>

definition enter :: "ctx \<Rightarrow> swap_state \<Rightarrow> outcome" where
  "enter c s = (case uc_resume (sw_ctx s c) of None \<Rightarrow> Undefined UninitRead | Some r \<Rightarrow> Runs r s)"

definition save :: "ctx \<Rightarrow> resume \<Rightarrow> swap_state \<Rightarrow> swap_state" where
  "save c r s = s\<lparr>sw_ctx := (sw_ctx s)(c := (sw_ctx s c)\<lparr>uc_resume := Some r\<rparr>)\<rparr>"

definition swapcontext :: "(nat \<Rightarrow> bool) \<Rightarrow> ctx \<Rightarrow> resume \<Rightarrow> ctx \<Rightarrow> swap_state \<Rightarrow> outcome" where
  "swapcontext fails from after to s =
     (let s' = s\<lparr>sw_calls := sw_calls s + 1\<rparr> in
      if fails (sw_calls s) then handle_error ''swapcontext'' s' else enter to (save from after s'))"

definition return_to_link :: "ctx \<Rightarrow> swap_state \<Rightarrow> outcome" where
  "return_to_link c s = (case uc_link (sw_ctx s c) of None \<Rightarrow> Thread_exit s | Some c' \<Rightarrow> enter c' s)"

text \<open>\<open>my_coroutine\<close>, up to the change and after it.\<close>

definition swap_coroutine :: "(nat \<Rightarrow> bool) \<Rightarrow> nat \<Rightarrow> swap_state \<Rightarrow> outcome" where
  "swap_coroutine fails n s =
     (let s' = print (Swapping n) (print (Started n) s) in
      if n = 1 then swapcontext fails (Uctx_func 1) (Co_swapped 1) (Uctx_func 2) s'
      else swapcontext fails (Uctx_func 2) (Co_swapped n) (Uctx_func 1) s')"

definition swap_coroutine_rest :: "nat \<Rightarrow> swap_state \<Rightarrow> outcome" where
  "swap_coroutine_rest n s = return_to_link (if n = 1 then Uctx_func 1 else Uctx_func 2) (print (Returning n) s)"

text \<open>\<open>main\<close>: two contexts, each with its stack, function and successor.\<close>

definition make_context :: "(nat \<Rightarrow> bool) \<Rightarrow> nat \<Rightarrow> ctx option \<Rightarrow> (swap_state \<Rightarrow> outcome) \<Rightarrow> swap_state \<Rightarrow> outcome" where
  "make_context fails n link rest s =
     (let s' = s\<lparr>sw_calls := sw_calls s + 1\<rparr> in
      if fails (sw_calls s) then handle_error ''getcontext'' s'
      else rest (s'\<lparr>sw_ctx := (sw_ctx s')(Uctx_func n := \<lparr>uc_resume = Some (Co_start n), uc_link = link\<rparr>)\<rparr>))"

definition swap_main :: "(nat \<Rightarrow> bool) \<Rightarrow> nat \<Rightarrow> swap_state \<Rightarrow> outcome" where
  "swap_main fails argc s =
     make_context fails 1 (Some Uctx_main)
       (make_context fails 2 (if argc > 1 then None else Some (Uctx_func 1))
         (\<lambda>s. swapcontext fails Uctx_main Main_swapped (Uctx_func 2) (print Main_swapping s))) s"

definition swap_step :: "(nat \<Rightarrow> bool) \<Rightarrow> nat \<Rightarrow> outcome \<Rightarrow> outcome" where
  "swap_step fails argc q =
     (case q of
        Runs Main_start s \<Rightarrow> swap_main fails argc s
      | Runs Main_swapped s \<Rightarrow> Exit True (print Main_exiting s)
      | Runs (Co_start n) s \<Rightarrow> swap_coroutine fails n s
      | Runs (Co_swapped n) s \<Rightarrow> swap_coroutine_rest n s
      | r \<Rightarrow> r)"

definition swap_start :: outcome where
  "swap_start = Runs Main_start \<lparr>sw_ctx = (\<lambda>c. \<lparr>uc_resume = None, uc_link = None\<rparr>), sw_calls = 0, sw_out = []\<rparr>"

definition swap_run :: "(nat \<Rightarrow> bool) \<Rightarrow> nat \<Rightarrow> nat \<Rightarrow> outcome" where
  "swap_run fails argc n = (swap_step fails argc ^^ n) swap_start"

section \<open>What is printed\<close>

definition full_output :: "line list" where
  "full_output = [Main_swapping, Started 2, Swapping 2, Started 1, Swapping 1, Returning 2, Returning 1, Main_exiting]"

lemmas swap_defs = swap_step_def swap_main_def make_context_def swapcontext_def enter_def save_def print_def handle_error_def
  swap_coroutine_def swap_coroutine_rest_def return_to_link_def

lemma swap_run_unfold:
  "swap_run fails argc 6 = swap_step fails argc (swap_step fails argc (swap_step fails argc (swap_step fails argc
     (swap_step fails argc (swap_step fails argc swap_start)))))"
  by (simp add: swap_run_def eval_nat_numeral)

text \<open>
  The program ends after six changes at most, whichever of its calls fail, and never changes to a context that was not set up. Without an
  argument and without failures each of the three goes on where it was and \<open>main\<close> exits last; with an argument the whole
  program ends when the second function returns, so that neither the first one nor \<open>main\<close> comes to its end.
\<close>

theorem swap_program:
  "(case swap_run fails argc 6 of
      Exit True s \<Rightarrow> sw_out s = full_output \<and> argc \<le> 1 \<and> (\<forall>i<5. \<not> fails i)
    | Thread_exit s \<Rightarrow> sw_out s = take 6 full_output \<and> argc > 1 \<and> (\<forall>i<5. \<not> fails i)
    | Exit False s \<Rightarrow> (\<exists>i<5. fails i \<and> (\<forall>j<i. \<not> fails j)
        \<and> sw_out s = take (if i < 3 then i - 1 else 2 * i - 3) full_output @ [Perror (if i < 2 then ''getcontext'' else ''swapcontext'')])
    | _ \<Rightarrow> False)"
proof -
  have five: "(\<forall>i<5. P i) \<longleftrightarrow> P 0 \<and> P 1 \<and> P 2 \<and> P 3 \<and> P 4"
    "(\<exists>i<5. P i) \<longleftrightarrow> P 0 \<or> P 1 \<or> P 2 \<or> P 3 \<or> P 4" for P :: "nat \<Rightarrow> bool"
    by (auto simp: numeral_eq_Suc less_Suc_eq)
  have none: "(\<forall>j<0. P j) = True" "(\<forall>j<1. P j) = P 0" "(\<forall>j<2. P j) = (P 0 \<and> P 1)" "(\<forall>j<3. P j) = (P 0 \<and> P 1 \<and> P 2)"
    "(\<forall>j<4. P j) = (P 0 \<and> P 1 \<and> P 2 \<and> P 3)" for P :: "nat \<Rightarrow> bool"
    by (auto simp: numeral_eq_Suc less_Suc_eq)
  show ?thesis
    unfolding swap_run_unfold five none
    by (cases "fails 0"; cases "fails 1"; cases "fails 2"; cases "fails 3"; cases "fails 4"; cases "argc > 1")
      (simp_all add: swap_start_def swap_defs Let_def full_output_def eval_nat_numeral)
qed

theorem swap_program_witness:
  "\<exists>s. swap_run (\<lambda>i. False) 1 6 = Exit True s \<and> sw_out s = full_output"
proof -
  have "\<exists>b s. swap_run (\<lambda>i. False) 1 6 = Exit b s"
    unfolding swap_run_unfold by (auto simp: swap_start_def swap_defs Let_def)
  then show ?thesis using swap_program [where fails = "\<lambda>i. False" and argc = 1] by (auto split: bool.splits)
qed

end
