(* ===== verification/Fcntl_Lock.thy ===== *)
theory Fcntl_Lock
  imports Sem_Console
begin

text \<open>
  The console over record locks (\<^verbatim>\<open>lecture_examples/9_aio/3_fcntl_lock.c\<close>): each line typed in writes symbols to a file or sets, releases or
  asks for a lock on a part of it. The kernel is a parameter: a function of the call that is made and of a state of any type. Scanning of
  numbers is that of the semaphore console. The echo of the line, of the command and of the scanned values is left out.
\<close>

section \<open>Calls\<close>

datatype lock_type = F_RDLCK | F_WRLCK | F_UNLCK

datatype whence = SEEK_SET | SEEK_CUR | SEEK_END

record flock =
  l_type :: lock_type
  l_whence :: whence
  l_start :: int
  l_len :: int

datatype fcntl_cmd = F_SETLK | F_SETLKW | F_GETLK

datatype fl_call = Open_file | Write_char char | Fcntl fcntl_cmd flock | Close_file

text \<open>The kernel fails the call, or succeeds; then the type and the process are what it leaves in the structure of a lock.\<close>

type_synonym 'k fl_kernel = "fl_call \<Rightarrow> 'k \<Rightarrow> (lock_type \<times> int) option \<times> 'k"

datatype fl_msg = Rc_error | Rc_ok | Unknown_command | No_lock | Holder int

section \<open>The commands\<close>

definition char_to_whence :: "char \<Rightarrow> whence" where
  "char_to_whence c = (if c = CHR ''s'' then SEEK_SET else if c = CHR ''e'' then SEEK_END else SEEK_CUR)"

definition char_to_type :: "char \<Rightarrow> lock_type" where
  "char_to_type c = (if c = CHR ''r'' then F_RDLCK else if c = CHR ''w'' then F_WRLCK else F_UNLCK)"

text \<open>\<open>sscanf (cmd, "%c %c %d %d", \<dots>)\<close>: the first character is taken as it is.\<close>

definition sscanf_lock :: "string \<Rightarrow> (char \<times> char \<times> int \<times> int) option" where
  "sscanf_lock s =
     (case s of [] \<Rightarrow> None | type # r1 \<Rightarrow>
      (case dropWhile is_space r1 of [] \<Rightarrow> None | whence # r2 \<Rightarrow>
       (case scan_int r2 of None \<Rightarrow> None | Some (start, r3) \<Rightarrow>
        (case scan_int r3 of None \<Rightarrow> None | Some (len, r4) \<Rightarrow> Some (type, whence, start, len)))))"

text \<open>The variables are printed, so that a line with less than four values reads an uninitialised one.\<close>

definition read_flock :: "string \<Rightarrow> fault + flock" where
  "read_flock cmd =
     (case sscanf_lock cmd of
        None \<Rightarrow> Inl UninitRead
      | Some (type, whence, start, len) \<Rightarrow>
          Inr \<lparr>l_type = char_to_type type, l_whence = char_to_whence whence, l_start = start, l_len = len\<rparr>)"

text \<open>The functions return whether their result is 0.\<close>

definition do_lock :: "'k fl_kernel \<Rightarrow> bool \<Rightarrow> string \<Rightarrow> 'k \<Rightarrow> fault + bool \<times> 'k" where
  "do_lock kn block cmd k =
     rbind (read_flock cmd) (\<lambda>fl.
     case kn (Fcntl (if block then F_SETLKW else F_SETLK) fl) k of (r, k') \<Rightarrow> Inr (r \<noteq> None, k'))"

definition get_lock :: "'k fl_kernel \<Rightarrow> string \<Rightarrow> 'k \<Rightarrow> fault + bool \<times> fl_msg list \<times> 'k" where
  "get_lock kn cmd k =
     rbind (read_flock cmd) (\<lambda>fl.
     case kn (Fcntl F_GETLK fl) k of
       (None, k') \<Rightarrow> Inr (False, [], k')
     | (Some (type, pid), k') \<Rightarrow> Inr (True, [if type = F_UNLCK then No_lock else Holder pid], k'))"

fun write_loop :: "'k fl_kernel \<Rightarrow> nat \<Rightarrow> char \<Rightarrow> 'k \<Rightarrow> bool \<times> 'k" where
  "write_loop kn 0 c k = (True, k)"
| "write_loop kn (Suc n) c k =
     (case kn (Write_char c) k of (None, k') \<Rightarrow> (False, k') | (Some _, k') \<Rightarrow> write_loop kn n c k')"

definition write_symbols :: "'k fl_kernel \<Rightarrow> string \<Rightarrow> 'k \<Rightarrow> fault + bool \<times> 'k" where
  "write_symbols kn cmd k =
     (case sscanf_d_c cmd of
        (None, _) \<Rightarrow> Inl UninitRead
      | (Some n, None) \<Rightarrow> if n > 0 then Inl UninitRead else Inr (True, k)
      | (Some n, Some c) \<Rightarrow> Inr (write_loop kn (nat n) c k))"

text \<open>\<open>strsep (&line, " \n")\<close>: the command, and the rest of the line or the null pointer.\<close>

definition strsep :: "string \<Rightarrow> string \<times> string option" where
  "strsep line =
     (let sep = (\<lambda>c. c = CHR '' '' \<or> c = CHR 0x0A); cmd = takeWhile (\<lambda>c. \<not> sep c) line in
      (cmd, case dropWhile (\<lambda>c. \<not> sep c) line of [] \<Rightarrow> None | _ # rest \<Rightarrow> Some rest))"

definition rc_msg :: "bool \<Rightarrow> fl_msg" where
  "rc_msg ok = (if ok then Rc_ok else Rc_error)"

text \<open>One turn of the loop of \<open>main\<close>. The rest of the line is printed before the command is looked at, also where there is none.\<close>

definition fl_line :: "'k fl_kernel \<Rightarrow> string \<Rightarrow> 'k \<Rightarrow> fault + fl_msg list \<times> 'k" where
  "fl_line kn buf k =
     rbind (trim buf) (\<lambda>line.
       case strsep line of
         (cmd, None) \<Rightarrow> Inl NullDeref
       | (cmd, Some args) \<Rightarrow>
           if cmd = ''write'' then rbind (write_symbols kn args k) (\<lambda>(ok, k'). Inr ([rc_msg ok], k'))
           else if cmd = ''lock'' then rbind (do_lock kn False args k) (\<lambda>(ok, k'). Inr ([rc_msg ok], k'))
           else if cmd = ''lockb'' then rbind (do_lock kn True args k) (\<lambda>(ok, k'). Inr ([rc_msg ok], k'))
           else if cmd = ''getlock'' then rbind (get_lock kn args k) (\<lambda>(ok, out, k'). Inr (out @ [rc_msg ok], k'))
           else Inr ([Unknown_command], k))"



section \<open>What is asked for\<close>












section \<open>The console does what is asked for\<close>

lemma scan_int_space [simp]: "scan_int (CHR '' '' # s) = scan_int s"
  by (simp add: scan_int_def is_space_def)












text \<open>A command without a blank prints a null pointer as a string, which is undefined behaviour.\<close>

lemma command_without_arguments:
  "CHR '' '' \<notin> set line \<Longrightarrow> CHR 0x0A \<notin> set line \<Longrightarrow> fl_line kn (line @ [CHR 0x0A]) k = Inl NullDeref"
proof -
  assume "CHR '' '' \<notin> set line" "CHR 0x0A \<notin> set line"
  then have "dropWhile (\<lambda>c. c \<noteq> CHR '' '' \<and> c \<noteq> CHR 0x0A) line = []" by (auto simp: dropWhile_eq_Nil_conv)
  then have "snd (strsep line) = None" by (simp add: strsep_def Let_def del: dropWhile_eq_Nil_conv)
  then obtain cmd where "strsep line = (cmd, None)" by (cases "strsep line") auto
  then show ?thesis by (simp add: fl_line_def trim_def)
qed

end
