(* ===== verification/Shared_Counter.thy ===== *)
theory Shared_Counter
  imports Shared_Mutex
begin

text \<open>
  The counter of the demonstration (\<^verbatim>\<open>materials/09-advanced-synchronization/code/shared_mutex_demo.cpp\<close>), used by any number of threads over the
  shared mutex. Reading and writing the value are steps of their own, so that nothing but the mutex keeps an increment together.
  The log has the operations in the order in which they touch the value.
\<close>

section \<open>What the counter needs of a mutex\<close>

locale rw_lock =
  fixes reach :: "'c \<Rightarrow> bool" and writes :: "'c \<Rightarrow> nat \<Rightarrow> bool" and reads :: "'c \<Rightarrow> nat \<Rightarrow> bool"
  assumes writer_alone: "reach c \<Longrightarrow> writes c t \<Longrightarrow> writes c u \<or> reads c u \<Longrightarrow> u = t"
begin

text \<open>While a thread writes, no other has a copy of the value that it took under the lock.\<close>

lemma no_other_copy:
  assumes "reach c" "writes c t" "\<And>u v. copy u = Some v \<Longrightarrow> writes c u \<or> reads c u" "u \<noteq> t"
  shows "copy u = None"
  using assms writer_alone by (cases "copy u") blast+

end

lemma rw_reach_alone:
  assumes "rw_reach N c" "rw_phase c t = Writing" "rw_phase c u = Writing \<or> rw_phase c u = Reading"
  shows "u = t"
proof -
  obtain w n where ok: "rw_ok N w n c" using rw_reach_inv assms(1) by blast
  then have "n = 0" using assms(2) by (auto simp: rw_ok_def)
  then have "readers c = {}" using ok finite_readers [OF ok] by (auto simp: rw_ok_def)
  then have "rw_phase c u = Writing" using assms(3) by (auto simp: readers_def)
  then show ?thesis using ok assms(2) unfolding rw_ok_def holders_def by blast
qed

interpretation rw: rw_lock "rw_reach N" "\<lambda>c t. rw_phase c t = Writing" "\<lambda>c t. rw_phase c t = Reading" for N
  by unfold_locales (rule rw_reach_alone)

section \<open>Inside the mutex\<close>

text \<open>The steps of the calls of the mutex that are not a call or a return: waiting, waking up and letting others go on.\<close>

inductive inner :: "rw_conf \<Rightarrow> rw_conf \<Rightarrow> bool" where
  run: "rw_phase c t = Lock1 \<Longrightarrow> inner c (lock_section t c)"
| rerun: "rw_phase c t = Entered \<Longrightarrow> inner c (wait_readers t c)"
| run_shared: "rw_phase c t = LockS \<Longrightarrow> inner c (lock_shared_section t c)"
| notify: "rw_phase c t = Unlocking \<Longrightarrow> inner c (become t Out (notify_all gate1 c))"
| wake: "rw_phase c t \<in> gate1 \<union> gate2 \<Longrightarrow> inner c (become t (woken (rw_phase c t)) c)"

lemma inner_steps: "inner c c' \<Longrightarrow> sup (rw_step N) spurious c c'"
  by (induction rule: inner.induct) (auto intro: rw_step.intros spurious.intros)

lemma rw_reach_more: "rw_reach N c \<Longrightarrow> sup (rw_step N) spurious c c' \<Longrightarrow> rw_reach N c'"
  unfolding rw_reach_def by (rule rtranclp.rtrancl_into_rtrancl)

lemma rw_reach_inner: "rw_reach N c \<Longrightarrow> inner c c' \<Longrightarrow> rw_reach N c'"
  using rw_reach_more inner_steps by blast

definition locking :: "phase set" where
  "locking = {Lock1, Sleep1, Entered, Sleep2, Writing}"

definition sharing :: "phase set" where
  "sharing = {LockS, SleepS, Reading}"

definition leaving :: "phase set" where
  "leaving = {Unlocking, Out}"

lemmas groups = locking_def sharing_def leaving_def

text \<open>A thread stays in its group, and whoever holds the lock, or is outside, is not moved.\<close>

lemma inner_phase:
  "inner c c' \<Longrightarrow> (\<forall>G\<in>{locking, sharing, leaving}. rw_phase c u \<in> G \<longrightarrow> rw_phase c' u \<in> G) \<and>
    (rw_phase c u \<in> {Writing, Reading, Out} \<longrightarrow> rw_phase c' u = rw_phase c u)"
  by (induction rule: inner.induct)
    (auto simp: groups lock_section_def lock_shared_section_def wait_readers_def notify_all_def woken_def phase_sets split: phase.splits)

section \<open>The counter\<close>

datatype call = Increment | Get | Reset

datatype tsc_pc = Idle | Calls call | Loaded u32 | Written | Leaves | Got u32

datatype logged = Incremented nat | Was_reset nat | Returned nat u32

record tsc =
  tsc_mutex :: rw_conf
  tsc_value :: u32
  tsc_pc :: "nat \<Rightarrow> tsc_pc"
  tsc_log :: "logged list"

definition tsc_init :: tsc where
  "tsc_init = \<lparr>tsc_mutex = rw_init, tsc_value = 0, tsc_pc = (\<lambda>t. Idle), tsc_log = []\<rparr>"

definition tsc_to :: "nat \<Rightarrow> tsc_pc \<Rightarrow> tsc \<Rightarrow> tsc" where
  "tsc_to t p d = d\<lparr>tsc_pc := (tsc_pc d)(t := p)\<rparr>"

text \<open>The constructor of the lock object begins to lock, exclusively or shared.\<close>

definition call_counter :: "nat \<Rightarrow> call \<Rightarrow> tsc \<Rightarrow> tsc" where
  "call_counter t k d = tsc_to t (Calls k) (d\<lparr>tsc_mutex := become t (if k = Get then LockS else Lock1) (tsc_mutex d)\<rparr>)"

text \<open>The body of \<open>increment\<close>, in two steps, and those of \<open>reset\<close> and \<open>get\<close>.\<close>

definition increment_load :: "nat \<Rightarrow> tsc \<Rightarrow> tsc" where
  "increment_load t d = tsc_to t (Loaded (tsc_value d)) d"

definition increment_store :: "nat \<Rightarrow> u32 \<Rightarrow> tsc \<Rightarrow> tsc" where
  "increment_store t v d = tsc_to t Written (d\<lparr>tsc_value := v + 1, tsc_log := tsc_log d @ [Incremented t]\<rparr>)"

definition reset_store :: "nat \<Rightarrow> tsc \<Rightarrow> tsc" where
  "reset_store t d = tsc_to t Written (d\<lparr>tsc_value := 0, tsc_log := tsc_log d @ [Was_reset t]\<rparr>)"

definition get_load :: "nat \<Rightarrow> tsc \<Rightarrow> tsc" where
  "get_load t d = tsc_to t (Got (tsc_value d)) (d\<lparr>tsc_log := tsc_log d @ [Returned t (tsc_value d)]\<rparr>)"

inductive tsc_step :: "nat \<Rightarrow> tsc \<Rightarrow> tsc \<Rightarrow> bool" for N where
  call: "tsc_pc d t = Idle \<Longrightarrow> t < N \<Longrightarrow> tsc_step N d (call_counter t k d)"
| mutex: "inner (tsc_mutex d) m \<Longrightarrow> tsc_step N d (d\<lparr>tsc_mutex := m\<rparr>)"
| inc_load: "tsc_pc d t = Calls Increment \<Longrightarrow> rw_phase (tsc_mutex d) t = Writing \<Longrightarrow> tsc_step N d (increment_load t d)"
| inc_store: "tsc_pc d t = Loaded v \<Longrightarrow> tsc_step N d (increment_store t v d)"
| res_store: "tsc_pc d t = Calls Reset \<Longrightarrow> rw_phase (tsc_mutex d) t = Writing \<Longrightarrow> tsc_step N d (reset_store t d)"
| get_value: "tsc_pc d t = Calls Get \<Longrightarrow> rw_phase (tsc_mutex d) t = Reading \<Longrightarrow> tsc_step N d (get_load t d)"
| unlocks: "tsc_pc d t = Written \<Longrightarrow> tsc_step N d (tsc_to t Leaves (d\<lparr>tsc_mutex := unlock_section t (tsc_mutex d)\<rparr>))"
| returns: "tsc_pc d t = Leaves \<Longrightarrow> rw_phase (tsc_mutex d) t = Out \<Longrightarrow> tsc_step N d (tsc_to t Idle d)"
| get_returns: "tsc_pc d t = Got v \<Longrightarrow> (\<exists>u. rw_phase (tsc_mutex d) u \<in> gate1) \<longrightarrow> rw_phase (tsc_mutex d) u1 \<in> gate1 \<Longrightarrow>
    (\<exists>u. rw_phase (tsc_mutex d) u \<in> gate2) \<longrightarrow> rw_phase (tsc_mutex d) u2 \<in> gate2 \<Longrightarrow>
    tsc_step N d (tsc_to t Idle (d\<lparr>tsc_mutex := unlock_shared_section t u1 u2 (tsc_mutex d)\<rparr>))"

section \<open>A counter that is not shared\<close>

fun count_log :: "logged list \<Rightarrow> u32 \<Rightarrow> u32" where
  "count_log [] v = v"
| "count_log (Incremented t # es) v = count_log es (v + 1)"
| "count_log (Was_reset t # es) v = count_log es 0"
| "count_log (Returned t r # es) v = count_log es v"

fun log_ok :: "logged list \<Rightarrow> u32 \<Rightarrow> bool" where
  "log_ok [] v = True"
| "log_ok (Incremented t # es) v = log_ok es (v + 1)"
| "log_ok (Was_reset t # es) v = log_ok es 0"
| "log_ok (Returned t r # es) v = (r = v \<and> log_ok es v)"

lemma log_append:
  "count_log (xs @ ys) v = count_log ys (count_log xs v)" "log_ok (xs @ ys) v = (log_ok xs v \<and> log_ok ys (count_log xs v))"
  by (induction xs v rule: count_log.induct) auto

section \<open>The counter behaves as if it were not shared\<close>

fun pc_fits :: "u32 \<Rightarrow> tsc_pc \<Rightarrow> phase \<Rightarrow> bool" where
  "pc_fits v Idle p = (p = Out)"
| "pc_fits v (Calls k) p = (if k = Get then p \<in> sharing else p \<in> locking)"
| "pc_fits v (Loaded x) p = (p = Writing \<and> x = v)"
| "pc_fits v Written p = (p = Writing)"
| "pc_fits v Leaves p = (p \<in> leaving)"
| "pc_fits v (Got x) p = (p = Reading \<and> x = v)"

definition tsc_inv :: "nat \<Rightarrow> tsc \<Rightarrow> bool" where
  "tsc_inv N d \<longleftrightarrow> rw_reach N (tsc_mutex d) \<and> (\<forall>t. pc_fits (tsc_value d) (tsc_pc d t) (rw_phase (tsc_mutex d) t)) \<and>
     log_ok (tsc_log d) 0 \<and> count_log (tsc_log d) 0 = tsc_value d"

fun copy_of :: "tsc_pc \<Rightarrow> u32 option" where
  "copy_of (Loaded x) = Some x"
| "copy_of (Got x) = Some x"
| "copy_of p = None"

lemma pc_fits_any: "copy_of p = None \<Longrightarrow> pc_fits v p ph \<Longrightarrow> pc_fits v' p ph"
  by (cases p) auto

lemma tsc_to_simps [simp]: "tsc_mutex (tsc_to t p d) = tsc_mutex d" "tsc_value (tsc_to t p d) = tsc_value d"
  "tsc_log (tsc_to t p d) = tsc_log d" "tsc_pc (tsc_to t p d) = (tsc_pc d)(t := p)"
  by (simp_all add: tsc_to_def)

text \<open>A thread that writes the value finds no copy of the old one with anybody else.\<close>

lemma write_inv:
  assumes inv: "tsc_inv N d" and t: "rw_phase (tsc_mutex d) t = Writing" and v: "log_ok es (tsc_value d)" "count_log es (tsc_value d) = v"
  shows "tsc_inv N (tsc_to t Written (d\<lparr>tsc_value := v, tsc_log := tsc_log d @ es\<rparr>))"
proof -
  have fits: "pc_fits (tsc_value d) (tsc_pc d u) (rw_phase (tsc_mutex d) u)" for u using inv by (simp add: tsc_inv_def)
  have "copy_of (tsc_pc d u) = None" if "u \<noteq> t" for u
  proof (rule rw.no_other_copy [of N "tsc_mutex d" t "\<lambda>u. copy_of (tsc_pc d u)" u])
    show "copy_of (tsc_pc d u) = Some v \<Longrightarrow> rw_phase (tsc_mutex d) u = Writing \<or> rw_phase (tsc_mutex d) u = Reading" for u v
      using fits [of u] by (cases "tsc_pc d u") auto
  qed (use inv t that in \<open>simp_all add: tsc_inv_def\<close>)
  then have "u \<noteq> t \<Longrightarrow> pc_fits v (tsc_pc d u) (rw_phase (tsc_mutex d) u)" for u using pc_fits_any fits by blast
  then show ?thesis using inv t v by (auto simp: tsc_inv_def log_append)
qed

lemma pc_fits_inner:
  assumes "inner c c'" "pc_fits v p (rw_phase c u)"
  shows "pc_fits v p (rw_phase c' u)"
  using inner_phase [OF assms(1), of u] assms(2) by (cases p) (auto split: if_splits)

lemma pc_fits_woken: "pc_fits v p ph \<Longrightarrow> pc_fits v p (woken ph)"
  by (cases p; cases ph) (auto simp: groups woken_def split: if_splits)

lemma unlock_shared_phase:
  "rw_phase (unlock_shared_section t u1 u2 c) u \<in> (if u = t then {Out} else {rw_phase c u, woken (rw_phase c u)})"
  by (auto simp: unlock_shared_section_def Let_def notify_one_def phase_sets woken_def)

lemma pc_fits_unlock_shared:
  "pc_fits v p (rw_phase c u) \<Longrightarrow> u \<noteq> t \<Longrightarrow> pc_fits v p (rw_phase (unlock_shared_section t u1 u2 c) u)"
  using unlock_shared_phase [of t u1 u2 c u] pc_fits_woken by auto

lemma call_inv:
  assumes inv: "tsc_inv N d" and t: "tsc_pc d t = Idle" "t < N"
  shows "tsc_inv N (call_counter t k d)"
proof -
  have out: "rw_phase (tsc_mutex d) t = Out" using inv t(1) by (auto simp: tsc_inv_def dest: spec [of _ t])
  have "rw_step N (tsc_mutex d) (become t (if k = Get then LockS else Lock1) (tsc_mutex d))"
    using rw_step.lock [OF out t(2)] rw_step.lock_shared [OF out t(2)] by simp
  then have "rw_reach N (become t (if k = Get then LockS else Lock1) (tsc_mutex d))"
    using inv rw_reach_more by (auto simp: tsc_inv_def)
  then show ?thesis using inv by (auto simp: tsc_inv_def call_counter_def groups)
qed

lemma tsc_step_inv: "tsc_step N d d' \<Longrightarrow> tsc_inv N d \<Longrightarrow> tsc_inv N d'"
proof (induction rule: tsc_step.induct)
  case (call d t k)
  then show ?case by (simp add: call_inv)
next
  case (mutex d m)
  then show ?case using rw_reach_inner pc_fits_inner by (auto simp: tsc_inv_def)
next
  case (inc_load d t)
  then show ?case by (auto simp: tsc_inv_def increment_load_def)
next
  case (inc_store d t v)
  then have "pc_fits (tsc_value d) (Loaded v) (rw_phase (tsc_mutex d) t)" unfolding tsc_inv_def by metis
  then show ?case using write_inv [OF inc_store.prems, of t "[Incremented t]"] by (simp add: increment_store_def)
next
  case (res_store d t)
  then show ?case using write_inv [OF res_store.prems, of t "[Was_reset t]"] by (simp add: reset_store_def)
next
  case (get_value d t)
  then show ?case by (auto simp: tsc_inv_def get_load_def log_append)
next
  case (unlocks d t)
  then have w: "rw_phase (tsc_mutex d) t = Writing" by (auto simp: tsc_inv_def dest: spec [of _ t])
  have "rw_reach N (unlock_section t (tsc_mutex d))"
    using unlocks.prems rw_reach_more rw_step.unlock [OF w, of N] by (auto simp: tsc_inv_def)
  then show ?case using unlocks.prems by (auto simp: tsc_inv_def unlock_section_def leaving_def)
next
  case (returns d t)
  then show ?case by (auto simp: tsc_inv_def)
next
  case (get_returns d t v u1 u2)
  then have r: "rw_phase (tsc_mutex d) t = Reading" by (auto simp: tsc_inv_def dest: spec [of _ t])
  let ?m = "unlock_shared_section t u1 u2 (tsc_mutex d)"
  have "rw_reach N ?m"
    using get_returns.prems rw_reach_more rw_step.unlock_shared [OF r get_returns.hyps(2,3), of N] by (auto simp: tsc_inv_def)
  moreover have "rw_phase ?m t = Out" using unlock_shared_phase [of t u1 u2 "tsc_mutex d" t] by simp
  ultimately show ?case using get_returns.prems pc_fits_unlock_shared by (auto simp: tsc_inv_def)
qed

definition tsc_reach :: "nat \<Rightarrow> tsc \<Rightarrow> bool" where
  "tsc_reach N d \<longleftrightarrow> (tsc_step N)\<^sup>*\<^sup>* tsc_init d"

lemma tsc_reach_inv:
  assumes "tsc_reach N d"
  shows "tsc_inv N d"
  using assms unfolding tsc_reach_def
proof (induction rule: rtranclp_induct)
  case base
  then show ?case by (simp add: tsc_inv_def tsc_init_def rw_reach_def rw_init_def)
qed (rule tsc_step_inv)

lemma count_increments: "\<forall>t. Was_reset t \<notin> set es \<Longrightarrow> count_log es v = v + of_nat (length (filter (\<lambda>e. \<exists>t. e = Incremented t) es))"
proof (induction es v rule: count_log.induct)
  case (2 t es v)
  then show ?case by (simp add: add.assoc)
qed auto

text \<open>
  C18. However many threads increment, reset and read the counter, and however their steps, the waits inside of the mutex and the spurious wakeups
  interleave: the operations have the effect of a counter that only one thread uses, in the order of the log. Every \<open>get\<close> returns the
  value that the operations before it leave, and the value is the number of increments, modulo \<open>2 ^ 32\<close>, where nobody resets.
\<close>

theorem counter_linearizable:
  assumes "tsc_reach N d"
  shows "log_ok (tsc_log d) 0 \<and> tsc_value d = count_log (tsc_log d) 0 \<and>
    ((\<forall>t. Was_reset t \<notin> set (tsc_log d)) \<longrightarrow>
      tsc_value d = of_nat (length (filter (\<lambda>e. \<exists>t. e = Incremented t) (tsc_log d))))"
  using tsc_reach_inv [OF assms] count_increments [of "tsc_log d" 0] by (auto simp: tsc_inv_def)

text \<open>The first turn of the loop of the demonstration in one thread, while a second one waits for the mutex.\<close>

lemma tsc_reach_step: "tsc_reach N d \<Longrightarrow> tsc_step N d d' \<Longrightarrow> tsc_reach N d'"
  unfolding tsc_reach_def by (rule rtranclp.rtrancl_into_rtrancl)

theorem counter_linearizable_witness:
  "\<exists>d. tsc_reach 2 d \<and> tsc_log d = [Incremented 0] \<and> rw_phase (tsc_mutex d) 1 = Sleep1 \<and> tsc_value d = 1"
proof -
  define d1 where "d1 = call_counter 0 Increment tsc_init"
  define d2 where "d2 = d1\<lparr>tsc_mutex := lock_section 0 (tsc_mutex d1)\<rparr>"
  define d3 where "d3 = call_counter 1 Increment d2"
  define d4 where "d4 = d3\<lparr>tsc_mutex := lock_section 1 (tsc_mutex d3)\<rparr>"
  define d5 where "d5 = increment_load 0 d4"
  define d6 where "d6 = increment_store 0 0 d5"
  have "write_entered AND n_readers = 0" "write_entered \<noteq> 0" by (simp_all add: write_entered_def n_readers_def)
  note defs = this tsc_init_def rw_init_def call_counter_def lock_section_def wait_readers_def increment_load_def increment_store_def
  have "tsc_reach 2 tsc_init" by (simp add: tsc_reach_def)
  then have "tsc_reach 2 d1" unfolding d1_def by (rule tsc_reach_step) (rule tsc_step.call, simp_all add: defs)
  then have "tsc_reach 2 d2" unfolding d2_def by (rule tsc_reach_step) (rule tsc_step.mutex, rule inner.run, simp add: d1_def defs)
  then have "tsc_reach 2 d3" unfolding d3_def by (rule tsc_reach_step) (rule tsc_step.call, simp_all add: d2_def d1_def defs)
  then have "tsc_reach 2 d4" unfolding d4_def
    by (rule tsc_reach_step) (rule tsc_step.mutex, rule inner.run, simp add: d3_def d2_def d1_def defs)
  then have "tsc_reach 2 d5" unfolding d5_def
    by (rule tsc_reach_step) (rule tsc_step.inc_load, simp_all add: d4_def d3_def d2_def d1_def defs)
  then have r: "tsc_reach 2 d6" unfolding d6_def
    by (rule tsc_reach_step) (rule tsc_step.inc_store, simp add: d5_def d4_def d3_def d2_def d1_def defs)
  have l: "tsc_log d6 = [Incremented 0]" "rw_phase (tsc_mutex d6) 1 = Sleep1"
    by (simp_all add: d6_def d5_def d4_def d3_def d2_def d1_def defs)
  have "\<forall>t. Was_reset t \<notin> set (tsc_log d6)" by (simp add: l(1))
  then have "tsc_value d6 = 1" using counter_linearizable [OF r] by (simp add: l(1))
  then show ?thesis using r l by blast
qed

end
