(* ===== verification/Simple_Pipe.thy ===== *)
theory Simple_Pipe
  imports Prelude
begin

text \<open>
  The pipe of the materials (\<^verbatim>\<open>08-pipes/examples/simple_pipe.c\<close>): the parent writes its argument, the child prints what it reads, ten bytes at
  most at a time. Parent and child are interleaved; how many bytes a call transfers is chosen by the schedule. The
  kernel's pipe holds \<open>cap\<close> bytes, a writer waits while it is full and is killed when nobody can read it, a reader waits while
  it is empty and somebody can write it.
\<close>

section \<open>State\<close>

datatype parent_pc = Pa_Close | Pa_Write string | Pa_Close1 | Pa_Wait | Pa_Exit | Pa_Killed

datatype child_pc = Ch_Close | Ch_Read | Ch_Print string | Ch_Newline | Ch_Exit bool

record pipe_conf =
  pp_buf :: string
  pp_out :: string
  pp_parent :: parent_pc
  pp_child :: child_pc

definition BUF_SIZE :: nat where
  "BUF_SIZE = 10"

definition pp_init :: pipe_conf where
  "pp_init = \<lparr>pp_buf = [], pp_out = [], pp_parent = Pa_Close, pp_child = Ch_Close\<rparr>"

text \<open>
  Who has the ends of the pipe open. The parent means to close its reading end, but the parentheses make it close descriptor 0: that is the
  standard input, if it was open, and the reading end has got the number 0 otherwise.
\<close>

definition has_reader :: "bool \<Rightarrow> pipe_conf \<Rightarrow> bool" where
  "has_reader stdin c \<longleftrightarrow> (\<forall>b. pp_child c \<noteq> Ch_Exit b) \<or>
     (case pp_parent c of Pa_Close \<Rightarrow> True | Pa_Exit \<Rightarrow> False | Pa_Killed \<Rightarrow> False | _ \<Rightarrow> stdin)"

definition has_writer :: "pipe_conf \<Rightarrow> bool" where
  "has_writer c \<longleftrightarrow> pp_child c = Ch_Close \<or>
     (case pp_parent c of Pa_Close \<Rightarrow> True | Pa_Write r \<Rightarrow> True | Pa_Close1 \<Rightarrow> True | _ \<Rightarrow> False)"

section \<open>Parent and child\<close>

definition parent_move :: "nat \<Rightarrow> bool \<Rightarrow> string \<Rightarrow> nat \<Rightarrow> pipe_conf \<Rightarrow> pipe_conf" where
  "parent_move cap stdin arg k c =
     (case pp_parent c of
        Pa_Close \<Rightarrow> c\<lparr>pp_parent := Pa_Write arg\<rparr>
      | Pa_Write rest \<Rightarrow>
          if rest = [] then c\<lparr>pp_parent := Pa_Close1\<rparr>
          else if \<not> has_reader stdin c then c\<lparr>pp_parent := Pa_Killed\<rparr>
          else let n = min (max 1 k) (cap - length (pp_buf c)) in
            c\<lparr>pp_buf := pp_buf c @ take n rest, pp_parent := Pa_Write (drop n rest)\<rparr>
      | Pa_Close1 \<Rightarrow> c\<lparr>pp_parent := Pa_Wait\<rparr>
      | Pa_Wait \<Rightarrow> if \<exists>b. pp_child c = Ch_Exit b then c\<lparr>pp_parent := Pa_Exit\<rparr> else c
      | _ \<Rightarrow> c)"

text \<open>Of what the child prints \<open>j\<close> bytes are accepted; with fewer than it has it gives up.\<close>

definition child_move :: "nat \<Rightarrow> nat \<Rightarrow> pipe_conf \<Rightarrow> pipe_conf" where
  "child_move k j c =
     (case pp_child c of
        Ch_Close \<Rightarrow> c\<lparr>pp_child := Ch_Read\<rparr>
      | Ch_Read \<Rightarrow>
          if pp_buf c \<noteq> [] then
            let n = min (max 1 k) BUF_SIZE in c\<lparr>pp_buf := drop n (pp_buf c), pp_child := Ch_Print (take n (pp_buf c))\<rparr>
          else if has_writer c then c
          else c\<lparr>pp_child := Ch_Newline\<rparr>
      | Ch_Print buf \<Rightarrow> c\<lparr>pp_out := pp_out c @ take j buf, pp_child := (if length buf \<le> j then Ch_Read else Ch_Exit False)\<rparr>
      | Ch_Newline \<Rightarrow> c\<lparr>pp_out := pp_out c @ take j [CHR 0x0A], pp_child := Ch_Exit True\<rparr>
      | Ch_Exit b \<Rightarrow> c)"

datatype pipe_event = Parent nat | Child nat nat

fun pp_event :: "nat \<Rightarrow> bool \<Rightarrow> string \<Rightarrow> pipe_event \<Rightarrow> pipe_conf \<Rightarrow> pipe_conf" where
  "pp_event cap stdin arg (Parent k) c = parent_move cap stdin arg k c"
| "pp_event cap stdin arg (Child k j) c = child_move k j c"

definition pp_run :: "nat \<Rightarrow> bool \<Rightarrow> string \<Rightarrow> pipe_event list \<Rightarrow> pipe_conf" where
  "pp_run cap stdin arg es = fold (pp_event cap stdin arg) es pp_init"

section \<open>Nothing is lost\<close>

fun unwritten :: "string \<Rightarrow> parent_pc \<Rightarrow> string" where
  "unwritten arg Pa_Close = arg"
| "unwritten arg (Pa_Write r) = r"
| "unwritten arg p = []"

fun unprinted :: "child_pc \<Rightarrow> string" where
  "unprinted (Ch_Print s) = s"
| "unprinted p = []"

text \<open>
  Without failures of the output: every byte of the argument is printed, with the child, in the pipe or with the parent, in this order; the
  child only ends after the parent has closed the pipe and it has read everything.
\<close>

definition pp_inv :: "string \<Rightarrow> pipe_conf \<Rightarrow> bool" where
  "pp_inv arg c \<longleftrightarrow>
     pp_out c @ unprinted (pp_child c) @ pp_buf c @ unwritten arg (pp_parent c) =
       (if pp_child c = Ch_Exit True then arg @ [CHR 0x0A] else arg) \<and>
     pp_child c \<noteq> Ch_Exit False \<and> pp_parent c \<noteq> Pa_Killed \<and>
     (case pp_child c of Ch_Print s \<Rightarrow> s \<noteq> [] \<and> length s \<le> BUF_SIZE
      | Ch_Newline \<Rightarrow> pp_buf c = [] \<and> \<not> has_writer c
      | Ch_Exit b \<Rightarrow> pp_buf c = [] \<and> \<not> has_writer c | _ \<Rightarrow> True) \<and>
     (pp_parent c = Pa_Exit \<longrightarrow> pp_child c = Ch_Exit True)"

lemma parent_inv: "pp_inv arg c \<Longrightarrow> pp_inv arg (parent_move cap stdin arg k c)"
  by (cases "pp_parent c"; cases "pp_child c") (auto simp: pp_inv_def parent_move_def has_writer_def has_reader_def Let_def)

lemma child_inv: "pp_inv arg c \<Longrightarrow> BUF_SIZE \<le> j \<Longrightarrow> pp_inv arg (child_move k j c)"
  by (cases "pp_child c"; cases "pp_parent c") (auto simp: pp_inv_def child_move_def has_writer_def Let_def BUF_SIZE_def)

fun full_output :: "pipe_event \<Rightarrow> bool" where
  "full_output (Parent k) = True"
| "full_output (Child k j) = (BUF_SIZE \<le> j)"

lemma pp_run_inv: "list_all full_output es \<Longrightarrow> pp_inv arg (pp_run cap stdin arg es)"
  unfolding pp_run_def
proof (induction es rule: rev_induct)
  case Nil
  then show ?case by (simp add: pp_inv_def pp_init_def)
next
  case (snoc e es)
  then show ?case by (cases e) (simp_all add: parent_inv child_inv)
qed

section \<open>Both come to the end\<close>

text \<open>What is left to do; every byte has three ways to go.\<close>

definition pp_left :: "string \<Rightarrow> pipe_conf \<Rightarrow> nat" where
  "pp_left arg c = 3 * length (unwritten arg (pp_parent c)) + 2 * length (pp_buf c) + length (unprinted (pp_child c)) +
     (case pp_parent c of Pa_Close \<Rightarrow> 4 | Pa_Write r \<Rightarrow> 3 | Pa_Close1 \<Rightarrow> 2 | Pa_Wait \<Rightarrow> 1 | _ \<Rightarrow> 0) +
     (case pp_child c of Ch_Close \<Rightarrow> 3 | Ch_Read \<Rightarrow> 2 | Ch_Print s \<Rightarrow> 2 | Ch_Newline \<Rightarrow> 1 | Ch_Exit b \<Rightarrow> 0)"

definition parent_waits :: "nat \<Rightarrow> pipe_conf \<Rightarrow> bool" where
  "parent_waits cap c \<longleftrightarrow> (\<exists>r. pp_parent c = Pa_Write r \<and> r \<noteq> [] \<and> cap \<le> length (pp_buf c)) \<or>
     pp_parent c = Pa_Wait \<and> (\<forall>b. pp_child c \<noteq> Ch_Exit b)"

lemma parent_left:
  assumes "pp_inv arg c" "pp_parent c \<noteq> Pa_Exit"
  shows "pp_left arg (parent_move cap stdin arg k c) < pp_left arg c \<or> parent_move cap stdin arg k c = c \<and> parent_waits cap c"
proof (cases "pp_parent c")
  case (Pa_Write r)
  have rd: "has_reader stdin c" using assms(1) Pa_Write by (auto simp: pp_inv_def has_reader_def has_writer_def split: child_pc.splits)
  show ?thesis
  proof (cases "r = [] \<or> length (pp_buf c) < cap")
    case True
    have "0 < min (max 1 k) (cap - length (pp_buf c))" if "length (pp_buf c) < cap" using that by simp
    then show ?thesis using Pa_Write rd True by (cases "r = []") (auto simp: parent_move_def pp_left_def Let_def min_def)
  next
    case False
    then show ?thesis using Pa_Write rd by (auto simp: parent_move_def parent_waits_def Let_def)
  qed
qed (use assms in \<open>auto simp: parent_move_def pp_left_def parent_waits_def pp_inv_def\<close>)

lemma child_left:
  assumes "pp_inv arg c" "BUF_SIZE \<le> j"
  shows "pp_left arg (child_move k j c) < pp_left arg c \<or> child_move k j c = c \<and>
    (pp_child c = Ch_Exit True \<or> pp_child c = Ch_Read \<and> pp_buf c = [] \<and> has_writer c)"
  using assms
  by (cases "pp_child c"; cases "pp_buf c") (auto simp: pp_inv_def child_move_def pp_left_def Let_def BUF_SIZE_def min_def)

lemma parent_end_stays: "pp_parent c = Pa_Exit \<Longrightarrow> pp_parent (child_move k j (parent_move cap stdin arg i c)) = Pa_Exit"
  by (cases "pp_child c") (simp_all add: parent_move_def child_move_def Let_def)

lemma round_left:
  assumes inv: "pp_inv arg c" and j: "BUF_SIZE \<le> j" and cap: "0 < cap" and p: "pp_parent c \<noteq> Pa_Exit"
  shows "pp_left arg (child_move k j (parent_move cap stdin arg i c)) < pp_left arg c"
proof -
  note inv' = parent_inv [OF inv, of cap stdin i]
  note le = child_left [OF inv' j, of k]
  show ?thesis
  proof (cases "pp_left arg (parent_move cap stdin arg i c) < pp_left arg c")
    case True
    then show ?thesis using le by auto
  next
    case False
    then have same: "parent_move cap stdin arg i c = c" and w: "parent_waits cap c" using parent_left [OF inv p] by auto
    have "\<not> (pp_child c = Ch_Exit True \<or> pp_child c = Ch_Read \<and> pp_buf c = [] \<and> has_writer c)"
      using w cap inv by (auto simp: parent_waits_def pp_inv_def has_writer_def)
    then show ?thesis using le same by auto
  qed
qed

definition pp_rounds :: "(nat \<times> nat \<times> nat) list \<Rightarrow> pipe_event list" where
  "pp_rounds ks = concat (map (\<lambda>(i, k, j). [Parent i, Child k (BUF_SIZE + j)]) ks)"

lemma pp_rounds_end:
  assumes "pp_inv arg c" "0 < cap" "pp_left arg c \<le> length ks \<or> pp_parent c = Pa_Exit"
  shows "pp_parent (fold (pp_event cap stdin arg) (pp_rounds ks) c) = Pa_Exit"
  using assms
proof (induction ks arbitrary: c)
  case Nil
  then show ?case by (cases "pp_parent c") (auto simp: pp_left_def pp_rounds_def pp_inv_def)
next
  case (Cons x ks)
  obtain i k j where x: "x = (i, k, j)" by (cases x)
  let ?c = "child_move k (BUF_SIZE + j) (parent_move cap stdin arg i c)"
  have "pp_left arg ?c \<le> length ks \<or> pp_parent ?c = Pa_Exit"
    using Cons.prems round_left [of arg c "BUF_SIZE + j" cap k stdin i] parent_end_stays [of c k "BUF_SIZE + j" cap stdin arg i] by fastforce
  then show ?case using Cons.IH [of ?c] Cons.prems(1,2) parent_inv child_inv by (simp add: pp_rounds_def x)
qed

lemma pp_left_bound:
  assumes "pp_inv arg c"
  shows "pp_left arg c \<le> 3 * length arg + 7"
proof -
  have "length (unwritten arg (pp_parent c)) + length (pp_buf c) + length (unprinted (pp_child c)) \<le> length arg"
  proof (cases "pp_child c = Ch_Exit True")
    case True
    then show ?thesis using assms by (cases "pp_parent c") (auto simp: pp_inv_def has_writer_def)
  next
    case False
    have "length (pp_out c @ unprinted (pp_child c) @ pp_buf c @ unwritten arg (pp_parent c)) = length arg"
      using assms False by (simp only: pp_inv_def if_False)
    then show ?thesis by simp
  qed
  then show ?thesis by (auto simp: pp_left_def split: parent_pc.split child_pc.split)
qed

text \<open>
  For a pipe of any size and a schedule of any transfers: what is printed is always a beginning of the argument and its line end; and from
  any point at most \<open>3 n + 7\<close> turns of parent and child, \<open>n\<close> being the length of the argument, bring both to their ends, with
  everything printed.
\<close>

theorem pipe_exact:
  assumes "0 < cap" "list_all full_output es" "3 * length arg + 7 \<le> length ks"
  shows "(\<exists>rest. pp_out (pp_run cap stdin arg es) @ rest = arg @ [CHR 0x0A]) \<and>
    pp_parent (pp_run cap stdin arg (es @ pp_rounds ks)) = Pa_Exit \<and>
    pp_child (pp_run cap stdin arg (es @ pp_rounds ks)) = Ch_Exit True \<and>
    pp_out (pp_run cap stdin arg (es @ pp_rounds ks)) = arg @ [CHR 0x0A]"
proof -
  let ?c = "pp_run cap stdin arg es" and ?d = "pp_run cap stdin arg (es @ pp_rounds ks)"
  have inv: "pp_inv arg ?c" by (rule pp_run_inv [OF assms(2)])
  have "list_all full_output (pp_rounds ks)" by (auto simp: pp_rounds_def list_all_iff)
  then have inv': "pp_inv arg ?d" using assms(2) by (intro pp_run_inv) simp
  have "pp_left arg ?c \<le> length ks" using pp_left_bound [OF inv] assms(3) by simp
  then have "pp_parent ?d = Pa_Exit" using pp_rounds_end [OF inv assms(1)] by (simp add: pp_run_def)
  moreover from this have "pp_child ?d = Ch_Exit True" using inv' by (simp add: pp_inv_def)
  moreover from calculation have "pp_out ?d = arg @ [CHR 0x0A]" using inv' by (auto simp: pp_inv_def)
  moreover have "\<exists>rest. pp_out ?c @ rest = arg @ [CHR 0x0A]"
    using inv by (auto simp: pp_inv_def split: if_splits) (metis append.assoc)
  ultimately show ?thesis by blast
qed

theorem pipe_exact_witness:
  "pp_out (pp_run 4 True ''hello, pipe'' (pp_rounds (replicate 40 (3, 2, 0)))) = ''hello, pipe'' @ [CHR 0x0A]"
  using pipe_exact [of 4 "[]" "''hello, pipe''" "replicate 40 (3, 2, 0)" True] by simp

section \<open>The end that stays open\<close>

text \<open>
  If the child gives up, because its output fails, the parent is killed when it writes, if the standard input was closed; otherwise its own reading
  end keeps the pipe alive, and it waits for ever once the pipe is full.
\<close>

lemma pipe_hangs:
  assumes "pp_child c = Ch_Exit False" "pp_parent c = Pa_Write rest" "rest \<noteq> []" "cap \<le> length (pp_buf c)"
  shows "fold (pp_event cap True arg) es c = c" "pp_parent (parent_move cap False arg k c) = Pa_Killed"
proof -
  have "pp_event cap True arg e c = c" for e
    using assms by (cases e) (simp_all add: parent_move_def child_move_def has_reader_def Let_def)
  then show "fold (pp_event cap True arg) es c = c" by (induction es) simp_all
  show "pp_parent (parent_move cap False arg k c) = Pa_Killed" using assms by (auto simp: parent_move_def has_reader_def)
qed

end
