(* ===== verification/Spec2Isabelle.thy ===== *)
theory Spec2Isabelle
  imports Blocking_Services Service_Start Coro_Sort Increment_Servers Shell_Main Application Nonblocking_Loops Coroutine_Engine
    Shared_Mem_Sort Shared_Lock Cthreads Futex_Counter Condvar Echo_Server Epoll_Reader Sem_Events
    Flat_Combiner Sem_Console Spin_Lock Message_Queue Latch Box_Transfer Handshake Swap_Context Fcntl_Lock Shared_Counter Simple_Pipe
begin

text \<open>
  A verification development of the system-programming repository: the caching server \<^emph>\<open>afina\<close> (\<^verbatim>\<open>src/sysprog/afina\<close>), the homework
  programs (\<^verbatim>\<open>src/sysprog/1\<close>, \<^verbatim>\<open>src/sysprog/2\<close>) and the programs of the lectures and their materials (\<^verbatim>\<open>src/sysprog/lecture_examples\<close>, \<^verbatim>\<open>afina/materials\<close>).

  \<^bold>\<open>The program.\<close> A client sends memcached commands over TCP. A network service reads bytes, feeds them to the protocol parser,
  collects the data block of a command, executes the command on the storage and sends the result back. There
  are four network services (blocking and nonblocking, with one thread and with several), two storages (an LRU list with an index,
  bare and behind a mutex), a logging service over spdlog, a coroutine engine, and an application that puts them together.

  \<^bold>\<open>Conventions.\<close> Theory \<^verbatim>\<open>Prelude\<close> holds the machine integers (\<open>u32\<close>, \<open>size_t\<close> as words), the type \<open>fault\<close> of undefined
  behaviours (null pointer, freed memory, double free, index out of range, signed overflow, uninitialised read, deadlock)
  and the sequencing \<open>rbind\<close> of steps that may fault. A heap is a list of cells, a freed cell is \<open>None\<close>. What the operating system
  decides (results of system calls, readiness, scheduling) is an argument or a choice of a step relation. The theorems hold for
  all such arguments unless they say otherwise.

  \<^bold>\<open>Components.\<close>
  \<^item> LRU storage. \<^verbatim>\<open>Simple_LRU\<close> translates \<^verbatim>\<open>storage/SimpleLRU.{h,cpp}\<close> pointer by pointer: nodes with an owning \<open>next\<close> and a raw \<open>prev\<close>, the
    index, the 64-bit size counters, every \<open>swap\<close> of a \<open>unique_ptr\<close> with the destructor it runs. \<^verbatim>\<open>LRU_Invariant\<close>, \<^verbatim>\<open>LRU_Storage\<close> and
    \<^verbatim>\<open>LRU_Refinement\<close> relate it to a list of entries; \<^verbatim>\<open>LRU_Properties\<close> has the theorems: refinement of the abstract cache, eviction
    from the old end, histories of entries of one size, the destructor, and where the code faults.
  \<^item> \<^verbatim>\<open>Storage_Contract\<close>: the interface \<^verbatim>\<open>include/afina/Storage.h\<close> as a record of operations, its promises as a locale, interpreted for
    the LRU storage here and for \<^verbatim>\<open>ThreadSafeSimpleLRU.h\<close> in \<^verbatim>\<open>Thread_Safe_LRU\<close>, which also shows that interleaved calls are linearizable.
  \<^item> Commands. \<^verbatim>\<open>Command_Types\<close>, \<^verbatim>\<open>Commands\<close>: the \<open>Execute\<close> methods of \<^verbatim>\<open>src/execute\<close> over any storage, and what they answer on
    storages that keep the contract.
  \<^item> Protocol. \<^verbatim>\<open>Protocol_Parser\<close> is \<^verbatim>\<open>protocol/Parser.cpp\<close>, state by state; \<^verbatim>\<open>Parser_Properties\<close> has independence of chunks, bounds, and the
    round trips of printing and parsing.
  \<^item> Connections. \<^verbatim>\<open>Connection_Loop\<close> is the loop over a read buffer that all services share; it refines a machine that takes one byte
    at a time. \<^verbatim>\<open>Sessions\<close> states what a client receives for a list of requests, also when a command faults or a
    send fails, by a locale \<open>delivery\<close> that each service interprets.
  \<^item> Services. \<^verbatim>\<open>Blocking_Services\<close>: the accepting loop of the single-threaded service, and acceptor, workers, \<open>Stop\<close> and \<open>Join\<close> of the
    multi-threaded one as a step relation. \<^verbatim>\<open>Nonblocking_Connection\<close>, \<^verbatim>\<open>Nonblocking_Services\<close>, \<^verbatim>\<open>Nonblocking_Loops\<close>: queued output, event masks, the heap of
    connections and who owns them, batches of events. \<^verbatim>\<open>Service_Start\<close>: the descriptors each \<open>Start\<close> leaves open.
  \<^item> \<^verbatim>\<open>Logging\<close>: \<^verbatim>\<open>logging/ServiceImpl.cpp\<close>, the choice of a logger, pattern expansion and the reopening of log files. \<^verbatim>\<open>Application\<close>:
    \<^verbatim>\<open>main.cpp\<close>, from the options to the services started, and the calls that stop them.
  \<^item> \<^verbatim>\<open>Coroutine_Engine\<close>: \<^verbatim>\<open>coroutine/Engine.{h,cpp}\<close>, copying of stacks on a memory of bytes, and the scheduler with its linked list, where
    every \<open>Restore\<close> may find that the copy overwrites its own frame.
  \<^item> Homework. \<^verbatim>\<open>Round_Robin\<close> is the scheduler of \<^verbatim>\<open>1/example_jmp.c\<close> and \<^verbatim>\<open>1/hw_sort.cpp\<close> as a locale over a coroutine; \<^verbatim>\<open>Coro_Sort\<close> the quicksort
    coroutine, one definition step per stretch between two switches, with the merge of the results. \<^verbatim>\<open>Shell\<close>, \<^verbatim>\<open>Shell_Main\<close>: the command line
    reader and the pipelines of \<^verbatim>\<open>src/sysprog/2\<close>.
  \<^item> \<^verbatim>\<open>Increment_Servers\<close>: the servers over \<^verbatim>\<open>select\<close>, \<^verbatim>\<open>poll\<close>, \<^verbatim>\<open>kqueue\<close> and \<^verbatim>\<open>epoll\<close>, the daemon, the threaded servers and their clients.
  \<^item> Sorting in processes. \<^verbatim>\<open>Ipc_Sort\<close>: the programs \<^verbatim>\<open>7_ipc/1_simple_sort.c\<close> and \<^verbatim>\<open>2_parallel_sort.c\<close> with reads of any size from the pipes;
    \<^verbatim>\<open>Shared_Mem_Sort\<close>: \<^verbatim>\<open>3_mem_sort.c\<close>, where parent and child take turns on two flags in shared memory, as a step relation that transfers
    every message and always ends. \<^verbatim>\<open>Int_Bytes\<close> has integers as bytes in memory.
  \<^item> Shared mutex. \<^verbatim>\<open>Shared_Mutex\<close>: \<^verbatim>\<open>materials/09-advanced-synchronization/code/shared_mutex.{h,cpp}\<close>, the word with the writer's bit and the number of
    readers, two condition variables and spurious wakeups; exclusion, the exact count and that no wakeup is lost. \<^verbatim>\<open>Shared_Lock\<close>: the
    wrapper \<open>shared_lock\<close> with its constructors, moves and errors, over the interface of the mutex as a locale. \<^verbatim>\<open>Shared_Counter\<close>: the counter of
    \<^verbatim>\<open>shared_mutex_demo.cpp\<close> over the steps of the mutex, linearizable through the interface \<open>rw_lock\<close>.
  \<^item> Threads of the lectures. \<^verbatim>\<open>Cthreads\<close>: threads made with \<^verbatim>\<open>clone\<close>, with join and detach, the spin lock that decides who hands over the stack, and the list of
    stacks in memory (\<^verbatim>\<open>6_threads/12_cthread_detach.c\<close>); the versions without the lock. \<^verbatim>\<open>Futex_Counter\<close>: the lock over a futex with the kernel's sleepers,
    exact count, no lost wakeup and a bound on every run; increments with and without atomicity. \<^verbatim>\<open>Condvar\<close>: the condition variables made of a mutex.
  \<^item> Event loops of the materials. \<^verbatim>\<open>Echo_Server\<close>: \<^verbatim>\<open>materials/05-non-blocking-network/code/echo.c\<close> with the heap of connections and the context of \<^verbatim>\<open>epoll\<close>,
    and every exit of the loop on a failed call;
    \<^verbatim>\<open>Epoll_Reader\<close>: \<^verbatim>\<open>epoll-example.c\<close>, edge-triggered reading.
  \<^item> \<^verbatim>\<open>Sem_Events\<close>: sources and consumers over semaphores and a message queue (\<^verbatim>\<open>7_ipc/9_sem_event_source.c\<close>, \<^verbatim>\<open>9_sem_event_cons.c\<close>), with
    the exits of the sources: the first takes queue and semaphores away.
  \<^item> Flat combiner. \<^verbatim>\<open>Flat_Combiner\<close>: the finished members of \<^verbatim>\<open>afina/src/fc/flatCombine.cpp\<close>: tagged pointers on \<open>64 word\<close>, the word with lock and generation as
    interleaved steps of \<open>apply_slot\<close>, and \<open>combining\<close> on a heap of slots. The loop of \<open>combining\<close> is a partial function; \<open>combining_exact\<close> shows that it ends.
  \<^item> Synchronization of the materials. \<^verbatim>\<open>Latch\<close> (\<^verbatim>\<open>count_down_latch.cpp\<close>), \<^verbatim>\<open>Box_Transfer\<close> (\<^verbatim>\<open>lock.cpp\<close>), \<^verbatim>\<open>Simple_Pipe\<close> (\<^verbatim>\<open>simple_pipe.c\<close>) and \<^verbatim>\<open>Handshake\<close> (\<^verbatim>\<open>cv.cpp\<close>): runs are
    schedules of any length, with spurious wakeups where the code waits on a condition variable.
  \<^item> Further lectures. \<^verbatim>\<open>Sem_Console\<close> (\<^verbatim>\<open>7_ipc/8_sem.c\<close>): transactions on semaphores; \<^verbatim>\<open>Fcntl_Lock\<close> (\<^verbatim>\<open>9_aio/3_fcntl_lock.c\<close>): a console for record
    locks over a kernel that is a parameter; \<^verbatim>\<open>Message_Queue\<close> (\<^verbatim>\<open>7_ipc/7_msgsend_client.c\<close> and both servers); \<^verbatim>\<open>Spin_Lock\<close> (\<^verbatim>\<open>6_threads/7_spin_lock.c\<close>,
    \<^verbatim>\<open>6_bad_lock.c\<close>); \<^verbatim>\<open>Swap_Context\<close> (\<^verbatim>\<open>sysprog/1/example_swap.c\<close>): the coroutines of \<open>swapcontext\<close>.

  \<^bold>\<open>Bounds and termination.\<close> All functions are total, except for \<open>combining_loop\<close>, whose end is a theorem. The loops of the source that consume something are recursive functions
  with a measure; loops that wait for the outside world run over the list of what the outside world does, which
  may have any length. \<open>engine_run\<close> and the turns of the coroutine schedulers count steps; the theorems say that some number of
  steps suffices, or hold after every number of steps.

  \<^bold>\<open>Not modelled.\<close> Log messages and printing of peer addresses; memory exhaustion; the weak memory model (steps of threads
  interleave); third-party code (spdlog, cxxopts, googletest, backward-cpp), whose used behaviour is stated where it is used; the allocator
  (\<^verbatim>\<open>src/allocator\<close>), whose methods are empty; \<^verbatim>\<open>include/afina/Executor.h\<close>, whose threads have no body;
  \<open>make_publication\<close> of the flat combiner (\<^verbatim>\<open>src/fc\<close>), which breaks off in a loop, except for the link and
  the mark it sets; the homework templates \<^verbatim>\<open>src/sysprog/3\<close> and \<^verbatim>\<open>src/sysprog/4\<close>, whose functions are stubs;
  the lecture examples that only print what a system call returns; the tests and the build files; the declared and never
  defined methods \<open>timed_lock\<close> and \<open>timed_lock_shared\<close>; the file \<^verbatim>\<open>src/bd/cache_obliv.cpp\<close>, which is empty.
\<close>

section \<open>From the socket to the storage and back\<close>

text \<open>
  What the parts do together: the bytes of a client go through the reading loop, the parser, the command, the storage with its list and
  index, and the delivery.
\<close>

lemma first_put:
  assumes "str_size key + str_size v \<le> cap"
  shows "\<exists>st. lru_Put (SimpleLRU cap) key v = Inr (True, st)"
proof -
  have "\<exists>t. a_Put (lru_abs (SimpleLRU cap)) key v = Inr (True, t)"
    using assms by (simp add: SimpleLRU_inv a_Put_def a_insert_def a_evict_while.simps leD)
  then show ?thesis using lru_Put_refines [OF SimpleLRU_inv(1), of cap key v]
    by (cases "lru_Put (SimpleLRU cap) key v") (auto simp: op_refines_def)
qed

lemma set_get_exec:
  assumes "str_size key + str_size (d @ crlf) \<le> cap" "d \<noteq> []"
  shows "\<exists>st. exec_all lru_ops [request.Store ''set'' key flags e d, Fetch [key]] (SimpleLRU cap) = Inr ([''STORED'', get_item key (d @ crlf) @ ''END''], st)"
proof -
  obtain st1 where p: "st_Put lru_ops (SimpleLRU cap) key (d @ crlf) = Inr (True, st1)" using first_put [OF assms(1)] by (auto simp: lru_ops_def)
  have st1: "lru_inv st1" "lru_view st1 key = Some (d @ crlf)" using lru.put [OF SimpleLRU_inv(1) p] by auto
  from lru.Get_Execute_reply [OF st1(1), of "[key]" "[]"] obtain st2 where
    "Get_Execute lru_ops [key] st1 [] = Inr (get_item key (d @ crlf) @ ''END'', st2)" using st1(2) by (auto simp: get_reply_def)
  then show ?thesis using p assms(2) by (simp add: store_command_def Set_Execute_def)
qed

lemma set_empty_answer:
  assumes "str_size key + str_size [] \<le> cap" "sends_all os"
  shows "\<exists>st k. answer lru_ops (st_deliver os) (request.Store ''set'' key flags e [] # rs) (SimpleLRU cap) w =
      (Some (ParseError (UnknownCommand [])), st, k) \<and> w_bytes k = w_bytes w @ ''STORED'' @ crlf \<and> lru_view st key = Some []"
proof -
  obtain st1 where p: "st_Put lru_ops (SimpleLRU cap) key [] = Inr (True, st1)" using first_put [OF assms(1)] by (auto simp: lru_ops_def)
  then have "Execute lru_ops (request_command (request.Store ''set'' key flags e [])) (SimpleLRU cap) [] = Inr (''STORED'', st1)"
    by (simp add: store_command_def Set_Execute_def)
  from st.serve_delivers [OF assms(2) this, of w] show ?thesis using lru.put [OF SimpleLRU_inv(1) p] by auto
qed

text \<open>
  C12. A client of the single-threaded service stores a value and asks for it, in pieces of any size, on a new storage that is large
  enough, over a socket whose sends take all the bytes they are given. The key is without blank and carriage return, the flags are below
  2 to the 32, the expiration time below 2 to the 31 in absolute value, the value shorter than 2 to the 32 bytes. For a value that is
  not empty it is answered that the value is stored and then gets its own bytes back, with the line end that the service
  counts to the value. For an empty value it is answered that the value is stored, and it is, but the connection then ends with the
  error of an unknown command and the request to read it is not answered.
\<close>

theorem set_then_get_end_to_end:
  assumes "str_size key + str_size (request_args (request.Store ''set'' key flags e d)) \<le> cap"
    and "SP \<notin> set key" "CR \<notin> set key" "flags < 2 ^ 32" "\<bar>e\<bar> < 2 ^ 31" "length d < 2 ^ 32" "sends_all os"
    and "concat bufs = request_text (request.Store ''set'' key flags e d) @ request_text (Fetch [key])"
  shows "\<exists>s'. process_all lru_ops (st_deliver os) (init_conn (SimpleLRU cap) \<lparr>w_calls = 0, w_bytes = []\<rparr> b) bufs =
      (if d = [] then Some (ParseError (UnknownCommand [])) else None, s') \<and>
    w_bytes (cs_sink s') = ''STORED'' @ crlf @ (if d = [] then [] else get_item key (d @ crlf) @ ''END'' @ crlf) \<and>
    (d = [] \<longrightarrow> lru_view (cs_store s') key = Some [])"
proof -
  let ?s = "init_conn (SimpleLRU cap) \<lparr>w_calls = 0, w_bytes = []\<rparr> b" and ?rs = "[request.Store ''set'' key flags e d, Fetch [key]]"
  have ok: "list_all request_ok ?rs" "concat bufs = concat (map request_text ?rs)" using assms(2-6,8) by simp_all
  have s: "cs_store ?s = SimpleLRU cap" "cs_sink ?s = \<lparr>w_calls = 0, w_bytes = []\<rparr>" by (simp_all add: init_conn_def)
  show ?thesis
  proof (cases "d = []")
    case True
    then obtain st k where "answer lru_ops (st_deliver os) ?rs (cs_store ?s) (cs_sink ?s) = (Some (ParseError (UnknownCommand [])), st, k)"
      "w_bytes k = ''STORED'' @ crlf" "lru_view st key = Some []"
      unfolding s using set_empty_answer [OF _ assms(7), of key cap flags e "[Fetch [key]]" "\<lparr>w_calls = 0, w_bytes = []\<rparr>"] assms(1) by auto
    then show ?thesis using process_answer [OF init_conn_fresh ok, of lru_ops "st_deliver os"] True by fastforce
  next
    case False
    then obtain st where ex: "exec_all lru_ops ?rs (cs_store ?s) = Inr ([''STORED'', get_item key (d @ crlf) @ ''END''], st)"
      unfolding s using set_get_exec [of key d cap flags e] assms(1) by auto
    from st.session [OF init_conn_fresh ok(1) _ assms(7) ex ok(2)] show ?thesis using False by (auto simp: init_conn_def)
  qed
qed

theorem set_then_get_end_to_end_witness:
  "\<exists>s'. process_all lru_ops (st_deliver (\<lambda>n d. int (length d))) (init_conn (SimpleLRU 64) \<lparr>w_calls = 0, w_bytes = []\<rparr> False)
      [request_text (request.Store ''set'' ''k'' 0 0 ''abc''), request_text (Fetch [''k''])] = (None, s') \<and>
    w_bytes (cs_sink s') = ''STORED'' @ crlf @ get_item ''k'' (''abc'' @ crlf) @ ''END'' @ crlf"
  using set_then_get_end_to_end [of "''k''" 0 0 "''abc''" 64 "\<lambda>n d. int (length d)"
      "[request_text (request.Store ''set'' ''k'' 0 0 ''abc''), request_text (Fetch [''k''])]" False]
  by (simp add: str_size_def crlf_def sends_all_def)

end
